(* ===== verification/Prelude.thy ===== *)
theory Prelude
  imports Main "HOL-Library.Word"
begin

text \<open>
  Shared vocabulary of the development.

  \<^item> Machine integers: the kernel is built for x86-64, so \<open>usize\<close> is a 64-bit
    unsigned integer. Address and length arithmetic is done on \<open>nat\<close> with the bound
    \<open>USIZE_MAX\<close> written out (\<open>usize_add\<close>, \<open>usize_sub\<close>, \<open>usize_mul\<close>, \<open>checked_add\<close>,
    \<open>checked_sub\<close>, \<open>usize_not\<close>); values whose bits matter (page table entries,
    descriptors, registers, bytes) are words.
  \<^item> \<open>build.sh\<close> builds the debug profile unless \<open>RELEASE\<close> is set, so integer overflow
    and a failed \<open>debug_assert!\<close> panic. \<open>exec\<close> is the outcome of running code:
    \<open>Val\<close> is a normal return, \<open>Panic\<close> a panic (the panic handlers never return) and
    \<open>Undef\<close> an unsafe access outside the object it was meant for.
  \<^item> Slices are lists of bytes, physical memory a function from addresses to bytes.
\<close>

unbundle bit_operations_syntax

named_theorems exec_simps \<open>evaluation of outcomes and checked arithmetic\<close>

type_synonym u8 = "8 word"
type_synonym u16 = "16 word"
type_synonym u32 = "32 word"
type_synonym u64 = "64 word"
type_synonym usize = nat
type_synonym memory = "nat \<Rightarrow> u8"

section \<open>Outcomes\<close>

datatype 'a exec = Val 'a | Panic | Undef

fun exec_bind :: "'a exec \<Rightarrow> ('a \<Rightarrow> 'b exec) \<Rightarrow> 'b exec" where
  "exec_bind (Val x) f = f x"
| "exec_bind Panic f = Panic"
| "exec_bind Undef f = Undef"

definition assert_exec :: "bool \<Rightarrow> 'a exec \<Rightarrow> 'a exec" where
  "assert_exec b k = (if b then k else Panic)"

text \<open>The \<open>?\<close> operator on a result inside an outcome, with the state it is reached in.\<close>

fun exec_try :: "(('e + 'a) \<times> 's) exec \<Rightarrow> ('a \<Rightarrow> 's \<Rightarrow> (('e + 'b) \<times> 's) exec)
    \<Rightarrow> (('e + 'b) \<times> 's) exec" where
  "exec_try (Val (Inl e, s)) f = Val (Inl e, s)"
| "exec_try (Val (Inr x, s)) f = f x s"
| "exec_try Panic f = Panic"
| "exec_try Undef f = Undef"

text \<open>
  Code with a loop that might not end has an \<open>exec option\<close> for its outcome (none: it does not
  return); \<open>run_bind\<close> continues after it has returned.
\<close>

fun run_bind :: "'a exec option \<Rightarrow> ('a \<Rightarrow> 'b exec option) \<Rightarrow> 'b exec option" where
  "run_bind None f = None"
| "run_bind (Some (Val x)) f = f x"
| "run_bind (Some Panic) f = Some Panic"
| "run_bind (Some Undef) f = Some Undef"

lemma exec_bind_cong:
  "m = m' \<Longrightarrow> (\<And>x. m' = Val x \<Longrightarrow> f x = g x) \<Longrightarrow> exec_bind m f = exec_bind m' g"
  by (cases m') auto

lemma exec_bind_Val_iff:
  "exec_bind m f = Val y \<longleftrightarrow> (\<exists>x. m = Val x \<and> f x = Val y)"
  by (cases m) auto

lemma exec_bind_assoc:
  "exec_bind (exec_bind m f) g = exec_bind m (\<lambda>x. exec_bind (f x) g)"
  by (cases m) auto

lemma assert_exec_Val_iff: "assert_exec b k = Val y \<longleftrightarrow> b \<and> k = Val y"
  by (simp add: assert_exec_def)

lemma assert_exec_True [exec_simps]: "b \<Longrightarrow> assert_exec b k = k"
  by (simp add: assert_exec_def)

lemma exec_try_Inr_iff:
  "exec_try m f = Val (Inr y, t) \<longleftrightarrow> (\<exists>x s. m = Val (Inr x, s) \<and> f x s = Val (Inr y, t))"
  by (cases "(m, f)" rule: exec_try.cases) auto

lemma exec_try_assoc: "exec_try (exec_try m f) g = exec_try m (\<lambda>x s. exec_try (f x s) g)"
  by (cases "(m, f)" rule: exec_try.cases) auto

text \<open>\<open>for\<close> loops over a sequence, with the rule that carries an invariant through them.\<close>

fun exec_fold :: "('b \<Rightarrow> 's \<Rightarrow> 's exec) \<Rightarrow> 'b list \<Rightarrow> 's \<Rightarrow> 's exec" where
  "exec_fold f [] s = Val s"
| "exec_fold f (x # xs) s = exec_bind (f x s) (exec_fold f xs)"

lemma exec_fold_append:
  "exec_fold f (xs @ ys) s = exec_bind (exec_fold f xs s) (exec_fold f ys)"
proof (induction xs arbitrary: s)
  case Nil
  show ?case by simp
next
  case (Cons x xs)
  then show ?case by (cases "f x s") simp_all
qed

lemma exec_fold_cong [fundef_cong]:
  "xs = ys \<Longrightarrow> s = t \<Longrightarrow> (\<And>x u. x \<in> set ys \<Longrightarrow> f x u = g x u) \<Longrightarrow> exec_fold f xs s = exec_fold g ys t"
proof (induction xs arbitrary: ys s t)
  case Nil
  then show ?case by simp
next
  case (Cons x xs)
  then show ?case by (cases "g x t") auto
qed

lemma exec_fold_invariant:
  assumes "P 0 s"
    and "\<And>i t. i < length xs \<Longrightarrow> P i t \<Longrightarrow> \<exists>t'. f (xs ! i) t = Val t' \<and> P (Suc i) t'"
  shows "\<exists>t. exec_fold f xs s = Val t \<and> P (length xs) t"
  using assms
proof (induction xs arbitrary: s P)
  case Nil
  then show ?case by simp
next
  case (Cons x xs)
  obtain t where t: "f x s = Val t" "P (Suc 0) t"
    using Cons.prems(2) [of 0 s] Cons.prems(1) by auto
  have "\<exists>u. exec_fold f xs t = Val u \<and> P (Suc (length xs)) u"
    using t(2) Cons.prems(2) by (intro Cons.IH [of "\<lambda>i. P (Suc i)"]) force+
  with t(1) show ?case by simp
qed

section \<open>Machine integers\<close>

definition USIZE_MAX :: usize where
  "USIZE_MAX = 2 ^ 64 - 1"

definition U32_MAX :: nat where
  "U32_MAX = 2 ^ 32 - 1"

text \<open>Checked operators of the debug profile.\<close>

definition usize_add :: "usize \<Rightarrow> usize \<Rightarrow> usize exec" where
  "usize_add a b = (if a + b \<le> USIZE_MAX then Val (a + b) else Panic)"

definition usize_sub :: "usize \<Rightarrow> usize \<Rightarrow> usize exec" where
  "usize_sub a b = (if b \<le> a then Val (a - b) else Panic)"

definition usize_mul :: "usize \<Rightarrow> usize \<Rightarrow> usize exec" where
  "usize_mul a b = (if a * b \<le> USIZE_MAX then Val (a * b) else Panic)"

text \<open>The explicit \<open>checked_\<close> and \<open>saturating_\<close> operations, and bitwise complement.\<close>

definition checked_add :: "usize \<Rightarrow> usize \<Rightarrow> usize option" where
  "checked_add a b = (if a + b \<le> USIZE_MAX then Some (a + b) else None)"

definition checked_sub :: "usize \<Rightarrow> usize \<Rightarrow> usize option" where
  "checked_sub a b = (if b \<le> a then Some (a - b) else None)"

definition saturating_sub :: "usize \<Rightarrow> usize \<Rightarrow> usize" where
  "saturating_sub a b = a - b"

definition usize_not :: "usize \<Rightarrow> usize" where
  "usize_not a = USIZE_MAX - a"

lemma usize_add_Val [exec_simps]: "a + b \<le> USIZE_MAX \<Longrightarrow> usize_add a b = Val (a + b)"
  by (simp add: usize_add_def)

lemma usize_sub_Val [exec_simps]: "b \<le> a \<Longrightarrow> usize_sub a b = Val (a - b)"
  by (simp add: usize_sub_def)

lemma usize_mul_Val [exec_simps]: "a * b \<le> USIZE_MAX \<Longrightarrow> usize_mul a b = Val (a * b)"
  by (simp add: usize_mul_def)

lemma usize_add_Val_iff: "usize_add a b = Val c \<longleftrightarrow> a + b \<le> USIZE_MAX \<and> c = a + b"
  by (auto simp: usize_add_def)

lemma usize_sub_Val_iff: "usize_sub a b = Val c \<longleftrightarrow> b \<le> a \<and> c = a - b"
  by (auto simp: usize_sub_def)

lemma usize_mul_Val_iff: "usize_mul a b = Val c \<longleftrightarrow> a * b \<le> USIZE_MAX \<and> c = a * b"
  by (auto simp: usize_mul_def)

lemma checked_add_Some_iff: "checked_add a b = Some c \<longleftrightarrow> a + b \<le> USIZE_MAX \<and> c = a + b"
  by (auto simp: checked_add_def)

lemma checked_add_None_iff: "checked_add a b = None \<longleftrightarrow> USIZE_MAX < a + b"
  by (auto simp: checked_add_def)

lemma checked_sub_Some_iff: "checked_sub a b = Some c \<longleftrightarrow> b \<le> a \<and> c = a - b"
  by (auto simp: checked_sub_def)

lemma checked_sub_None_iff: "checked_sub a b = None \<longleftrightarrow> a < b"
  by (auto simp: checked_sub_def)

lemmas exec_iffs =
  exec_bind_Val_iff assert_exec_Val_iff usize_add_Val_iff usize_sub_Val_iff
  usize_mul_Val_iff checked_add_Some_iff checked_add_None_iff checked_sub_Some_iff
  checked_sub_None_iff

text \<open>\<open>usize::is_power_of_two\<close>.\<close>

fun is_power_of_two :: "usize \<Rightarrow> bool" where
  "is_power_of_two n =
     (if n = 0 then False else if n = 1 then True else even n \<and> is_power_of_two (n div 2))"

declare is_power_of_two.simps [simp del]

lemma is_power_of_two_pow: "is_power_of_two (2 ^ k)"
  by (induction k) (simp_all add: is_power_of_two.simps)

lemma is_power_of_twoD: "is_power_of_two n \<Longrightarrow> \<exists>k. n = 2 ^ k"
proof (induction n rule: is_power_of_two.induct)
  case (1 n)
  show ?case
  proof (cases "n = 1")
    case True
    then have "n = 2 ^ 0" by simp
    then show ?thesis ..
  next
    case False
    with "1.prems" have n: "n \<noteq> 0" "even n" "is_power_of_two (n div 2)"
      by (simp_all add: is_power_of_two.simps [of n] split: if_splits)
    with "1.IH" False obtain k where "n div 2 = 2 ^ k" by blast
    with n(2) have "n = 2 ^ Suc k" by auto
    then show ?thesis ..
  qed
qed

lemma is_power_of_two_iff: "is_power_of_two n \<longleftrightarrow> (\<exists>k. n = 2 ^ k)"
  using is_power_of_twoD is_power_of_two_pow by blast

section \<open>Byte slices and memory\<close>

text \<open>\<open>slice.get(a..b)\<close>: none when the range is reversed or leaves the slice.\<close>

definition slice_get :: "'a list \<Rightarrow> usize \<Rightarrow> usize \<Rightarrow> 'a list option" where
  "slice_get xs a b = (if a \<le> b \<and> b \<le> length xs then Some (take (b - a) (drop a xs)) else None)"

text \<open>\<open>&slice[a..b]\<close> panics where \<open>get\<close> would return none.\<close>

definition slice_index :: "'a list \<Rightarrow> usize \<Rightarrow> usize \<Rightarrow> 'a list exec" where
  "slice_index xs a b = (case slice_get xs a b of None \<Rightarrow> Panic | Some ys \<Rightarrow> Val ys)"

lemma slice_get_Some_iff:
  "slice_get xs a b = Some ys \<longleftrightarrow> a \<le> b \<and> b \<le> length xs \<and> ys = take (b - a) (drop a xs)"
  by (auto simp: slice_get_def)

lemma slice_get_length: "slice_get xs a b = Some ys \<Longrightarrow> length ys = b - a"
  by (auto simp: slice_get_def split: if_splits)

text \<open>Copying into memory, filling it and reading it back.\<close>

definition mem_write :: "memory \<Rightarrow> nat \<Rightarrow> u8 list \<Rightarrow> memory" where
  "mem_write m a bs = (\<lambda>x. if a \<le> x \<and> x < a + length bs then bs ! (x - a) else m x)"

definition mem_fill :: "memory \<Rightarrow> nat \<Rightarrow> u8 \<Rightarrow> nat \<Rightarrow> memory" where
  "mem_fill m a v n = (\<lambda>x. if a \<le> x \<and> x < a + n then v else m x)"

definition mem_read :: "memory \<Rightarrow> nat \<Rightarrow> nat \<Rightarrow> u8 list" where
  "mem_read m a n = map m [a..<a + n]"

lemma length_mem_read [simp]: "length (mem_read m a n) = n"
  by (simp add: mem_read_def)

lemma mem_read_0 [simp]: "mem_read m a 0 = []"
  by (simp add: mem_read_def)

lemma nth_mem_read [simp]: "i < n \<Longrightarrow> mem_read m a n ! i = m (a + i)"
  by (simp add: mem_read_def)

lemma mem_read_write_same [simp]: "mem_read (mem_write m a bs) a (length bs) = bs"
  by (rule nth_equalityI) (simp_all add: mem_write_def)

lemma mem_write_outside: "x < a \<or> a + length bs \<le> x \<Longrightarrow> mem_write m a bs x = m x"
  by (auto simp: mem_write_def)

lemma mem_write_Nil [simp]: "mem_write m a [] = m"
  by (rule ext) (auto simp: mem_write_def)

lemma mem_fill_outside: "x < a \<or> a + n \<le> x \<Longrightarrow> mem_fill m a v n x = m x"
  by (auto simp: mem_fill_def)

lemma mem_read_cong: "(\<And>x. a \<le> x \<Longrightarrow> x < a + n \<Longrightarrow> m x = m' x) \<Longrightarrow> mem_read m a n = mem_read m' a n"
  by (simp add: mem_read_def)

lemma mem_read_add: "mem_read m a (i + j) = mem_read m a i @ mem_read m (a + i) j"
  using upt_add_eq_append [of a "a + i" j] by (simp add: mem_read_def add.assoc)

end
