(* ===== verification/ArrayVec.thy ===== *)
theory ArrayVec
  imports Prelude
begin

text \<open>
  \<open>libs/rust/ftl_arrayvec\<close>: a vector with a fixed array of slots (\<open>array_vec.rs\<close>) and
  the string built on it (\<open>array_string.rs\<close>). A slot is \<open>None\<close> while it is an
  uninitialised \<open>MaybeUninit\<close>; reading such a slot is \<open>Undef\<close>. The constant
  parameter \<open>N\<close> is the length of the slot array. The invariant \<open>av_inv\<close> says that the
  first \<open>len\<close> slots are initialised; \<open>av_list\<close> is the list of values a client sees. The
  locale \<open>bounded_vec\<close> is what the boot code and the page allocator rely on.
\<close>

section \<open>ArrayVec\<close>

record 'a ArrayVec =
  av_elems :: "'a option list"
  av_len :: usize

definition av_new :: "nat \<Rightarrow> 'a ArrayVec" where
  "av_new N = \<lparr>av_elems = replicate N None, av_len = 0\<rparr>"

definition av_is_empty :: "'a ArrayVec \<Rightarrow> bool" where
  "av_is_empty v = (av_len v = 0)"

text \<open>Reading one slot: the array index is bounds checked, the slot must be initialised.\<close>

definition assume_init :: "'a option list \<Rightarrow> usize \<Rightarrow> 'a exec" where
  "assume_init slots i =
     (if i < length slots then (case slots ! i of None \<Rightarrow> Undef | Some x \<Rightarrow> Val x) else Panic)"

definition av_get :: "'a ArrayVec \<Rightarrow> usize \<Rightarrow> 'a option exec" where
  "av_get v index =
     (if av_len v \<le> index then Val None
      else exec_bind (assume_init (av_elems v) index) (\<lambda>x. Val (Some x)))"

text \<open>\<open>as_slice\<close> views the first \<open>len\<close> slots as values, without any check.\<close>

definition av_as_slice :: "'a ArrayVec \<Rightarrow> 'a list exec" where
  "av_as_slice v =
     (if av_len v \<le> length (av_elems v) \<and> None \<notin> set (take (av_len v) (av_elems v))
      then Val (map the (take (av_len v) (av_elems v))) else Undef)"

text \<open>Writing through \<open>as_slice_mut\<close>: the caller replaces the values it saw.\<close>

definition av_set_slice :: "'a ArrayVec \<Rightarrow> 'a list \<Rightarrow> 'a ArrayVec" where
  "av_set_slice v xs =
     v\<lparr>av_elems := map Some (take (av_len v) xs) @ drop (av_len v) (av_elems v)\<rparr>"

definition av_try_push :: "'a ArrayVec \<Rightarrow> 'a \<Rightarrow> (('a + unit) \<times> 'a ArrayVec) exec" where
  "av_try_push v value =
     (if av_len v = length (av_elems v) then Val (Inl value, v)
      else if length (av_elems v) \<le> av_len v then Panic
      else exec_bind (usize_add (av_len v) 1) (\<lambda>n.
        Val (Inr (), v\<lparr>av_elems := (av_elems v)[av_len v := Some value], av_len := n\<rparr>)))"

definition av_pop :: "'a ArrayVec \<Rightarrow> ('a option \<times> 'a ArrayVec) exec" where
  "av_pop v =
     (if av_len v = 0 then Val (None, v)
      else exec_bind (usize_sub (av_len v) 1) (\<lambda>n.
        exec_bind (assume_init (av_elems v) n) (\<lambda>x. Val (Some x, v\<lparr>av_len := n\<rparr>))))"

text \<open>\<open>clear\<close> (also run by \<open>Drop\<close>) returns the values it dropped, in order.\<close>

definition av_clear :: "'a ArrayVec \<Rightarrow> ('a list \<times> 'a ArrayVec) exec" where
  "av_clear v = exec_bind (av_as_slice v) (\<lambda>xs. Val (xs, v\<lparr>av_len := 0\<rparr>))"

text \<open>\<open>extend_from_slice_unchecked\<close>: the \<open>while\<close> loop from index \<open>i\<close>, then the length.\<close>

function extend_loop :: "'a option list \<Rightarrow> usize \<Rightarrow> 'a list \<Rightarrow> usize \<Rightarrow> 'a option list exec" where
  "extend_loop slots base vals i =
     (if i < length vals then
        exec_bind (usize_add base i) (\<lambda>j.
          if j < length slots
          then extend_loop (slots[j := Some (vals ! i)]) base vals (i + 1)
          else Panic)
      else Val slots)"
  by pat_completeness auto
termination
  by (relation "measure (\<lambda>(slots, base, vals, i). length vals - i)") auto

declare extend_loop.simps [simp del]

definition extend_from_slice_unchecked :: "'a ArrayVec \<Rightarrow> 'a list \<Rightarrow> 'a ArrayVec exec" where
  "extend_from_slice_unchecked v vals =
     exec_bind (extend_loop (av_elems v) (av_len v) vals 0) (\<lambda>slots.
     exec_bind (usize_add (av_len v) (length vals)) (\<lambda>n.
       Val (v\<lparr>av_elems := slots, av_len := n\<rparr>)))"

datatype CapacityError = CapacityError

definition try_extend_from_slice ::
    "'a ArrayVec \<Rightarrow> 'a list \<Rightarrow> ((CapacityError + unit) \<times> 'a ArrayVec) exec" where
  "try_extend_from_slice v vals =
     exec_bind (usize_add (av_len v) (length vals)) (\<lambda>n.
       if length (av_elems v) < n then Val (Inl CapacityError, v)
       else exec_bind (extend_from_slice_unchecked v vals) (\<lambda>v'. Val (Inr (), v')))"

definition av_clone :: "'a ArrayVec \<Rightarrow> 'a ArrayVec" where
  "av_clone v = \<lparr>av_elems = av_elems v, av_len = av_len v\<rparr>"

section \<open>Invariant and abstraction\<close>

definition av_inv :: "'a ArrayVec \<Rightarrow> bool" where
  "av_inv v \<longleftrightarrow> av_len v \<le> length (av_elems v) \<and> length (av_elems v) \<le> USIZE_MAX
     \<and> None \<notin> set (take (av_len v) (av_elems v))"

definition av_list :: "'a ArrayVec \<Rightarrow> 'a list" where
  "av_list v = map the (take (av_len v) (av_elems v))"

definition av_cap :: "'a ArrayVec \<Rightarrow> nat" where
  "av_cap v = length (av_elems v)"

lemma av_new_inv: "N \<le> USIZE_MAX \<Longrightarrow> av_inv (av_new N)"
  by (simp add: av_inv_def av_new_def)

lemma av_list_new [simp]: "av_list (av_new N) = []"
  by (simp add: av_list_def av_new_def)

lemma av_cap_new [simp]: "av_cap (av_new N) = N"
  by (simp add: av_cap_def av_new_def)

lemma length_av_list: "av_inv v \<Longrightarrow> length (av_list v) = av_len v"
  by (simp add: av_list_def av_inv_def)

lemma av_len_le_cap: "av_inv v \<Longrightarrow> length (av_list v) \<le> av_cap v"
  by (simp add: length_av_list av_cap_def av_inv_def)

lemma av_as_slice_list [exec_simps]: "av_inv v \<Longrightarrow> av_as_slice v = Val (av_list v)"
  by (simp add: av_as_slice_def av_inv_def av_list_def)

lemma assume_init_list:
  assumes "av_inv v" and "i < av_len v"
  shows "assume_init (av_elems v) i = Val (av_list v ! i)"
proof -
  have i: "i < length (av_elems v)"
    using assms by (simp add: av_inv_def)
  have "take (av_len v) (av_elems v) ! i \<in> set (take (av_len v) (av_elems v))"
    using assms i by (intro nth_mem) simp
  then have "av_elems v ! i \<noteq> None"
    using assms by (metis av_inv_def nth_take)
  then show ?thesis
    using assms i by (auto simp: assume_init_def av_list_def)
qed

lemma av_get_list:
  "av_inv v \<Longrightarrow> av_get v i = Val (if i < length (av_list v) then Some (av_list v ! i) else None)"
  by (simp add: av_get_def assume_init_list length_av_list)

lemma take_update_push:
  "n < length xs \<Longrightarrow> take (Suc n) (xs[n := y]) = take n xs @ [y]"
  by (simp add: take_Suc_conv_app_nth)

lemma av_try_push_full:
  "av_inv v \<Longrightarrow> length (av_list v) = av_cap v \<Longrightarrow> av_try_push v x = Val (Inl x, v)"
  by (simp add: av_try_push_def length_av_list av_cap_def)

lemma av_try_push_room:
  assumes "av_inv v" and "length (av_list v) < av_cap v"
  shows "\<exists>v'. av_try_push v x = Val (Inr (), v') \<and> av_inv v' \<and> av_list v' = av_list v @ [x]
    \<and> av_cap v' = av_cap v"
proof -
  let ?v' = "v\<lparr>av_elems := (av_elems v)[av_len v := Some x], av_len := Suc (av_len v)\<rparr>"
  have room: "av_len v < length (av_elems v)"
    using assms by (simp add: length_av_list av_cap_def)
  then have "av_try_push v x = Val (Inr (), ?v')"
    using assms(1) by (simp add: av_try_push_def av_inv_def usize_add_def)
  moreover have "av_inv ?v'"
    using assms(1) room by (auto simp: av_inv_def take_update_push)
  moreover have "av_list ?v' = av_list v @ [x]"
    using room by (simp add: av_list_def take_update_push)
  moreover have "av_cap ?v' = av_cap v"
    by (simp add: av_cap_def)
  ultimately show ?thesis by blast
qed

lemma av_pop_empty: "av_inv v \<Longrightarrow> av_list v = [] \<Longrightarrow> av_pop v = Val (None, v)"
  using length_av_list [of v] by (simp add: av_pop_def)

lemma av_pop_nonempty:
  assumes "av_inv v" and "av_list v \<noteq> []"
  shows "\<exists>v'. av_pop v = Val (Some (last (av_list v)), v') \<and> av_inv v'
    \<and> av_list v' = butlast (av_list v) \<and> av_cap v' = av_cap v"
proof -
  let ?v' = "v\<lparr>av_len := av_len v - 1\<rparr>"
  have n: "0 < av_len v" "av_len v \<le> length (av_elems v)"
    using assms length_av_list [OF assms(1)] length_greater_0_conv [of "av_list v"]
    by (simp_all add: av_inv_def)
  have "assume_init (av_elems v) (av_len v - 1) = Val (last (av_list v))"
    using assms n assume_init_list [OF assms(1), of "av_len v - 1"]
    by (simp add: last_conv_nth length_av_list)
  then have "av_pop v = Val (Some (last (av_list v)), ?v')"
    using n by (simp add: av_pop_def usize_sub_def)
  moreover have "set (take (av_len v - 1) (av_elems v)) \<subseteq> set (take (av_len v) (av_elems v))"
    by (simp add: set_take_subset_set_take)
  then have "av_inv ?v'"
    using assms(1) n by (auto simp: av_inv_def)
  moreover have "av_list ?v' = butlast (av_list v)"
    using n by (simp add: av_list_def butlast_conv_take take_map [symmetric] min_def)
  ultimately show ?thesis
    by (auto simp: av_cap_def)
qed

lemma av_clear_list:
  "av_inv v \<Longrightarrow> \<exists>v'. av_clear v = Val (av_list v, v') \<and> av_inv v' \<and> av_list v' = []
     \<and> av_cap v' = av_cap v"
  by (simp add: av_clear_def av_as_slice_list av_inv_def av_list_def av_cap_def)

lemma extend_loop_list:
  assumes "base + length vals \<le> length slots" and "length slots \<le> USIZE_MAX"
    and "i \<le> length vals"
  shows "extend_loop slots base vals i =
    Val (take (base + i) slots @ map Some (drop i vals) @ drop (base + length vals) slots)"
  using assms
proof (induction slots base vals i rule: extend_loop.induct)
  case (1 slots base vals i)
  show ?case
  proof (cases "i < length vals")
    case True
    let ?slots = "slots[base + i := Some (vals ! i)]"
    have j: "base + i < length slots" "base + i \<le> USIZE_MAX"
      using True "1.prems" by auto
    have "take (base + Suc i) ?slots = take (base + i) slots @ [Some (vals ! i)]"
      using j by (simp add: take_update_push)
    moreover have "drop i vals = vals ! i # drop (Suc i) vals"
      using True by (simp add: Cons_nth_drop_Suc)
    moreover have "drop (base + length vals) ?slots = drop (base + length vals) slots"
      using True by simp
    ultimately show ?thesis
      using "1.IH" [OF True j(1)] "1.prems" True j
      by (simp add: extend_loop.simps [of slots] usize_add_def)
  next
    case False
    with "1.prems" show ?thesis
      by (simp add: extend_loop.simps [of slots])
  qed
qed

lemma try_extend_overflow:
  assumes "av_inv v" and "av_cap v < length (av_list v) + length vals"
    and "av_len v + length vals \<le> USIZE_MAX"
  shows "try_extend_from_slice v vals = Val (Inl CapacityError, v)"
  using assms by (simp add: try_extend_from_slice_def length_av_list usize_add_def av_cap_def)

lemma try_extend_room:
  assumes "av_inv v" and "length (av_list v) + length vals \<le> av_cap v"
  shows "\<exists>v'. try_extend_from_slice v vals = Val (Inr (), v') \<and> av_inv v'
    \<and> av_list v' = av_list v @ vals \<and> av_cap v' = av_cap v"
proof -
  let ?slots = "take (av_len v) (av_elems v) @ map Some vals
    @ drop (av_len v + length vals) (av_elems v)"
  let ?v' = "v\<lparr>av_elems := ?slots, av_len := av_len v + length vals\<rparr>"
  have room: "av_len v + length vals \<le> length (av_elems v)"
    and fits: "length (av_elems v) \<le> USIZE_MAX"
    using assms by (simp_all add: length_av_list av_cap_def av_inv_def)
  then have "try_extend_from_slice v vals = Val (Inr (), ?v')"
    by (simp add: try_extend_from_slice_def extend_from_slice_unchecked_def usize_add_def
        extend_loop_list)
  moreover have "take (av_len v + length vals) ?slots = take (av_len v) (av_elems v) @ map Some vals"
    using room by simp
  then have "av_inv ?v'" and "av_list ?v' = av_list v @ vals"
    using assms(1) room by (auto simp: av_inv_def av_list_def comp_def)
  moreover have "av_cap ?v' = av_cap v"
    using room by (simp add: av_cap_def)
  ultimately show ?thesis by blast
qed

lemma av_set_slice_list:
  assumes "av_inv v" and "length xs = av_len v"
  shows "av_inv (av_set_slice v xs)" and "av_list (av_set_slice v xs) = xs"
    and "av_cap (av_set_slice v xs) = av_cap v"
  using assms by (auto simp: av_set_slice_def av_inv_def av_list_def av_cap_def comp_def)

section \<open>The interface its clients use\<close>

text \<open>
  The loops that push every item and report, without stopping, the ones that do not fit
  (\<open>if v.try_push(x).is_err() { trace!(..) }\<close>).
\<close>

fun push_each :: "('v \<Rightarrow> 'a \<Rightarrow> (('a + unit) \<times> 'v) exec) \<Rightarrow> 'v \<Rightarrow> 'a list \<Rightarrow> 'v exec" where
  "push_each push v [] = Val v"
| "push_each push v (x # xs) = exec_bind (push v x) (\<lambda>(r, v'). push_each push v' xs)"

locale bounded_vec =
  fixes push :: "'v \<Rightarrow> 'a \<Rightarrow> (('a + unit) \<times> 'v) exec"
    and items :: "'v \<Rightarrow> 'a list"
    and cap :: "'v \<Rightarrow> nat"
    and inv :: "'v \<Rightarrow> bool"
  assumes items_cap: "inv v \<Longrightarrow> length (items v) \<le> cap v"
    and push_full: "inv v \<Longrightarrow> length (items v) = cap v \<Longrightarrow> push v x = Val (Inl x, v)"
    and push_room: "inv v \<Longrightarrow> length (items v) < cap v \<Longrightarrow>
      \<exists>v'. push v x = Val (Inr (), v') \<and> inv v' \<and> items v' = items v @ [x] \<and> cap v' = cap v"
begin

lemma push_lossy:
  assumes "inv v"
  shows "\<exists>r v'. push v x = Val (r, v') \<and> inv v' \<and> items v' = take (cap v) (items v @ [x])
    \<and> cap v' = cap v"
proof (cases "length (items v) < cap v")
  case True
  from push_room [OF assms True, of x] show ?thesis
    using True by auto
next
  case False
  with items_cap [OF assms] have "length (items v) = cap v" by simp
  with push_full [OF assms this, of x] assms show ?thesis by auto
qed

lemma push_each_items:
  "inv v \<Longrightarrow> \<exists>v'. push_each push v xs = Val v' \<and> inv v' \<and> items v' = take (cap v) (items v @ xs)
     \<and> cap v' = cap v"
proof (induction xs arbitrary: v)
  case Nil
  then show ?case using items_cap [of v] by simp
next
  case (Cons x xs)
  obtain r u where u: "push v x = Val (r, u)" "inv u" "items u = take (cap v) (items v @ [x])"
    "cap u = cap v"
    using push_lossy [OF Cons.prems, of x] by blast
  obtain w where "push_each push u xs = Val w" "inv w" "items w = take (cap u) (items u @ xs)"
    "cap w = cap u"
    using Cons.IH [OF u(2)] by blast
  with u items_cap [OF Cons.prems] show ?case
    by (cases "length (items v) = cap v") auto
qed

end

interpretation avec: bounded_vec av_try_push av_list av_cap av_inv
  by unfold_locales (auto simp: av_len_le_cap av_try_push_full av_try_push_room)

section \<open>ArrayString\<close>

text \<open>
  A string is its UTF-8 bytes. \<open>from_ascii_str\<close> rejects the first byte that is not
  ASCII before it looks at the capacity; \<open>from_static\<close> panics where the others return
  an error.
\<close>

datatype FromAsciiError = NonAscii u8 | Capacity

definition is_ascii :: "u8 \<Rightarrow> bool" where
  "is_ascii b = (b < 128)"

definition as_new :: "nat \<Rightarrow> u8 ArrayVec" where
  "as_new N = av_new N"

definition as_push :: "u8 ArrayVec \<Rightarrow> u8 \<Rightarrow> ((CapacityError + unit) \<times> u8 ArrayVec) exec" where
  "as_push s byte =
     exec_bind (av_try_push s byte) (\<lambda>(r, s').
       Val (case r of Inr _ \<Rightarrow> Inr () | Inl _ \<Rightarrow> Inl CapacityError, s'))"

definition as_push_str ::
    "u8 ArrayVec \<Rightarrow> u8 list \<Rightarrow> ((CapacityError + unit) \<times> u8 ArrayVec) exec" where
  "as_push_str s str =
     exec_bind (try_extend_from_slice s str) (\<lambda>(r, s').
       Val (case r of Inr _ \<Rightarrow> Inr () | Inl _ \<Rightarrow> Inl CapacityError, s'))"

definition as_from_static :: "nat \<Rightarrow> u8 list \<Rightarrow> u8 ArrayVec exec" where
  "as_from_static N str =
     (if N < length str then Panic else extend_from_slice_unchecked (as_new N) str)"

definition as_try_from :: "nat \<Rightarrow> u8 list \<Rightarrow> (CapacityError + u8 ArrayVec) exec" where
  "as_try_from N str =
     exec_bind (as_push_str (as_new N) str) (\<lambda>(r, s).
       Val (case r of Inl e \<Rightarrow> Inl e | Inr _ \<Rightarrow> Inr s))"

fun first_non_ascii :: "u8 list \<Rightarrow> u8 option" where
  "first_non_ascii [] = None"
| "first_non_ascii (b # bs) = (if \<not> is_ascii b then Some b else first_non_ascii bs)"

definition as_from_ascii_str :: "nat \<Rightarrow> u8 list \<Rightarrow> (FromAsciiError + u8 ArrayVec) exec" where
  "as_from_ascii_str N bytes =
     (case first_non_ascii bytes of
        Some b \<Rightarrow> Val (Inl (NonAscii b))
      | None \<Rightarrow> exec_bind (as_try_from N bytes) (\<lambda>r.
          Val (case r of Inr this \<Rightarrow> Inr this | Inl _ \<Rightarrow> Inl Capacity)))"

definition as_bytes :: "u8 ArrayVec \<Rightarrow> u8 list exec" where
  "as_bytes s = av_as_slice s"

definition as_eq :: "u8 ArrayVec \<Rightarrow> u8 ArrayVec \<Rightarrow> bool exec" where
  "as_eq a b = exec_bind (as_bytes a) (\<lambda>x. exec_bind (as_bytes b) (\<lambda>y. Val (x = y)))"

lemma as_try_from_room:
  assumes "N \<le> USIZE_MAX" and "length str \<le> N"
  shows "\<exists>s. as_try_from N str = Val (Inr s) \<and> av_inv s \<and> av_list s = str \<and> av_cap s = N"
proof -
  have "length (av_list (as_new N)) + length str \<le> av_cap (as_new N)"
    using assms(2) by (simp add: as_new_def)
  then obtain s where s: "try_extend_from_slice (as_new N) str = Val (Inr (), s)" "av_inv s"
    "av_list s = str" "av_cap s = N"
    using try_extend_room [of "as_new N" str] av_new_inv [OF assms(1)]
    by (auto simp: as_new_def)
  then have "as_try_from N str = Val (Inr s)"
    by (simp add: as_try_from_def as_push_str_def)
  with s show ?thesis by blast
qed

lemma as_try_from_too_long:
  assumes "N < length str" and "length str \<le> USIZE_MAX"
  shows "as_try_from N str = Val (Inl CapacityError)"
proof -
  have "av_inv (as_new N)"
    using av_new_inv [of N] assms by (simp add: as_new_def)
  then have "try_extend_from_slice (as_new N) str = Val (Inl CapacityError, as_new N)"
    using assms by (intro try_extend_overflow) (simp_all add: as_new_def, simp add: av_new_def)
  then show ?thesis
    by (simp add: as_try_from_def as_push_str_def)
qed

lemma first_non_ascii_None: "first_non_ascii bs = None \<longleftrightarrow> (\<forall>b\<in>set bs. is_ascii b)"
  by (induction bs) auto

end
