(* ===== verification/Alignment.thy ===== *)
theory Alignment
  imports Prelude
begin

text \<open>
  \<open>libs/rust/ftl_utils/src/alignment.rs\<close>: rounding to a power of two by masking. The
  definitions keep the source's bit operations; the lemmas give their arithmetic meaning
  (rounding to the nearest multiple below and above, divisibility).
\<close>

definition align_down :: "usize \<Rightarrow> usize \<Rightarrow> usize exec" where
  "align_down value align =
     assert_exec (is_power_of_two align)
       (assert_exec (align \<noteq> 0)
         (Val (value AND usize_not (align - 1))))"

definition align_up :: "usize \<Rightarrow> usize \<Rightarrow> usize exec" where
  "align_up value align =
     assert_exec (is_power_of_two align)
       (exec_bind (usize_add value align) (\<lambda>t.
        exec_bind (usize_sub t 1) (\<lambda>t'. align_down t' align)))"

definition is_aligned :: "usize \<Rightarrow> usize \<Rightarrow> bool exec" where
  "is_aligned value align =
     assert_exec (is_power_of_two align) (Val (value AND (align - 1) = 0))"

section \<open>Arithmetic meaning of the masks\<close>

lemma and_low_mask: "(v::nat) AND (2 ^ k - 1) = v mod 2 ^ k"
  by (simp add: take_bit_eq_mod [symmetric] take_bit_eq_mask mask_eq_exp_minus_1)

lemma usize_bit_bound: "v < 2 ^ 64 \<Longrightarrow> bit (v::nat) n \<Longrightarrow> n < 64"
  by (metis bit_take_bit_iff take_bit_nat_eq_self)

lemma usize_not_low_mask:
  assumes "k \<le> 64"
  shows "usize_not (2 ^ k - 1) = push_bit k (mask (64 - k))"
proof -
  have "(2::nat) ^ k * 2 ^ (64 - k) = 2 ^ 64"
    using assms by (simp flip: power_add)
  moreover have "(1::nat) \<le> 2 ^ k"
    by simp
  ultimately show ?thesis
    by (simp add: usize_not_def USIZE_MAX_def push_bit_eq_mult mask_eq_exp_minus_1
        diff_mult_distrib2 mult.commute del: One_nat_def)
qed

lemma and_high_mask:
  assumes "v < 2 ^ 64" and "k \<le> 64"
  shows "v AND usize_not (2 ^ k - 1) = v - v mod 2 ^ k"
proof -
  have "v AND push_bit k (mask (64 - k)) = push_bit k (drop_bit k v)"
    using usize_bit_bound [OF assms(1)]
    by (auto simp: bit_eq_iff bit_simps possible_bit_def intro: diff_less_mono)
  also have "\<dots> = v - v mod 2 ^ k"
    by (simp add: push_bit_eq_mult drop_bit_eq_div minus_mod_eq_div_mult)
  finally show ?thesis
    by (simp only: usize_not_low_mask [OF assms(2)])
qed

lemma usize_power_of_two:
  assumes "is_power_of_two a" and "a \<le> USIZE_MAX"
  obtains k where "a = 2 ^ k" and "k \<le> 64"
proof -
  obtain k where k: "a = 2 ^ k"
    using assms(1) is_power_of_twoD by blast
  with assms(2) have "(2::nat) ^ k < 2 ^ 64"
    by (simp add: USIZE_MAX_def)
  then have "k \<le> 64"
    by (intro less_imp_le) (rule power_less_imp_less_exp, simp_all only: one_less_numeral_iff semiring_norm)
  with k show thesis by (rule that)
qed

lemma power_of_two_pos: "is_power_of_two a \<Longrightarrow> 0 < a"
  by (auto simp: is_power_of_two_iff)

lemma align_down_eq:
  assumes "is_power_of_two a" and "a \<le> USIZE_MAX" and "v \<le> USIZE_MAX"
  shows "align_down v a = Val (v - v mod a)"
proof -
  obtain k where "a = 2 ^ k" and "k \<le> 64"
    using assms(1,2) by (rule usize_power_of_two)
  moreover have "v < 2 ^ 64"
    using assms(3) by (simp add: USIZE_MAX_def)
  ultimately show ?thesis
    using assms(1) and_high_mask [of v k]
    by (simp add: align_down_def assert_exec_def del: One_nat_def)
qed

lemma is_aligned_eq: "is_power_of_two a \<Longrightarrow> is_aligned v a = Val (a dvd v)"
  by (auto simp: is_aligned_def assert_exec_def is_power_of_two_iff and_low_mask
      simp del: One_nat_def)

lemma align_up_eq:
  assumes "is_power_of_two a" and "v + a \<le> USIZE_MAX"
  shows "align_up v a = Val ((v + a - 1) - (v + a - 1) mod a)"
  using assms power_of_two_pos [OF assms(1)]
  by (simp add: align_up_def assert_exec_def usize_add_def usize_sub_def align_down_eq)

lemma align_up_overflow:
  assumes "is_power_of_two a" and "USIZE_MAX < v + a"
  shows "align_up v a = Panic"
  using assms by (simp add: align_up_def assert_exec_def usize_add_def)

section \<open>Rounding on natural numbers\<close>

text \<open>The two roundings the code computes, as arithmetic on \<open>nat\<close>.\<close>

definition round_down :: "nat \<Rightarrow> nat \<Rightarrow> nat" where
  "round_down v a = v - v mod a"

definition round_up :: "nat \<Rightarrow> nat \<Rightarrow> nat" where
  "round_up v a = round_down (v + a - 1) a"

lemma round_down_dvd [simp]: "a dvd round_down v a"
  by (simp add: round_down_def minus_mod_eq_mult_div)

lemma round_down_le [simp]: "round_down v a \<le> v"
  by (simp add: round_down_def)

lemma round_down_greatest: "a dvd w \<Longrightarrow> w \<le> v \<Longrightarrow> w \<le> round_down v a"
  using div_le_mono [of w v a] mult_le_mono1 [of "w div a" "v div a" a]
  by (simp add: round_down_def minus_mod_eq_div_mult)

lemma round_down_gap: "0 < a \<Longrightarrow> v < round_down v a + a"
  using mod_less_divisor [of a v] mod_less_eq_dividend [of v a]
  unfolding round_down_def by linarith

lemma round_up_dvd [simp]: "a dvd round_up v a"
  by (simp add: round_up_def)

lemma round_up_ge: "0 < a \<Longrightarrow> v \<le> round_up v a"
  using round_down_gap [of a "v + a - 1"] by (simp add: round_up_def)

lemma round_up_le: "round_up v a \<le> v + a - 1"
  by (simp add: round_up_def)

lemma round_up_least:
  assumes "0 < a" and "a dvd w" and "v \<le> w"
  shows "round_up v a \<le> w"
proof (rule ccontr)
  assume "\<not> round_up v a \<le> w"
  moreover obtain m n where "w = a * m" and "round_up v a = a * n"
    using assms(2) round_up_dvd [of a v] by (metis dvdE)
  ultimately have "w + a \<le> round_up v a"
    using assms(1) by (simp flip: mult_Suc_right add: add.commute [of "a * m"])
  with round_up_le [of v a] assms show False by linarith
qed

lemma round_up_idem: "0 < a \<Longrightarrow> a dvd v \<Longrightarrow> round_up v a = v"
  by (simp add: le_antisym round_up_ge round_up_least)

lemma align_down_round:
  "is_power_of_two a \<Longrightarrow> a \<le> USIZE_MAX \<Longrightarrow> v \<le> USIZE_MAX \<Longrightarrow> align_down v a = Val (round_down v a)"
  by (simp add: align_down_eq round_down_def)

lemma align_up_round:
  "is_power_of_two a \<Longrightarrow> v + a \<le> USIZE_MAX \<Longrightarrow> align_up v a = Val (round_up v a)"
  by (simp add: align_up_eq round_up_def round_down_def)

end
