(* ===== verification/Address.thy ===== *)
theory Address
  imports Alignment
begin

text \<open>
  Addresses (\<open>kernel/src/address.rs\<close>) and the direct map of
  \<open>kernel/src/arch/x64/vmspace.rs\<close>. \<open>PAddr\<close>, \<open>VAddr\<close> and \<open>UAddr\<close> are transparent
  wrappers of \<open>usize\<close>. The kernel reaches physical memory through the direct map at
  \<open>KERNEL_BASE\<close>, so a kernel pointer is turned back into the physical address it aliases
  before the model touches memory.
\<close>

type_synonym PAddr = usize
type_synonym VAddr = usize
type_synonym UAddr = usize

definition MIN_PAGE_SIZE :: usize where
  "MIN_PAGE_SIZE = 4096"

definition KERNEL_BASE :: usize where
  "KERNEL_BASE = 0xffff800000000000"

definition GIGA_PAGE_SIZE :: usize where
  "GIGA_PAGE_SIZE = 1024 * 1024 * 1024"

definition DIRECT_MAP_SIZE :: usize where
  "DIRECT_MAP_SIZE = 4 * GIGA_PAGE_SIZE"

definition DIRECT_MAP_END :: PAddr where
  "DIRECT_MAP_END = DIRECT_MAP_SIZE"

definition uaddr_add :: "UAddr \<Rightarrow> usize \<Rightarrow> UAddr option" where
  "uaddr_add u offset = checked_add u offset"

definition uaddr_is_aligned_to :: "UAddr \<Rightarrow> usize \<Rightarrow> bool exec" where
  "uaddr_is_aligned_to u alignment = is_aligned u alignment"

definition paddr_is_aligned :: "PAddr \<Rightarrow> usize \<Rightarrow> bool exec" where
  "paddr_is_aligned p alignment = is_aligned p alignment"

definition paddr2vaddr :: "PAddr \<Rightarrow> VAddr" where
  "paddr2vaddr paddr = paddr OR KERNEL_BASE"

definition vaddr2paddr :: "VAddr \<Rightarrow> PAddr" where
  "vaddr2paddr vaddr = vaddr AND usize_not KERNEL_BASE"

lemmas address_consts =
  MIN_PAGE_SIZE_def KERNEL_BASE_def GIGA_PAGE_SIZE_def DIRECT_MAP_SIZE_def DIRECT_MAP_END_def

lemma direct_map_bound: "DIRECT_MAP_END = 2 ^ 32"
  by (simp add: address_consts)

lemma is_power_of_two_page [simp]: "is_power_of_two MIN_PAGE_SIZE"
  using is_power_of_two_pow [of 12] by (simp add: MIN_PAGE_SIZE_def)

lemma page_size_usize [simp]: "MIN_PAGE_SIZE \<le> USIZE_MAX"
  by (simp add: MIN_PAGE_SIZE_def USIZE_MAX_def)

lemma page_size_pos [simp]: "0 < MIN_PAGE_SIZE"
  by (simp add: MIN_PAGE_SIZE_def)

lemma is_aligned_page [exec_simps]: "is_aligned v MIN_PAGE_SIZE = Val (MIN_PAGE_SIZE dvd v)"
  by (simp add: is_aligned_eq)

lemma not_kernel_base: "usize_not KERNEL_BASE = mask 47"
  by (simp add: usize_not_def KERNEL_BASE_def USIZE_MAX_def mask_eq_exp_minus_1)

lemma kernel_base_high: "take_bit 47 KERNEL_BASE = 0"
  by (simp add: KERNEL_BASE_def take_bit_eq_mod)

lemma vaddr2paddr_mod: "vaddr2paddr v = v mod 2 ^ 47"
  by (simp add: vaddr2paddr_def not_kernel_base take_bit_eq_mask [symmetric] take_bit_eq_mod)

lemma vaddr2paddr_paddr2vaddr [simp]:
  assumes "p < 2 ^ 47"
  shows "vaddr2paddr (paddr2vaddr p) = p"
proof -
  have "vaddr2paddr (paddr2vaddr p) = take_bit 47 (p OR KERNEL_BASE)"
    by (simp add: paddr2vaddr_def vaddr2paddr_def not_kernel_base take_bit_eq_mask)
  also have "\<dots> = take_bit 47 p"
    by (simp add: take_bit_or kernel_base_high)
  finally show ?thesis
    using assms by (simp add: take_bit_eq_mod)
qed

lemma paddr2vaddr_add:
  assumes "p < 2 ^ 47"
  shows "paddr2vaddr p = KERNEL_BASE + p"
proof -
  have p: "take_bit 47 p = p" using assms by (simp add: take_bit_nat_eq_self_iff)
  have "p AND KERNEL_BASE = take_bit 47 p AND KERNEL_BASE" using p by simp
  also have "\<dots> = p AND take_bit 47 KERNEL_BASE"
    by (rule bit_eqI) (auto simp: bit_and_iff bit_take_bit_iff)
  finally have "p AND KERNEL_BASE = 0" by (simp add: kernel_base_high)
  then have "p + KERNEL_BASE = p OR KERNEL_BASE" by (rule disjunctive_add_eq_or)
  then show ?thesis by (simp add: paddr2vaddr_def)
qed

lemma paddr2vaddr_inj:
  "p < 2 ^ 47 \<Longrightarrow> q < 2 ^ 47 \<Longrightarrow> paddr2vaddr p = paddr2vaddr q \<longleftrightarrow> p = q"
  by (metis vaddr2paddr_paddr2vaddr)

lemma below_direct_map [simp]: "p < DIRECT_MAP_END \<Longrightarrow> p < 2 ^ 47"
  unfolding direct_map_bound by simp

end
