(* ===== verification/BumpAllocator.thy ===== *)
theory BumpAllocator
  imports Address
begin

text \<open>
  \<open>libs/rust/ftl_bump_allocator\<close>: an allocator that hands out blocks from the end of a
  region downwards. The locale \<open>block_allocator\<close> is the contract its clients rely on:
  a block comes out of the memory still available and is never available again. The
  lemmas of the locale lift it to any sequence of requests.
\<close>

record BumpAllocator =
  ba_start :: usize
  ba_next :: usize

definition bump_new :: "usize \<Rightarrow> usize \<Rightarrow> BumpAllocator" where
  "bump_new start limit = \<lparr>ba_start = start, ba_next = limit\<rparr>"

definition bump_alloc :: "BumpAllocator \<Rightarrow> usize \<Rightarrow> usize \<Rightarrow> (usize option \<times> BumpAllocator) exec" where
  "bump_alloc b sz align =
     (case checked_sub (ba_next b) sz of
        None \<Rightarrow> Val (None, b)
      | Some addr \<Rightarrow>
          exec_bind (align_down addr align) (\<lambda>aligned_addr.
            if aligned_addr < ba_start b then Val (None, b)
            else Val (Some aligned_addr, b\<lparr>ba_next := aligned_addr\<rparr>)))"

definition bump_avail :: "BumpAllocator \<Rightarrow> nat set" where
  "bump_avail b = {ba_start b..<ba_next b}"

definition bump_wf :: "BumpAllocator \<Rightarrow> bool" where
  "bump_wf b \<longleftrightarrow> ba_next b \<le> USIZE_MAX"

lemma bump_alloc_eq:
  assumes "is_power_of_two align" and "align \<le> USIZE_MAX" and "bump_wf b"
  shows "bump_alloc b sz align =
    (if sz \<le> ba_next b \<and> ba_start b \<le> round_down (ba_next b - sz) align
     then Val (Some (round_down (ba_next b - sz) align),
               b\<lparr>ba_next := round_down (ba_next b - sz) align\<rparr>)
     else Val (None, b))"
proof (cases "sz \<le> ba_next b")
  case True
  then have "ba_next b - sz \<le> USIZE_MAX"
    using assms(3) by (simp add: bump_wf_def)
  with assms True show ?thesis
    by (simp add: bump_alloc_def checked_sub_def align_down_round not_less)
next
  case False
  then show ?thesis
    by (simp add: bump_alloc_def checked_sub_def)
qed

lemma bump_alloc_Some:
  assumes "is_power_of_two align" and "align \<le> USIZE_MAX" and "bump_wf b"
    and "bump_alloc b sz align = Val (Some a, b')"
  shows "align dvd a" and "{a..<a + sz} \<subseteq> bump_avail b" and "ba_start b \<le> a"
    and "bump_avail b' \<subseteq> bump_avail b - {a..<a + sz}" and "bump_wf b'"
    and "ba_start b' = ba_start b" and "ba_next b' = a" and "a + sz \<le> ba_next b"
proof -
  have a: "a = round_down (ba_next b - sz) align" "b' = b\<lparr>ba_next := a\<rparr>"
    "sz \<le> ba_next b" "ba_start b \<le> a"
    using assms(4) bump_alloc_eq [OF assms(1-3), of sz] by (auto split: if_splits)
  have "a \<le> ba_next b - sz"
    unfolding a(1) by (rule round_down_le)
  with a(3) show top: "a + sz \<le> ba_next b" by simp
  show "align dvd a"
    unfolding a(1) by (rule round_down_dvd)
  show "{a..<a + sz} \<subseteq> bump_avail b" "ba_start b \<le> a"
    and "bump_avail b' \<subseteq> bump_avail b - {a..<a + sz}" "ba_start b' = ba_start b" "ba_next b' = a"
    using a(2,4) top by (auto simp: bump_avail_def)
  show "bump_wf b'"
    using assms(3) top a(2) by (simp add: bump_wf_def)
qed

lemma bump_alloc_None:
  assumes "is_power_of_two align" and "align \<le> USIZE_MAX" and "bump_wf b"
  shows "bump_alloc b sz align = Val (None, b') \<longleftrightarrow>
    b' = b \<and> (\<forall>a. align dvd a \<longrightarrow> ba_start b \<le> a \<longrightarrow> \<not> a + sz \<le> ba_next b)"
proof -
  have "(sz \<le> ba_next b \<and> ba_start b \<le> round_down (ba_next b - sz) align)
    \<longleftrightarrow> (\<exists>a. align dvd a \<and> ba_start b \<le> a \<and> a + sz \<le> ba_next b)"
  proof
    assume "sz \<le> ba_next b \<and> ba_start b \<le> round_down (ba_next b - sz) align"
    then show "\<exists>a. align dvd a \<and> ba_start b \<le> a \<and> a + sz \<le> ba_next b"
      by (intro exI [of _ "round_down (ba_next b - sz) align"]) (simp flip: le_diff_conv2)
  next
    assume "\<exists>a. align dvd a \<and> ba_start b \<le> a \<and> a + sz \<le> ba_next b"
    then obtain a where a: "align dvd a" "ba_start b \<le> a" "a + sz \<le> ba_next b" by blast
    then have "a \<le> round_down (ba_next b - sz) align"
      by (intro round_down_greatest) auto
    with a show "sz \<le> ba_next b \<and> ba_start b \<le> round_down (ba_next b - sz) align"
      by simp
  qed
  then show ?thesis
    using bump_alloc_eq [OF assms, of sz] by auto
qed

lemma bump_alloc_total:
  assumes "is_power_of_two align" and "align \<le> USIZE_MAX" and "bump_wf b"
  obtains r b' where "bump_alloc b sz align = Val (r, b')"
  using bump_alloc_eq [OF assms, of sz] that by (auto split: if_splits)

section \<open>The contract of a block allocator\<close>

text \<open>
  \<open>alloc_blocks\<close> serves a sequence of requests (sizes that satisfy the provider's
  condition \<open>ok\<close>) and collects the blocks that were handed out, as pairs of address
  and size.
\<close>

fun alloc_blocks :: "('s \<Rightarrow> nat \<Rightarrow> (nat option \<times> 's) exec) \<Rightarrow> 's \<Rightarrow> nat list
    \<Rightarrow> ((nat \<times> nat) list \<times> 's) exec" where
  "alloc_blocks alloc s [] = Val ([], s)"
| "alloc_blocks alloc s (n # ns) =
     exec_bind (alloc s n) (\<lambda>(r, s').
     exec_bind (alloc_blocks alloc s' ns) (\<lambda>(bs, s'').
       Val ((case r of None \<Rightarrow> bs | Some a \<Rightarrow> (a, n) # bs), s'')))"

definition block :: "nat \<times> nat \<Rightarrow> nat set" where
  "block ab = {fst ab..<fst ab + snd ab}"

fun disjoint_blocks :: "(nat \<times> nat) list \<Rightarrow> bool" where
  "disjoint_blocks [] = True"
| "disjoint_blocks (b # bs) = ((\<forall>c\<in>set bs. block b \<inter> block c = {}) \<and> disjoint_blocks bs)"

locale block_allocator =
  fixes alloc :: "'s \<Rightarrow> nat \<Rightarrow> (nat option \<times> 's) exec"
    and avail :: "'s \<Rightarrow> nat set"
    and inv :: "'s \<Rightarrow> bool"
    and ok :: "nat \<Rightarrow> bool"
    and placed :: "nat \<Rightarrow> nat \<Rightarrow> bool"
  assumes alloc_total: "inv s \<Longrightarrow> ok n \<Longrightarrow> \<exists>r s'. alloc s n = Val (r, s')"
    and alloc_inv: "inv s \<Longrightarrow> ok n \<Longrightarrow> alloc s n = Val (r, s') \<Longrightarrow> inv s'"
    and alloc_block: "inv s \<Longrightarrow> ok n \<Longrightarrow> alloc s n = Val (Some a, s') \<Longrightarrow>
      {a..<a + n} \<subseteq> avail s \<and> placed a n"
    and alloc_avail: "inv s \<Longrightarrow> ok n \<Longrightarrow> alloc s n = Val (Some a, s') \<Longrightarrow>
      avail s' \<subseteq> avail s - {a..<a + n}"
    and alloc_fail: "inv s \<Longrightarrow> ok n \<Longrightarrow> alloc s n = Val (None, s') \<Longrightarrow> avail s' \<subseteq> avail s"
begin

lemma alloc_blocks_total:
  "inv s \<Longrightarrow> list_all ok ns \<Longrightarrow> \<exists>bs s'. alloc_blocks alloc s ns = Val (bs, s') \<and> inv s'"
proof (induction ns arbitrary: s)
  case Nil
  then show ?case by simp
next
  case (Cons n ns)
  obtain r t where t: "alloc s n = Val (r, t)"
    using Cons.prems alloc_total by fastforce
  have "inv t"
    using Cons.prems t alloc_inv [of s n r t] by simp
  then obtain bs u where "alloc_blocks alloc t ns = Val (bs, u) \<and> inv u"
    using Cons.IH Cons.prems(2) by fastforce
  with t show ?case by simp
qed

lemma alloc_blocks_avail:
  "inv s \<Longrightarrow> list_all ok ns \<Longrightarrow> alloc_blocks alloc s ns = Val (bs, s') \<Longrightarrow>
     avail s' \<subseteq> avail s \<and> (\<forall>b\<in>set bs. block b \<subseteq> avail s \<and> block b \<inter> avail s' = {}
       \<and> placed (fst b) (snd b)) \<and> disjoint_blocks bs"
proof (induction ns arbitrary: s bs)
  case Nil
  then show ?case by simp
next
  case (Cons n ns)
  have ok: "inv s" "ok n" "list_all ok ns"
    using Cons.prems by auto
  from Cons.prems(3) obtain r t cs where t: "alloc s n = Val (r, t)"
    and cs: "alloc_blocks alloc t ns = Val (cs, s')"
    and bs: "bs = (case r of None \<Rightarrow> cs | Some a \<Rightarrow> (a, n) # cs)"
    by (auto simp: exec_bind_Val_iff)
  have rest: "avail s' \<subseteq> avail t" "disjoint_blocks cs"
    "\<And>b. b \<in> set cs \<Longrightarrow> block b \<subseteq> avail t \<and> block b \<inter> avail s' = {} \<and> placed (fst b) (snd b)"
    using Cons.IH [OF alloc_inv [OF ok(1,2) t] ok(3) cs] by auto
  show ?case
  proof (cases r)
    case None
    with t alloc_fail ok have "avail t \<subseteq> avail s" by simp
    with rest None bs show ?thesis by fastforce
  next
    case (Some a)
    with t ok have b: "block (a, n) \<subseteq> avail s" "placed a n" "avail t \<subseteq> avail s - block (a, n)"
      using alloc_block [of s n a t] alloc_avail [of s n a t] by (auto simp: block_def)
    with rest have "\<And>c. c \<in> set cs \<Longrightarrow> block (a, n) \<inter> block c = {} \<and> block c \<subseteq> avail s"
      by blast
    with b rest Some bs show ?thesis by auto
  qed
qed

end

lemma bump_block_allocator:
  assumes "is_power_of_two align" and "align \<le> USIZE_MAX"
  shows "block_allocator (\<lambda>b n. bump_alloc b n align) bump_avail bump_wf (\<lambda>n. True)
    (\<lambda>a n. align dvd a)"
proof (unfold_locales)
  fix s n assume "bump_wf s"
  then show "\<exists>r s'. bump_alloc s n align = Val (r, s')"
    using bump_alloc_total [OF assms] by metis
next
  fix s n r s' assume s: "bump_wf s" "bump_alloc s n align = Val (r, s')"
  then show "bump_wf s'"
    using bump_alloc_Some(5) [OF assms s(1)] bump_alloc_None [OF assms s(1)]
    by (cases r) auto
next
  fix s n s' a assume s: "bump_wf s" "bump_alloc s n align = Val (Some a, s')"
  show "{a..<a + n} \<subseteq> bump_avail s \<and> align dvd a" "bump_avail s' \<subseteq> bump_avail s - {a..<a + n}"
    using bump_alloc_Some [OF assms s] by blast+
next
  fix s n s' assume s: "bump_wf s" "bump_alloc s n align = Val (None, s')"
  then show "bump_avail s' \<subseteq> bump_avail s"
    using bump_alloc_None [OF assms s(1)] by auto
qed

text \<open>The instance the kernel uses: blocks aligned to a page.\<close>

interpretation bump: block_allocator "\<lambda>b n. bump_alloc b n MIN_PAGE_SIZE" bump_avail bump_wf
    "\<lambda>n. True" "\<lambda>a n. MIN_PAGE_SIZE dvd a"
  by (rule bump_block_allocator) simp_all

end
