(* ===== verification/Memory.thy ===== *)
theory Memory
  imports ArrayVec BumpAllocator "HOL-Library.Multiset"
begin

text \<open>
  \<open>kernel/src/memory.rs\<close> (without the global allocator) and the boot information of
  \<open>kernel/src/boot.rs\<close>: the free RAM the boot loader reports, minus the kernel image and
  the boot modules, becomes the regions of the page allocator. \<open>phys\<close> is the state the
  page allocator works on: the bytes of physical memory and the regions.
\<close>

section \<open>Boot information\<close>

record FreeRam =
  fr_addr :: PAddr
  fr_size :: usize

record Module =
  mod_start :: PAddr
  mod_end :: PAddr

definition NUM_MODULES_MAX :: usize where
  "NUM_MODULES_MAX = 8"

record BootInfo =
  bi_cmdline :: "u8 list"
  bi_modules :: "Module ArrayVec"
  bi_free_rams :: "FreeRam ArrayVec"

section \<open>The page allocator\<close>

datatype PageType = Dirty | Zeroed

record phys =
  ph_mem :: memory
  ph_regions :: "BumpAllocator ArrayVec"

definition page_allocator_new :: "BumpAllocator ArrayVec" where
  "page_allocator_new = av_new 8"

definition add_region :: "phys \<Rightarrow> PAddr \<Rightarrow> PAddr \<Rightarrow> phys exec" where
  "add_region ph start limit =
     exec_bind (av_try_push (ph_regions ph) (bump_new start limit)) (\<lambda>(r, regions).
       Val (ph\<lparr>ph_regions := regions\<rparr>))"

fun alloc_from :: "BumpAllocator list \<Rightarrow> usize \<Rightarrow> (PAddr option \<times> BumpAllocator list) exec" where
  "alloc_from [] n = Val (None, [])"
| "alloc_from (region # regions) n =
     exec_bind (bump_alloc region n MIN_PAGE_SIZE) (\<lambda>(r, region').
       case r of
         Some addr \<Rightarrow> Val (Some addr, region' # regions)
       | None \<Rightarrow> exec_bind (alloc_from regions n) (\<lambda>(r', regions'). Val (r', region' # regions')))"

definition page_alloc :: "PageType \<Rightarrow> phys \<Rightarrow> usize \<Rightarrow> (PAddr option \<times> phys) exec" where
  "page_alloc page_type ph n =
     assert_exec (0 < n)
       (exec_bind (is_aligned n MIN_PAGE_SIZE) (\<lambda>aligned. assert_exec aligned
         (exec_bind (av_as_slice (ph_regions ph)) (\<lambda>regions.
          exec_bind (alloc_from regions n) (\<lambda>(r, regions').
            let ph' = ph\<lparr>ph_regions := av_set_slice (ph_regions ph) regions'\<rparr> in
            case r of
              None \<Rightarrow> Val (None, ph')
            | Some paddr \<Rightarrow>
                (case page_type of
                   Dirty \<Rightarrow> Val (Some paddr, ph')
                 | Zeroed \<Rightarrow> Val (Some paddr,
                     ph'\<lparr>ph_mem := mem_fill (ph_mem ph') (vaddr2paddr (paddr2vaddr paddr)) 0 n\<rparr>)))))))"

section \<open>Carving the free RAM\<close>

text \<open>
  \<open>visit_unused_regions\<close> calls \<open>f\<close> on every gap between the reserved ranges, from left
  to right; the ranges are pairs of start and end.
\<close>

fun visit_loop :: "PAddr \<Rightarrow> PAddr \<Rightarrow> (PAddr \<times> PAddr) list \<Rightarrow> (PAddr \<Rightarrow> PAddr \<Rightarrow> 's \<Rightarrow> 's exec)
    \<Rightarrow> 's \<Rightarrow> 's exec" where
  "visit_loop cursor limit [] f s = (if cursor < limit then f cursor limit s else Val s)"
| "visit_loop cursor limit ((rstart, rend) # reserved) f s =
     (if limit \<le> cursor then Val s
      else if rend \<le> cursor then visit_loop cursor limit reserved f s
      else if limit \<le> rstart then f cursor limit s
      else exec_bind (if cursor < rstart then f cursor rstart s else Val s)
             (visit_loop rend limit reserved f))"

definition visit_unused_regions :: "PAddr \<Rightarrow> PAddr \<Rightarrow> (PAddr \<times> PAddr) list
    \<Rightarrow> (PAddr \<Rightarrow> PAddr \<Rightarrow> 's \<Rightarrow> 's exec) \<Rightarrow> 's \<Rightarrow> 's exec" where
  "visit_unused_regions addr limit reserved f s =
     visit_loop addr (min limit DIRECT_MAP_END) reserved f s"

text \<open>\<open>bubble_sort\<close>, with the closure \<open>f\<close> that tells whether two neighbours are to be swapped.\<close>

definition bubble_step :: "('a \<Rightarrow> 'a \<Rightarrow> bool) \<Rightarrow> usize \<Rightarrow> 'a list \<Rightarrow> 'a list exec" where
  "bubble_step f j xs =
     (if j + 1 < length xs then
        Val (if f (xs ! j) (xs ! (j + 1)) then xs[j := xs ! (j + 1), j + 1 := xs ! j] else xs)
      else Panic)"

definition bubble_sort :: "('a \<Rightarrow> 'a \<Rightarrow> bool) \<Rightarrow> 'a list \<Rightarrow> 'a list exec" where
  "bubble_sort f xs =
     (let n = length xs in
      exec_fold (\<lambda>i ys.
        exec_bind (usize_sub n i) (\<lambda>t.
        exec_bind (usize_sub t 1) (\<lambda>m. exec_fold (bubble_step f) [0..<m] ys))) [0..<n] xs)"

text \<open>Pushing with \<open>unwrap\<close> or \<open>expect\<close>: a full vector panics.\<close>

definition push_expect :: "'a \<Rightarrow> 'a ArrayVec \<Rightarrow> 'a ArrayVec exec" where
  "push_expect x v = exec_bind (av_try_push v x) (\<lambda>(r, v').
     case r of Inl _ \<Rightarrow> Panic | Inr _ \<Rightarrow> Val v')"

definition get_kernel_reserved_range :: "VAddr \<Rightarrow> VAddr \<Rightarrow> PAddr \<times> PAddr" where
  "get_kernel_reserved_range kernel_memory kernel_memory_end =
     (vaddr2paddr kernel_memory, vaddr2paddr kernel_memory_end)"

definition init_free_ram :: "(PAddr \<times> PAddr) list \<Rightarrow> FreeRam \<Rightarrow> phys \<Rightarrow> phys exec" where
  "init_free_ram reserved ram ph =
     (case checked_add (fr_addr ram) (fr_size ram) of
        None \<Rightarrow> Val ph
      | Some limit \<Rightarrow>
          visit_unused_regions (fr_addr ram) limit reserved
            (\<lambda>addr limit' ph'. exec_bind (usize_sub limit' addr) (\<lambda>_. add_region ph' addr limit')) ph)"

definition memory_init :: "PAddr \<times> PAddr \<Rightarrow> BootInfo \<Rightarrow> phys \<Rightarrow> phys exec" where
  "memory_init kernel_range bootinfo ph =
     exec_bind (push_expect kernel_range (av_new (NUM_MODULES_MAX + 1))) (\<lambda>v.
     exec_bind (av_as_slice (bi_modules bootinfo)) (\<lambda>modules.
     exec_bind (exec_fold (\<lambda>m. push_expect (mod_start m, mod_end m)) modules v) (\<lambda>v'.
     exec_bind (av_as_slice v') (\<lambda>reserved.
     exec_bind (bubble_sort (\<lambda>a b. fst a > fst b) reserved) (\<lambda>sorted_regions.
     exec_bind (av_as_slice (av_set_slice v' sorted_regions)) (\<lambda>reserved'.
     exec_bind (av_as_slice (bi_free_rams bootinfo)) (\<lambda>rams.
       exec_fold (init_free_ram reserved') rams ph)))))))"

section \<open>Bubble sort\<close>

text \<open>One pass of the inner loop, seen as a recursion on the list.\<close>

fun bubble :: "('a \<Rightarrow> 'a \<Rightarrow> bool) \<Rightarrow> nat \<Rightarrow> 'a list \<Rightarrow> 'a list" where
  "bubble f (Suc m) (x # y # zs) = (if f x y then y # bubble f m (x # zs) else x # bubble f m (y # zs))"
| "bubble f _ xs = xs"

lemma bubble_step_append:
  "bubble_step f (length as) (as @ p # q # bs) =
     Val (as @ (if f p q then q # p # bs else p # q # bs))"
  by (simp add: bubble_step_def nth_append list_update_append)

lemma bubble_pass:
  "m < length xs \<Longrightarrow> exec_fold (bubble_step f) [length as..<length as + m] (as @ xs) =
     Val (as @ bubble f m xs)"
proof (induction m arbitrary: as xs)
  case 0
  then show ?case by simp
next
  case (Suc m)
  then obtain p q bs where xs: "xs = p # q # bs"
    by (cases xs; cases "tl xs") auto
  let ?p = "if f p q then q else p" and ?q = "if f p q then p else q"
  have "exec_fold (bubble_step f) [length (as @ [?p])..<length (as @ [?p]) + m] ((as @ [?p]) @ ?q # bs)
      = Val ((as @ [?p]) @ bubble f m (?q # bs))"
    using Suc.prems xs by (intro Suc.IH) simp
  then show ?case
    using xs by (cases "f p q") (simp_all add: upt_conv_Cons bubble_step_append del: upt_Suc)
qed

lemma mset_bubble [simp]: "mset (bubble f m xs) = mset xs"
  by (induction f m xs rule: bubble.induct) auto

lemma length_bubble [simp]: "length (bubble f m xs) = length xs"
  by (metis mset_bubble size_mset)

lemma drop_bubble: "m < length xs \<Longrightarrow> drop (Suc m) (bubble f m xs) = drop (Suc m) xs"
  by (induction f m xs rule: bubble.induct) auto

lemma bubble_max:
  "m < length xs \<Longrightarrow> x \<in> set (take (Suc m) (bubble (\<lambda>a b. k a > k b) m xs)) \<Longrightarrow>
     (k x :: nat) \<le> k (bubble (\<lambda>a b. k a > k b) m xs ! m)"
proof (induction m arbitrary: xs x)
  case 0
  then show ?case by (cases xs) auto
next
  case (Suc m)
  then obtain p q bs where xs: "xs = p # q # bs"
    by (cases xs; cases "tl xs") auto
  define lo hi where "lo = (if k q < k p then q else p)" and "hi = (if k q < k p then p else q)"
  have eq: "bubble (\<lambda>a b. k a > k b) (Suc m) xs = lo # bubble (\<lambda>a b. k a > k b) m (hi # bs)"
    by (simp add: xs lo_def hi_def)
  have m: "m < length (hi # bs)"
    using Suc.prems xs by simp
  have "mset (take (Suc m) (bubble (\<lambda>a b. k a > k b) m (hi # bs))) = mset (take (Suc m) (hi # bs))"
    using drop_bubble [OF m, of "\<lambda>a b. k a > k b"] mset_bubble [of "\<lambda>a b. k a > k b" m "hi # bs"]
    by (metis add_right_cancel append_take_drop_id mset_append)
  then have "hi \<in> set (take (Suc m) (bubble (\<lambda>a b. k a > k b) m (hi # bs)))"
    by (metis list.set_intros(1) set_mset_mset take_Suc_Cons)
  then have "k hi \<le> k (bubble (\<lambda>a b. k a > k b) m (hi # bs) ! m)"
    by (rule Suc.IH [OF m])
  moreover have "k lo \<le> k hi"
    by (simp add: lo_def hi_def)
  ultimately show ?case
    using Suc.prems(2) Suc.IH [OF m, of x] by (auto simp: eq)
qed

lemma bubble_sort_correct:
  fixes k :: "'a \<Rightarrow> nat"
  shows "\<exists>ys. bubble_sort (\<lambda>a b. k a > k b) xs = Val ys \<and> mset ys = mset xs \<and> sorted (map k ys)"
proof -
  let ?n = "length xs" and ?f = "\<lambda>a b. k a > k b"
  let ?body = "\<lambda>i ys. exec_bind (usize_sub ?n i) (\<lambda>t. exec_bind (usize_sub t 1)
    (\<lambda>m. exec_fold (bubble_step ?f) [0..<m] ys))"
  define P where "P i t \<longleftrightarrow> mset t = mset xs \<and> sorted (map k (drop (?n - i) t))
    \<and> (\<forall>a\<in>set (take (?n - i) t). \<forall>b\<in>set (drop (?n - i) t). k a \<le> k b)" for i t
  have "\<exists>t. exec_fold ?body [0..<?n] xs = Val t \<and> P (length [0..<?n]) t"
  proof (rule exec_fold_invariant)
    show "P 0 xs" by (simp add: P_def)
  next
    fix i t assume i: "i < length [0..<?n]" and P: "P i t"
    have len: "length t = ?n"
      using P unfolding P_def by (metis size_mset)
    define m where "m = ?n - i - 1"
    have m: "m < length t" "?n - i = Suc m" "?n - Suc i = m"
      using i len by (auto simp: m_def)
    let ?t = "bubble ?f m t"
    have step: "?body ([0..<?n] ! i) t = Val ?t"
      using i m bubble_pass [of m t ?f "[]"] by (simp add: usize_sub_def)
    have dr: "drop (Suc m) ?t = drop (Suc m) t"
      using m by (simp add: drop_bubble)
    have "mset (take (Suc m) ?t) = mset (take (Suc m) t)"
      using dr mset_bubble [of ?f m t] by (metis add_right_cancel append_take_drop_id mset_append)
    then have tk: "set (take (Suc m) ?t) = set (take (Suc m) t)"
      by (rule mset_eq_setD)
    have last: "take (Suc m) ?t = take m ?t @ [?t ! m]" "drop m ?t = ?t ! m # drop (Suc m) t"
      using m dr by (simp_all add: take_Suc_conv_app_nth Cons_nth_drop_Suc [symmetric])
    have mx: "\<And>a. a \<in> set (take (Suc m) t) \<Longrightarrow> k a \<le> k (?t ! m)"
      using bubble_max [OF m(1)] tk by blast
    have "P (Suc i) ?t"
      using P m mx tk last unfolding P_def by auto
    with step show "\<exists>t'. ?body ([0..<?n] ! i) t = Val t' \<and> P (Suc i) t'" by blast
  qed
  then obtain t where "exec_fold ?body [0..<?n] xs = Val t" "P ?n t" by auto
  then show ?thesis by (auto simp: bubble_sort_def Let_def P_def)
qed

section \<open>The regions of the page allocator\<close>

definition regions_avail :: "BumpAllocator list \<Rightarrow> nat set" where
  "regions_avail rs = (\<Union>r\<in>set rs. bump_avail r)"

fun regions_wf :: "BumpAllocator list \<Rightarrow> bool" where
  "regions_wf [] = True"
| "regions_wf (r # rs) =
     (ba_next r \<le> DIRECT_MAP_END \<and> bump_avail r \<inter> regions_avail rs = {} \<and> regions_wf rs)"

lemma regions_avail_simps [simp]:
  "regions_avail [] = {}"
  "regions_avail (r # rs) = bump_avail r \<union> regions_avail rs"
  "regions_avail (rs @ rs') = regions_avail rs \<union> regions_avail rs'"
  by (auto simp: regions_avail_def)

lemma regions_wf_append:
  "regions_wf (rs @ rs') \<longleftrightarrow>
     regions_wf rs \<and> regions_wf rs' \<and> regions_avail rs \<inter> regions_avail rs' = {}"
  by (induction rs) auto

lemma regions_wf_take: "regions_wf rs \<Longrightarrow> regions_wf (take n rs)"
  by (metis append_take_drop_id regions_wf_append)

lemma regions_avail_take: "regions_avail (take n rs) \<subseteq> regions_avail rs"
  by (metis append_take_drop_id regions_avail_simps(3) sup_ge1)

lemma direct_map_usize: "n \<le> DIRECT_MAP_END \<Longrightarrow> n \<le> USIZE_MAX"
  by (simp add: direct_map_bound USIZE_MAX_def)

lemma bump_page_alloc_total:
  "bump_wf r \<Longrightarrow> \<exists>x r'. bump_alloc r n MIN_PAGE_SIZE = Val (x, r')"
  by (rule bump.alloc_total) simp_all

lemma alloc_from_total:
  "regions_wf rs \<Longrightarrow> \<exists>x rs'. alloc_from rs n = Val (x, rs') \<and> length rs' = length rs"
proof (induction rs)
  case Nil
  then show ?case by simp
next
  case (Cons r rs)
  then have "bump_wf r" by (simp add: bump_wf_def direct_map_usize)
  then obtain x r' where "bump_alloc r n MIN_PAGE_SIZE = Val (x, r')"
    using bump_page_alloc_total by blast
  with Cons show ?case by (cases x) auto
qed

lemma alloc_from_None:
  "regions_wf rs \<Longrightarrow> alloc_from rs n = Val (None, rs') \<Longrightarrow>
     rs' = rs \<and> (\<forall>r\<in>set rs. \<forall>a. MIN_PAGE_SIZE dvd a \<longrightarrow> ba_start r \<le> a \<longrightarrow> \<not> a + n \<le> ba_next r)"
proof (induction rs arbitrary: rs')
  case Nil
  then show ?case by simp
next
  case (Cons r rs)
  then have wf: "bump_wf r" by (simp add: bump_wf_def direct_map_usize)
  from Cons.prems(2) obtain r' rs'' where r': "bump_alloc r n MIN_PAGE_SIZE = Val (None, r')"
    and rs'': "alloc_from rs n = Val (None, rs'')" "rs' = r' # rs''"
    by (auto simp: exec_bind_Val_iff split: option.splits)
  have "r' = r \<and> (\<forall>a. MIN_PAGE_SIZE dvd a \<longrightarrow> ba_start r \<le> a \<longrightarrow> \<not> a + n \<le> ba_next r)"
    using r' bump_alloc_None [OF is_power_of_two_page page_size_usize wf] by simp
  with Cons.IH [OF _ rs''(1)] Cons.prems(1) rs''(2) show ?case by auto
qed

lemma alloc_from_Some:
  "regions_wf rs \<Longrightarrow> alloc_from rs n = Val (Some a, rs') \<Longrightarrow>
     regions_wf rs' \<and> length rs' = length rs \<and> {a..<a + n} \<subseteq> regions_avail rs
     \<and> regions_avail rs' \<subseteq> regions_avail rs - {a..<a + n}
     \<and> MIN_PAGE_SIZE dvd a \<and> a + n \<le> DIRECT_MAP_END"
proof (induction rs arbitrary: rs')
  case Nil
  then show ?case by simp
next
  case (Cons r rs)
  then have wf: "bump_wf r" by (simp add: bump_wf_def direct_map_usize)
  then obtain x r' where r': "bump_alloc r n MIN_PAGE_SIZE = Val (x, r')"
    using bump_page_alloc_total by blast
  note bump_Some = bump_alloc_Some [OF is_power_of_two_page page_size_usize wf]
  show ?case
  proof (cases x)
    case None
    then have "r' = r"
      using r' bump_alloc_None [OF is_power_of_two_page page_size_usize wf] by simp
    moreover from None r' Cons.prems(2) obtain rs'' where
      "alloc_from rs n = Val (Some a, rs'')" "rs' = r' # rs''"
      by (auto simp: exec_bind_Val_iff)
    ultimately show ?thesis
      using Cons.IH [of rs''] Cons.prems(1) by fastforce
  next
    case (Some b)
    then have a: "bump_alloc r n MIN_PAGE_SIZE = Val (Some a, r')" "rs' = r' # rs"
      using r' Cons.prems(2) by auto
    show ?thesis
      using bump_Some [OF a(1)] Cons.prems(1) a(2) by auto
  qed
qed

section \<open>Well-formed physical memory\<close>

definition phys_wf :: "phys \<Rightarrow> bool" where
  "phys_wf ph \<longleftrightarrow> av_inv (ph_regions ph) \<and> regions_wf (av_list (ph_regions ph))"

definition page_avail :: "phys \<Rightarrow> nat set" where
  "page_avail ph = regions_avail (av_list (ph_regions ph))"

text \<open>The page allocator in terms of the list of regions.\<close>

lemma page_alloc_eq:
  assumes "phys_wf ph" and "0 < n" and "MIN_PAGE_SIZE dvd n"
    and "alloc_from (av_list (ph_regions ph)) n = Val (r, rs)"
  shows "page_alloc t ph n = Val (r,
    ph\<lparr>ph_regions := av_set_slice (ph_regions ph) rs,
       ph_mem := (case r of None \<Rightarrow> ph_mem ph | Some a \<Rightarrow>
         (case t of Dirty \<Rightarrow> ph_mem ph
          | Zeroed \<Rightarrow> mem_fill (ph_mem ph) (vaddr2paddr (paddr2vaddr a)) 0 n))\<rparr>)"
  using assms
  by (auto simp: page_alloc_def phys_wf_def assert_exec_def is_aligned_page av_as_slice_list
      split: option.splits PageType.splits)

lemma page_alloc_total:
  assumes "phys_wf ph" and "0 < n" and "MIN_PAGE_SIZE dvd n"
  shows "\<exists>r ph'. page_alloc t ph n = Val (r, ph') \<and> phys_wf ph'"
proof -
  obtain r rs where r: "alloc_from (av_list (ph_regions ph)) n = Val (r, rs)"
    "length rs = length (av_list (ph_regions ph))"
    using alloc_from_total assms(1) by (metis phys_wf_def)
  have "regions_wf rs"
    using alloc_from_Some [of _ n _ rs] alloc_from_None [of _ n rs] r(1) assms(1)
    by (cases r) (auto simp: phys_wf_def)
  then have "phys_wf (ph\<lparr>ph_regions := av_set_slice (ph_regions ph) rs, ph_mem := m\<rparr>)" for m
    using assms(1) r(2) by (simp add: phys_wf_def av_set_slice_list length_av_list)
  then show ?thesis
    using page_alloc_eq [OF assms r(1), of t] by blast
qed

lemma page_alloc_cases:
  assumes "phys_wf ph" and "0 < n" and "MIN_PAGE_SIZE dvd n" and "page_alloc t ph n = Val (r, ph')"
  obtains rs where "alloc_from (av_list (ph_regions ph)) n = Val (r, rs)"
    and "av_list (ph_regions ph') = rs" and "length rs = length (av_list (ph_regions ph))"
    and "ph_mem ph' = (case r of None \<Rightarrow> ph_mem ph | Some a \<Rightarrow>
         (case t of Dirty \<Rightarrow> ph_mem ph
          | Zeroed \<Rightarrow> mem_fill (ph_mem ph) (vaddr2paddr (paddr2vaddr a)) 0 n))"
proof -
  obtain q rs where q: "alloc_from (av_list (ph_regions ph)) n = Val (q, rs)"
    "length rs = length (av_list (ph_regions ph))"
    using alloc_from_total assms(1) by (metis phys_wf_def)
  have "q = r" "ph' = ph\<lparr>ph_regions := av_set_slice (ph_regions ph) rs,
       ph_mem := (case r of None \<Rightarrow> ph_mem ph | Some a \<Rightarrow>
         (case t of Dirty \<Rightarrow> ph_mem ph
          | Zeroed \<Rightarrow> mem_fill (ph_mem ph) (vaddr2paddr (paddr2vaddr a)) 0 n))\<rparr>"
    using page_alloc_eq [OF assms(1-3) q(1), of t] assms(4) by auto
  with q assms(1) show thesis
    by (intro that [of rs]) (simp_all add: av_set_slice_list phys_wf_def length_av_list)
qed

lemma page_alloc_wf:
  "phys_wf ph \<Longrightarrow> 0 < n \<Longrightarrow> MIN_PAGE_SIZE dvd n \<Longrightarrow> page_alloc t ph n = Val (r, ph') \<Longrightarrow> phys_wf ph'"
  using page_alloc_total [of ph n t] by auto

lemma page_alloc_None:
  assumes "phys_wf ph" and "0 < n" and "MIN_PAGE_SIZE dvd n" and "page_alloc t ph n = Val (None, ph')"
  shows "page_avail ph' = page_avail ph" and "ph_mem ph' = ph_mem ph"
    and "\<forall>r\<in>set (av_list (ph_regions ph)). \<forall>a. MIN_PAGE_SIZE dvd a \<longrightarrow> ba_start r \<le> a
      \<longrightarrow> \<not> a + n \<le> ba_next r"
proof -
  obtain rs where rs: "alloc_from (av_list (ph_regions ph)) n = Val (None, rs)"
    "av_list (ph_regions ph') = rs" "ph_mem ph' = ph_mem ph"
    using page_alloc_cases [OF assms] by auto
  moreover have "regions_wf (av_list (ph_regions ph))"
    using assms(1) by (simp add: phys_wf_def)
  ultimately show "page_avail ph' = page_avail ph" "ph_mem ph' = ph_mem ph"
    "\<forall>r\<in>set (av_list (ph_regions ph)). \<forall>a. MIN_PAGE_SIZE dvd a \<longrightarrow> ba_start r \<le> a
      \<longrightarrow> \<not> a + n \<le> ba_next r"
    using alloc_from_None [OF _ rs(1)] by (auto simp: page_avail_def)
qed

lemma page_alloc_Some:
  assumes "phys_wf ph" and "0 < n" and "MIN_PAGE_SIZE dvd n" and "page_alloc t ph n = Val (Some a, ph')"
  shows "{a..<a + n} \<subseteq> page_avail ph" and "page_avail ph' \<subseteq> page_avail ph - {a..<a + n}"
    and "MIN_PAGE_SIZE dvd a" and "a + n \<le> DIRECT_MAP_END"
    and "ph_mem ph' = (case t of Dirty \<Rightarrow> ph_mem ph | Zeroed \<Rightarrow> mem_fill (ph_mem ph) a 0 n)"
proof -
  obtain rs where rs: "alloc_from (av_list (ph_regions ph)) n = Val (Some a, rs)"
    "av_list (ph_regions ph') = rs"
    "ph_mem ph' = (case t of Dirty \<Rightarrow> ph_mem ph
       | Zeroed \<Rightarrow> mem_fill (ph_mem ph) (vaddr2paddr (paddr2vaddr a)) 0 n)"
    using page_alloc_cases [OF assms] by auto
  have "regions_wf (av_list (ph_regions ph))"
    using assms(1) by (simp add: phys_wf_def)
  note * = alloc_from_Some [OF this rs(1)]
  then show "{a..<a + n} \<subseteq> page_avail ph" "page_avail ph' \<subseteq> page_avail ph - {a..<a + n}"
    "MIN_PAGE_SIZE dvd a" "a + n \<le> DIRECT_MAP_END"
    using rs(2) by (simp_all add: page_avail_def)
  have "a < 2 ^ 47"
    using * assms(2) by (intro below_direct_map) linarith
  then show "ph_mem ph' = (case t of Dirty \<Rightarrow> ph_mem ph | Zeroed \<Rightarrow> mem_fill (ph_mem ph) a 0 n)"
    using rs(3) by (cases t) simp_all
qed

interpretation pages: block_allocator "page_alloc t" page_avail phys_wf
    "\<lambda>n. 0 < n \<and> MIN_PAGE_SIZE dvd n" "\<lambda>a n. MIN_PAGE_SIZE dvd a \<and> a + n \<le> DIRECT_MAP_END"
  for t
proof (unfold_locales, goal_cases)
  case (1 s n)
  then show ?case using page_alloc_total [of s n t] by auto
next
  case (2 s n r s')
  then show ?case using page_alloc_wf by blast
next
  case (3 s n a s')
  then show ?case using page_alloc_Some [of s n t a s'] by simp
next
  case (4 s n a s')
  then show ?case using page_alloc_Some(2) [of s n t a s'] by simp
next
  case (5 s n s')
  then show ?case using page_alloc_None(1) [of s n t s'] by simp
qed

section \<open>The gaps between reserved ranges\<close>

fun gaps :: "PAddr \<Rightarrow> PAddr \<Rightarrow> (PAddr \<times> PAddr) list \<Rightarrow> (PAddr \<times> PAddr) list" where
  "gaps cursor limit [] = (if cursor < limit then [(cursor, limit)] else [])"
| "gaps cursor limit ((rstart, rend) # rs) =
     (if limit \<le> cursor then []
      else if rend \<le> cursor then gaps cursor limit rs
      else if limit \<le> rstart then [(cursor, limit)]
      else (if cursor < rstart then [(cursor, rstart)] else []) @ gaps rend limit rs)"

definition span :: "(PAddr \<times> PAddr) list \<Rightarrow> nat set" where
  "span rs = (\<Union>r\<in>set rs. {fst r..<snd r})"

lemma span_simps [simp]:
  "span [] = {}" "span (r # rs) = {fst r..<snd r} \<union> span rs" "span (rs @ rs') = span rs \<union> span rs'"
  by (auto simp: span_def)

lemma visit_loop_gaps:
  "visit_loop cursor limit reserved f s = exec_fold (\<lambda>(a, b). f a b) (gaps cursor limit reserved) s"
proof (induction reserved arbitrary: cursor s)
  case Nil
  then show ?case by (cases "f cursor limit s") simp_all
next
  case (Cons r reserved)
  then show ?case
    by (cases r; cases "f cursor limit s"; cases "f cursor (fst r) s") simp_all
qed

lemma span_above: "(\<And>r. r \<in> set rs \<Longrightarrow> c \<le> fst r) \<Longrightarrow> x \<in> span rs \<Longrightarrow> c \<le> x"
  by (fastforce simp: span_def)

lemma gaps_bounds:
  "\<forall>r\<in>set rs. fst r \<le> snd r \<Longrightarrow> g \<in> set (gaps cursor limit rs) \<Longrightarrow>
     cursor \<le> fst g \<and> fst g < snd g \<and> snd g \<le> limit"
proof (induction rs arbitrary: cursor)
  case Nil
  then show ?case by (simp split: if_splits)
next
  case (Cons r rs)
  obtain a b where r: "r = (a, b)" by (cases r)
  have "cursor \<le> fst g \<and> fst g < snd g \<and> snd g \<le> limit" if "g \<in> set (gaps cursor limit rs)"
    using Cons that by simp
  moreover have "b \<le> fst g \<and> fst g < snd g \<and> snd g \<le> limit" if "g \<in> set (gaps b limit rs)"
    using Cons that by simp
  ultimately show ?case
    using Cons.prems(2) r by (auto split: if_splits)
qed

lemma gaps_cover:
  "sorted (map fst rs) \<Longrightarrow> \<forall>r\<in>set rs. fst r \<le> snd r \<Longrightarrow>
     span (gaps cursor limit rs) = {cursor..<limit} - span rs"
proof (induction rs arbitrary: cursor)
  case Nil
  then show ?case by simp
next
  case (Cons r rs)
  obtain a b where r: "r = (a, b)" and ab: "a \<le> b"
    using Cons.prems(2) by (cases r) simp
  have later: "a \<le> x" if "x \<in> span rs" for x
    by (rule span_above [OF _ that]) (use Cons.prems(1) r in auto)
  have IH: "span (gaps c limit rs) = {c..<limit} - span rs" for c
    using Cons by simp
  consider "limit \<le> cursor" | "cursor < limit" "b \<le> cursor"
    | "cursor < limit" "cursor < b" "limit \<le> a"
    | "cursor < limit" "cursor < b" "a < limit" "cursor < a"
    | "cursor < limit" "cursor < b" "a < limit" "a \<le> cursor" by linarith
  then show ?case
  proof cases
    case 1
    then show ?thesis by (simp add: r)
  next
    case 2
    then have "gaps cursor limit (r # rs) = gaps cursor limit rs" by (simp add: r)
    moreover have "{cursor..<limit} - span (r # rs) = {cursor..<limit} - span rs"
      using 2 by (auto simp: r)
    ultimately show ?thesis by (simp only: IH)
  next
    case 3
    then have "gaps cursor limit (r # rs) = [(cursor, limit)]" by (simp add: r)
    moreover have "x \<notin> span (r # rs)" if "x < limit" for x
      using that 3 later [of x] by (auto simp: r)
    then have "{cursor..<limit} - span (r # rs) = {cursor..<limit}" by force
    ultimately show ?thesis by simp
  next
    case 4
    then have "gaps cursor limit (r # rs) = (cursor, a) # gaps b limit rs" by (simp add: r)
    moreover have "x \<in> {cursor..<limit} - span (r # rs) \<longleftrightarrow>
        x \<in> {cursor..<a} \<union> ({b..<limit} - span rs)" for x
      using 4 ab later [of x] by (cases "x \<in> span rs") (auto simp: r)
    ultimately show ?thesis by (simp add: IH set_eq_iff)
  next
    case 5
    then have "gaps cursor limit (r # rs) = gaps b limit rs" by (simp add: r)
    moreover have "{cursor..<limit} - span (r # rs) = {b..<limit} - span rs"
      using 5 by (auto simp: r)
    ultimately show ?thesis by (simp only: IH)
  qed
qed

lemma length_gaps: "length (gaps cursor limit rs) \<le> Suc (length rs)"
proof (induction rs arbitrary: cursor)
  case Nil
  then show ?case by simp
next
  case (Cons r rs)
  obtain a b where "r = (a, b)" by (cases r)
  then show ?case using Cons [of cursor] Cons [of b] by simp
qed

section \<open>Initialising the page allocator\<close>

definition region_of :: "PAddr \<times> PAddr \<Rightarrow> BumpAllocator" where
  "region_of g = bump_new (fst g) (snd g)"

lemma bump_avail_region_of [simp]: "bump_avail (region_of g) = {fst g..<snd g}"
  by (simp add: bump_avail_def region_of_def bump_new_def)

lemma ba_next_region_of [simp]: "ba_next (region_of g) = snd g"
  by (simp add: region_of_def bump_new_def)

lemma regions_avail_span [simp]: "regions_avail (map region_of gs) = span gs"
  by (induction gs) auto

lemma gaps_regions_wf:
  assumes "\<forall>r\<in>set rs. fst r \<le> snd r" and "limit \<le> DIRECT_MAP_END"
  shows "regions_wf (map region_of (gaps cursor limit rs))"
  using assms
proof (induction rs arbitrary: cursor)
  case Nil
  then show ?case by simp
next
  case (Cons r rs)
  obtain a b where r: "r = (a, b)" and ab: "a \<le> b"
    using Cons.prems(1) by (cases r) simp
  have "b \<le> fst g" if "g \<in> set (gaps b limit rs)" for g
    using gaps_bounds [OF _ that] Cons.prems(1) by simp
  then have "b \<le> x" if "x \<in> span (gaps b limit rs)" for x
    using that span_above by blast
  with ab have "{cursor..<a} \<inter> span (gaps b limit rs) = {}" by fastforce
  with Cons show ?case by (auto simp: r)
qed

text \<open>The gaps one free RAM region contributes, and all of them in order.\<close>

definition ram_gaps :: "(PAddr \<times> PAddr) list \<Rightarrow> FreeRam \<Rightarrow> (PAddr \<times> PAddr) list" where
  "ram_gaps reserved ram =
     (case checked_add (fr_addr ram) (fr_size ram) of
        None \<Rightarrow> []
      | Some limit \<Rightarrow> gaps (fr_addr ram) (min limit DIRECT_MAP_END) reserved)"

definition ram_block :: "FreeRam \<Rightarrow> nat \<times> nat" where
  "ram_block ram = (fr_addr ram, fr_size ram)"

lemma span_ram_gaps:
  assumes "sorted (map fst reserved)" and "\<forall>r\<in>set reserved. fst r \<le> snd r"
  shows "span (ram_gaps reserved ram) = (if fr_addr ram + fr_size ram \<le> USIZE_MAX
    then block (ram_block ram) \<inter> {..<DIRECT_MAP_END} - span reserved else {})"
  using gaps_cover [OF assms]
  by (auto simp: ram_gaps_def checked_add_def block_def ram_block_def)

lemma ram_gaps_wf:
  "\<forall>r\<in>set reserved. fst r \<le> snd r \<Longrightarrow> regions_wf (map region_of (ram_gaps reserved ram))"
  by (auto simp: ram_gaps_def gaps_regions_wf split: option.split)

lemma ram_gaps_ordered:
  "\<forall>r\<in>set reserved. fst r \<le> snd r \<Longrightarrow> g \<in> set (ram_gaps reserved ram) \<Longrightarrow> fst g \<le> snd g"
  by (cases "checked_add (fr_addr ram) (fr_size ram)")
    (simp_all add: ram_gaps_def, metis gaps_bounds less_imp_le)

lemma length_ram_gaps: "length (ram_gaps reserved ram) \<le> Suc (length reserved)"
  using length_gaps by (auto simp: ram_gaps_def split: option.split)

definition usable_gaps :: "(PAddr \<times> PAddr) list \<Rightarrow> FreeRam list \<Rightarrow> (PAddr \<times> PAddr) list" where
  "usable_gaps reserved rams = concat (map (ram_gaps reserved) rams)"

lemma usable_gaps_simps [simp]:
  "usable_gaps reserved [] = []"
  "usable_gaps reserved (ram # rams) = ram_gaps reserved ram @ usable_gaps reserved rams"
  by (simp_all add: usable_gaps_def)

lemma length_usable_gaps: "length (usable_gaps reserved rams) \<le> length rams * Suc (length reserved)"
proof (induction rams)
  case Nil
  then show ?case by simp
next
  case (Cons ram rams)
  then show ?case using length_ram_gaps [of reserved ram] by simp
qed

lemma span_usable_gaps:
  assumes "sorted (map fst reserved)" and "\<forall>r\<in>set reserved. fst r \<le> snd r"
  shows "span (usable_gaps reserved rams) =
    (\<Union>ram\<in>{ram \<in> set rams. fr_addr ram + fr_size ram \<le> USIZE_MAX}. block (ram_block ram))
      \<inter> {..<DIRECT_MAP_END} - span reserved"
  by (induction rams) (auto simp: span_ram_gaps [OF assms])

lemma usable_gaps_wf:
  assumes "sorted (map fst reserved)" and "\<forall>r\<in>set reserved. fst r \<le> snd r"
    and "disjoint_blocks (map ram_block rams)"
  shows "regions_wf (map region_of (usable_gaps reserved rams))"
  using assms(3)
proof (induction rams)
  case Nil
  then show ?case by simp
next
  case (Cons ram rams)
  have "span (ram_gaps reserved ram) \<subseteq> block (ram_block ram)"
    by (auto simp: span_ram_gaps [OF assms(1,2)])
  moreover have "span (usable_gaps reserved rams) \<subseteq> (\<Union>ram\<in>set rams. block (ram_block ram))"
    by (auto simp: span_usable_gaps [OF assms(1,2)])
  moreover have "block (ram_block ram) \<inter> (\<Union>ram\<in>set rams. block (ram_block ram)) = {}"
    using Cons.prems by auto
  ultimately have "span (ram_gaps reserved ram) \<inter> span (usable_gaps reserved rams) = {}"
    by blast
  with Cons ram_gaps_wf [OF assms(2)] show ?case
    by (simp add: regions_wf_append)
qed

text \<open>Running the loops of \<open>init\<close>.\<close>

lemma push_expect_room:
  assumes "av_inv v" and "length (av_list v) < av_cap v"
  shows "\<exists>v'. push_expect x v = Val v' \<and> av_inv v' \<and> av_list v' = av_list v @ [x] \<and> av_cap v' = av_cap v"
  using avec.push_room [OF assms, of x] by (auto simp: push_expect_def)

lemma push_expect_all:
  "av_inv v \<Longrightarrow> length (av_list v) + length xs \<le> av_cap v \<Longrightarrow>
     \<exists>v'. exec_fold (\<lambda>x. push_expect (g x)) xs v = Val v' \<and> av_inv v'
       \<and> av_list v' = av_list v @ map g xs \<and> av_cap v' = av_cap v"
proof (induction xs arbitrary: v)
  case Nil
  then show ?case by simp
next
  case (Cons x xs)
  then obtain u where u: "push_expect (g x) v = Val u" "av_inv u" "av_list u = av_list v @ [g x]"
    "av_cap u = av_cap v"
    using push_expect_room [of v "g x"] by auto
  with Cons.IH [of u] Cons.prems(2) show ?case by auto
qed

lemma add_region_lossy:
  assumes "av_inv (ph_regions ph)"
  shows "\<exists>ph'. add_region ph a b = Val ph' \<and> av_inv (ph_regions ph') \<and> ph_mem ph' = ph_mem ph
    \<and> av_list (ph_regions ph') = take (av_cap (ph_regions ph)) (av_list (ph_regions ph) @ [region_of (a, b)])
    \<and> av_cap (ph_regions ph') = av_cap (ph_regions ph)"
  using avec.push_lossy [OF assms, of "bump_new a b"] by (auto simp: add_region_def region_of_def)

lemma add_gaps:
  assumes "\<And>g. g \<in> set gs \<Longrightarrow> fst g \<le> snd g" and "av_inv (ph_regions ph)"
  shows "\<exists>ph'. exec_fold (\<lambda>(a, b) ph. exec_bind (usize_sub b a) (\<lambda>_. add_region ph a b)) gs ph = Val ph'
    \<and> av_inv (ph_regions ph') \<and> ph_mem ph' = ph_mem ph
    \<and> av_list (ph_regions ph') = take (av_cap (ph_regions ph)) (av_list (ph_regions ph) @ map region_of gs)
    \<and> av_cap (ph_regions ph') = av_cap (ph_regions ph)"
  using assms
proof (induction gs arbitrary: ph)
  case Nil
  then show ?case using av_len_le_cap [of "ph_regions ph"] by simp
next
  case (Cons g gs)
  obtain a b where g: "g = (a, b)" "a \<le> b"
    using Cons.prems(1) [of g] by (cases g) simp
  obtain ph1 where ph1: "add_region ph a b = Val ph1" "av_inv (ph_regions ph1)" "ph_mem ph1 = ph_mem ph"
    "av_list (ph_regions ph1) = take (av_cap (ph_regions ph)) (av_list (ph_regions ph) @ [region_of g])"
    "av_cap (ph_regions ph1) = av_cap (ph_regions ph)"
    using add_region_lossy [OF Cons.prems(2), of a b] g(1) by blast
  have full: "take n (take n (xs @ [x]) @ ys) = take n (xs @ x # ys)" if "length xs \<le> n"
    for n and xs ys :: "BumpAllocator list" and x
    using that by (cases "length xs = n") auto
  show ?case
    using Cons.IH [of ph1] Cons.prems ph1 g full [OF av_len_le_cap [OF Cons.prems(2)]]
    by (auto simp: usize_sub_def)
qed

lemma init_free_ram_gaps:
  "init_free_ram reserved ram ph =
     exec_fold (\<lambda>(a, b) ph. exec_bind (usize_sub b a) (\<lambda>_. add_region ph a b)) (ram_gaps reserved ram) ph"
  by (simp add: init_free_ram_def ram_gaps_def visit_unused_regions_def visit_loop_gaps
      split: option.split)

lemma init_free_rams_gaps:
  "exec_fold (init_free_ram reserved) rams ph =
     exec_fold (\<lambda>(a, b) ph. exec_bind (usize_sub b a) (\<lambda>_. add_region ph a b)) (usable_gaps reserved rams) ph"
proof (induction rams arbitrary: ph)
  case Nil
  then show ?case by simp
next
  case (Cons ram rams)
  then have "exec_fold (init_free_ram reserved) rams = exec_fold (\<lambda>(a, b) ph.
      exec_bind (usize_sub b a) (\<lambda>_. add_region ph a b)) (usable_gaps reserved rams)"
    by (rule ext)
  then show ?case
    by (simp add: exec_fold_append init_free_ram_gaps [of reserved ram ph])
qed

text \<open>What the boot information lets the kernel use, and what is reserved.\<close>

definition reserved_ranges :: "PAddr \<times> PAddr \<Rightarrow> BootInfo \<Rightarrow> (PAddr \<times> PAddr) list" where
  "reserved_ranges kernel_range bootinfo =
     kernel_range # map (\<lambda>m. (mod_start m, mod_end m)) (av_list (bi_modules bootinfo))"

definition usable_ram :: "PAddr \<times> PAddr \<Rightarrow> BootInfo \<Rightarrow> nat set" where
  "usable_ram kernel_range bootinfo =
     (\<Union>ram\<in>{ram \<in> set (av_list (bi_free_rams bootinfo)). fr_addr ram + fr_size ram \<le> USIZE_MAX}.
        block (ram_block ram)) \<inter> {..<DIRECT_MAP_END} - span (reserved_ranges kernel_range bootinfo)"

definition bootinfo_wf :: "PAddr \<times> PAddr \<Rightarrow> BootInfo \<Rightarrow> bool" where
  "bootinfo_wf kernel_range bootinfo \<longleftrightarrow>
     av_inv (bi_modules bootinfo) \<and> av_cap (bi_modules bootinfo) = NUM_MODULES_MAX
     \<and> av_inv (bi_free_rams bootinfo)
     \<and> (\<forall>r\<in>set (reserved_ranges kernel_range bootinfo). fst r \<le> snd r)
     \<and> disjoint_blocks (map ram_block (av_list (bi_free_rams bootinfo)))"

lemma memory_init_regions:
  assumes "bootinfo_wf kr b" and "av_inv (ph_regions ph)"
  obtains reserved ph' where "memory_init kr b ph = Val ph'" and "sorted (map fst reserved)"
    and "mset reserved = mset (reserved_ranges kr b)" and "av_inv (ph_regions ph')"
    and "ph_mem ph' = ph_mem ph" and "av_cap (ph_regions ph') = av_cap (ph_regions ph)"
    and "av_list (ph_regions ph') = take (av_cap (ph_regions ph))
      (av_list (ph_regions ph) @ map region_of (usable_gaps reserved (av_list (bi_free_rams b))))"
proof -
  have mods: "av_inv (bi_modules b)" "length (av_list (bi_modules b)) \<le> 8" "av_inv (bi_free_rams b)"
    "\<And>r. r \<in> set (reserved_ranges kr b) \<Longrightarrow> fst r \<le> snd r"
    using assms(1) av_len_le_cap [of "bi_modules b"] by (auto simp: bootinfo_wf_def NUM_MODULES_MAX_def)
  have "av_inv (av_new 9 :: (nat \<times> nat) ArrayVec)"
    by (simp add: av_new_inv USIZE_MAX_def)
  then obtain v where v: "push_expect kr (av_new 9) = Val v" "av_inv v" "av_list v = [kr]" "av_cap v = 9"
    using push_expect_room [of "av_new 9" kr] by auto
  obtain v' where v': "exec_fold (\<lambda>m. push_expect (mod_start m, mod_end m)) (av_list (bi_modules b)) v = Val v'"
    "av_inv v'" "av_list v' = reserved_ranges kr b"
    using push_expect_all [OF v(2), of "av_list (bi_modules b)" "\<lambda>m. (mod_start m, mod_end m)"] v(3,4) mods(2)
    by (auto simp: reserved_ranges_def)
  obtain reserved where r: "bubble_sort (\<lambda>a b. fst a > fst b) (reserved_ranges kr b) = Val reserved"
    "mset reserved = mset (reserved_ranges kr b)" "sorted (map fst reserved)"
    using bubble_sort_correct [of fst "reserved_ranges kr b"] by auto
  have len: "length reserved = av_len v'"
    using r(2) v'(2,3) by (metis length_av_list size_mset)
  let ?gs = "usable_gaps reserved (av_list (bi_free_rams b))"
  have "fst g \<le> snd g" if "g \<in> set ?gs" for g
    using that ram_gaps_ordered [of reserved g] mods(4) mset_eq_setD [OF r(2)]
    by (auto simp: usable_gaps_def)
  then obtain ph' where ph': "exec_fold (\<lambda>(a, b) ph. exec_bind (usize_sub b a) (\<lambda>_. add_region ph a b)) ?gs ph
      = Val ph'" "av_inv (ph_regions ph')" "ph_mem ph' = ph_mem ph"
    "av_list (ph_regions ph') = take (av_cap (ph_regions ph)) (av_list (ph_regions ph) @ map region_of ?gs)"
    "av_cap (ph_regions ph') = av_cap (ph_regions ph)"
    using add_gaps [of ?gs ph] assms(2) by blast
  have "memory_init kr b ph = Val ph'"
    using v v' mods(1,3) r len ph'(1)
    by (simp add: memory_init_def NUM_MODULES_MAX_def av_as_slice_list av_set_slice_list
        init_free_rams_gaps)
  with r ph' show thesis by (intro that [of ph' reserved])
qed

lemma memory_init_carves_usable_ram_aux:
  assumes "bootinfo_wf kr b" and "av_inv (ph_regions ph)" and "av_list (ph_regions ph) = []"
  shows "\<exists>ph'. memory_init kr b ph = Val ph' \<and> phys_wf ph' \<and> ph_mem ph' = ph_mem ph
    \<and> page_avail ph' \<subseteq> usable_ram kr b
    \<and> (length (av_list (bi_free_rams b)) * (length (av_list (bi_modules b)) + 2) \<le> av_cap (ph_regions ph)
        \<longrightarrow> page_avail ph' = usable_ram kr b)"
proof -
  obtain reserved ph' where r: "memory_init kr b ph = Val ph'" "sorted (map fst reserved)"
    "mset reserved = mset (reserved_ranges kr b)" "av_inv (ph_regions ph')" "ph_mem ph' = ph_mem ph"
    "av_list (ph_regions ph') = take (av_cap (ph_regions ph))
      (map region_of (usable_gaps reserved (av_list (bi_free_rams b))))"
    using memory_init_regions [OF assms(1,2)] assms(3) by (metis append_Nil)
  let ?gs = "usable_gaps reserved (av_list (bi_free_rams b))"
  have res: "set reserved = set (reserved_ranges kr b)" "\<forall>r\<in>set reserved. fst r \<le> snd r"
    "length reserved = Suc (length (av_list (bi_modules b)))"
    using mset_eq_setD [OF r(3)] mset_eq_length [OF r(3)] assms(1)
    by (simp_all add: bootinfo_wf_def reserved_ranges_def)
  have "span reserved = span (reserved_ranges kr b)"
    by (simp add: span_def res(1))
  then have span: "span ?gs = usable_ram kr b"
    by (simp add: span_usable_gaps [OF r(2) res(2)] usable_ram_def)
  have "regions_wf (map region_of ?gs)"
    using assms(1) by (intro usable_gaps_wf r(2) res(2)) (simp add: bootinfo_wf_def)
  then have "phys_wf ph'"
    using r(4,6) by (simp add: phys_wf_def regions_wf_take)
  moreover have "page_avail ph' \<subseteq> usable_ram kr b"
    using regions_avail_take [of _ "map region_of ?gs"] r(6) span by (simp add: page_avail_def)
  moreover have "page_avail ph' = usable_ram kr b"
    if "length (av_list (bi_free_rams b)) * (length (av_list (bi_modules b)) + 2) \<le> av_cap (ph_regions ph)"
  proof -
    have "length ?gs \<le> av_cap (ph_regions ph)"
      using length_usable_gaps [of reserved "av_list (bi_free_rams b)"] that res(3) by simp
    then show ?thesis
      using r(6) span by (simp add: page_avail_def)
  qed
  ultimately show ?thesis using r(1,5) by blast
qed

section \<open>Properties\<close>

text \<open>
  C13. The boot-time initialisation of the page allocator. For boot information whose
  vectors are well formed, whose reserved ranges are not reversed and whose free RAM
  regions do not overlap, \<open>memory::init\<close> does not panic, leaves memory untouched and
  builds well-formed regions that hold free RAM below the end of the direct map and no
  byte of the kernel image or of a boot module; when the gaps cannot outnumber the slots
  of the allocator, the regions hold exactly that memory.
\<close>

theorem memory_init_carves_usable_ram:
  assumes "bootinfo_wf kr b" and "av_inv (ph_regions ph)" and "av_list (ph_regions ph) = []"
  shows "\<exists>ph'. memory_init kr b ph = Val ph' \<and> phys_wf ph' \<and> ph_mem ph' = ph_mem ph
    \<and> page_avail ph' \<subseteq> usable_ram kr b
    \<and> (length (av_list (bi_free_rams b)) * (length (av_list (bi_modules b)) + 2) \<le> av_cap (ph_regions ph)
        \<longrightarrow> page_avail ph' = usable_ram kr b)"
  by (rule memory_init_carves_usable_ram_aux [OF assms])

text \<open>The machine of the examples: one region of RAM, the kernel image and one module.\<close>

definition example_boot :: BootInfo where
  "example_boot = \<lparr>bi_cmdline = [],
     bi_modules = \<lparr>av_elems = Some \<lparr>mod_start = 0x300000, mod_end = 0x301000\<rparr> # replicate 7 None,
       av_len = 1\<rparr>,
     bi_free_rams = \<lparr>av_elems = Some \<lparr>fr_addr = 0x100000, fr_size = 0x400000\<rparr> # replicate 7 None,
       av_len = 1\<rparr>\<rparr>"

definition example_phys :: phys where
  "example_phys = \<lparr>ph_mem = (\<lambda>_. 0xcc), ph_regions = page_allocator_new\<rparr>"

lemma example_boot_wf: "bootinfo_wf (0x100000, 0x200000) example_boot"
  by (simp add: bootinfo_wf_def example_boot_def av_inv_def av_cap_def NUM_MODULES_MAX_def
      reserved_ranges_def av_list_def USIZE_MAX_def)

lemma example_phys_new:
  "av_inv (ph_regions example_phys)" "av_list (ph_regions example_phys) = []"
  "av_cap (ph_regions example_phys) = 8"
  by (simp_all add: example_phys_def page_allocator_new_def av_new_inv USIZE_MAX_def)

theorem memory_init_carves_usable_ram_witness:
  "\<exists>ph'. memory_init (0x100000, 0x200000) example_boot example_phys = Val ph'
    \<and> page_avail ph' = usable_ram (0x100000, 0x200000) example_boot
    \<and> 0x400000 \<in> page_avail ph' \<and> 0x150000 \<notin> page_avail ph' \<and> 0x300800 \<notin> page_avail ph'"
proof -
  have small: "length (av_list (bi_free_rams example_boot)) * (length (av_list (bi_modules example_boot)) + 2)
      \<le> av_cap (ph_regions example_phys)"
    by (simp add: example_phys_new example_boot_def av_list_def)
  have "0x400000 \<in> usable_ram (0x100000, 0x200000) example_boot"
    "0x150000 \<notin> usable_ram (0x100000, 0x200000) example_boot"
    "0x300800 \<notin> usable_ram (0x100000, 0x200000) example_boot"
    by (simp_all add: usable_ram_def example_boot_def av_list_def ram_block_def block_def
        reserved_ranges_def direct_map_bound USIZE_MAX_def)
  then show ?thesis
    using memory_init_carves_usable_ram [OF example_boot_wf example_phys_new(1,2)] small by auto
qed

text \<open>
  C1. Page allocations after boot. Once \<open>memory::init\<close> has run, every sequence of page
  allocations of whole pages succeeds or fails without panicking, and the blocks it hands
  out are page aligned, pairwise disjoint, inside free RAM below the end of the direct
  map, and outside the kernel image and the boot modules.
\<close>

theorem boot_page_allocations_safe:
  assumes "bootinfo_wf kr b" and "av_inv (ph_regions ph)" and "av_list (ph_regions ph) = []"
    and "memory_init kr b ph = Val ph1" and "list_all (\<lambda>n. 0 < n \<and> MIN_PAGE_SIZE dvd n) ns"
  shows "\<exists>bs ph2. alloc_blocks (page_alloc t) ph1 ns = Val (bs, ph2) \<and> phys_wf ph2
    \<and> disjoint_blocks bs
    \<and> (\<forall>(a, n)\<in>set bs. MIN_PAGE_SIZE dvd a \<and> a + n \<le> DIRECT_MAP_END
         \<and> {a..<a + n} \<subseteq> usable_ram kr b)"
proof -
  have wf: "phys_wf ph1" and avail: "page_avail ph1 \<subseteq> usable_ram kr b"
    using memory_init_carves_usable_ram_aux [OF assms(1-3)] assms(4) by auto
  obtain bs ph2 where bs: "alloc_blocks (page_alloc t) ph1 ns = Val (bs, ph2)" "phys_wf ph2"
    using pages.alloc_blocks_total [OF wf assms(5)] by blast
  with pages.alloc_blocks_avail [OF wf assms(5) bs(1)] avail show ?thesis
    by (fastforce simp: block_def)
qed

theorem boot_page_allocations_safe_witness:
  "\<exists>ph1 bs ph2. memory_init (0x100000, 0x200000) example_boot example_phys = Val ph1
    \<and> alloc_blocks (page_alloc Zeroed) ph1 [4096, 8192] = Val (bs, ph2) \<and> disjoint_blocks bs
    \<and> (\<forall>(a, n)\<in>set bs. 4096 dvd a \<and> {a..<a + n} \<inter> {0x100000..<0x200000} = {})"
proof -
  obtain ph1 where ph1: "memory_init (0x100000, 0x200000) example_boot example_phys = Val ph1"
    using memory_init_carves_usable_ram_aux [OF example_boot_wf example_phys_new(1,2)] by blast
  have reserved: "usable_ram (0x100000, 0x200000) example_boot \<inter> {0x100000..<0x200000} = {}"
    by (auto simp: usable_ram_def reserved_ranges_def)
  have "list_all (\<lambda>n. 0 < n \<and> MIN_PAGE_SIZE dvd n) [4096, 8192]"
    by (simp add: MIN_PAGE_SIZE_def)
  then obtain bs ph2 where bs: "alloc_blocks (page_alloc Zeroed) ph1 [4096, 8192] = Val (bs, ph2)"
    "disjoint_blocks bs" "\<And>a n. (a, n) \<in> set bs \<Longrightarrow> MIN_PAGE_SIZE dvd a
      \<and> {a..<a + n} \<subseteq> usable_ram (0x100000, 0x200000) example_boot"
    using boot_page_allocations_safe [OF example_boot_wf example_phys_new(1,2) ph1] by blast
  have "4096 dvd a \<and> {a..<a + n} \<inter> {0x100000..<0x200000} = {}" if "(a, n) \<in> set bs" for a n
    using bs(3) [OF that] reserved unfolding MIN_PAGE_SIZE_def by blast
  then show ?thesis using ph1 bs(1,2) by blast
qed

text \<open>
  One page allocation. A whole-page request on well-formed regions never panics. When
  it returns a block, the block is page aligned, comes out of the available memory and is
  no longer available; asking for zeroed pages zeroes exactly that block, asking for dirty
  pages writes nothing. When it fails, no region had an aligned block of that length left.
\<close>

theorem page_alloc_contract:
  assumes "phys_wf ph" and "0 < n" and "MIN_PAGE_SIZE dvd n"
  shows "\<exists>r ph'. page_alloc t ph n = Val (r, ph') \<and> phys_wf ph' \<and>
    (case r of
       None \<Rightarrow> page_avail ph' = page_avail ph \<and> ph_mem ph' = ph_mem ph
         \<and> (\<forall>region\<in>set (av_list (ph_regions ph)). \<forall>a. MIN_PAGE_SIZE dvd a \<longrightarrow>
              ba_start region \<le> a \<longrightarrow> \<not> a + n \<le> ba_next region)
     | Some a \<Rightarrow> MIN_PAGE_SIZE dvd a \<and> {a..<a + n} \<subseteq> page_avail ph
         \<and> page_avail ph' \<subseteq> page_avail ph - {a..<a + n}
         \<and> ph_mem ph' = (if t = Zeroed then mem_fill (ph_mem ph) a 0 n else ph_mem ph))"
proof -
  obtain r ph' where r: "page_alloc t ph n = Val (r, ph')" "phys_wf ph'"
    using page_alloc_total [OF assms] by blast
  show ?thesis
  proof (cases r)
    case None
    with r show ?thesis using page_alloc_None [OF assms, of t ph'] by auto
  next
    case (Some a)
    with r show ?thesis using page_alloc_Some [OF assms, of t a ph'] by (cases t) auto
  qed
qed

theorem page_alloc_contract_witness:
  "\<exists>r ph'. page_alloc Zeroed (example_phys\<lparr>ph_regions := \<lparr>av_elems = [Some (bump_new 0x1000 0x5800)],
      av_len = 1\<rparr>\<rparr>) 0x2000 = Val (r, ph') \<and> phys_wf ph' \<and> r = Some 0x3000 \<and> ph_mem ph' 0x3fff = 0
      \<and> ph_mem ph' 0x5000 = 0xcc"
proof -
  let ?ph = "example_phys\<lparr>ph_regions := \<lparr>av_elems = [Some (bump_new 0x1000 0x5800)], av_len = 1\<rparr>\<rparr>"
  have wf: "phys_wf ?ph"
    by (simp add: phys_wf_def av_inv_def av_list_def USIZE_MAX_def bump_new_def direct_map_bound)
  have n: "(0::nat) < 0x2000" "MIN_PAGE_SIZE dvd 0x2000"
    by (simp_all add: MIN_PAGE_SIZE_def)
  have "bump_alloc (bump_new 0x1000 0x5800) 0x2000 MIN_PAGE_SIZE
      = Val (Some 0x3000, bump_new 0x1000 0x3000)"
    by (simp add: bump_alloc_eq bump_wf_def bump_new_def round_down_def MIN_PAGE_SIZE_def USIZE_MAX_def
        is_power_of_two_page [unfolded MIN_PAGE_SIZE_def])
  then have "alloc_from (av_list (ph_regions ?ph)) 0x2000 = Val (Some 0x3000, [bump_new 0x1000 0x3000])"
    by (simp add: av_list_def)
  then obtain ph' where "page_alloc Zeroed ?ph 0x2000 = Val (Some 0x3000, ph')"
    using page_alloc_eq [OF wf n] by blast
  then show ?thesis
    using page_alloc_contract [OF wf n, of Zeroed] by (auto simp: mem_fill_def example_phys_def)
qed

end
