(* ===== verification/Malloc.thy ===== *)
theory Malloc
  imports Alignment
begin

text \<open>
  \<open>libs/rust/ftl_malloc\<close>: a K\&R-style first-fit allocator. Its free list is threaded
  through headers that live in the memory it manages; \<open>ll_headers\<close> is that memory, seen
  as the headers written at each address (no header there is \<open>None\<close>, and following a
  pointer to such an address is \<open>Undef\<close>). Chunks are split but never merged. The search
  loop follows \<open>next\<close> pointers and would not end on a cyclic list, so it is a
  \<open>partial_function\<close> whose value \<open>None\<close> means that it does not return; the
  invariant \<open>malloc_wf\<close> (an acyclic list of exactly the free chunks, and chunks that do
  not overlap) makes it return.
\<close>

section \<open>Headers\<close>

record Header =
  h_next :: "nat option"
  h_capacity :: nat
  h_magic :: u32

definition MAGIC_FREE :: u32 where
  "MAGIC_FREE = 0x5f5f5f5f"

definition MAGIC_ALLOCATED :: u32 where
  "MAGIC_ALLOCATED = 0x5a5a5a5a"

definition HEADER_SIZE :: usize where
  "HEADER_SIZE = 16"

definition MIN_CAPACITY :: usize where
  "MIN_CAPACITY = 16"

definition MIN_SIZE :: usize where
  "MIN_SIZE = 16"

definition data_ptr :: "nat \<Rightarrow> nat" where
  "data_ptr addr = addr + HEADER_SIZE"

definition from_data_ptr :: "nat \<Rightarrow> nat" where
  "from_data_ptr ptr = ptr - HEADER_SIZE"

definition can_fit :: "nat \<Rightarrow> Header \<Rightarrow> nat \<Rightarrow> usize \<Rightarrow> (unit + nat) exec" where
  "can_fit addr h sz align =
     (if sz \<le> h_capacity h
      then exec_bind (is_aligned (data_ptr addr) align) (\<lambda>b.
             Val (if b then Inr (data_ptr addr) else Inl ()))
      else Val (Inl ()))"

definition try_split :: "nat \<Rightarrow> Header \<Rightarrow> nat \<Rightarrow> ((nat \<times> nat) option \<times> Header) exec" where
  "try_split addr h sz =
     (case checked_sub (h_capacity h) sz of
        None \<Rightarrow> Val (None, h)
      | Some remaining \<Rightarrow>
          if remaining < HEADER_SIZE + MIN_CAPACITY then Val (None, h)
          else (case checked_sub remaining HEADER_SIZE of
              None \<Rightarrow> Val (None, h)
            | Some remainder \<Rightarrow>
                let new_header_ptr = data_ptr addr + sz in
                exec_bind (is_aligned new_header_ptr MIN_SIZE) (\<lambda>b. assert_exec b
                  (Val (Some (new_header_ptr, remainder), h\<lparr>h_capacity := sz\<rparr>)))))"

section \<open>The allocator\<close>

record LinkedListAllocator =
  ll_head :: "nat option"
  ll_headers :: "nat \<rightharpoonup> Header"

definition malloc_new :: "(nat \<rightharpoonup> Header) \<Rightarrow> LinkedListAllocator" where
  "malloc_new headers = \<lparr>ll_head = None, ll_headers = headers\<rparr>"

definition add_chunk :: "LinkedListAllocator \<Rightarrow> nat \<Rightarrow> usize \<Rightarrow> LinkedListAllocator exec" where
  "add_chunk A ptr sz =
     (if ptr = 0 then Val A
      else exec_bind (is_aligned ptr MIN_SIZE) (\<lambda>aligned.
        if \<not> aligned then Val A
        else (case checked_sub sz HEADER_SIZE of
            None \<Rightarrow> Val A
          | Some capacity \<Rightarrow>
              if capacity < MIN_CAPACITY then Val A
              else if U32_MAX < capacity then Val A
              else Val (A\<lparr>ll_headers := (ll_headers A)(ptr \<mapsto>
                       \<lparr>h_next = ll_head A, h_capacity = capacity, h_magic = MAGIC_FREE\<rparr>),
                     ll_head := Some ptr\<rparr>))))"

text \<open>
  The body of the search loop once a chunk fits: split it if it is large enough, mark it
  allocated, and unlink it from the predecessor or from the head.
\<close>

definition take_chunk :: "LinkedListAllocator \<Rightarrow> nat option \<Rightarrow> nat \<Rightarrow> Header \<Rightarrow> nat
    \<Rightarrow> LinkedListAllocator exec" where
  "take_chunk A prev head h sz =
     exec_bind (try_split head h sz) (\<lambda>(split, h').
       let (next_free, headers) =
             (case split of
                Some (new_header, remainder) \<Rightarrow>
                  (Some new_header, (ll_headers A)(new_header \<mapsto>
                     \<lparr>h_next = h_next h', h_capacity = remainder, h_magic = MAGIC_FREE\<rparr>))
              | None \<Rightarrow> (h_next h', ll_headers A));
           headers' = headers(head \<mapsto> h'\<lparr>h_magic := MAGIC_ALLOCATED, h_next := None\<rparr>)
       in case prev of
            None \<Rightarrow> Val (A\<lparr>ll_headers := headers', ll_head := next_free\<rparr>)
          | Some p \<Rightarrow>
              (case headers' p of
                 None \<Rightarrow> Undef
               | Some ph \<Rightarrow> Val (A\<lparr>ll_headers := headers'(p \<mapsto> ph\<lparr>h_next := next_free\<rparr>)\<rparr>)))"

partial_function (option) malloc_loop :: "LinkedListAllocator \<Rightarrow> nat \<Rightarrow> usize \<Rightarrow> nat option
    \<Rightarrow> nat option \<Rightarrow> (nat option \<times> LinkedListAllocator) exec option" where
  "malloc_loop A sz align prev next =
     (case next of
        None \<Rightarrow> Some (Val (None, A))
      | Some head \<Rightarrow>
          (case ll_headers A head of
             None \<Rightarrow> Some Undef
           | Some h \<Rightarrow>
               if h_magic h \<noteq> MAGIC_FREE then Some Panic
               else (case can_fit head h sz align of
                   Panic \<Rightarrow> Some Panic
                 | Undef \<Rightarrow> Some Undef
                 | Val (Inr data) \<Rightarrow>
                     Some (exec_bind (take_chunk A prev head h sz) (\<lambda>A'. Val (Some data, A')))
                 | Val (Inl u) \<Rightarrow> malloc_loop A sz align (Some head) (h_next h))))"

definition malloc :: "LinkedListAllocator \<Rightarrow> usize \<Rightarrow> usize
    \<Rightarrow> (nat option \<times> LinkedListAllocator) exec option" where
  "malloc A sz align =
     (if \<not> (is_power_of_two align \<and> 0 < align \<and> 0 < sz) then Some Panic
      else if U32_MAX div 2 < sz then Some (Val (None, A))
      else (case align_up sz MIN_SIZE of
          Panic \<Rightarrow> Some Panic
        | Undef \<Rightarrow> Some Undef
        | Val sz' \<Rightarrow> malloc_loop A sz' align None (ll_head A)))"

definition free :: "LinkedListAllocator \<Rightarrow> nat \<Rightarrow> LinkedListAllocator exec" where
  "free A ptr =
     (if ptr = 0 then Val A
      else let header_ptr = from_data_ptr ptr in
        (case ll_headers A header_ptr of
           None \<Rightarrow> Undef
         | Some h \<Rightarrow>
             if h_magic h \<noteq> MAGIC_ALLOCATED then Panic
             else Val (A\<lparr>ll_headers := (ll_headers A)(header_ptr \<mapsto>
                          h\<lparr>h_magic := MAGIC_FREE, h_next := ll_head A\<rparr>),
                        ll_head := Some header_ptr\<rparr>)))"

section \<open>Free lists\<close>

text \<open>\<open>free_seg H x as y\<close>: from \<open>x\<close> the list runs through the free chunks \<open>as\<close> to \<open>y\<close>.\<close>

fun free_seg :: "(nat \<rightharpoonup> Header) \<Rightarrow> nat option \<Rightarrow> nat list \<Rightarrow> nat option \<Rightarrow> bool" where
  "free_seg H x [] y = (x = y)"
| "free_seg H x (a # as) y =
     (x = Some a \<and> (case H a of None \<Rightarrow> False
        | Some h \<Rightarrow> h_magic h = MAGIC_FREE \<and> free_seg H (h_next h) as y))"

lemma free_seg_append:
  "free_seg H x (as @ bs) y \<longleftrightarrow> (\<exists>z. free_seg H x as z \<and> free_seg H z bs y)"
  by (induction as arbitrary: x) (auto split: option.splits)

lemma free_seg_frame:
  "a \<notin> set as \<Longrightarrow> free_seg (H(a \<mapsto> h)) x as y = free_seg H x as y"
  by (induction as arbitrary: x) (auto split: option.splits)

lemma free_seg_dom: "free_seg H x as y \<Longrightarrow> a \<in> set as \<Longrightarrow> \<exists>h. H a = Some h \<and> h_magic h = MAGIC_FREE"
  by (induction as arbitrary: x) (auto split: option.splits)

lemma free_seg_relink_last:
  assumes "free_seg H x (as @ [l]) y" and "l \<notin> set as" and "H l = Some h"
  shows "free_seg (H(l \<mapsto> h\<lparr>h_next := z\<rparr>)) x (as @ [l]) z"
  using assms by (auto simp: free_seg_append free_seg_frame)

lemma magic_distinct [simp]: "MAGIC_FREE \<noteq> MAGIC_ALLOCATED" "MAGIC_ALLOCATED \<noteq> MAGIC_FREE"
  by (simp_all add: MAGIC_FREE_def MAGIC_ALLOCATED_def)

section \<open>Chunks\<close>

text \<open>
  The chunks, without the links between them: capacity and magic at each header address.
  \<open>chunks_wf\<close>: headers are aligned and not null, chunks stay inside the address space and
  do not overlap (a chunk is its header followed by its data area).
\<close>

definition chunks :: "(nat \<rightharpoonup> Header) \<Rightarrow> (nat \<rightharpoonup> nat \<times> u32)" where
  "chunks H = (\<lambda>a. map_option (\<lambda>h. (h_capacity h, h_magic h)) (H a))"

definition chunk_end :: "nat \<Rightarrow> nat \<Rightarrow> nat" where
  "chunk_end a c = a + HEADER_SIZE + c"

definition chunks_wf :: "(nat \<rightharpoonup> nat \<times> u32) \<Rightarrow> bool" where
  "chunks_wf V \<longleftrightarrow>
     (\<forall>a c m. V a = Some (c, m) \<longrightarrow> 0 < a \<and> MIN_SIZE dvd a \<and> c \<le> U32_MAX
        \<and> (m = MAGIC_FREE \<or> m = MAGIC_ALLOCATED) \<and> chunk_end a c \<le> USIZE_MAX)
     \<and> (\<forall>a c m b d n. V a = Some (c, m) \<longrightarrow> V b = Some (d, n) \<longrightarrow> a \<noteq> b \<longrightarrow>
          chunk_end a c \<le> b \<or> chunk_end b d \<le> a)"

lemma chunks_wfD:
  assumes "chunks_wf V" and "V a = Some (c, m)"
  shows "0 < a" and "MIN_SIZE dvd a" and "c \<le> U32_MAX" and "m = MAGIC_FREE \<or> m = MAGIC_ALLOCATED"
    and "chunk_end a c \<le> USIZE_MAX"
  using assms unfolding chunks_wf_def by blast+

lemma chunks_wf_disjoint:
  "chunks_wf V \<Longrightarrow> V a = Some (c, m) \<Longrightarrow> V b = Some (d, n) \<Longrightarrow> a \<noteq> b \<Longrightarrow>
     chunk_end a c \<le> b \<or> chunk_end b d \<le> a"
  unfolding chunks_wf_def by blast

lemma chunks_update: "chunks (H(a \<mapsto> h)) = (chunks H)(a \<mapsto> (h_capacity h, h_magic h))"
  by (auto simp: chunks_def)

lemma chunks_relink [simp]: "H p = Some h \<Longrightarrow> chunks (H(p \<mapsto> h\<lparr>h_next := z\<rparr>)) = chunks H"
  by (auto simp: chunks_def)

lemma chunks_wf_mark:
  assumes "chunks_wf V" and "V b = Some (c, m)" and "m' = MAGIC_FREE \<or> m' = MAGIC_ALLOCATED"
  shows "chunks_wf (V(b \<mapsto> (c, m')))"
  unfolding chunks_wf_def
proof (intro conjI allI impI)
  fix a d n e k l i
  assume "(V(b \<mapsto> (c, m'))) a = Some (d, n)" "(V(b \<mapsto> (c, m'))) e = Some (k, l)" "a \<noteq> e"
  then show "chunk_end a d \<le> e \<or> chunk_end e k \<le> a"
    using chunks_wf_disjoint [OF assms(1), of a _ _ e] assms(2)
    by (auto split: if_splits)
next
qed (use assms chunks_wfD [OF assms(1)] in \<open>auto split: if_splits\<close>)

lemma chunks_wf_add:
  assumes "chunks_wf V" and "0 < p" and "MIN_SIZE dvd p" and "c \<le> U32_MAX"
    and "chunk_end p c \<le> USIZE_MAX" and "m = MAGIC_FREE \<or> m = MAGIC_ALLOCATED"
    and "\<And>a d n. V a = Some (d, n) \<Longrightarrow> chunk_end a d \<le> p \<or> chunk_end p c \<le> a"
  shows "chunks_wf (V(p \<mapsto> (c, m)))"
  unfolding chunks_wf_def
proof (intro conjI allI impI)
  fix a d n e k l i
  assume "(V(p \<mapsto> (c, m))) a = Some (d, n)" "(V(p \<mapsto> (c, m))) e = Some (k, l)" "a \<noteq> e"
  then show "chunk_end a d \<le> e \<or> chunk_end e k \<le> a"
    using chunks_wf_disjoint [OF assms(1), of a d n e k l] assms(7)
    by (auto split: if_splits)
next
qed (use assms chunks_wfD [OF assms(1)] in \<open>auto split: if_splits\<close>)

lemma chunks_wf_forget: "chunks_wf V \<Longrightarrow> chunks_wf (V(b := None))"
  unfolding chunks_wf_def by (auto split: if_splits)

lemma chunks_wf_shrink:
  assumes "chunks_wf V" and "V b = Some (c, m)" and "d \<le> c"
  shows "chunks_wf (V(b \<mapsto> (d, m)))"
proof -
  have "chunks_wf ((V(b := None))(b \<mapsto> (d, m)))"
  proof (rule chunks_wf_add [OF chunks_wf_forget [OF assms(1)]])
    fix a e n assume "(V(b := None)) a = Some (e, n)"
    then have "a \<noteq> b" "V a = Some (e, n)" by (simp_all split: if_splits)
    then show "chunk_end a e \<le> b \<or> chunk_end b d \<le> a"
      using chunks_wf_disjoint [OF assms(1) _ assms(2), of a e n] assms(3)
      by (auto simp: chunk_end_def)
  qed (use chunks_wfD [OF assms(1,2)] assms(3) in \<open>auto simp: chunk_end_def\<close>)
  then show ?thesis by simp
qed

text \<open>Splitting a chunk at \<open>sz\<close> gives two chunks that fill it exactly.\<close>

lemma chunks_wf_split:
  assumes "chunks_wf V" and "V b = Some (c, m)" and "sz + HEADER_SIZE \<le> c" and "MIN_SIZE dvd sz"
  shows "V (b + HEADER_SIZE + sz) = None"
    and "chunks_wf (V(b \<mapsto> (sz, MAGIC_ALLOCATED), b + HEADER_SIZE + sz \<mapsto> (c - sz - HEADER_SIZE, MAGIC_FREE)))"
proof -
  let ?new = "b + HEADER_SIZE + sz"
  show fresh: "V ?new = None"
  proof (rule ccontr)
    assume "V ?new \<noteq> None"
    then obtain d n where "V ?new = Some (d, n)" by auto
    from chunks_wf_disjoint [OF assms(1,2) this] assms(3) show False
      by (auto simp: chunk_end_def HEADER_SIZE_def)
  qed
  have b: "0 < b" "MIN_SIZE dvd b" "c \<le> U32_MAX" "chunk_end b c \<le> USIZE_MAX"
    using chunks_wfD [OF assms(1,2)] by simp_all
  have wf1: "chunks_wf (V(b \<mapsto> (sz, MAGIC_ALLOCATED)))"
    using chunks_wf_mark [OF chunks_wf_shrink [OF assms(1,2)], of sz b _ _ MAGIC_ALLOCATED] assms(3)
    by simp
  show "chunks_wf (V(b \<mapsto> (sz, MAGIC_ALLOCATED), ?new \<mapsto> (c - sz - HEADER_SIZE, MAGIC_FREE)))"
  proof (rule chunks_wf_add [OF wf1])
    fix a d n assume a: "(V(b \<mapsto> (sz, MAGIC_ALLOCATED))) a = Some (d, n)"
    show "chunk_end a d \<le> ?new \<or> chunk_end ?new (c - sz - HEADER_SIZE) \<le> a"
    proof (cases "a = b")
      case True
      with a show ?thesis by (simp add: chunk_end_def)
    next
      case False
      with a have "V a = Some (d, n)" by simp
      from chunks_wf_disjoint [OF assms(1,2) this] False assms(3) show ?thesis
        by (auto simp: chunk_end_def)
    qed
  qed (use b assms(3,4) in \<open>auto simp: chunk_end_def MIN_SIZE_def HEADER_SIZE_def\<close>)
qed

section \<open>The invariant\<close>

definition free_list :: "LinkedListAllocator \<Rightarrow> nat list \<Rightarrow> bool" where
  "free_list A cs \<longleftrightarrow> free_seg (ll_headers A) (ll_head A) cs None \<and> distinct cs
     \<and> (\<forall>a. a \<in> set cs \<longleftrightarrow> (\<exists>c. chunks (ll_headers A) a = Some (c, MAGIC_FREE)))"

definition malloc_wf :: "LinkedListAllocator \<Rightarrow> bool" where
  "malloc_wf A \<longleftrightarrow> chunks_wf (chunks (ll_headers A)) \<and> (\<exists>cs. free_list A cs)"

text \<open>The blocks a client holds: the data pointers of allocated chunks and their capacity.\<close>

definition live :: "LinkedListAllocator \<Rightarrow> (nat \<rightharpoonup> nat)" where
  "live A = (\<lambda>p. if p < HEADER_SIZE then None else
     (case chunks (ll_headers A) (p - HEADER_SIZE) of
        None \<Rightarrow> None
      | Some (c, m) \<Rightarrow> if m = MAGIC_ALLOCATED then Some c else None))"

definition fits :: "(nat \<rightharpoonup> Header) \<Rightarrow> nat \<Rightarrow> usize \<Rightarrow> nat \<Rightarrow> bool" where
  "fits H sz align a = (case H a of None \<Rightarrow> False
     | Some h \<Rightarrow> sz \<le> h_capacity h \<and> align dvd data_ptr a)"

lemma can_fit_eq:
  assumes "is_power_of_two align" and "H a = Some h"
  shows "can_fit a h sz align = Val (if fits H sz align a then Inr (data_ptr a) else Inl ())"
  using assms by (simp add: can_fit_def fits_def is_aligned_eq)

definition prev_of :: "nat list \<Rightarrow> nat option" where
  "prev_of as = (if as = [] then None else Some (last as))"

text \<open>The search loop stops at the first free chunk that fits, or at the end of the list.\<close>

lemma malloc_loop_none:
  assumes "is_power_of_two align" and "free_seg (ll_headers A) next bs None"
    and "\<And>b. b \<in> set bs \<Longrightarrow> \<not> fits (ll_headers A) sz align b"
  shows "malloc_loop A sz align prev next = Some (Val (None, A))"
  using assms(2,3)
proof (induction bs arbitrary: prev "next")
  case Nil
  then show ?case by (simp add: malloc_loop.simps)
next
  case (Cons b bs)
  then obtain h where h: "next = Some b" "ll_headers A b = Some h" "h_magic h = MAGIC_FREE"
    "free_seg (ll_headers A) (h_next h) bs None"
    by (auto split: option.splits)
  then show ?case
    using can_fit_eq [where H = "ll_headers A", OF assms(1) h(2)] Cons.IH [OF h(4), of "Some b"] Cons.prems(2)
    by (simp add: malloc_loop.simps [of A sz align _ "Some b"])
qed

lemma malloc_loop_found:
  assumes "is_power_of_two align" and "free_seg (ll_headers A) next (us @ b # vs) None"
    and "\<And>u. u \<in> set us \<Longrightarrow> \<not> fits (ll_headers A) sz align u"
    and "fits (ll_headers A) sz align b" and "ll_headers A b = Some h"
  shows "malloc_loop A sz align prev next =
    Some (exec_bind (take_chunk A (if us = [] then prev else prev_of us) b h sz)
      (\<lambda>A'. Val (Some (data_ptr b), A')))"
  using assms(2,3)
proof (induction us arbitrary: prev "next")
  case Nil
  then show ?case
    using can_fit_eq [where H = "ll_headers A", OF assms(1,5)] assms(4,5)
    by (simp add: malloc_loop.simps)
next
  case (Cons u us)
  then obtain h' where h': "next = Some u" "ll_headers A u = Some h'" "h_magic h' = MAGIC_FREE"
    "free_seg (ll_headers A) (h_next h') (us @ b # vs) None"
    by (auto split: option.splits)
  then show ?case
    using can_fit_eq [where H = "ll_headers A", OF assms(1) h'(2)] Cons.IH [OF h'(4), of "Some u"] Cons.prems(2)
    by (simp add: malloc_loop.simps [of A sz align _ "Some u"] prev_of_def)
qed

lemma unlink_prev:
  assumes "free_seg H (ll_head A) us y" and "free_seg H nf vs None" and "distinct (us @ vs)"
  shows "\<exists>A'. (case prev_of us of
        None \<Rightarrow> Val (A\<lparr>ll_headers := H, ll_head := nf\<rparr>)
      | Some p \<Rightarrow> (case H p of None \<Rightarrow> Undef
          | Some ph \<Rightarrow> Val (A\<lparr>ll_headers := H(p \<mapsto> ph\<lparr>h_next := nf\<rparr>)\<rparr>))) = Val A'
    \<and> free_seg (ll_headers A') (ll_head A') (us @ vs) None
    \<and> chunks (ll_headers A') = chunks H"
proof (cases us rule: rev_cases)
  case Nil
  with assms show ?thesis by (simp add: prev_of_def)
next
  case (snoc us' p)
  then obtain ph where ph: "H p = Some ph"
    using free_seg_dom [OF assms(1), of p] by auto
  let ?H = "H(p \<mapsto> ph\<lparr>h_next := nf\<rparr>)"
  have "free_seg ?H (ll_head A) us nf"
    using free_seg_relink_last [of H "ll_head A" us' p y ph nf] assms snoc ph by simp
  moreover have "free_seg ?H nf vs None"
    using assms snoc by (simp add: free_seg_frame)
  ultimately have "free_seg ?H (ll_head A) (us @ vs) None"
    using free_seg_append by blast
  with snoc ph show ?thesis by (simp add: prev_of_def)
qed

text \<open>
  Taking a free chunk: what is left behind is the chunk map with the chunk allocated, split
  when at least a header and a minimal chunk would remain.
\<close>

definition taken :: "(nat \<rightharpoonup> nat \<times> u32) \<Rightarrow> nat \<Rightarrow> nat \<Rightarrow> nat \<Rightarrow> (nat \<rightharpoonup> nat \<times> u32)" where
  "taken V b c sz = (if c < sz + HEADER_SIZE + MIN_CAPACITY then V(b \<mapsto> (c, MAGIC_ALLOCATED))
     else V(b \<mapsto> (sz, MAGIC_ALLOCATED),
            b + HEADER_SIZE + sz \<mapsto> (c - sz - HEADER_SIZE, MAGIC_FREE)))"

lemma MIN_SIZE_power [simp]: "is_power_of_two MIN_SIZE"
  using is_power_of_two_pow [of 4] by (simp add: MIN_SIZE_def)

lemma try_split_eq:
  assumes "sz \<le> h_capacity h" and "MIN_SIZE dvd b" and "MIN_SIZE dvd sz"
  shows "try_split b h sz =
    Val (if h_capacity h < sz + HEADER_SIZE + MIN_CAPACITY then (None, h)
         else (Some (b + HEADER_SIZE + sz, h_capacity h - sz - HEADER_SIZE), h\<lparr>h_capacity := sz\<rparr>))"
proof -
  have "is_aligned (b + HEADER_SIZE + sz) MIN_SIZE = Val True"
    using assms(2,3) by (simp add: is_aligned_eq) (simp add: HEADER_SIZE_def MIN_SIZE_def)
  then show ?thesis
    using assms(1) by (simp add: try_split_def checked_sub_def data_ptr_def Let_def
      HEADER_SIZE_def MIN_CAPACITY_def assert_exec_def) arith
qed

lemma take_chunk_spec:
  assumes wf: "chunks_wf (chunks (ll_headers A))" and fl: "free_list A (us @ b # vs)"
    and h: "ll_headers A b = Some h" and sz: "sz \<le> h_capacity h" "MIN_SIZE dvd sz"
  shows "\<exists>A' cs. take_chunk A (prev_of us) b h sz = Val A' \<and> free_list A' cs
    \<and> chunks (ll_headers A') = taken (chunks (ll_headers A)) b (h_capacity h) sz"
proof -
  let ?H = "ll_headers A" and ?new = "b + HEADER_SIZE + sz"
  let ?rest = "h_capacity h - sz - HEADER_SIZE"
  let ?split = "\<not> h_capacity h < sz + HEADER_SIZE + MIN_CAPACITY"
  let ?h' = "(if ?split then h\<lparr>h_capacity := sz\<rparr> else h)\<lparr>h_magic := MAGIC_ALLOCATED, h_next := None\<rparr>"
  let ?H1 = "if ?split then ?H(?new \<mapsto> \<lparr>h_next = h_next h, h_capacity = ?rest, h_magic = MAGIC_FREE\<rparr>) else ?H"
  let ?H2 = "?H1(b \<mapsto> ?h')" and ?nf = "if ?split then Some ?new else h_next h"
  let ?cs = "us @ (if ?split then [?new] else []) @ vs"
  have Vb: "chunks ?H b = Some (h_capacity h, MAGIC_FREE)"
    using fl h free_seg_dom [of ?H "ll_head A" "us @ b # vs" None b] by (auto simp: free_list_def chunks_def)
  have al: "MIN_SIZE dvd b" using chunks_wfD [OF wf Vb] by simp
  have seg: "free_seg ?H (ll_head A) us (Some b)" "free_seg ?H (h_next h) vs None"
    and dist: "distinct (us @ b # vs)"
    using fl h by (auto simp: free_list_def free_seg_append)
  have new: "?new \<noteq> b" "?split \<Longrightarrow> ?H ?new = None"
    using chunks_wf_split(1) [OF wf Vb, of sz] sz by (auto simp: HEADER_SIZE_def chunks_def)
  have notin: "?split \<Longrightarrow> ?new \<notin> set us" "?split \<Longrightarrow> ?new \<notin> set vs"
    using free_seg_dom [OF seg(1)] free_seg_dom [OF seg(2)] new(2) by fastforce+
  have s1: "free_seg ?H2 (ll_head A) us (Some b)"
    using seg(1) dist notin(1) by (auto simp: free_seg_frame)
  have s2: "free_seg ?H2 ?nf ((if ?split then [?new] else []) @ vs) None"
    using seg(2) dist notin(2) new(1) by (auto simp: free_seg_frame)
  have dist': "distinct ?cs" using dist notin by auto
  have tk: "take_chunk A (prev_of us) b h sz = (case prev_of us of
        None \<Rightarrow> Val (A\<lparr>ll_headers := ?H2, ll_head := ?nf\<rparr>)
      | Some p \<Rightarrow> (case ?H2 p of None \<Rightarrow> Undef
          | Some ph \<Rightarrow> Val (A\<lparr>ll_headers := ?H2(p \<mapsto> ph\<lparr>h_next := ?nf\<rparr>)\<rparr>)))"
    by (cases "prev_of us")
      (simp_all add: take_chunk_def try_split_eq [OF sz(1) al sz(2)] Let_def
        del: diff_diff_left split: option.splits)
  obtain A' where A': "take_chunk A (prev_of us) b h sz = Val A'"
    "free_seg (ll_headers A') (ll_head A') ?cs None" "chunks (ll_headers A') = chunks ?H2"
    using unlink_prev [OF s1 s2 dist'] unfolding tk by blast
  have ch: "chunks ?H2 = taken (chunks ?H) b (h_capacity h) sz"
    using new(1) by (auto simp: chunks_update taken_def fun_upd_twist)
  have "free_list A' ?cs"
    using A'(2,3) ch dist notin new fl unfolding free_list_def
    by (auto simp: taken_def chunks_def split: if_splits)
  with A' ch show ?thesis by auto
qed

section \<open>The three operations\<close>

lemma live_data_ptr: "live A (data_ptr a) =
    (case chunks (ll_headers A) a of None \<Rightarrow> None
     | Some (c, m) \<Rightarrow> if m = MAGIC_ALLOCATED then Some c else None)"
  by (simp add: live_def data_ptr_def)

lemma liveD: "live A p = Some c \<Longrightarrow> \<exists>a. p = data_ptr a \<and> chunks (ll_headers A) a = Some (c, MAGIC_ALLOCATED)"
  by (auto simp: live_def data_ptr_def split: if_splits option.splits intro: exI [of _ "p - HEADER_SIZE"])

lemma live_eqI:
  assumes "\<And>a. live A (data_ptr a) = L (data_ptr a)" and "\<And>p. p < HEADER_SIZE \<Longrightarrow> L p = None"
  shows "live A = L"
proof
  fix p show "live A p = L p"
  proof (cases "p < HEADER_SIZE")
    case True
    then show ?thesis using assms(2) by (simp add: live_def)
  next
    case False
    then have "p = data_ptr (p - HEADER_SIZE)" by (simp add: data_ptr_def)
    then show ?thesis using assms(1) by metis
  qed
qed

lemma taken_wf:
  assumes "chunks_wf V" and "V b = Some (c, MAGIC_FREE)" and "sz \<le> c" and "MIN_SIZE dvd sz"
  shows "chunks_wf (taken V b c sz)"
  using assms chunks_wf_mark [OF assms(1,2)] chunks_wf_split(2) [OF assms(1,2)]
  by (simp add: taken_def)

lemma taken_live:
  assumes "chunks_wf (chunks (ll_headers A))" and "chunks (ll_headers A) b = Some (c, MAGIC_FREE)"
    and "sz \<le> c" and "MIN_SIZE dvd sz" and "chunks (ll_headers A') = taken (chunks (ll_headers A)) b c sz"
  shows "\<exists>k. sz \<le> k \<and> live A' = (live A)(data_ptr b \<mapsto> k)"
proof (cases "c < sz + HEADER_SIZE + MIN_CAPACITY")
  case True
  then have "live A' = (live A)(data_ptr b \<mapsto> c)"
    using assms by (intro live_eqI) (auto simp: live_data_ptr taken_def data_ptr_def live_def)
  with assms(3) show ?thesis by blast
next
  case False
  then have "chunks (ll_headers A) (b + HEADER_SIZE + sz) = None"
    using chunks_wf_split(1) [OF assms(1,2)] assms(4) by simp
  with False have "live A' = (live A)(data_ptr b \<mapsto> sz)"
    using assms by (intro live_eqI) (auto simp: live_data_ptr taken_def data_ptr_def live_def)
  then show ?thesis by blast
qed

text \<open>Every chunk of \<open>W\<close> lies inside a chunk of \<open>V\<close>.\<close>

definition within :: "(nat \<rightharpoonup> nat \<times> u32) \<Rightarrow> (nat \<rightharpoonup> nat \<times> u32) \<Rightarrow> bool" where
  "within V W \<longleftrightarrow> (\<forall>a c m. W a = Some (c, m) \<longrightarrow>
     (\<exists>b d n. V b = Some (d, n) \<and> b \<le> a \<and> chunk_end a c \<le> chunk_end b d))"

lemma within_refl [simp]: "within V V"
  unfolding within_def by blast

lemma within_upd:
  assumes "within V W" and "V b = Some (d, n)" and "b \<le> a" and "chunk_end a c \<le> chunk_end b d"
  shows "within V (W(a \<mapsto> (c, m)))"
  using assms unfolding within_def by (auto split: if_splits)

lemma taken_within:
  assumes "V b = Some (c, MAGIC_FREE)" and "sz \<le> c"
  shows "within V (taken V b c sz)"
  unfolding taken_def using assms
  by (auto intro!: within_upd [where V = V and b = b and d = c and n = MAGIC_FREE] simp: chunk_end_def HEADER_SIZE_def)

text \<open>What a request of \<open>sz\<close> bytes needs: a free chunk as large as the rounded size, aligned.\<close>

definition can_alloc :: "LinkedListAllocator \<Rightarrow> usize \<Rightarrow> usize \<Rightarrow> bool" where
  "can_alloc A sz align \<longleftrightarrow> (\<exists>a c. chunks (ll_headers A) a = Some (c, MAGIC_FREE)
     \<and> round_up sz MIN_SIZE \<le> c \<and> align dvd data_ptr a)"

lemma malloc_spec:
  assumes wf: "malloc_wf A" and al: "is_power_of_two align" and sz: "0 < sz"
  shows "\<exists>r A'. malloc A sz align = Some (Val (r, A')) \<and> malloc_wf A'
    \<and> within (chunks (ll_headers A)) (chunks (ll_headers A'))
    \<and> (r \<noteq> None \<longleftrightarrow> sz \<le> U32_MAX div 2 \<and> can_alloc A sz align)
    \<and> (case r of None \<Rightarrow> A' = A
        | Some p \<Rightarrow> align dvd p \<and> live A p = None
            \<and> (\<exists>k. sz \<le> k \<and> live A' = (live A)(p \<mapsto> k)))"
proof (cases "U32_MAX div 2 < sz")
  case True
  then show ?thesis using assms power_of_two_pos [OF al] by (simp add: malloc_def)
next
  case False
  define n where "n = round_up sz MIN_SIZE"
  have n: "align_up sz MIN_SIZE = Val n" "sz \<le> n" "MIN_SIZE dvd n"
    using False align_up_round [OF MIN_SIZE_power, of sz] round_up_ge [of MIN_SIZE sz] round_up_dvd [of MIN_SIZE sz]
    by (auto simp: n_def MIN_SIZE_def U32_MAX_def USIZE_MAX_def)
  have mal: "malloc A sz align = malloc_loop A n align None (ll_head A)"
    using False sz al power_of_two_pos [OF al] n(1) by (simp add: malloc_def)
  obtain cs where cw: "chunks_wf (chunks (ll_headers A))" and fl: "free_list A cs"
    using wf by (auto simp: malloc_wf_def)
  note seg = fl [unfolded free_list_def, THEN conjunct1]
  show ?thesis
  proof (cases "\<exists>b\<in>set cs. fits (ll_headers A) n align b")
    case none: False
    have "\<not> can_alloc A sz align"
    proof
      assume "can_alloc A sz align"
      then obtain a c where a: "chunks (ll_headers A) a = Some (c, MAGIC_FREE)" "n \<le> c" "align dvd data_ptr a"
        by (auto simp: can_alloc_def n_def)
      then have "a \<in> set cs" "fits (ll_headers A) n align a"
        using fl by (auto simp: free_list_def fits_def chunks_def)
      with none show False by blast
    qed
    moreover have "malloc A sz align = Some (Val (None, A))"
      using malloc_loop_none [OF al seg] none mal by auto
    ultimately show ?thesis using wf by auto
  next
    case True
    then obtain us b vs where cs: "cs = us @ b # vs" "fits (ll_headers A) n align b"
      "\<forall>u\<in>set us. \<not> fits (ll_headers A) n align u"
      using split_list_first_prop [of cs "fits (ll_headers A) n align"] by blast
    then obtain h where h: "ll_headers A b = Some h" "n \<le> h_capacity h" "align dvd data_ptr b"
      by (auto simp: fits_def split: option.splits)
    have Vb: "chunks (ll_headers A) b = Some (h_capacity h, MAGIC_FREE)"
      using free_seg_dom [OF seg, of b] cs(1) h(1) by (simp add: chunks_def)
    obtain A' cs' where A': "take_chunk A (prev_of us) b h n = Val A'" "free_list A' cs'"
      "chunks (ll_headers A') = taken (chunks (ll_headers A)) b (h_capacity h) n"
      using take_chunk_spec [OF cw fl [unfolded cs(1)] h(1,2) n(3)] by blast
    have "malloc A sz align = Some (Val (Some (data_ptr b), A'))"
      using malloc_loop_found [OF al seg [unfolded cs(1)] _ cs(2) h(1), of None] cs(3) A'(1) mal
      by (simp add: prev_of_def split: if_splits)
    moreover have "malloc_wf A'"
      using A'(2,3) taken_wf [OF cw Vb h(2) n(3)] by (auto simp: malloc_wf_def)
    moreover have "\<exists>k. sz \<le> k \<and> live A' = (live A)(data_ptr b \<mapsto> k)"
      using taken_live [OF cw Vb h(2) n(3) A'(3)] n(2) le_trans by blast
    moreover have "can_alloc A sz align"
      using Vb h(2,3) unfolding can_alloc_def n_def by blast
    moreover have "live A (data_ptr b) = None" by (simp add: live_data_ptr Vb)
    moreover have "within (chunks (ll_headers A)) (chunks (ll_headers A'))"
      using taken_within [where V = "chunks (ll_headers A)", OF Vb h(2)] A'(3) by simp
    ultimately show ?thesis using h(3) False by simp
  qed
qed

text \<open>Pushing a chunk that is not on the list in front of it.\<close>

lemma free_list_push:
  assumes fl: "free_list A cs" and p: "p \<notin> set cs" and "h_magic h = MAGIC_FREE" and "h_next h = ll_head A"
  shows "free_list (A\<lparr>ll_headers := (ll_headers A)(p \<mapsto> h), ll_head := Some p\<rparr>) (p # cs)"
  using assms by (auto simp: free_list_def free_seg_frame chunks_def)

lemma free_spec:
  assumes wf: "malloc_wf A" and lv: "live A p = Some c"
  shows "\<exists>A'. free A p = Val A' \<and> malloc_wf A' \<and> live A' = (live A)(p := None)
    \<and> within (chunks (ll_headers A)) (chunks (ll_headers A'))"
proof -
  obtain a where a: "p = data_ptr a" "chunks (ll_headers A) a = Some (c, MAGIC_ALLOCATED)"
    using liveD [OF lv] by blast
  obtain h where h: "ll_headers A a = Some h" "h_magic h = MAGIC_ALLOCATED" "h_capacity h = c"
    using a(2) by (auto simp: chunks_def)
  obtain cs where cw: "chunks_wf (chunks (ll_headers A))" and fl: "free_list A cs"
    using wf by (auto simp: malloc_wf_def)
  let ?h = "h\<lparr>h_magic := MAGIC_FREE, h_next := ll_head A\<rparr>"
  let ?A = "A\<lparr>ll_headers := (ll_headers A)(a \<mapsto> ?h), ll_head := Some a\<rparr>"
  have "free A p = Val ?A"
    using h by (simp add: free_def a(1) from_data_ptr_def data_ptr_def HEADER_SIZE_def)
  moreover have "free_list ?A (a # cs)"
    using fl h a(2) by (intro free_list_push) (auto simp: free_list_def)
  then have "malloc_wf ?A"
    using chunks_wf_mark [OF cw a(2), of MAGIC_FREE] h(3) by (auto simp: malloc_wf_def chunks_update)
  moreover have "live ?A = (live A)(p := None)"
    by (intro live_eqI) (auto simp: live_data_ptr chunks_update a(1) data_ptr_def live_def)
  moreover have "within (chunks (ll_headers A)) (chunks (ll_headers ?A))"
    using h(3) by (auto simp: chunks_update intro!: within_upd [where b = a and d = c and n = MAGIC_ALLOCATED] a(2))
  ultimately show ?thesis by blast
qed

text \<open>Memory that no chunk occupies, and what \<open>add_chunk\<close> accepts.\<close>

definition unoccupied :: "LinkedListAllocator \<Rightarrow> nat \<Rightarrow> usize \<Rightarrow> bool" where
  "unoccupied A ptr sz \<longleftrightarrow> (\<forall>a c m. chunks (ll_headers A) a = Some (c, m) \<longrightarrow>
     chunk_end a c \<le> ptr \<or> ptr + sz \<le> a)"

definition chunk_ok :: "nat \<Rightarrow> usize \<Rightarrow> bool" where
  "chunk_ok ptr sz \<longleftrightarrow> 0 < ptr \<and> MIN_SIZE dvd ptr \<and> HEADER_SIZE + MIN_CAPACITY \<le> sz
     \<and> sz \<le> HEADER_SIZE + U32_MAX"

lemma add_chunk_eq: "add_chunk A ptr sz =
    Val (if chunk_ok ptr sz
         then A\<lparr>ll_headers := (ll_headers A)(ptr \<mapsto>
                  \<lparr>h_next = ll_head A, h_capacity = sz - HEADER_SIZE, h_magic = MAGIC_FREE\<rparr>),
                ll_head := Some ptr\<rparr>
         else A)"
  by (auto simp: add_chunk_def chunk_ok_def is_aligned_eq checked_sub_def HEADER_SIZE_def MIN_CAPACITY_def
      U32_MAX_def)

lemma add_chunk_spec:
  assumes wf: "malloc_wf A" and un: "unoccupied A ptr sz" and le: "ptr + sz \<le> USIZE_MAX"
  shows "\<exists>A'. add_chunk A ptr sz = Val A' \<and> malloc_wf A' \<and> live A' = live A
    \<and> (chunk_ok ptr sz \<longrightarrow> chunks (ll_headers A') =
          (chunks (ll_headers A))(ptr \<mapsto> (sz - HEADER_SIZE, MAGIC_FREE)))"
proof (cases "chunk_ok ptr sz")
  case False
  then show ?thesis using wf by (simp add: add_chunk_eq)
next
  case True
  note ok = this [unfolded chunk_ok_def]
  obtain cs where cw: "chunks_wf (chunks (ll_headers A))" and fl: "free_list A cs"
    using wf by (auto simp: malloc_wf_def)
  let ?h = "\<lparr>h_next = ll_head A, h_capacity = sz - HEADER_SIZE, h_magic = MAGIC_FREE\<rparr>"
  let ?A = "A\<lparr>ll_headers := (ll_headers A)(ptr \<mapsto> ?h), ll_head := Some ptr\<rparr>"
  have fresh: "chunks (ll_headers A) ptr = None"
  proof (rule ccontr)
    assume "\<not> ?thesis"
    then obtain c m where "chunks (ll_headers A) ptr = Some (c, m)" by auto
    with un show False using ok by (fastforce simp: unoccupied_def chunk_end_def HEADER_SIZE_def)
  qed
  have "free_list ?A (ptr # cs)"
    using fl fresh by (intro free_list_push) (auto simp: free_list_def)
  moreover have "chunks_wf ((chunks (ll_headers A))(ptr \<mapsto> (sz - HEADER_SIZE, MAGIC_FREE)))"
    using ok le un by (intro chunks_wf_add [OF cw]) (auto simp: chunk_end_def unoccupied_def)
  ultimately have "malloc_wf ?A" by (auto simp: malloc_wf_def chunks_update)
  moreover have "live ?A = live A"
    using fresh by (intro live_eqI) (auto simp: live_data_ptr chunks_update live_def)
  ultimately show ?thesis using True by (simp add: add_chunk_eq chunks_update)
qed

lemma live_disjoint:
  assumes "malloc_wf A" and "live A p = Some c" and "live A q = Some d" and "p \<noteq> q"
  shows "p + c \<le> q \<or> q + d \<le> p"
proof -
  obtain a b where ab: "p = data_ptr a" "chunks (ll_headers A) a = Some (c, MAGIC_ALLOCATED)"
    "q = data_ptr b" "chunks (ll_headers A) b = Some (d, MAGIC_ALLOCATED)"
    using liveD [OF assms(2)] liveD [OF assms(3)] by blast
  then have "a \<noteq> b" using assms(4) by auto
  then show ?thesis
    using chunks_wf_disjoint [of "chunks (ll_headers A)" a c _ b d] ab assms(1)
    by (fastforce simp: malloc_wf_def data_ptr_def chunk_end_def)
qed

lemma live_bound: "malloc_wf A \<Longrightarrow> live A p = Some c \<Longrightarrow> 0 < p \<and> p + c \<le> USIZE_MAX"
  using liveD [of A p c] chunks_wfD [of "chunks (ll_headers A)" "p - HEADER_SIZE" c]
  by (auto simp: malloc_wf_def data_ptr_def chunk_end_def)

section \<open>Clients of a heap\<close>

text \<open>
  A client issues a sequence of requests, and releases only blocks it holds. The locale is the
  contract of a heap with such a client: an allocation returns, and either changes nothing or adds
  one block that was not held, aligned and large enough; a release takes exactly its block away;
  blocks held at the same time do not overlap.
\<close>

datatype heap_op = Alloc usize usize | Release nat

type_synonym 's heap_alloc = "'s \<Rightarrow> usize \<Rightarrow> usize \<Rightarrow> (nat option \<times> 's) exec option"
type_synonym 's heap_free = "'s \<Rightarrow> nat \<Rightarrow> 's exec"

fun run_op :: "'s heap_alloc \<Rightarrow> 's heap_free \<Rightarrow> heap_op \<Rightarrow> 's \<Rightarrow> 's exec option" where
  "run_op al fr (Alloc sz a) s = map_option (\<lambda>e. exec_bind e (\<lambda>(_, s'). Val s')) (al s sz a)"
| "run_op al fr (Release p) s = Some (fr s p)"

fun run_heap :: "'s heap_alloc \<Rightarrow> 's heap_free \<Rightarrow> heap_op list \<Rightarrow> 's \<Rightarrow> 's exec option" where
  "run_heap al fr [] s = Some (Val s)"
| "run_heap al fr (x # xs) s =
     (case run_op al fr x s of Some (Val s') \<Rightarrow> run_heap al fr xs s' | e \<Rightarrow> e)"

fun op_ok :: "(nat \<rightharpoonup> nat) \<Rightarrow> heap_op \<Rightarrow> bool" where
  "op_ok blocks (Alloc sz a) = (0 < sz \<and> is_power_of_two a)"
| "op_ok blocks (Release p) = (blocks p \<noteq> None)"

fun client_ok :: "('s \<Rightarrow> nat \<rightharpoonup> nat) \<Rightarrow> 's heap_alloc \<Rightarrow> 's heap_free \<Rightarrow> heap_op list \<Rightarrow> 's \<Rightarrow> bool" where
  "client_ok bl al fr [] s = True"
| "client_ok bl al fr (x # xs) s = (op_ok (bl s) x \<and>
     (case run_op al fr x s of Some (Val s') \<Rightarrow> client_ok bl al fr xs s' | _ \<Rightarrow> True))"

locale heap_allocator =
  fixes al :: "'s heap_alloc" and fr :: "'s heap_free" and inv :: "'s \<Rightarrow> bool"
    and bl :: "'s \<Rightarrow> nat \<rightharpoonup> nat"
  assumes alloc_ok: "inv s \<Longrightarrow> is_power_of_two a \<Longrightarrow> 0 < sz \<Longrightarrow>
      \<exists>r s'. al s sz a = Some (Val (r, s')) \<and> inv s' \<and>
        (case r of None \<Rightarrow> s' = s
         | Some p \<Rightarrow> a dvd p \<and> bl s p = None \<and> (\<exists>k. sz \<le> k \<and> bl s' = (bl s)(p \<mapsto> k)))"
    and release_ok: "inv s \<Longrightarrow> bl s p = Some c \<Longrightarrow>
      \<exists>s'. fr s p = Val s' \<and> inv s' \<and> bl s' = (bl s)(p := None)"
    and disjoint: "inv s \<Longrightarrow> bl s p = Some c \<Longrightarrow> bl s q = Some d \<Longrightarrow> p \<noteq> q \<Longrightarrow>
      p + c \<le> q \<or> q + d \<le> p"
begin

lemma run_op_ok:
  assumes "inv s" and "op_ok (bl s) x"
  shows "\<exists>s'. run_op al fr x s = Some (Val s') \<and> inv s' \<and>
    (\<forall>p c. bl s p = Some c \<longrightarrow> x \<noteq> Release p \<longrightarrow> bl s' p = Some c)"
proof (cases x)
  case (Alloc sz a)
  with assms alloc_ok [of s a sz] obtain r s' where r: "al s sz a = Some (Val (r, s'))" "inv s'"
    "case r of None \<Rightarrow> s' = s
       | Some p \<Rightarrow> a dvd p \<and> bl s p = None \<and> (\<exists>k. sz \<le> k \<and> bl s' = (bl s)(p \<mapsto> k))"
    by auto
  then have "\<forall>p c. bl s p = Some c \<longrightarrow> bl s' p = Some c"
    by (cases r) auto
  with Alloc r show ?thesis by simp
next
  case (Release p)
  with assms obtain c where "bl s p = Some c" by auto
  with release_ok [OF assms(1) this] Release show ?thesis by auto
qed

lemma run_heap_ok:
  assumes "inv s" and "client_ok bl al fr xs s"
  shows "\<exists>s'. run_heap al fr xs s = Some (Val s') \<and> inv s' \<and>
    (\<forall>p c. bl s p = Some c \<longrightarrow> Release p \<notin> set xs \<longrightarrow> bl s' p = Some c)"
  using assms
proof (induction xs arbitrary: s)
  case Nil
  then show ?case by simp
next
  case (Cons x xs)
  then obtain s1 where s1: "run_op al fr x s = Some (Val s1)" "inv s1"
    "\<forall>p c. bl s p = Some c \<longrightarrow> x \<noteq> Release p \<longrightarrow> bl s1 p = Some c"
    using run_op_ok [of s x] by auto
  with Cons obtain s2 where "run_heap al fr xs s1 = Some (Val s2)" "inv s2"
    "\<forall>p c. bl s1 p = Some c \<longrightarrow> Release p \<notin> set xs \<longrightarrow> bl s2 p = Some c"
    by fastforce
  with s1 show ?case by auto
qed

end

interpretation heap: heap_allocator malloc free malloc_wf live
proof
  fix s :: LinkedListAllocator and a sz :: usize
  assume "malloc_wf s" "is_power_of_two a" "0 < sz"
  from malloc_spec [OF this] obtain r s' where "malloc s sz a = Some (Val (r, s'))" "malloc_wf s'"
    "case r of None \<Rightarrow> s' = s
      | Some p \<Rightarrow> a dvd p \<and> live s p = None \<and> (\<exists>k. sz \<le> k \<and> live s' = (live s)(p \<mapsto> k))"
    by blast
  then show "\<exists>r s'. malloc s sz a = Some (Val (r, s')) \<and> malloc_wf s' \<and>
        (case r of None \<Rightarrow> s' = s
         | Some p \<Rightarrow> a dvd p \<and> live s p = None \<and> (\<exists>k. sz \<le> k \<and> live s' = (live s)(p \<mapsto> k)))"
    by (cases r) auto
qed (auto dest: free_spec live_disjoint)

section \<open>Properties\<close>

text \<open>A heap with one free chunk of 4096 bytes at address 4096.\<close>

definition example_heap :: LinkedListAllocator where
  "example_heap = \<lparr>ll_head = Some 4096, ll_headers =
     [4096 \<mapsto> \<lparr>h_next = None, h_capacity = 4080, h_magic = MAGIC_FREE\<rparr>]\<rparr>"

lemma malloc_new_wf [simp]: "malloc_wf (malloc_new (\<lambda>_. None))"
  by (auto simp: malloc_wf_def malloc_new_def chunks_wf_def chunks_def free_list_def intro: exI [of _ "[]"])

lemma example_heap_wf: "malloc_wf example_heap"
proof -
  have "add_chunk (malloc_new (\<lambda>_. None)) 4096 4096 = Val example_heap"
    by (simp add: add_chunk_eq chunk_ok_def malloc_new_def example_heap_def HEADER_SIZE_def MIN_SIZE_def
        MIN_CAPACITY_def U32_MAX_def)
  moreover have "unoccupied (malloc_new (\<lambda>_. None)) 4096 4096"
    by (simp add: unoccupied_def malloc_new_def chunks_def)
  ultimately show ?thesis
    using add_chunk_spec [OF malloc_new_wf, of 4096 4096] by (auto simp: USIZE_MAX_def)
qed

text \<open>
  C4. \<open>malloc\<close> on a well-formed heap: the search loop ends without a panic and without following a
  dangling pointer, and the heap stays well-formed. It succeeds exactly
  when the request is at most \<open>u32::MAX / 2\<close> and some free chunk is large enough and aligned; a
  failure changes nothing. A success gives
  an aligned block that nobody held, of at least the requested size, and leaves all other live
  blocks as they were.
\<close>

theorem malloc_contract:
  assumes "malloc_wf A" and "is_power_of_two align" and "0 < sz"
  shows "\<exists>r A'. malloc A sz align = Some (Val (r, A')) \<and> malloc_wf A'
    \<and> (r \<noteq> None \<longleftrightarrow> sz \<le> U32_MAX div 2 \<and> can_alloc A sz align)
    \<and> (case r of None \<Rightarrow> A' = A
        | Some p \<Rightarrow> align dvd p \<and> live A p = None
            \<and> (\<exists>k. sz \<le> k \<and> live A' = (live A)(p \<mapsto> k)))"
  using malloc_spec [OF assms] by blast

theorem malloc_contract_witness:
  "malloc_wf example_heap \<and> is_power_of_two (2 ^ 3) \<and> (0::nat) < 100
    \<and> (\<exists>r A'. malloc example_heap 100 (2 ^ 3) = Some (Val (r, A')) \<and> malloc_wf A'
         \<and> (r \<noteq> None \<longleftrightarrow> 100 \<le> U32_MAX div 2 \<and> can_alloc example_heap 100 (2 ^ 3))
         \<and> (case r of None \<Rightarrow> A' = example_heap
            | Some p \<Rightarrow> 2 ^ 3 dvd p \<and> live example_heap p = None
                \<and> (\<exists>k. 100 \<le> k \<and> live A' = (live example_heap)(p \<mapsto> k))))"
  using example_heap_wf is_power_of_two_pow [of 3]
    malloc_contract [OF example_heap_wf is_power_of_two_pow [of 3], of 100] by simp

text \<open>
  C14. Any sequence of allocations and of releases of held blocks runs to its end on a well-formed
  heap, without a panic; blocks that were not released keep their address and size, and the blocks
  held at the end do not overlap.
\<close>

theorem heap_sequences_safe:
  assumes "malloc_wf A" and "client_ok live malloc free ops A"
  shows "\<exists>A'. run_heap malloc free ops A = Some (Val A') \<and> malloc_wf A'
    \<and> (\<forall>p c. live A p = Some c \<longrightarrow> Release p \<notin> set ops \<longrightarrow> live A' p = Some c)
    \<and> (\<forall>p c q d. live A' p = Some c \<longrightarrow> live A' q = Some d \<longrightarrow> p \<noteq> q \<longrightarrow> p + c \<le> q \<or> q + d \<le> p)"
  using heap.run_heap_ok [OF assms] heap.disjoint by blast

text \<open>The example heap after an allocation of 100 bytes: the chunk is split at 112 bytes.\<close>

definition example_heap1 :: LinkedListAllocator where
  "example_heap1 = \<lparr>ll_head = Some 4224, ll_headers =
     [4224 \<mapsto> \<lparr>h_next = None, h_capacity = 3952, h_magic = MAGIC_FREE\<rparr>,
      4096 \<mapsto> \<lparr>h_next = None, h_capacity = 112, h_magic = MAGIC_ALLOCATED\<rparr>]\<rparr>"

lemma example_heap_malloc: "malloc example_heap 100 8 = Some (Val (Some 4112, example_heap1))"
proof -
  have p: "is_power_of_two 8" "is_power_of_two 16"
    using is_power_of_two_pow [of 3] is_power_of_two_pow [of 4] by simp_all
  have "align_up 100 16 = Val 112"
    using p by (simp add: align_up_round USIZE_MAX_def round_up_def round_down_def)
  moreover have "is_aligned 4112 8 = Val True" "is_aligned 4224 16 = Val True"
    using p by (simp_all add: is_aligned_eq)
  moreover have "malloc example_heap 100 8 = malloc_loop example_heap 112 8 None (Some 4096)"
    using p calculation(1) by (simp add: malloc_def U32_MAX_def MIN_SIZE_def example_heap_def)
  moreover have "malloc_loop example_heap 112 8 None (Some 4096) = Some (Val (Some 4112, example_heap1))"
    using calculation(2,3) by (simp add: malloc_loop.simps [of _ _ _ _ "Some 4096"] example_heap_def
      example_heap1_def MIN_SIZE_def can_fit_def data_ptr_def HEADER_SIZE_def MIN_CAPACITY_def take_chunk_def
      try_split_def checked_sub_def assert_exec_def)
  ultimately show ?thesis by simp
qed

lemma example_heap1_wf: "malloc_wf example_heap1"
  using malloc_spec [OF example_heap_wf, of 8 100] example_heap_malloc is_power_of_two_pow [of 3] by simp

lemma example_heap1_live: "live example_heap1 4112 = Some 112"
  by (simp add: live_def example_heap1_def chunks_def HEADER_SIZE_def)

theorem heap_sequences_safe_witness:
  "\<exists>A'. run_heap malloc free [Alloc 100 8, Release 4112] example_heap = Some (Val A')
    \<and> malloc_wf A'"
proof -
  obtain A2 where "free example_heap1 4112 = Val A2"
    using free_spec [OF example_heap1_wf example_heap1_live] by blast
  moreover have "is_power_of_two 8" using is_power_of_two_pow [of 3] by simp
  ultimately have "client_ok live malloc free [Alloc 100 8, Release 4112] example_heap"
    by (simp only: client_ok.simps op_ok.simps run_op.simps example_heap_malloc example_heap1_live
        option.map exec_bind.simps prod.case option.case exec.case) simp
  from heap_sequences_safe [OF example_heap_wf this] show ?thesis
    by (elim exE conjE) (rule exI, rule conjI)
qed

text \<open>
  \<open>free\<close> of a live block succeeds, keeps the heap well-formed and takes exactly that block
  away; the same pointer can then be handed out again, and freeing it a second time is caught by the
  magic number and panics.
\<close>

theorem free_then_double_free:
  assumes "malloc_wf A" and "live A p = Some c"
  shows "\<exists>A'. free A p = Val A' \<and> malloc_wf A' \<and> live A' = (live A)(p := None) \<and> free A' p = Panic"
proof -
  obtain a h where a: "p = data_ptr a" "ll_headers A a = Some h" "h_magic h = MAGIC_ALLOCATED"
    using liveD [OF assms(2)] by (auto simp: chunks_def)
  obtain A' where "free A p = Val A'" "malloc_wf A'" "live A' = (live A)(p := None)"
    using free_spec [OF assms] by blast
  moreover from this(1) have "free A' p = Panic"
    using a by (auto simp: free_def from_data_ptr_def data_ptr_def HEADER_SIZE_def)
  ultimately show ?thesis by blast
qed

theorem free_then_double_free_witness:
  "malloc_wf example_heap1 \<and> live example_heap1 4112 = Some 112
    \<and> (\<exists>A'. free example_heap1 4112 = Val A' \<and> malloc_wf A' \<and> free A' 4112 = Panic)"
  using free_then_double_free [OF example_heap1_wf example_heap1_live] example_heap1_wf example_heap1_live
  by blast

end
