(* ===== verification/Api.thy ===== *)
theory Api
  imports Prelude
begin

text \<open>
  \<open>libs/rust/ftl_api\<close>: the types that the kernel and the servers share. Error codes are four
  ASCII characters packed into an \<open>i32\<close>; a handle is an object address with the type of the object
  and a set of rights (a bit set).
\<close>

section \<open>Error codes\<close>

type_synonym ErrorCode = "32 word"

text \<open>One step of the packing loop of \<open>from_name\<close>.\<close>

definition pack_char :: "u8 \<Rightarrow> ErrorCode \<Rightarrow> ErrorCode exec" where
  "pack_char ch raw = assert_exec (ch < 128) (Val (push_bit 8 raw OR ucast ch))"

definition from_name :: "u8 list \<Rightarrow> ErrorCode exec" where
  "from_name name = assert_exec (length name = 4) (exec_fold pack_char name 0)"

definition to_be_bytes :: "ErrorCode \<Rightarrow> u8 list" where
  "to_be_bytes e = [ucast (drop_bit 24 e), ucast (drop_bit 16 e), ucast (drop_bit 8 e), ucast e]"

text \<open>\<open>Debug for ErrorCode\<close> prints the bytes of the code, most significant first.\<close>

definition error_name :: "ErrorCode \<Rightarrow> u8 list" where
  "error_name e = to_be_bytes e"

definition OUT_OF_MEMORY :: ErrorCode where "OUT_OF_MEMORY = 0x204f4f4d"
definition NOT_ALLOWED :: ErrorCode where "NOT_ALLOWED = 0x4e414c57"
definition ALREADY_EXISTS :: ErrorCode where "ALREADY_EXISTS = 0x45585354"
definition INVALID_ARG :: ErrorCode where "INVALID_ARG = 0x494e5641"
definition INVALID_STATE :: ErrorCode where "INVALID_STATE = 0x494e5653"
definition INVALID_TYPE :: ErrorCode where "INVALID_TYPE = 0x494e5654"
definition OUT_OF_BOUNDS :: ErrorCode where "OUT_OF_BOUNDS = 0x204f4f42"
definition UNSUPPORTED :: ErrorCode where "UNSUPPORTED = 0x554e5350"

lemmas error_codes =
  OUT_OF_MEMORY_def NOT_ALLOWED_def ALREADY_EXISTS_def INVALID_ARG_def
  INVALID_STATE_def INVALID_TYPE_def OUT_OF_BOUNDS_def UNSUPPORTED_def

definition all_errors :: "ErrorCode list" where
  "all_errors = [OUT_OF_MEMORY, NOT_ALLOWED, ALREADY_EXISTS, INVALID_ARG, INVALID_STATE,
     INVALID_TYPE, OUT_OF_BOUNDS, UNSUPPORTED]"

section \<open>Handles\<close>

type_synonym HandleRight = u64

definition RIGHT_NONE :: HandleRight where "RIGHT_NONE = 0"
definition RIGHT_READ :: HandleRight where "RIGHT_READ = 1"
definition RIGHT_WRITE :: HandleRight where "RIGHT_WRITE = 2"
definition RIGHT_MAP :: HandleRight where "RIGHT_MAP = 4"

definition right_contains :: "HandleRight \<Rightarrow> HandleRight \<Rightarrow> bool" where
  "right_contains r other \<longleftrightarrow> r AND other = other"

definition right_or :: "HandleRight \<Rightarrow> HandleRight \<Rightarrow> HandleRight" where
  "right_or r other = r OR other"

text \<open>The kernel objects that are exposed as handles stand for their Rust \<open>TypeId\<close>.\<close>

datatype obj_type = ThreadT | VmSpaceT | VmAreaT

record Handle =
  hd_raw :: nat
  hd_type :: obj_type
  hd_right :: HandleRight

definition handle_new :: "obj_type \<Rightarrow> nat \<Rightarrow> HandleRight \<Rightarrow> Handle" where
  "handle_new t raw right = \<lparr>hd_raw = raw, hd_type = t, hd_right = right\<rparr>"

definition is_type :: "Handle \<Rightarrow> obj_type \<Rightarrow> bool" where
  "is_type h t \<longleftrightarrow> hd_type h = t"

definition authorize :: "Handle \<Rightarrow> HandleRight \<Rightarrow> bool" where
  "authorize h action = right_contains (hd_right h) action"

text \<open>The \<open>DEFAULT_RIGHT\<close> of each \<open>Handleable\<close> object.\<close>

fun default_right :: "obj_type \<Rightarrow> HandleRight" where
  "default_right ThreadT = right_or RIGHT_READ RIGHT_WRITE"
| "default_right VmSpaceT = right_or (right_or RIGHT_READ RIGHT_WRITE) RIGHT_MAP"
| "default_right VmAreaT = right_or (right_or RIGHT_READ RIGHT_WRITE) RIGHT_MAP"

section \<open>Page attributes\<close>

type_synonym PageAttrs = u64

definition ATTR_READ :: PageAttrs where "ATTR_READ = 1"
definition ATTR_WRITE :: PageAttrs where "ATTR_WRITE = 2"
definition ATTR_EXEC :: PageAttrs where "ATTR_EXEC = 4"

definition attrs_contains :: "PageAttrs \<Rightarrow> PageAttrs \<Rightarrow> bool" where
  "attrs_contains a other \<longleftrightarrow> a AND other = other"

definition attrs_or :: "PageAttrs \<Rightarrow> PageAttrs \<Rightarrow> PageAttrs" where
  "attrs_or a b = a OR b"

definition attrs_as_raw :: "PageAttrs \<Rightarrow> u64" where
  "attrs_as_raw a = a"

section \<open>Facts\<close>

lemma errors_distinct: "distinct all_errors"
  by (simp add: all_errors_def error_codes)

lemma right_contains_iff: "right_contains r s \<longleftrightarrow> (\<forall>n. bit s n \<longrightarrow> bit r n)"
proof
  assume "right_contains r s"
  then show "\<forall>n. bit s n \<longrightarrow> bit r n"
    unfolding right_contains_def by (metis bit_and_iff)
next
  assume "\<forall>n. bit s n \<longrightarrow> bit r n"
  then show "right_contains r s"
    unfolding right_contains_def by (auto intro: bit_word_eqI simp: bit_and_iff)
qed

lemma right_contains_or: "right_contains (right_or r s) t \<longleftrightarrow> (\<forall>n. bit t n \<longrightarrow> bit r n \<or> bit s n)"
  by (simp add: right_contains_iff right_or_def bit_or_iff)

lemma right_contains_or_right: "right_contains r (right_or s t) \<longleftrightarrow> right_contains r s \<and> right_contains r t"
  by (auto simp: right_contains_iff right_or_def bit_or_iff)

lemma default_rights:
  "right_contains (default_right t) RIGHT_READ" "right_contains (default_right t) RIGHT_WRITE"
  "right_contains (default_right t) RIGHT_MAP \<longleftrightarrow> t \<noteq> ThreadT"
  by (cases t; simp add: right_contains_def right_or_def RIGHT_READ_def RIGHT_WRITE_def RIGHT_MAP_def)+

lemma from_name_bytes:
  assumes "name = [a, b, c, d]"
  shows "from_name name = (if a < 128 \<and> b < 128 \<and> c < 128 \<and> d < 128
    then Val (push_bit 24 (ucast a) OR push_bit 16 (ucast b) OR push_bit 8 (ucast c) OR ucast d)
    else Panic)"
proof -
  have "push_bit 8 (push_bit 8 (push_bit 8 (push_bit 8 (0::ErrorCode) OR ucast a) OR ucast b) OR ucast c)
      OR ucast d = push_bit 24 (ucast a) OR push_bit 16 (ucast b) OR push_bit 8 (ucast c) OR ucast d"
    by (simp add: push_bit_or ac_simps)
  with assms show ?thesis
    by (simp add: from_name_def pack_char_def assert_exec_def)
qed

lemma to_be_bytes_pack:
  fixes a b c d :: u8
  shows "to_be_bytes (push_bit 24 (ucast a) OR push_bit 16 (ucast b) OR push_bit 8 (ucast c) OR ucast d)
    = [a, b, c, d]"
  unfolding to_be_bytes_def
  by (simp, intro conjI; rule bit_word_eqI)
    (auto simp: bit_simps dest: bit_imp_le_length)

lemma error_constants:
  "map from_name
     [[0x20, 0x4f, 0x4f, 0x4d], [0x4e, 0x41, 0x4c, 0x57], [0x45, 0x58, 0x53, 0x54], [0x49, 0x4e, 0x56, 0x41],
      [0x49, 0x4e, 0x56, 0x53], [0x49, 0x4e, 0x56, 0x54], [0x20, 0x4f, 0x4f, 0x42], [0x55, 0x4e, 0x53, 0x50]]
   = map Val all_errors"
  by (simp add: from_name_bytes all_errors_def error_codes)

text \<open>
  \<open>ErrorCode::from_name\<close> accepts exactly the names of four ASCII characters, and the name that
  \<open>Debug\<close> prints for the code is the name it was made from, so different names have different
  codes; every other name panics.
\<close>

theorem error_name_roundtrip:
  "if length name = 4 \<and> list_all (\<lambda>c. c < 128) name
   then \<exists>e. from_name name = Val e \<and> error_name e = name
   else from_name name = Panic"
proof (cases "length name = 4")
  case True
  then obtain a b c d where "name = [a, b, c, d]"
    by (auto simp: numeral_eq_Suc length_Suc_conv)
  then show ?thesis
    by (simp add: from_name_bytes [OF refl] error_name_def to_be_bytes_pack)
next
  case False
  then show ?thesis by (simp add: from_name_def assert_exec_def)
qed

end
