(* ===== verification/GlobalAlloc.thy ===== *)
theory GlobalAlloc
  imports Memory Malloc Api
begin

text \<open>
  The two global allocators: \<open>GlobalAllocator\<close> of \<open>kernel/src/memory.rs\<close>, which grows its heap from
  the page allocator, and the one of \<open>ftl_api/src/allocator.rs\<close>, which servers use and which grows
  its heap through the \<open>malloc\<close> supercall of \<open>kernel/src/server.rs\<close>. The pages of a heap are reached
  through the direct map; \<open>heap_wf\<close> says that no page of a chunk is still in the page allocator.
\<close>

record heap =
  hp_inner :: LinkedListAllocator
  hp_phys :: phys

definition MALLOC_CHUNK_SIZE :: usize where
  "MALLOC_CHUNK_SIZE = 128 * 1024"

definition heap_add_region :: "heap \<Rightarrow> nat \<Rightarrow> usize \<Rightarrow> heap exec" where
  "heap_add_region h ptr sz =
     exec_bind (add_chunk (hp_inner h) ptr sz) (\<lambda>A. Val (h\<lparr>hp_inner := A\<rparr>))"

definition global_alloc :: "heap \<Rightarrow> usize \<Rightarrow> usize \<Rightarrow> (nat \<times> heap) exec option" where
  "global_alloc h sz align =
     run_bind (malloc (hp_inner h) sz align) (\<lambda>(r, A). case r of
       Some ptr \<Rightarrow> Some (Val (ptr, h\<lparr>hp_inner := A\<rparr>))
     | None \<Rightarrow>
         run_bind (Some (page_alloc Dirty (hp_phys h) MALLOC_CHUNK_SIZE)) (\<lambda>(p, ph). case p of
           None \<Rightarrow> Some Panic
         | Some paddr \<Rightarrow>
             run_bind (Some (add_chunk A (paddr2vaddr paddr) MALLOC_CHUNK_SIZE)) (\<lambda>A.
             run_bind (malloc A sz align) (\<lambda>(r, A). case r of
               Some ptr \<Rightarrow> Some (Val (ptr, \<lparr>hp_inner = A, hp_phys = ph\<rparr>))
             | None \<Rightarrow> Some Panic))))"

definition global_dealloc :: "heap \<Rightarrow> nat \<Rightarrow> heap exec" where
  "global_dealloc h ptr = exec_bind (free (hp_inner h) ptr) (\<lambda>A. Val (h\<lparr>hp_inner := A\<rparr>))"

text \<open>The \<open>malloc\<close> supercall, and the allocator of the servers.\<close>

definition supercall_malloc :: "phys \<Rightarrow> usize \<Rightarrow> ((ErrorCode + nat) \<times> phys) exec" where
  "supercall_malloc ph sz =
     exec_bind (page_alloc Dirty ph sz) (\<lambda>(p, ph). case p of
       None \<Rightarrow> Val (Inl OUT_OF_MEMORY, ph)
     | Some paddr \<Rightarrow> Val (Inr (paddr2vaddr paddr), ph))"

definition server_alloc :: "heap \<Rightarrow> usize \<Rightarrow> usize \<Rightarrow> (nat \<times> heap) exec option" where
  "server_alloc h sz align =
     run_bind (malloc (hp_inner h) sz align) (\<lambda>(r, A). case r of
       Some ptr \<Rightarrow> Some (Val (ptr, h\<lparr>hp_inner := A\<rparr>))
     | None \<Rightarrow>
         run_bind (Some (supercall_malloc (hp_phys h) MALLOC_CHUNK_SIZE)) (\<lambda>(p, ph). case p of
           Inl error \<Rightarrow> Some Panic
         | Inr ptr \<Rightarrow>
             run_bind (Some (add_chunk A ptr MALLOC_CHUNK_SIZE)) (\<lambda>A.
             run_bind (malloc A sz align) (\<lambda>(r, A). case r of
               Some ptr \<Rightarrow> Some (Val (ptr, \<lparr>hp_inner = A, hp_phys = ph\<rparr>))
             | None \<Rightarrow> Some Panic))))"

definition server_dealloc :: "heap \<Rightarrow> nat \<Rightarrow> heap exec" where
  "server_dealloc h ptr = exec_bind (free (hp_inner h) ptr) (\<lambda>A. Val (h\<lparr>hp_inner := A\<rparr>))"

section \<open>The direct map\<close>

section \<open>The invariant\<close>

definition heap_wf :: "heap \<Rightarrow> bool" where
  "heap_wf h \<longleftrightarrow> malloc_wf (hp_inner h) \<and> phys_wf (hp_phys h)
     \<and> (\<forall>a c m. chunks (ll_headers (hp_inner h)) a = Some (c, m) \<longrightarrow> KERNEL_BASE \<le> a
          \<and> {a - KERNEL_BASE..<chunk_end a c - KERNEL_BASE} \<inter> page_avail (hp_phys h) = {})"

lemma chunk_size [simp]: "0 < MALLOC_CHUNK_SIZE" "MIN_PAGE_SIZE dvd MALLOC_CHUNK_SIZE"
  by (simp_all add: MALLOC_CHUNK_SIZE_def MIN_PAGE_SIZE_def)

lemma server_alloc_eq: "server_alloc h sz align = global_alloc h sz align"
proof -
  have "run_bind (Some (supercall_malloc ph MALLOC_CHUNK_SIZE)) (\<lambda>(p, ph). case p of
          Inl error \<Rightarrow> Some Panic | Inr ptr \<Rightarrow> f ptr ph) =
        run_bind (Some (page_alloc Dirty ph MALLOC_CHUNK_SIZE)) (\<lambda>(p, ph). case p of
          None \<Rightarrow> Some Panic | Some paddr \<Rightarrow> f (paddr2vaddr paddr) ph)"
    for ph :: phys and f :: "nat \<Rightarrow> phys \<Rightarrow> (nat \<times> heap) exec option"
    by (cases "page_alloc Dirty ph MALLOC_CHUNK_SIZE") (auto simp: supercall_malloc_def split: option.splits)
  then show ?thesis by (simp only: server_alloc_def global_alloc_def)
qed

lemma server_dealloc_eq: "server_dealloc h p = global_dealloc h p"
  by (simp add: server_dealloc_def global_dealloc_def)

lemma ivl_disjointD: "x < y \<Longrightarrow> p < q \<Longrightarrow> {x..<y} \<inter> {p..<q} = {} \<Longrightarrow> y \<le> p \<or> q \<le> (x::nat)"
proof (rule ccontr)
  assume "x < y" "p < q" "{x..<y} \<inter> {p..<q} = {}" "\<not> (y \<le> p \<or> q \<le> x)"
  then have "max x p \<in> {x..<y} \<inter> {p..<q}" by auto
  with \<open>{x..<y} \<inter> {p..<q} = {}\<close> show False by blast
qed

text \<open>A chunk that the page allocator just gave away is unoccupied, and becomes part of the heap.\<close>

lemma grow_heap:
  assumes wf: "heap_wf h" and pg: "page_alloc Dirty (hp_phys h) MALLOC_CHUNK_SIZE = Val (Some p, ph)"
  shows "\<exists>A. add_chunk (hp_inner h) (paddr2vaddr p) MALLOC_CHUNK_SIZE = Val A
    \<and> heap_wf \<lparr>hp_inner = A, hp_phys = ph\<rparr> \<and> live A = live (hp_inner h)
    \<and> chunks (ll_headers A) =
        (chunks (ll_headers (hp_inner h)))(paddr2vaddr p \<mapsto> (MALLOC_CHUNK_SIZE - HEADER_SIZE, MAGIC_FREE))"
proof -
  let ?V = "chunks (ll_headers (hp_inner h))" and ?v = "paddr2vaddr p" and ?n = MALLOC_CHUNK_SIZE
  have phw: "phys_wf (hp_phys h)" and mw: "malloc_wf (hp_inner h)" using wf by (auto simp: heap_wf_def)
  note al = page_alloc_Some [OF phw chunk_size pg]
  have p: "p + ?n \<le> 2 ^ 32" using al(4) by (simp add: direct_map_bound)
  then have v: "?v = KERNEL_BASE + p" by (simp add: paddr2vaddr_add)
  have ok: "chunk_ok ?v ?n"
  proof -
    have "16 dvd p" using al(3) dvd_trans [of 16 "4096::nat" p] by (simp add: MIN_PAGE_SIZE_def)
    then show ?thesis
      by (simp add: chunk_ok_def v KERNEL_BASE_def MIN_SIZE_def HEADER_SIZE_def MIN_CAPACITY_def
          MALLOC_CHUNK_SIZE_def U32_MAX_def dvd_add_right_iff)
  qed
  have un: "unoccupied (hp_inner h) ?v ?n"
    unfolding unoccupied_def
  proof (intro allI impI)
    fix a c m assume a: "?V a = Some (c, m)"
    then have *: "KERNEL_BASE \<le> a"
      "{a - KERNEL_BASE..<chunk_end a c - KERNEL_BASE} \<inter> page_avail (hp_phys h) = {}"
      using wf unfolding heap_wf_def by blast+
    then have disj: "{a - KERNEL_BASE..<chunk_end a c - KERNEL_BASE} \<inter> {p..<p + ?n} = {}"
      using al(1) by blast
    have "a < chunk_end a c" by (simp add: chunk_end_def HEADER_SIZE_def)
    then show "chunk_end a c \<le> ?v \<or> ?v + ?n \<le> a"
      using ivl_disjointD [OF _ _ disj] *(1) chunk_size(1) unfolding v by linarith
  qed
  have le: "?v + ?n \<le> USIZE_MAX"
    using p v by (simp add: KERNEL_BASE_def USIZE_MAX_def)
  obtain A where A: "add_chunk (hp_inner h) ?v ?n = Val A" "malloc_wf A" "live A = live (hp_inner h)"
    "chunks (ll_headers A) = ?V(?v \<mapsto> (?n - HEADER_SIZE, MAGIC_FREE))"
    using add_chunk_spec [OF mw un le] ok by blast
  have "heap_wf \<lparr>hp_inner = A, hp_phys = ph\<rparr>"
    using A(2,4) page_alloc_wf [OF phw chunk_size pg] wf al(2) v
    by (auto simp: heap_wf_def chunk_end_def HEADER_SIZE_def MALLOC_CHUNK_SIZE_def split: if_splits)
  with A show ?thesis by simp
qed

lemma heap_wf_within:
  assumes wf: "heap_wf h" and "malloc_wf A"
    and w: "within (chunks (ll_headers (hp_inner h))) (chunks (ll_headers A))"
  shows "heap_wf (h\<lparr>hp_inner := A\<rparr>)"
proof -
  have "KERNEL_BASE \<le> a \<and> {a - KERNEL_BASE..<chunk_end a c - KERNEL_BASE} \<inter> page_avail (hp_phys h) = {}"
    if a: "chunks (ll_headers A) a = Some (c, m)" for a c m
  proof -
    obtain b d n where b: "chunks (ll_headers (hp_inner h)) b = Some (d, n)" "b \<le> a"
      "chunk_end a c \<le> chunk_end b d"
      using a w unfolding within_def by blast
    then have "KERNEL_BASE \<le> b" "{b - KERNEL_BASE..<chunk_end b d - KERNEL_BASE} \<inter> page_avail (hp_phys h) = {}"
      using wf unfolding heap_wf_def by blast+
    moreover have "{a - KERNEL_BASE..<chunk_end a c - KERNEL_BASE} \<subseteq> {b - KERNEL_BASE..<chunk_end b d - KERNEL_BASE}"
      using b(2,3) by auto
    ultimately show ?thesis using b(2) le_trans by blast
  qed
  with assms show ?thesis by (simp add: heap_wf_def)
qed

text \<open>What a successful allocation gives its caller.\<close>

definition alloc_result :: "heap \<Rightarrow> usize \<Rightarrow> usize \<Rightarrow> nat \<Rightarrow> heap \<Rightarrow> bool" where
  "alloc_result h sz align p h' \<longleftrightarrow> heap_wf h' \<and> p \<noteq> 0 \<and> align dvd p \<and> live (hp_inner h) p = None
     \<and> (\<exists>k. sz \<le> k \<and> live (hp_inner h') = (live (hp_inner h))(p \<mapsto> k))"

lemma malloc_result:
  assumes "heap_wf h" and "is_power_of_two align" and "0 < sz"
    and "malloc (hp_inner h) sz align = Some (Val (Some p, A))"
  shows "alloc_result h sz align p (h\<lparr>hp_inner := A\<rparr>)"
proof -
  have *: "malloc_wf A" "within (chunks (ll_headers (hp_inner h))) (chunks (ll_headers A))"
    "align dvd p" "live (hp_inner h) p = None"
    "\<exists>k. sz \<le> k \<and> live A = (live (hp_inner h))(p \<mapsto> k)"
    using malloc_spec [of "hp_inner h" align sz] assms by (auto simp: heap_wf_def)
  moreover have "p \<noteq> 0" using live_bound [OF *(1), of p] *(5) by auto
  ultimately show ?thesis
    using heap_wf_within [OF assms(1) *(1,2)] by (simp add: alloc_result_def)
qed

lemma malloc_failure:
  assumes "malloc_wf A" and "is_power_of_two align" and "0 < sz"
    and "malloc A sz align = Some (Val (None, A'))"
  shows "A' = A" and "\<not> (sz \<le> U32_MAX div 2 \<and> can_alloc A sz align)"
  using malloc_spec [OF assms(1-3)] assms(4) by auto

lemma malloc_success:
  assumes "malloc_wf A" and "is_power_of_two align" and "0 < sz" and "sz \<le> U32_MAX div 2"
    and "can_alloc A sz align"
  shows "\<exists>p A'. malloc A sz align = Some (Val (Some p, A'))"
proof -
  obtain r A' where "malloc A sz align = Some (Val (r, A'))"
    using malloc_spec [OF assms(1-3)] by blast
  with malloc_failure(2) [OF assms(1-3)] assms(4,5) show ?thesis by (cases r) auto
qed

lemma align_dvd_16: "is_power_of_two align \<Longrightarrow> align \<le> 16 \<Longrightarrow> align dvd 16"
proof -
  assume "is_power_of_two align" "align \<le> 16"
  then obtain k where k: "align = 2 ^ k" by (auto simp: is_power_of_two_iff)
  with \<open>align \<le> 16\<close> have "2 ^ k \<le> (2::nat) ^ 4" by simp
  then have "k \<le> 4" using power_le_imp_le_exp [of "2::nat" k 4] by simp
  then show "align dvd 16" using le_imp_power_dvd [of k 4 "2::nat"] k by simp
qed

lemma align_dvd_32: "is_power_of_two align \<Longrightarrow> 16 < align \<Longrightarrow> 32 dvd align"
proof -
  assume "is_power_of_two align" "16 < align"
  then obtain k where k: "align = 2 ^ k" by (auto simp: is_power_of_two_iff)
  with \<open>16 < align\<close> have "(2::nat) ^ 4 < 2 ^ k" by simp
  then have "4 < k" using power_less_imp_less_exp [of "2::nat" 4 k] by simp
  then show "32 dvd align" using le_imp_power_dvd [of 5 k "2::nat"] k by simp
qed

lemma fresh_chunk_fits:
  assumes "chunks (ll_headers A) v = Some (MALLOC_CHUNK_SIZE - HEADER_SIZE, MAGIC_FREE)"
    and "16 dvd v" and "is_power_of_two align" and "align \<le> 16" and "sz \<le> MALLOC_CHUNK_SIZE - HEADER_SIZE"
  shows "can_alloc A sz align"
proof -
  have "round_up sz MIN_SIZE \<le> MALLOC_CHUNK_SIZE - HEADER_SIZE"
    using assms(5) by (intro round_up_least) (simp_all add: MIN_SIZE_def MALLOC_CHUNK_SIZE_def HEADER_SIZE_def)
  moreover have "align dvd data_ptr v"
    using assms(2) dvd_trans [OF align_dvd_16 [OF assms(3,4)], of "v + 16"]
    by (simp add: data_ptr_def HEADER_SIZE_def)
  ultimately show ?thesis using assms(1) unfolding can_alloc_def by blast
qed

lemma global_alloc_spec:
  assumes wf: "heap_wf h" and al: "is_power_of_two align" "align \<le> 16"
    and sz: "0 < sz" "sz \<le> MALLOC_CHUNK_SIZE - HEADER_SIZE"
  shows "(\<exists>p h'. global_alloc h sz align = Some (Val (p, h')) \<and> alloc_result h sz align p h')
    \<or> global_alloc h sz align = Some Panic
        \<and> (\<exists>ph. page_alloc Dirty (hp_phys h) MALLOC_CHUNK_SIZE = Val (None, ph))"
proof -
  have mw: "malloc_wf (hp_inner h)" and phw: "phys_wf (hp_phys h)" using wf by (auto simp: heap_wf_def)
  have small: "sz \<le> U32_MAX div 2" using sz(2) by (simp add: MALLOC_CHUNK_SIZE_def HEADER_SIZE_def U32_MAX_def)
  obtain r A where m: "malloc (hp_inner h) sz align = Some (Val (r, A))"
    using malloc_spec [OF mw al(1) sz(1)] by blast
  obtain q ph where pg: "page_alloc Dirty (hp_phys h) MALLOC_CHUNK_SIZE = Val (q, ph)"
    using page_alloc_total [OF phw chunk_size] by blast
  show ?thesis
  proof (cases r)
    case (Some p)
    then show ?thesis
      using malloc_result [OF wf al(1) sz(1)] m by (auto simp: global_alloc_def)
  next
    case None
    then have A: "A = hp_inner h" using malloc_failure(1) [OF mw al(1) sz(1)] m by simp
    show ?thesis
    proof (cases q)
      case None
      with \<open>r = None\<close> m pg show ?thesis by (auto simp: global_alloc_def)
    next
      case (Some p)
      note pg' = pg [unfolded Some]
      obtain B where B: "add_chunk (hp_inner h) (paddr2vaddr p) MALLOC_CHUNK_SIZE = Val B"
        "heap_wf \<lparr>hp_inner = B, hp_phys = ph\<rparr>" "live B = live (hp_inner h)"
        "chunks (ll_headers B) (paddr2vaddr p) = Some (MALLOC_CHUNK_SIZE - HEADER_SIZE, MAGIC_FREE)"
        using grow_heap [OF wf pg'] by auto
      have bw: "malloc_wf B" using B(2) by (simp add: heap_wf_def)
      then have "chunks_wf (chunks (ll_headers B))" by (simp add: malloc_wf_def)
      then have "16 dvd paddr2vaddr p" using chunks_wfD(2) B(4) by (fastforce simp: MIN_SIZE_def)
      then obtain p' A' where p': "malloc B sz align = Some (Val (Some p', A'))"
        using malloc_success [OF bw al(1) sz(1) small] fresh_chunk_fits [OF B(4) _ al sz(2)] by blast
      have "alloc_result h sz align p' \<lparr>hp_inner = A', hp_phys = ph\<rparr>"
        using malloc_result [OF B(2) al(1) sz(1), of p' A'] p' B(3) by (simp add: alloc_result_def)
      with \<open>r = None\<close> m pg' A B(1) p' show ?thesis by (simp add: global_alloc_def)
    qed
  qed
qed

text \<open>The data of a fresh chunk is 16 bytes into a page, so no larger alignment is ever met by one.\<close>

lemma global_alloc_large_align:
  assumes wf: "heap_wf h" and al: "is_power_of_two align" "16 < align" and sz: "0 < sz"
    and none: "\<not> can_alloc (hp_inner h) sz align"
  shows "global_alloc h sz align = Some Panic"
proof -
  have mw: "malloc_wf (hp_inner h)" and phw: "phys_wf (hp_phys h)" using wf by (auto simp: heap_wf_def)
  obtain r A where m: "malloc (hp_inner h) sz align = Some (Val (r, A))"
    using malloc_spec [OF mw al(1) sz] by blast
  have r: "r = None" "A = hp_inner h"
    using malloc_spec [OF mw al(1) sz] m none by auto
  obtain q ph where pg: "page_alloc Dirty (hp_phys h) MALLOC_CHUNK_SIZE = Val (q, ph)"
    using page_alloc_total [OF phw chunk_size] by blast
  show ?thesis
  proof (cases q)
    case None
    with r m pg show ?thesis by (simp add: global_alloc_def)
  next
    case (Some p)
    note pg' = pg [unfolded Some]
    let ?v = "paddr2vaddr p"
    obtain B where B: "add_chunk (hp_inner h) ?v MALLOC_CHUNK_SIZE = Val B"
      "heap_wf \<lparr>hp_inner = B, hp_phys = ph\<rparr>"
      "chunks (ll_headers B) = (chunks (ll_headers (hp_inner h)))(?v \<mapsto> (MALLOC_CHUNK_SIZE - HEADER_SIZE, MAGIC_FREE))"
      using grow_heap [OF wf pg'] by blast
    note pa = page_alloc_Some(3,4) [OF phw chunk_size pg']
    then have "32 dvd p" "p < 2 ^ 47"
      using dvd_trans [of 32 "4096::nat" p] by (simp_all add: MIN_PAGE_SIZE_def direct_map_bound)
    then have "32 dvd ?v" by (simp add: paddr2vaddr_add KERNEL_BASE_def)
    then have "\<not> 32 dvd ?v + 16" by (simp add: dvd_add_right_iff)
    then have "\<not> align dvd data_ptr ?v"
      using dvd_trans [OF align_dvd_32 [OF al]] by (auto simp: data_ptr_def HEADER_SIZE_def)
    then have "\<not> can_alloc B sz align"
      using none by (auto simp: can_alloc_def B(3) split: if_splits)
    then have "malloc B sz align = Some (Val (None, B))"
      using malloc_spec [of B align sz] al(1) sz B(2) by (auto simp: heap_wf_def)
    with r m pg' B(1) show ?thesis by (simp add: global_alloc_def)
  qed
qed

lemma global_dealloc_spec:
  assumes "heap_wf h" and "live (hp_inner h) p = Some c"
  shows "\<exists>h'. global_dealloc h p = Val h' \<and> heap_wf h' \<and> live (hp_inner h') = (live (hp_inner h))(p := None)
    \<and> hp_phys h' = hp_phys h"
proof -
  obtain A where "free (hp_inner h) p = Val A" "malloc_wf A" "live A = (live (hp_inner h))(p := None)"
    "within (chunks (ll_headers (hp_inner h))) (chunks (ll_headers A))"
    using free_spec [OF _ assms(2)] assms(1) by (auto simp: heap_wf_def)
  then show ?thesis
    using heap_wf_within [OF assms(1)] by (simp add: global_dealloc_def)
qed

section \<open>Properties\<close>

definition example_kheap :: heap where
  "example_kheap = \<lparr>hp_inner = malloc_new (\<lambda>_. None), hp_phys =
     example_phys\<lparr>ph_regions := \<lparr>av_elems = [Some (bump_new 0x100000 0x200000)], av_len = 1\<rparr>\<rparr>\<rparr>"

lemma example_kheap_wf: "heap_wf example_kheap"
  by (simp add: heap_wf_def example_kheap_def phys_wf_def av_inv_def av_list_def USIZE_MAX_def bump_new_def
      direct_map_bound)
    (simp add: malloc_new_def chunks_def)

text \<open>
  C16. The kernel's global allocator, for every layout Rust asks of it with alignment up to 16 and a
  size that fits in one fresh 128 KiB chunk: it returns, and it returns a block unless the page
  allocator has no 128 KiB left, in which case it panics. The block is aligned, large enough and not
  null, was not live before, and no other live block changes; the memory of the heap and the pages
  the page allocator may still hand out stay apart.
\<close>

theorem global_alloc_contract:
  assumes "heap_wf h" and "is_power_of_two align" and "align \<le> 16"
    and "0 < sz" and "sz \<le> MALLOC_CHUNK_SIZE - HEADER_SIZE"
  shows "(\<exists>p h'. global_alloc h sz align = Some (Val (p, h')) \<and> heap_wf h' \<and> p \<noteq> 0 \<and> align dvd p
      \<and> live (hp_inner h) p = None
      \<and> (\<exists>k. sz \<le> k \<and> live (hp_inner h') = (live (hp_inner h))(p \<mapsto> k)))
    \<or> global_alloc h sz align = Some Panic
        \<and> (\<exists>ph. page_alloc Dirty (hp_phys h) MALLOC_CHUNK_SIZE = Val (None, ph))"
  using global_alloc_spec [OF assms] unfolding alloc_result_def .

theorem global_alloc_contract_witness:
  "heap_wf example_kheap \<and> ((\<exists>p h'. global_alloc example_kheap 100 16 = Some (Val (p, h')) \<and> heap_wf h' \<and> p \<noteq> 0)
    \<or> global_alloc example_kheap 100 16 = Some Panic)"
proof -
  have "is_power_of_two 16" using is_power_of_two_pow [of 4] by simp
  then show ?thesis
    using global_alloc_contract [OF example_kheap_wf, of 16 100] example_kheap_wf
    by (auto simp: MALLOC_CHUNK_SIZE_def HEADER_SIZE_def)
qed

text \<open>
  C17. Alignments above 16: when no free chunk already happens to be aligned, the allocator panics,
  whatever memory is left. The data area of a fresh chunk starts 16 bytes into a page, so growing
  the heap never helps.
\<close>

theorem large_alignment_panics:
  assumes "heap_wf h" and "is_power_of_two align" and "16 < align" and "0 < sz"
    and "\<not> can_alloc (hp_inner h) sz align"
  shows "global_alloc h sz align = Some Panic \<and> server_alloc h sz align = Some Panic"
  using global_alloc_large_align [OF assms] server_alloc_eq by simp

theorem large_alignment_panics_witness:
  "global_alloc example_kheap 64 4096 = Some Panic \<and> server_alloc example_kheap 64 4096 = Some Panic"
proof -
  have "is_power_of_two 4096" using is_power_of_two_pow [of 12] by simp
  moreover have "\<not> can_alloc (hp_inner example_kheap) 64 4096"
    by (simp add: example_kheap_def malloc_new_def can_alloc_def chunks_def)
  ultimately show ?thesis
    using large_alignment_panics [OF example_kheap_wf, of 4096 64] by simp
qed

end
