(* ===== verification/VmArea.thy ===== *)
theory VmArea
  imports Memory Api
begin

text \<open>
  \<open>kernel/src/vmarea.rs\<close>: anonymous memory areas whose pages are allocated on first use. \<open>area_byte\<close>
  is the abstract content of an area (a page that is not there yet reads as zeros); \<open>read\<close> and
  \<open>write\<close> are shown to implement a plain byte array on it, and to leave all other memory alone.
  The outcome of \<open>Vec::try_reserve_exact\<close> is the argument \<open>reserve\<close>: the vector has the room, the
  capacity overflows, or the kernel's global allocator panics.
\<close>

record VmArea =
  va_pages :: "PAddr option list"
  va_len :: usize

section \<open>Operations\<close>

definition get_or_fill :: "VmArea \<Rightarrow> phys \<Rightarrow> usize \<Rightarrow> ((ErrorCode + PAddr) \<times> VmArea \<times> phys) exec" where
  "get_or_fill A ph index =
     (if length (va_pages A) \<le> index then Panic
      else case va_pages A ! index of
          Some paddr \<Rightarrow> Val (Inr paddr, A, ph)
        | None \<Rightarrow> exec_bind (page_alloc Zeroed ph MIN_PAGE_SIZE) (\<lambda>(r, ph'). case r of
              None \<Rightarrow> Val (Inl OUT_OF_MEMORY, A, ph')
            | Some paddr \<Rightarrow> Val (Inr paddr, A\<lparr>va_pages := (va_pages A)[index := Some paddr]\<rparr>, ph')))"

definition new_anonymous :: "(usize \<Rightarrow> bool exec) \<Rightarrow> usize \<Rightarrow> (ErrorCode + VmArea) exec" where
  "new_anonymous reserve len =
     (if len = 0 then Val (Inl INVALID_ARG)
      else exec_bind (is_aligned len MIN_PAGE_SIZE) (\<lambda>aligned.
        if \<not> aligned then Val (Inl INVALID_ARG)
        else let n = len div MIN_PAGE_SIZE in
          exec_bind (reserve n) (\<lambda>reserved.
            if \<not> reserved then Val (Inl OUT_OF_MEMORY)
            else Val (Inr \<lparr>va_pages = replicate n None, va_len = len\<rparr>))))"

definition ensure_page :: "VmArea \<Rightarrow> phys \<Rightarrow> usize \<Rightarrow> ((ErrorCode + PAddr) \<times> VmArea \<times> phys) exec" where
  "ensure_page A ph index =
     (if length (va_pages A) \<le> index then Val (Inl OUT_OF_BOUNDS, A, ph)
      else exec_try (get_or_fill A ph index) (\<lambda>paddr (A, ph). Val (Inr paddr, A, ph)))"

function write_loop :: "VmArea \<Rightarrow> phys \<Rightarrow> usize \<Rightarrow> u8 list \<Rightarrow> ((ErrorCode + unit) \<times> VmArea \<times> phys) exec" where
  "write_loop A ph offset data =
     (if data = [] then Val (Inr (), A, ph)
      else
        let index = offset div MIN_PAGE_SIZE;
            page_offset = offset mod MIN_PAGE_SIZE;
            copy_len = min (length data) (MIN_PAGE_SIZE - page_offset)
        in exec_try (get_or_fill A ph index) (\<lambda>paddr (A, ph).
             let dst = vaddr2paddr (paddr2vaddr paddr) + page_offset;
                 ph = ph\<lparr>ph_mem := mem_write (ph_mem ph) dst (take copy_len data)\<rparr>
             in exec_bind (usize_add offset copy_len) (\<lambda>offset.
                  write_loop A ph offset (drop copy_len data))))"
  by pat_completeness auto

termination
  by (relation "measure (\<lambda>(A, ph, offset, data). length data)") (auto simp: MIN_PAGE_SIZE_def)

definition area_write :: "VmArea \<Rightarrow> phys \<Rightarrow> usize \<Rightarrow> u8 list \<Rightarrow> ((ErrorCode + unit) \<times> VmArea \<times> phys) exec" where
  "area_write A ph offset data =
     (case checked_add offset (length data) of
        None \<Rightarrow> Val (Inl OUT_OF_BOUNDS, A, ph)
      | Some offset_end \<Rightarrow>
          if va_len A < offset_end then Val (Inl OUT_OF_BOUNDS, A, ph)
          else write_loop A ph offset data)"

text \<open>
  The buffer of \<open>read\<close> is split into the part that is already filled and the slice that is left;
  the result carries the whole buffer, also when the loop stops with an error.
\<close>

function read_loop :: "VmArea \<Rightarrow> phys \<Rightarrow> usize \<Rightarrow> u8 list \<Rightarrow> u8 list
    \<Rightarrow> ((ErrorCode + unit) \<times> u8 list \<times> VmArea \<times> phys) exec" where
  "read_loop A ph offset filled buf =
     (if buf = [] then Val (Inr (), filled, A, ph)
      else
        let index = offset div MIN_PAGE_SIZE;
            offset_in_page = offset mod MIN_PAGE_SIZE
        in exec_bind (get_or_fill A ph index) (\<lambda>(r, A, ph). case r of
             Inl e \<Rightarrow> Val (Inl e, filled @ buf, A, ph)
           | Inr paddr \<Rightarrow>
               let src = vaddr2paddr (paddr2vaddr paddr) + offset_in_page;
                   copy_len = min (length buf) (MIN_PAGE_SIZE - offset_in_page)
               in exec_bind (usize_add offset copy_len) (\<lambda>offset.
                    read_loop A ph offset (filled @ mem_read (ph_mem ph) src copy_len) (drop copy_len buf))))"
  by pat_completeness auto

termination
  by (relation "measure (\<lambda>(A, ph, offset, filled, buf). length buf)") (auto simp: MIN_PAGE_SIZE_def)

definition area_read :: "VmArea \<Rightarrow> phys \<Rightarrow> usize \<Rightarrow> u8 list
    \<Rightarrow> ((ErrorCode + unit) \<times> u8 list \<times> VmArea \<times> phys) exec" where
  "area_read A ph offset buf =
     (case checked_add offset (length buf) of
        None \<Rightarrow> Val (Inl OUT_OF_BOUNDS, buf, A, ph)
      | Some offset_end \<Rightarrow>
          if va_len A < offset_end then Val (Inl OUT_OF_BOUNDS, buf, A, ph)
          else read_loop A ph offset [] buf)"

declare write_loop.simps [simp del] read_loop.simps [simp del]

section \<open>Abstract contents and well-formedness\<close>

definition area_byte :: "VmArea \<Rightarrow> memory \<Rightarrow> nat \<Rightarrow> u8" where
  "area_byte A m i = (case va_pages A ! (i div MIN_PAGE_SIZE) of
     None \<Rightarrow> 0 | Some p \<Rightarrow> m (p + i mod MIN_PAGE_SIZE))"

definition area_bytes :: "VmArea \<Rightarrow> memory \<Rightarrow> u8 list" where
  "area_bytes A m = map (area_byte A m) [0..<va_len A]"

definition page_frame :: "PAddr \<Rightarrow> nat set" where
  "page_frame p = {p..<p + MIN_PAGE_SIZE}"

definition area_mem :: "VmArea \<Rightarrow> nat set" where
  "area_mem A = (\<Union>p\<in>{p. Some p \<in> set (va_pages A)}. page_frame p)"

text \<open>
  Every page of an area is a page of RAM that the page allocator has given away, and no page is used
  twice.
\<close>

definition area_wf :: "VmArea \<Rightarrow> phys \<Rightarrow> bool" where
  "area_wf A ph \<longleftrightarrow> va_len A = MIN_PAGE_SIZE * length (va_pages A) \<and> va_len A \<le> USIZE_MAX
     \<and> (\<forall>p. Some p \<in> set (va_pages A) \<longrightarrow>
          MIN_PAGE_SIZE dvd p \<and> p + MIN_PAGE_SIZE \<le> DIRECT_MAP_END \<and> page_frame p \<inter> page_avail ph = {})
     \<and> (\<forall>i j p. i < length (va_pages A) \<longrightarrow> j < length (va_pages A) \<longrightarrow>
          va_pages A ! i = Some p \<longrightarrow> va_pages A ! j = Some p \<longrightarrow> i = j)"

text \<open>
  What every operation on an area keeps: pages are only added, out of the page allocator, and memory
  outside the area and the page allocator does not change.
\<close>

definition area_step :: "VmArea \<Rightarrow> phys \<Rightarrow> VmArea \<Rightarrow> phys \<Rightarrow> bool" where
  "area_step A ph A' ph' \<longleftrightarrow> phys_wf ph' \<and> area_wf A' ph' \<and> va_len A' = va_len A
     \<and> page_avail ph' \<subseteq> page_avail ph
     \<and> area_mem A \<subseteq> area_mem A' \<and> area_mem A' \<subseteq> area_mem A \<union> (page_avail ph - page_avail ph')
     \<and> (\<forall>x. x \<notin> area_mem A \<longrightarrow> x \<notin> page_avail ph \<longrightarrow> ph_mem ph' x = ph_mem ph x)"

lemma area_step_refl: "phys_wf ph \<Longrightarrow> area_wf A ph \<Longrightarrow> area_step A ph A ph"
  by (simp add: area_step_def)

lemma area_step_trans:
  assumes "area_step A ph B ph1" and "area_step B ph1 C ph2"
  shows "area_step A ph C ph2"
proof -
  have "ph_mem ph2 x = ph_mem ph x" if x: "x \<notin> area_mem A" "x \<notin> page_avail ph" for x
  proof -
    have "x \<notin> area_mem B" "x \<notin> page_avail ph1" using assms(1) x unfolding area_step_def by blast+
    then show ?thesis using assms x unfolding area_step_def by metis
  qed
  moreover have "area_mem C \<subseteq> area_mem A \<union> (page_avail ph - page_avail ph2)"
    using assms unfolding area_step_def by blast
  ultimately show ?thesis using assms unfolding area_step_def by auto
qed

lemma area_wf_page:
  assumes "area_wf A ph" and "i < length (va_pages A)" and "va_pages A ! i = Some p"
  shows "MIN_PAGE_SIZE dvd p" and "p + MIN_PAGE_SIZE \<le> DIRECT_MAP_END" and "page_frame p \<inter> page_avail ph = {}"
    and "page_frame p \<subseteq> area_mem A" and "p < 2 ^ 47"
proof -
  have "Some p \<in> set (va_pages A)" using assms(2,3) by (metis nth_mem)
  then show "MIN_PAGE_SIZE dvd p" "p + MIN_PAGE_SIZE \<le> DIRECT_MAP_END" "page_frame p \<inter> page_avail ph = {}"
    "page_frame p \<subseteq> area_mem A"
    using assms(1) by (auto simp: area_wf_def area_mem_def)
  then show "p < 2 ^ 47" by (simp add: direct_map_bound MIN_PAGE_SIZE_def)
qed

lemma page_frames_apart:
  assumes "MIN_PAGE_SIZE dvd p" and "MIN_PAGE_SIZE dvd q" and "p \<noteq> q"
  shows "page_frame p \<inter> page_frame q = {}"
proof -
  have "x div MIN_PAGE_SIZE = r div MIN_PAGE_SIZE" if "x \<in> page_frame r" "MIN_PAGE_SIZE dvd r" for x r
  proof -
    have "x = MIN_PAGE_SIZE * (r div MIN_PAGE_SIZE) + (x - r)" "x - r < MIN_PAGE_SIZE"
      using that by (auto simp: page_frame_def)
    then show ?thesis by (metis div_mult_self4 div_less page_size_pos add.commute add_0 less_not_refl2)
  qed
  then show ?thesis using assms by (metis disjoint_iff dvd_div_eq_iff)
qed

lemma area_byte_in_frame:
  "i div MIN_PAGE_SIZE < length (va_pages A) \<Longrightarrow> va_pages A ! (i div MIN_PAGE_SIZE) = Some p \<Longrightarrow>
     p + i mod MIN_PAGE_SIZE \<in> page_frame p"
  by (simp add: page_frame_def)

lemma page_index_less: "area_wf A ph \<Longrightarrow> i < va_len A \<Longrightarrow> i div MIN_PAGE_SIZE < length (va_pages A)"
  by (simp add: area_wf_def less_mult_imp_div_less mult.commute)

section \<open>Filling pages\<close>

lemma area_byte_frame:
  assumes "area_wf A ph" and "i < va_len A" and "\<And>x. x \<in> area_mem A \<Longrightarrow> m' x = m x"
  shows "area_byte A m' i = area_byte A m i"
  using area_wf_page(4) [OF assms(1) page_index_less [OF assms(1,2)]] assms(3)
    area_byte_in_frame [OF page_index_less [OF assms(1,2)]]
  by (auto simp: area_byte_def split: option.splits)

lemma area_wf_avail: "area_wf A ph \<Longrightarrow> area_mem A \<inter> page_avail ph = {}"
  by (auto simp: area_wf_def area_mem_def)

lemma area_wf_shrink_avail:
  "area_wf A ph \<Longrightarrow> page_avail ph' \<subseteq> page_avail ph \<Longrightarrow> area_wf A ph'"
  unfolding area_wf_def by blast

lemma page_frame_start [simp]: "p \<in> page_frame p"
  by (simp add: page_frame_def)

lemma set_page_wf:
  assumes wf: "area_wf A ph" and i: "i < length (va_pages A)" and new: "Some p \<notin> set (va_pages A)"
    and p: "MIN_PAGE_SIZE dvd p" "p + MIN_PAGE_SIZE \<le> DIRECT_MAP_END" "page_frame p \<inter> page_avail ph = {}"
  shows "area_wf (A\<lparr>va_pages := (va_pages A)[i := Some p]\<rparr>) ph"
proof -
  let ?pages = "(va_pages A)[i := Some p]"
  have old: "q = p \<or> Some q \<in> set (va_pages A)" if "Some q \<in> set ?pages" for q
    using that set_update_subset_insert [of "va_pages A" i "Some p"] by auto
  have inj: "j = k" if "j < length (va_pages A)" "k < length (va_pages A)" "?pages ! j = Some q" "?pages ! k = Some q" for j k q
  proof (cases "q = p")
    case True
    then have "j = i" "k = i"
      using that new nth_mem [of j "va_pages A"] nth_mem [of k "va_pages A"] by (metis nth_list_update_neq)+
    then show ?thesis by simp
  next
    case False
    then have "j \<noteq> i" "k \<noteq> i" using that i by auto
    then show ?thesis using that wf unfolding area_wf_def by (metis nth_list_update_neq)
  qed
  show ?thesis
    unfolding area_wf_def
  proof (intro conjI allI impI)
    fix q assume "Some q \<in> set (va_pages (A\<lparr>va_pages := ?pages\<rparr>))"
    then have "q = p \<or> Some q \<in> set (va_pages A)" using old by simp
    then show "MIN_PAGE_SIZE dvd q" "q + MIN_PAGE_SIZE \<le> DIRECT_MAP_END" "page_frame q \<inter> page_avail ph = {}"
      using wf p unfolding area_wf_def by blast+
  qed (use wf inj in \<open>auto simp: area_wf_def\<close>)
qed

lemma set_page_mem:
  assumes "i < length (va_pages A)" and "va_pages A ! i = None"
  shows "area_mem (A\<lparr>va_pages := (va_pages A)[i := Some p]\<rparr>) = area_mem A \<union> page_frame p"
proof -
  have "Some q \<in> set ((va_pages A)[i := Some p]) \<longleftrightarrow> q = p \<or> Some q \<in> set (va_pages A)" for q
  proof
    assume "Some q \<in> set ((va_pages A)[i := Some p])"
    then show "q = p \<or> Some q \<in> set (va_pages A)"
      using set_update_subset_insert [of "va_pages A" i "Some p"] by auto
  next
    assume q: "q = p \<or> Some q \<in> set (va_pages A)"
    show "Some q \<in> set ((va_pages A)[i := Some p])"
    proof (cases "q = p")
      case True
      with assms(1) show ?thesis by (simp add: set_update_memI)
    next
      case False
      then obtain j where "j < length (va_pages A)" "va_pages A ! j = Some q" "j \<noteq> i"
        using q assms(2) by (metis in_set_conv_nth option.distinct(1))
      then show ?thesis by (metis length_list_update nth_list_update_neq nth_mem)
    qed
  qed
  then show ?thesis by (auto simp: area_mem_def)
qed

text \<open>Adding a page taken from the page allocator.\<close>

lemma fill_page:
  assumes phw: "phys_wf ph" and wf: "area_wf A ph" and i: "i < length (va_pages A)" "va_pages A ! i = None"
    and pg: "page_alloc Zeroed ph MIN_PAGE_SIZE = Val (Some p, ph')"
  defines "A' \<equiv> A\<lparr>va_pages := (va_pages A)[i := Some p]\<rparr>"
  shows "area_step A ph A' ph'" and "\<And>k. k < va_len A \<Longrightarrow> area_byte A' (ph_mem ph') k = area_byte A (ph_mem ph) k"
proof -
  note pa = page_alloc_Some [OF phw page_size_pos dvd_refl pg]
  have phw': "phys_wf ph'" by (rule page_alloc_wf [OF phw page_size_pos dvd_refl pg])
  have frame: "page_frame p \<subseteq> page_avail ph" "page_frame p \<inter> page_avail ph' = {}"
    "page_avail ph' \<subseteq> page_avail ph"
    using pa(1,2) by (auto simp: page_frame_def)
  have apart: "area_mem A \<inter> page_frame p = {}" using area_wf_avail [OF wf] frame(1) by blast
  then have "Some p \<notin> set (va_pages A)" using page_frame_start unfolding area_mem_def by blast
  then have wf': "area_wf A' ph'"
    unfolding A'_def
    by (intro set_page_wf [OF area_wf_shrink_avail [OF wf frame(3)] i(1)] pa(3,4) frame(2))
  have mem: "ph_mem ph' x = ph_mem ph x" if "x \<notin> page_frame p" for x
    using that pa(5) by (auto simp: mem_fill_def page_frame_def)
  show step: "area_step A ph A' ph'"
  proof -
    have "area_mem A' = area_mem A \<union> page_frame p" unfolding A'_def by (rule set_page_mem [OF i])
    moreover have "va_len A' = va_len A" by (simp add: A'_def)
    ultimately show ?thesis using phw' wf' frame mem unfolding area_step_def by blast
  qed
  fix k assume k: "k < va_len A"
  have same: "area_byte A (ph_mem ph') k = area_byte A (ph_mem ph) k"
    using apart by (intro area_byte_frame [OF wf k] mem) blast
  show "area_byte A' (ph_mem ph') k = area_byte A (ph_mem ph) k"
  proof (cases "k div MIN_PAGE_SIZE = i")
    case True
    then show ?thesis using i pa(5) by (simp add: area_byte_def A'_def mem_fill_def)
  next
    case False
    then show ?thesis using same by (simp add: area_byte_def A'_def)
  qed
qed

lemma get_or_fill_spec:
  assumes "phys_wf ph" and "area_wf A ph" and "i < length (va_pages A)"
  shows "\<exists>r A' ph'. get_or_fill A ph i = Val (r, A', ph') \<and> area_step A ph A' ph'
    \<and> (\<forall>k<va_len A. area_byte A' (ph_mem ph') k = area_byte A (ph_mem ph) k)
    \<and> (case r of Inl e \<Rightarrow> e = OUT_OF_MEMORY
          \<and> (\<exists>ph''. page_alloc Zeroed ph MIN_PAGE_SIZE = Val (None, ph''))
        | Inr p \<Rightarrow> va_pages A' ! i = Some p)"
proof (cases "va_pages A ! i")
  case (Some p)
  then show ?thesis using assms(3) area_step_refl [OF assms(1,2)] by (simp add: get_or_fill_def)
next
  case None
  obtain r ph' where pg: "page_alloc Zeroed ph MIN_PAGE_SIZE = Val (r, ph')"
    using page_alloc_total [OF assms(1) page_size_pos dvd_refl] by blast
  show ?thesis
  proof (cases r)
    case (Some p)
    then have "get_or_fill A ph i = Val (Inr p, A\<lparr>va_pages := (va_pages A)[i := Some p]\<rparr>, ph')"
      using None assms(3) pg by (simp add: get_or_fill_def)
    with Some show ?thesis using fill_page [OF assms None] pg assms(3) by simp
  next
    case none: None
    then have "page_avail ph' = page_avail ph" "ph_mem ph' = ph_mem ph" "phys_wf ph'"
      using page_alloc_None [OF assms(1) page_size_pos dvd_refl] page_alloc_wf [OF assms(1) page_size_pos dvd_refl] pg
      by auto
    then have "area_step A ph A ph'"
      using assms area_wf_shrink_avail [OF assms(2), of ph'] by (simp add: area_step_def)
    moreover have "get_or_fill A ph i = Val (Inl OUT_OF_MEMORY, A, ph')"
      using None none assms(3) pg by (simp add: get_or_fill_def)
    ultimately show ?thesis using none pg \<open>ph_mem ph' = ph_mem ph\<close> by simp
  qed
qed

section \<open>Reading and writing\<close>

lemma mem_write_append: "mem_write (mem_write f a xs) (a + length xs) ys = mem_write f a (xs @ ys)"
  by (rule ext) (auto simp: mem_write_def nth_append)

text \<open>Writing inside one page of an area.\<close>

lemma write_page:
  assumes wf: "area_wf A ph" and n: "n < length (va_pages A)" "va_pages A ! n = Some p"
    and d: "o' + length d \<le> MIN_PAGE_SIZE" and i: "i < va_len A"
  shows "area_byte A (mem_write m (p + o') d) i =
    mem_write (area_byte A m) (n * MIN_PAGE_SIZE + o') d i"
proof (cases "i div MIN_PAGE_SIZE = n")
  case True
  define r where "r = i mod MIN_PAGE_SIZE"
  have i': "i = n * MIN_PAGE_SIZE + r" using True div_mult_mod_eq [of i MIN_PAGE_SIZE] unfolding r_def by simp
  have b: "area_byte A m' i = m' (p + r)" for m' using True n(2) by (simp add: area_byte_def r_def)
  have "mem_write (area_byte A m) (n * MIN_PAGE_SIZE + o') d i =
      (if o' \<le> r \<and> r < o' + length d then d ! (r - o') else m (p + r))"
    unfolding mem_write_def b [of m] by (simp add: i')
  then show ?thesis unfolding b [of "mem_write m (p + o') d"] by (simp add: mem_write_def)
next
  case False
  have lt: "i div MIN_PAGE_SIZE < length (va_pages A)" by (rule page_index_less [OF wf i])
  have out: "\<not> (n * MIN_PAGE_SIZE + o' \<le> i \<and> i < n * MIN_PAGE_SIZE + o' + length d)"
  proof
    assume "n * MIN_PAGE_SIZE + o' \<le> i \<and> i < n * MIN_PAGE_SIZE + o' + length d"
    then have "n * MIN_PAGE_SIZE \<le> i" "i < Suc n * MIN_PAGE_SIZE" using d by auto
    then show False using False div_nat_eqI [of MIN_PAGE_SIZE n i] by (simp add: mult.commute)
  qed
  then have "mem_write (area_byte A m) (n * MIN_PAGE_SIZE + o') d i = area_byte A m i"
    by (auto simp: mem_write_def)
  moreover have "area_byte A (mem_write m (p + o') d) i = area_byte A m i"
  proof (cases "va_pages A ! (i div MIN_PAGE_SIZE)")
    case None
    then show ?thesis by (simp add: area_byte_def)
  next
    case (Some q)
    then have "q \<noteq> p" using wf lt n False unfolding area_wf_def by blast
    then have "page_frame q \<inter> page_frame p = {}"
      using area_wf_page(1) [OF wf lt Some] area_wf_page(1) [OF wf n] by (simp add: page_frames_apart)
    then have "q + i mod MIN_PAGE_SIZE \<notin> page_frame p" using area_byte_in_frame [OF lt Some] by blast
    then show ?thesis using Some d by (auto simp: area_byte_def page_frame_def intro: mem_write_outside)
  qed
  ultimately show ?thesis by simp
qed

lemma write_page_step:
  assumes phw: "phys_wf ph" and wf: "area_wf A ph" and n: "n < length (va_pages A)" "va_pages A ! n = Some p"
    and d: "o' + length d \<le> MIN_PAGE_SIZE"
  shows "area_step A ph A (ph\<lparr>ph_mem := mem_write (ph_mem ph) (p + o') d\<rparr>)"
proof -
  have "mem_write (ph_mem ph) (p + o') d x = ph_mem ph x" if "x \<notin> page_frame p" for x
    using that d by (auto simp: page_frame_def intro: mem_write_outside)
  moreover have "page_frame p \<subseteq> area_mem A" by (rule area_wf_page(4) [OF wf n])
  moreover have "page_avail (ph\<lparr>ph_mem := m\<rparr>) = page_avail ph" "phys_wf (ph\<lparr>ph_mem := m\<rparr>)" for m
    using phw by (simp_all add: phys_wf_def page_avail_def)
  moreover from this have "area_wf A (ph\<lparr>ph_mem := m\<rparr>)" for m
    using area_wf_shrink_avail [OF wf] by simp
  ultimately show ?thesis
    unfolding area_step_def by (intro conjI allI impI) auto
qed

lemma area_stepD:
  assumes "area_step A ph A' ph'"
  shows "phys_wf ph'" and "area_wf A' ph'" and "va_len A' = va_len A"
  using assms by (simp_all add: area_step_def)

text \<open>One iteration of the loops: the page of \<open>offset\<close> is there, and at least one byte of it is used.\<close>

definition copy_len :: "usize \<Rightarrow> usize \<Rightarrow> usize" where
  "copy_len offset n = min n (MIN_PAGE_SIZE - offset mod MIN_PAGE_SIZE)"

lemma copy_len_bounds:
  "copy_len offset n \<le> n" "0 < n \<Longrightarrow> 0 < copy_len offset n"
  "offset mod MIN_PAGE_SIZE + copy_len offset n \<le> MIN_PAGE_SIZE"
proof -
  have "offset mod MIN_PAGE_SIZE < MIN_PAGE_SIZE" by simp
  then show "copy_len offset n \<le> n" "0 < n \<Longrightarrow> 0 < copy_len offset n"
    "offset mod MIN_PAGE_SIZE + copy_len offset n \<le> MIN_PAGE_SIZE"
    unfolding copy_len_def by linarith+
qed

lemma write_loop_step:
  assumes phw: "phys_wf ph" and wf: "area_wf A ph" and data: "data \<noteq> []" and le: "offset + length data \<le> va_len A"
  defines "n \<equiv> copy_len offset (length data)"
  shows "(\<exists>A' ph'. write_loop A ph offset data = Val (Inl OUT_OF_MEMORY, A', ph') \<and> area_step A ph A' ph'
      \<and> (\<forall>k<va_len A. area_byte A' (ph_mem ph') k = area_byte A (ph_mem ph) k))
    \<or> (\<exists>A' ph'. write_loop A ph offset data = write_loop A' ph' (offset + n) (drop n data) \<and> area_step A ph A' ph'
      \<and> (\<forall>k<va_len A. area_byte A' (ph_mem ph') k = mem_write (area_byte A (ph_mem ph)) offset (take n data) k))"
proof -
  let ?i = "offset div MIN_PAGE_SIZE" and ?o = "offset mod MIN_PAGE_SIZE"
  have off: "offset < va_len A" using data le by (cases data) auto
  then have i: "?i < length (va_pages A)" by (rule page_index_less [OF wf])
  obtain r A' ph' where g: "get_or_fill A ph ?i = Val (r, A', ph')" "area_step A ph A' ph'"
    "\<forall>k<va_len A. area_byte A' (ph_mem ph') k = area_byte A (ph_mem ph) k"
    "case r of Inl e \<Rightarrow> e = OUT_OF_MEMORY \<and> (\<exists>ph''. page_alloc Zeroed ph MIN_PAGE_SIZE = Val (None, ph''))
      | Inr p \<Rightarrow> va_pages A' ! ?i = Some p"
    using get_or_fill_spec [OF phw wf i] by blast
  note st = area_stepD [OF g(2)]
  have len: "offset + n \<le> USIZE_MAX"
    using le wf copy_len_bounds(1) [of offset "length data"] by (auto simp: n_def area_wf_def)
  show ?thesis
  proof (cases r)
    case (Inl e)
    then have "write_loop A ph offset data = Val (Inl OUT_OF_MEMORY, A', ph')"
      using g(1,4) data by (simp add: write_loop.simps [of A])
    with g(2,3) show ?thesis by blast
  next
    case (Inr p)
    then have p: "va_pages A' ! ?i = Some p" using g(4) by simp
    have i': "?i < length (va_pages A')" using page_index_less [OF st(2), of offset] off st(3) by simp
    have d: "?o + length (take n data) \<le> MIN_PAGE_SIZE"
      using copy_len_bounds(1,3) [of offset "length data"] by (simp add: n_def)
    let ?ph = "ph'\<lparr>ph_mem := mem_write (ph_mem ph') (p + ?o) (take n data)\<rparr>"
    have "write_loop A ph offset data = write_loop A' ?ph (offset + n) (drop n data)"
      using g(1) Inr data len area_wf_page(5) [OF st(2) i' p]
      by (simp add: write_loop.simps [of A] n_def copy_len_def usize_add_def Let_def)
    moreover have "area_step A ph A' ?ph"
      using area_step_trans [OF g(2) write_page_step [OF st(1,2) i' p d]] .
    moreover have "area_byte A' (ph_mem ?ph) k = mem_write (area_byte A (ph_mem ph)) offset (take n data) k"
      if "k < va_len A" for k
      using write_page [OF st(2) i' p d, of k "ph_mem ph'"] g(3) that st(3)
      by (simp add: mem_write_def)
    ultimately show ?thesis by blast
  qed
qed

text \<open>The write loop: it stores a prefix of the data, all of it unless memory runs out.\<close>

lemma write_loop_spec:
  assumes "phys_wf ph" and "area_wf A ph" and "offset + length data \<le> va_len A"
  shows "\<exists>r A' ph' n. write_loop A ph offset data = Val (r, A', ph') \<and> area_step A ph A' ph' \<and> n \<le> length data
    \<and> (\<forall>k<va_len A. area_byte A' (ph_mem ph') k = mem_write (area_byte A (ph_mem ph)) offset (take n data) k)
    \<and> (case r of Inl e \<Rightarrow> e = OUT_OF_MEMORY | Inr _ \<Rightarrow> n = length data)"
  using assms
proof (induction "length data" arbitrary: A ph offset data rule: less_induct)
  case less
  show ?case
  proof (cases "data = []")
    case True
    then show ?thesis using area_step_refl [OF less.prems(1,2)] by (simp add: write_loop.simps)
  next
    case False
    define c where "c = copy_len offset (length data)"
    have c: "0 < c" "c \<le> length data" using copy_len_bounds(1) [of offset "length data"] copy_len_bounds(2) [of "length data" offset] False
      by (auto simp: c_def)
    from write_loop_step [OF less.prems(1,2) False less.prems(3), folded c_def] show ?thesis
    proof (elim disjE exE conjE, goal_cases)
      case (1 A' ph')
      then show ?case by (intro exI [of _ "Inl OUT_OF_MEMORY"] exI [of _ A'] exI [of _ ph'] exI [of _ 0]) simp
    next
      case (2 A1 ph1)
      note st = area_stepD [OF 2(2)]
      have "length (drop c data) < length data" "offset + c + length (drop c data) \<le> va_len A1"
        using c less.prems(3) st(3) by auto
      from less.hyps [OF this(1) st(1,2) this(2)] obtain r A' ph' n where *:
        "write_loop A1 ph1 (offset + c) (drop c data) = Val (r, A', ph')" "area_step A1 ph1 A' ph'"
        "n \<le> length (drop c data)"
        "\<forall>k<va_len A1. area_byte A' (ph_mem ph') k =
           mem_write (area_byte A1 (ph_mem ph1)) (offset + c) (take n (drop c data)) k"
        "case r of Inl e \<Rightarrow> e = OUT_OF_MEMORY | Inr _ \<Rightarrow> n = length (drop c data)"
        by blast
      have "area_byte A' (ph_mem ph') k = mem_write (area_byte A (ph_mem ph)) offset (take (c + n) data) k"
        if "k < va_len A" for k
      proof -
        have "area_byte A' (ph_mem ph') k =
            mem_write (mem_write (area_byte A (ph_mem ph)) offset (take c data)) (offset + c) (take n (drop c data)) k"
          using *(4) 2(3) that st(3) by (simp add: mem_write_def)
        then show ?thesis
          using mem_write_append [of _ offset "take c data" "take n (drop c data)"] c(2) by (simp add: take_add)
      qed
      with * 2(1) area_step_trans [OF 2(2) *(2)] c show ?case
        by (intro exI [of _ r] exI [of _ A'] exI [of _ ph'] exI [of _ "c + n"]) (auto split: sum.splits)
    qed
  qed
qed

lemma page_div_mod:
  assumes "offset mod MIN_PAGE_SIZE + k < MIN_PAGE_SIZE"
  shows "(offset + k) div MIN_PAGE_SIZE = offset div MIN_PAGE_SIZE"
    and "(offset + k) mod MIN_PAGE_SIZE = offset mod MIN_PAGE_SIZE + k"
proof -
  have split: "offset = MIN_PAGE_SIZE * (offset div MIN_PAGE_SIZE) + offset mod MIN_PAGE_SIZE" by simp
  show d: "(offset + k) div MIN_PAGE_SIZE = offset div MIN_PAGE_SIZE"
  proof (rule div_nat_eqI)
    show "MIN_PAGE_SIZE * (offset div MIN_PAGE_SIZE) \<le> offset + k" using split by linarith
    show "offset + k < MIN_PAGE_SIZE * Suc (offset div MIN_PAGE_SIZE)"
      using split assms unfolding mult_Suc_right by linarith
  qed
  show "(offset + k) mod MIN_PAGE_SIZE = offset mod MIN_PAGE_SIZE + k"
    using split mult_div_mod_eq [of MIN_PAGE_SIZE "offset + k"] unfolding d by linarith
qed

lemma read_loop_step:
  assumes phw: "phys_wf ph" and wf: "area_wf A ph" and buf: "buf \<noteq> []" and le: "offset + length buf \<le> va_len A"
  defines "n \<equiv> copy_len offset (length buf)"
  shows "\<exists>A' ph'. area_step A ph A' ph'
    \<and> (\<forall>k<va_len A. area_byte A' (ph_mem ph') k = area_byte A (ph_mem ph) k)
    \<and> (read_loop A ph offset filled buf = Val (Inl OUT_OF_MEMORY, filled @ buf, A', ph')
      \<or> read_loop A ph offset filled buf =
          read_loop A' ph' (offset + n) (filled @ map (area_byte A (ph_mem ph)) [offset..<offset + n]) (drop n buf))"
proof -
  let ?i = "offset div MIN_PAGE_SIZE" and ?o = "offset mod MIN_PAGE_SIZE"
  have off: "offset < va_len A" using buf le by (cases buf) auto
  then have i: "?i < length (va_pages A)" by (rule page_index_less [OF wf])
  obtain r A' ph' where g: "get_or_fill A ph ?i = Val (r, A', ph')" "area_step A ph A' ph'"
    "\<forall>k<va_len A. area_byte A' (ph_mem ph') k = area_byte A (ph_mem ph) k"
    "case r of Inl e \<Rightarrow> e = OUT_OF_MEMORY \<and> (\<exists>ph''. page_alloc Zeroed ph MIN_PAGE_SIZE = Val (None, ph''))
      | Inr p \<Rightarrow> va_pages A' ! ?i = Some p"
    using get_or_fill_spec [OF phw wf i] by blast
  note st = area_stepD [OF g(2)]
  note n = copy_len_bounds(1,3) [of offset "length buf", folded n_def]
  have len: "offset + n \<le> USIZE_MAX" using le wf n by (auto simp: area_wf_def)
  show ?thesis
  proof (cases r)
    case (Inl e)
    then have "read_loop A ph offset filled buf = Val (Inl OUT_OF_MEMORY, filled @ buf, A', ph')"
      using g(1,4) buf by (simp add: read_loop.simps [of A])
    with g(2,3) show ?thesis by blast
  next
    case (Inr p)
    then have p: "va_pages A' ! ?i = Some p" using g(4) by simp
    have i': "?i < length (va_pages A')" using page_index_less [OF st(2), of offset] off st(3) by simp
    have "read_loop A ph offset filled buf =
        read_loop A' ph' (offset + n) (filled @ mem_read (ph_mem ph') (p + ?o) n) (drop n buf)"
      using g(1) Inr buf len area_wf_page(5) [OF st(2) i' p]
      by (simp add: read_loop.simps [of A] n_def copy_len_def usize_add_def Let_def)
    moreover have "mem_read (ph_mem ph') (p + ?o) n = map (area_byte A (ph_mem ph)) [offset..<offset + n]"
    proof (rule nth_equalityI; simp)
      fix k assume k: "k < n"
      then have "(offset + k) div MIN_PAGE_SIZE = ?i" "(offset + k) mod MIN_PAGE_SIZE = ?o + k"
        using page_div_mod [of offset k] n(2) by simp_all
      then have "area_byte A' (ph_mem ph') (offset + k) = ph_mem ph' (p + ?o + k)"
        using p by (simp add: area_byte_def add.assoc)
      then show "ph_mem ph' (p + ?o + k) = area_byte A (ph_mem ph) (offset + k)"
        using g(3) k n(1) le by simp
    qed
    ultimately show ?thesis using g(2,3) by metis
  qed
qed

lemma read_loop_spec:
  assumes "phys_wf ph" and "area_wf A ph" and "offset + length buf \<le> va_len A"
  shows "\<exists>r out A' ph'. read_loop A ph offset filled buf = Val (r, out, A', ph') \<and> area_step A ph A' ph'
    \<and> (\<forall>k<va_len A. area_byte A' (ph_mem ph') k = area_byte A (ph_mem ph) k)
    \<and> length out = length filled + length buf
    \<and> (case r of Inl e \<Rightarrow> e = OUT_OF_MEMORY
        | Inr _ \<Rightarrow> out = filled @ map (area_byte A (ph_mem ph)) [offset..<offset + length buf])"
  using assms
proof (induction "length buf" arbitrary: A ph offset buf filled rule: less_induct)
  case less
  show ?case
  proof (cases "buf = []")
    case True
    then show ?thesis using area_step_refl [OF less.prems(1,2)] by (simp add: read_loop.simps)
  next
    case False
    define c where "c = copy_len offset (length buf)"
    have c: "0 < c" "c \<le> length buf"
      using copy_len_bounds(1) [of offset "length buf"] copy_len_bounds(2) [of "length buf" offset] False
      by (auto simp: c_def)
    let ?f = "filled @ map (area_byte A (ph_mem ph)) [offset..<offset + c]"
    obtain A1 ph1 where st1: "area_step A ph A1 ph1"
      and same1: "\<forall>k<va_len A. area_byte A1 (ph_mem ph1) k = area_byte A (ph_mem ph) k"
      and run: "read_loop A ph offset filled buf = Val (Inl OUT_OF_MEMORY, filled @ buf, A1, ph1)
        \<or> read_loop A ph offset filled buf = read_loop A1 ph1 (offset + c) ?f (drop c buf)"
      using read_loop_step [OF less.prems(1,2) False less.prems(3), of filled, folded c_def] by blast
    note st = area_stepD [OF st1]
    from run show ?thesis
    proof
      assume "read_loop A ph offset filled buf = Val (Inl OUT_OF_MEMORY, filled @ buf, A1, ph1)"
      with st1 same1 show ?thesis by simp
    next
      assume run: "read_loop A ph offset filled buf = read_loop A1 ph1 (offset + c) ?f (drop c buf)"
      have "length (drop c buf) < length buf" "offset + c + length (drop c buf) \<le> va_len A1"
        using c less.prems(3) st(3) by auto
      from less.hyps [OF this(1) st(1,2) this(2), of ?f] obtain r out A' ph' where *:
        "read_loop A1 ph1 (offset + c) ?f (drop c buf) = Val (r, out, A', ph')" "area_step A1 ph1 A' ph'"
        "\<forall>k<va_len A1. area_byte A' (ph_mem ph') k = area_byte A1 (ph_mem ph1) k"
        "length out = length ?f + length (drop c buf)"
        "case r of Inl e \<Rightarrow> e = OUT_OF_MEMORY | Inr _ \<Rightarrow> out = ?f @
           map (area_byte A1 (ph_mem ph1)) [offset + c..<offset + c + length (drop c buf)]"
        by blast
      have "?f @ map (area_byte A1 (ph_mem ph1)) [offset + c..<offset + c + length (drop c buf)] =
          filled @ map (area_byte A (ph_mem ph)) [offset..<offset + length buf]"
      proof -
        have "map (area_byte A1 (ph_mem ph1)) [offset + c..<offset + length buf] =
            map (area_byte A (ph_mem ph)) [offset + c..<offset + length buf]"
          using same1 less.prems(3) by (intro map_cong) auto
        then show ?thesis
          using c upt_add_eq_append [of offset "offset + c" "length buf - c"] by simp
      qed
      with *(5) have "case r of Inl e \<Rightarrow> e = OUT_OF_MEMORY
          | Inr _ \<Rightarrow> out = filled @ map (area_byte A (ph_mem ph)) [offset..<offset + length buf]"
        by (cases r) simp_all
      moreover have "\<forall>k<va_len A. area_byte A' (ph_mem ph') k = area_byte A (ph_mem ph) k"
        using *(3) same1 st(3) by simp
      moreover have "length out = length filled + length buf" using *(4) c by simp
      ultimately show ?thesis using run *(1) area_step_trans [OF st1 *(2)] by simp
    qed
  qed
qed

section \<open>Areas as byte arrays\<close>

lemma length_area_bytes [simp]: "length (area_bytes A m) = va_len A"
  by (simp add: area_bytes_def)

lemma area_bytes_frame:
  assumes "area_wf B ph" and "\<And>x. x \<in> area_mem B \<Longrightarrow> m' x = m x"
  shows "area_bytes B m' = area_bytes B m"
  unfolding area_bytes_def using area_byte_frame [OF assms(1), of _ m' m] assms(2) by (intro map_cong refl) auto

text \<open>An area without a page in common is not touched by an operation on another one.\<close>

lemma area_step_other:
  assumes st: "area_step A ph A' ph'" and wf: "area_wf B ph" and disj: "area_mem A \<inter> area_mem B = {}"
  shows "area_wf B ph'" and "area_bytes B (ph_mem ph') = area_bytes B (ph_mem ph)" and "area_mem A' \<inter> area_mem B = {}"
proof -
  have av: "area_mem B \<inter> page_avail ph = {}" by (rule area_wf_avail [OF wf])
  have "ph_mem ph' x = ph_mem ph x" if "x \<in> area_mem B" for x
    using st disj av that unfolding area_step_def by blast
  then show "area_bytes B (ph_mem ph') = area_bytes B (ph_mem ph)" by (rule area_bytes_frame [OF wf])
  have sub: "page_avail ph' \<subseteq> page_avail ph" "area_mem A' \<subseteq> area_mem A \<union> (page_avail ph - page_avail ph')"
    using st by (simp_all add: area_step_def)
  show "area_wf B ph'" by (rule area_wf_shrink_avail [OF wf sub(1)])
  show "area_mem A' \<inter> area_mem B = {}" using sub(2) disj av by blast
qed

text \<open>Storing a list of bytes at an offset of a list.\<close>

definition overwrite :: "'a list \<Rightarrow> nat \<Rightarrow> 'a list \<Rightarrow> 'a list" where
  "overwrite xs i ys = take i xs @ ys @ drop (i + length ys) xs"

lemma length_overwrite [simp]: "i + length ys \<le> length xs \<Longrightarrow> length (overwrite xs i ys) = length xs"
  by (simp add: overwrite_def)

lemma nth_overwrite:
  "i + length ys \<le> length xs \<Longrightarrow> k < length xs \<Longrightarrow>
     overwrite xs i ys ! k = (if i \<le> k \<and> k < i + length ys then ys ! (k - i) else xs ! k)"
  by (auto simp: overwrite_def nth_append min_def)

lemma map_mem_write:
  "a + length d \<le> n \<Longrightarrow> map (mem_write f a d) [0..<n] = overwrite (map f [0..<n]) a d"
  by (rule nth_equalityI) (auto simp: overwrite_def mem_write_def nth_append min_def)

lemma area_write_spec:
  assumes "phys_wf ph" and "area_wf A ph"
  shows "\<exists>r A' ph'. area_write A ph offset data = Val (r, A', ph') \<and> area_step A ph A' ph'
    \<and> (if offset + length data \<le> va_len A
       then \<exists>n\<le>length data. area_bytes A' (ph_mem ph') = overwrite (area_bytes A (ph_mem ph)) offset (take n data)
         \<and> (case r of Inl e \<Rightarrow> e = OUT_OF_MEMORY | Inr _ \<Rightarrow> n = length data)
       else r = Inl OUT_OF_BOUNDS \<and> A' = A \<and> ph' = ph)"
proof (cases "offset + length data \<le> va_len A")
  case True
  then have run: "area_write A ph offset data = write_loop A ph offset data"
    using assms(2) by (simp add: area_write_def checked_add_def area_wf_def)
  obtain r A' ph' n where *: "write_loop A ph offset data = Val (r, A', ph')" "area_step A ph A' ph'" "n \<le> length data"
    "\<forall>k<va_len A. area_byte A' (ph_mem ph') k = mem_write (area_byte A (ph_mem ph)) offset (take n data) k"
    "case r of Inl e \<Rightarrow> e = OUT_OF_MEMORY | Inr _ \<Rightarrow> n = length data"
    using write_loop_spec [OF assms True] by blast
  have "area_bytes A' (ph_mem ph') = map (mem_write (area_byte A (ph_mem ph)) offset (take n data)) [0..<va_len A]"
    using *(4) area_stepD(3) [OF *(2)] by (auto simp: area_bytes_def)
  also have "\<dots> = overwrite (area_bytes A (ph_mem ph)) offset (take n data)"
    using True *(3) by (subst map_mem_write) (simp_all add: area_bytes_def)
  finally show ?thesis using True run * by auto
next
  case False
  then show ?thesis
    using assms area_step_refl [OF assms] by (auto simp: area_write_def checked_add_def)
qed

lemma area_read_spec:
  assumes "phys_wf ph" and "area_wf A ph"
  shows "\<exists>r out A' ph'. area_read A ph offset buf = Val (r, out, A', ph') \<and> area_step A ph A' ph'
    \<and> area_bytes A' (ph_mem ph') = area_bytes A (ph_mem ph) \<and> length out = length buf
    \<and> (if offset + length buf \<le> va_len A
       then (case r of Inl e \<Rightarrow> e = OUT_OF_MEMORY
               | Inr _ \<Rightarrow> out = take (length buf) (drop offset (area_bytes A (ph_mem ph))))
       else r = Inl OUT_OF_BOUNDS \<and> out = buf \<and> A' = A \<and> ph' = ph)"
proof (cases "offset + length buf \<le> va_len A")
  case True
  then have run: "area_read A ph offset buf = read_loop A ph offset [] buf"
    using assms(2) by (simp add: area_read_def checked_add_def area_wf_def)
  obtain r out A' ph' where *: "read_loop A ph offset [] buf = Val (r, out, A', ph')" "area_step A ph A' ph'"
    "\<forall>k<va_len A. area_byte A' (ph_mem ph') k = area_byte A (ph_mem ph) k" "length out = length buf"
    "case r of Inl e \<Rightarrow> e = OUT_OF_MEMORY | Inr _ \<Rightarrow> out = map (area_byte A (ph_mem ph)) [offset..<offset + length buf]"
    using read_loop_spec [OF assms True, of "[]"] unfolding append_Nil list.size add_0 by blast
  have "area_bytes A' (ph_mem ph') = area_bytes A (ph_mem ph)"
    using *(3) area_stepD(3) [OF *(2)] by (auto simp: area_bytes_def)
  moreover have "take (length buf) (drop offset (area_bytes A (ph_mem ph))) =
      map (area_byte A (ph_mem ph)) [offset..<offset + length buf]"
    using True by (simp add: area_bytes_def drop_map take_map)
  ultimately show ?thesis using True run * by (auto split: sum.splits)
next
  case False
  then show ?thesis
    using assms area_step_refl [OF assms] by (auto simp: area_read_def checked_add_def)
qed

text \<open>
  The contract of an object that is a byte array behind bounds-checked reads and writes that may run
  out of memory, and what its clients get from it.
\<close>

locale byte_object =
  fixes inv :: "'s \<Rightarrow> bool" and view :: "'s \<Rightarrow> u8 list"
    and rd :: "'s \<Rightarrow> usize \<Rightarrow> u8 list \<Rightarrow> ((ErrorCode + unit) \<times> u8 list \<times> 's) exec"
    and wr :: "'s \<Rightarrow> usize \<Rightarrow> u8 list \<Rightarrow> ((ErrorCode + unit) \<times> 's) exec"
  assumes rd_ok: "inv s \<Longrightarrow> \<exists>r out s'. rd s i buf = Val (r, out, s') \<and> inv s' \<and> view s' = view s
      \<and> (if i + length buf \<le> length (view s)
         then (case r of Inl e \<Rightarrow> e = OUT_OF_MEMORY | Inr _ \<Rightarrow> out = take (length buf) (drop i (view s)))
         else r = Inl OUT_OF_BOUNDS)"
    and wr_ok: "inv s \<Longrightarrow> \<exists>r s'. wr s i d = Val (r, s') \<and> inv s'
      \<and> (if i + length d \<le> length (view s)
         then \<exists>n\<le>length d. view s' = overwrite (view s) i (take n d)
           \<and> (case r of Inl e \<Rightarrow> e = OUT_OF_MEMORY | Inr _ \<Rightarrow> n = length d)
         else r = Inl OUT_OF_BOUNDS)"
begin

lemma write_Inr:
  assumes "inv s" and "wr s i d = Val (Inr (), s')"
  shows "inv s'" and "i + length d \<le> length (view s)" and "view s' = overwrite (view s) i d"
  using wr_ok [OF assms(1), of i d] assms(2) by (auto split: if_splits)

lemma read_Inr:
  assumes "inv s" and "rd s i buf = Val (Inr (), out, s')"
  shows "inv s'" and "view s' = view s" and "i + length buf \<le> length (view s)"
    and "out = take (length buf) (drop i (view s))"
  using rd_ok [OF assms(1), of i buf] assms(2) by (auto split: if_splits)

lemma overwrite_inside: "i + length d \<le> length xs \<Longrightarrow> take (length d) (drop i (overwrite xs i d)) = d"
  by (simp add: overwrite_def)

lemma overwrite_outside:
  assumes "i + length d \<le> length xs" and "j + n \<le> length xs" and "j + n \<le> i \<or> i + length d \<le> j"
  shows "take n (drop j (overwrite xs i d)) = take n (drop j xs)"
  using assms by (intro nth_equalityI) (auto simp: nth_overwrite)

lemma read_after_write:
  assumes "inv s" and "wr s i d = Val (Inr (), s1)" and "rd s1 i buf = Val (Inr (), out, s2)"
    and "length buf = length d"
  shows "out = d"
  using write_Inr [OF assms(1,2)] read_Inr [OF write_Inr(1) [OF assms(1,2)] assms(3)] assms(4)
  by (simp add: overwrite_inside)

lemma read_elsewhere:
  assumes "inv s" and "wr s i d = Val (Inr (), s1)" and "rd s1 j buf = Val (Inr (), out, s2)"
    and "j + length buf \<le> i \<or> i + length d \<le> j"
  shows "out = take (length buf) (drop j (view s))"
proof -
  note w = write_Inr [OF assms(1,2)]
  note r = read_Inr [OF w(1) assms(3)]
  have "length (view s1) = length (view s)" using w(2,3) by simp
  then show ?thesis using w r assms(4) overwrite_outside [of i d "view s" j "length buf"] by simp
qed

end

definition area_inv :: "VmArea \<times> phys \<Rightarrow> bool" where
  "area_inv s \<longleftrightarrow> phys_wf (snd s) \<and> area_wf (fst s) (snd s)"

definition area_view :: "VmArea \<times> phys \<Rightarrow> u8 list" where
  "area_view s = area_bytes (fst s) (ph_mem (snd s))"

interpretation area: byte_object area_inv area_view
    "\<lambda>s. area_read (fst s) (snd s)" "\<lambda>s. area_write (fst s) (snd s)"
proof (unfold_locales, goal_cases)
  case (1 s i buf)
  then have wf: "phys_wf (snd s)" "area_wf (fst s) (snd s)" by (simp_all add: area_inv_def)
  obtain r out A' ph' where *: "area_read (fst s) (snd s) i buf = Val (r, out, A', ph')"
    "area_step (fst s) (snd s) A' ph'" "area_bytes A' (ph_mem ph') = area_bytes (fst s) (ph_mem (snd s))"
    "if i + length buf \<le> va_len (fst s)
       then (case r of Inl e \<Rightarrow> e = OUT_OF_MEMORY
               | Inr _ \<Rightarrow> out = take (length buf) (drop i (area_bytes (fst s) (ph_mem (snd s)))))
       else r = Inl OUT_OF_BOUNDS \<and> out = buf \<and> A' = fst s \<and> ph' = snd s"
    using area_read_spec [OF wf, of i buf] by blast
  then show ?case using area_stepD [OF *(2)]
    by (intro exI [of _ r] exI [of _ out] exI [of _ "(A', ph')"]) (cases r; simp add: area_inv_def area_view_def split: if_splits)
next
  case (2 s i d)
  then have wf: "phys_wf (snd s)" "area_wf (fst s) (snd s)" by (simp_all add: area_inv_def)
  obtain r A' ph' where *: "area_write (fst s) (snd s) i d = Val (r, A', ph')" "area_step (fst s) (snd s) A' ph'"
    "if i + length d \<le> va_len (fst s)
       then \<exists>n\<le>length d. area_bytes A' (ph_mem ph') = overwrite (area_bytes (fst s) (ph_mem (snd s))) i (take n d)
         \<and> (case r of Inl e \<Rightarrow> e = OUT_OF_MEMORY | Inr _ \<Rightarrow> n = length d)
       else r = Inl OUT_OF_BOUNDS \<and> A' = fst s \<and> ph' = snd s"
    using area_write_spec [OF wf, of i d] by blast
  then show ?case using area_stepD [OF *(2)]
    by (intro exI [of _ r] exI [of _ "(A', ph')"]) (simp add: area_inv_def area_view_def split: if_splits)
qed

section \<open>Properties\<close>

text \<open>
  C3. \<open>VmArea::write\<close> on a well-formed area returns without a panic. A write that leaves the area
  is refused with \<open>OUT_OF_BOUNDS\<close> and changes nothing, also when \<open>offset + data.len()\<close> overflows; a
  write in bounds stores the data at its offset and nothing else, or stores a prefix of it and
  reports \<open>OUT_OF_MEMORY\<close>. Memory that belongs neither to the area nor to the page allocator is left
  alone.
\<close>

theorem area_write_contract:
  assumes "phys_wf ph" and "area_wf A ph"
  shows "\<exists>r A' ph'. area_write A ph offset data = Val (r, A', ph') \<and> phys_wf ph' \<and> area_wf A' ph'
    \<and> (if offset + length data \<le> va_len A
       then \<exists>n\<le>length data. area_bytes A' (ph_mem ph') = overwrite (area_bytes A (ph_mem ph)) offset (take n data)
         \<and> (case r of Inl e \<Rightarrow> e = OUT_OF_MEMORY | Inr _ \<Rightarrow> n = length data)
       else r = Inl OUT_OF_BOUNDS \<and> A' = A \<and> ph' = ph)
    \<and> (\<forall>x. x \<notin> area_mem A \<longrightarrow> x \<notin> page_avail ph \<longrightarrow> ph_mem ph' x = ph_mem ph x)"
proof -
  obtain r A' ph' where *: "area_write A ph offset data = Val (r, A', ph')" "area_step A ph A' ph'"
    "if offset + length data \<le> va_len A
       then \<exists>n\<le>length data. area_bytes A' (ph_mem ph') = overwrite (area_bytes A (ph_mem ph)) offset (take n data)
         \<and> (case r of Inl e \<Rightarrow> e = OUT_OF_MEMORY | Inr _ \<Rightarrow> n = length data)
       else r = Inl OUT_OF_BOUNDS \<and> A' = A \<and> ph' = ph"
    using area_write_spec [OF assms] by blast
  moreover have "\<forall>x. x \<notin> area_mem A \<longrightarrow> x \<notin> page_avail ph \<longrightarrow> ph_mem ph' x = ph_mem ph x"
    using *(2) by (simp add: area_step_def)
  ultimately show ?thesis using area_stepD [OF *(2)] by blast
qed

text \<open>An area of two pages, the second one present, in a machine with free pages.\<close>

definition example_ram :: phys where
  "example_ram = example_phys\<lparr>ph_regions := \<lparr>av_elems = [Some (bump_new 0x100000 0x200000)], av_len = 1\<rparr>\<rparr>"

definition example_area :: VmArea where
  "example_area = \<lparr>va_pages = [None, Some 0x300000], va_len = 8192\<rparr>"

lemma example_ram_wf: "phys_wf example_ram"
  by (simp add: example_ram_def phys_wf_def av_inv_def av_list_def USIZE_MAX_def bump_new_def direct_map_bound)

lemma example_ram_avail: "page_avail example_ram = {0x100000..<0x200000}"
  by (simp add: page_avail_def example_ram_def av_list_def regions_avail_def bump_avail_def bump_new_def)

lemma example_area_wf: "area_wf example_area example_ram"
  by (auto simp: area_wf_def example_area_def example_ram_avail page_frame_def USIZE_MAX_def MIN_PAGE_SIZE_def
      direct_map_bound less_Suc_eq nth_Cons')

theorem area_write_contract_witness:
  "phys_wf example_ram \<and> area_wf example_area example_ram
    \<and> (\<exists>r A' ph'. area_write example_area example_ram 4094 [1, 2, 3, 4] = Val (r, A', ph') \<and> area_wf A' ph'
        \<and> (\<exists>n\<le>length [1, 2, 3, 4::u8]. area_bytes A' (ph_mem ph') =
              overwrite (area_bytes example_area (ph_mem example_ram)) 4094 (take n [1, 2, 3, 4])))"
proof -
  have le: "4094 + length [1, 2, 3, 4::u8] \<le> va_len example_area" by (simp add: example_area_def)
  from area_write_contract [OF example_ram_wf example_area_wf, of 4094 "[1, 2, 3, 4]"]
  show ?thesis unfolding if_P [OF le] using example_ram_wf example_area_wf by blast
qed

text \<open>
  C15. What was written is what is read back: after a successful write, a read of the same range
  that succeeds fills the buffer with the data, and a read of any range that does not meet it
  returns what the area held before.
\<close>

theorem area_read_after_write:
  assumes "phys_wf ph" and "area_wf A ph"
    and "area_write A ph i data = Val (Inr (), A1, ph1)" and "area_read A1 ph1 j buf = Val (Inr (), out, s2)"
  shows "(j = i \<and> length buf = length data \<longrightarrow> out = data)
    \<and> (j + length buf \<le> i \<or> i + length data \<le> j \<longrightarrow>
         out = take (length buf) (drop j (area_bytes A (ph_mem ph))))"
proof -
  have inv: "area_inv (A, ph)" using assms(1,2) by (simp add: area_inv_def)
  have w: "area_write (fst (A, ph)) (snd (A, ph)) i data = Val (Inr (), (A1, ph1))" using assms(3) by simp
  have r: "area_read (fst (A1, ph1)) (snd (A1, ph1)) j buf = Val (Inr (), out, s2)" using assms(4) by simp
  show ?thesis
    using area.read_after_write [OF inv w, of buf out s2] area.read_elsewhere [OF inv w r] r
    by (auto simp: area_view_def)
qed

text \<open>The page that a write to the first page of the example area is given, and the memory after it.\<close>

definition example_area1 :: VmArea where
  "example_area1 = \<lparr>va_pages = [Some 0x1ff000, Some 0x300000], va_len = 8192\<rparr>"

definition example_ram1 :: phys where
  "example_ram1 = example_phys\<lparr>ph_mem := mem_write (mem_fill (ph_mem example_phys) 0x1ff000 0 4096) 0x1ff007 [42],
     ph_regions := \<lparr>av_elems = [Some (bump_new 0x100000 0x1ff000)], av_len = 1\<rparr>\<rparr>"

lemma example_page:
  "page_alloc Zeroed example_ram MIN_PAGE_SIZE = Val (Some 0x1ff000,
     example_ram\<lparr>ph_mem := mem_fill (ph_mem example_phys) 0x1ff000 0 4096,
       ph_regions := \<lparr>av_elems = [Some (bump_new 0x100000 0x1ff000)], av_len = 1\<rparr>\<rparr>)"
proof -
  have "bump_alloc (bump_new 0x100000 0x200000) MIN_PAGE_SIZE MIN_PAGE_SIZE
      = Val (Some 0x1ff000, bump_new 0x100000 0x1ff000)"
    by (simp add: bump_alloc_eq bump_wf_def bump_new_def round_down_def MIN_PAGE_SIZE_def USIZE_MAX_def
        is_power_of_two_page [unfolded MIN_PAGE_SIZE_def])
  then have "alloc_from (av_list (ph_regions example_ram)) MIN_PAGE_SIZE = Val (Some 0x1ff000, [bump_new 0x100000 0x1ff000])"
    by (simp add: av_list_def example_ram_def)
  from page_alloc_eq [OF example_ram_wf page_size_pos dvd_refl this, of Zeroed] show ?thesis
    by (simp add: example_ram_def av_set_slice_def MIN_PAGE_SIZE_def)
qed

lemma example_write: "area_write example_area example_ram 7 [42] = Val (Inr (), example_area1, example_ram1)"
proof -
  have "get_or_fill example_area example_ram 0 = Val (Inr 0x1ff000, example_area1,
      example_ram\<lparr>ph_mem := mem_fill (ph_mem example_phys) 0x1ff000 0 4096,
        ph_regions := \<lparr>av_elems = [Some (bump_new 0x100000 0x1ff000)], av_len = 1\<rparr>\<rparr>)"
    using example_page by (simp add: get_or_fill_def example_area_def example_area1_def)
  then show ?thesis
    by (simp add: area_write_def checked_add_def example_area_def USIZE_MAX_def write_loop.simps MIN_PAGE_SIZE_def
        usize_add_def Let_def example_ram1_def example_ram_def)
qed

lemma example_read: "area_read example_area1 example_ram1 7 [0] = Val (Inr (), [42], example_area1, example_ram1)"
  by (simp add: area_read_def checked_add_def example_area1_def USIZE_MAX_def read_loop.simps MIN_PAGE_SIZE_def
      get_or_fill_def usize_add_def Let_def example_ram1_def mem_read_def mem_write_def)

theorem area_read_after_write_witness:
  "area_write example_area example_ram 7 [42] = Val (Inr (), example_area1, example_ram1)
    \<and> area_read example_area1 example_ram1 7 [0] = Val (Inr (), [42], example_area1, example_ram1) \<and> [42] = [42::u8]"
  using area_read_after_write [OF example_ram_wf example_area_wf example_write example_read]
    example_write example_read by simp

text \<open>
  Areas are isolated: two areas without a page in common do not see each other's writes, and
  they never come to share a page.
\<close>

theorem area_isolation:
  assumes "phys_wf ph" and "area_wf A ph" and "area_wf B ph" and "area_mem A \<inter> area_mem B = {}"
    and "area_write A ph offset data = Val (r, A', ph')"
  shows "area_wf B ph' \<and> area_bytes B (ph_mem ph') = area_bytes B (ph_mem ph) \<and> area_mem A' \<inter> area_mem B = {}"
proof -
  have "area_step A ph A' ph'" using area_write_spec [OF assms(1,2), of offset data] assms(5) by auto
  from area_step_other [OF this assms(3,4)] show ?thesis by blast
qed

definition example_area2 :: VmArea where
  "example_area2 = \<lparr>va_pages = [Some 0x301000], va_len = 4096\<rparr>"

theorem area_isolation_witness:
  "area_mem example_area \<inter> area_mem example_area2 = {}
    \<and> area_bytes example_area2 (ph_mem example_ram1) = area_bytes example_area2 (ph_mem example_ram)"
proof -
  have wf: "area_wf example_area2 example_ram"
    by (auto simp: area_wf_def example_area2_def example_ram_avail page_frame_def USIZE_MAX_def MIN_PAGE_SIZE_def
      direct_map_bound)
  have disj: "area_mem example_area \<inter> area_mem example_area2 = {}"
    by (auto simp: area_mem_def example_area_def example_area2_def page_frame_def MIN_PAGE_SIZE_def)
  show ?thesis
    using area_isolation [OF example_ram_wf example_area_wf wf disj example_write] disj by simp
qed

end
