(* ===== verification/Bytes.thy ===== *)
theory Bytes
  imports Prelude
begin

text \<open>
  Little-endian integers in byte lists and in memory, as the page tables, the boot structures and
  the ELF files hold them.
\<close>

fun le_nat :: "u8 list \<Rightarrow> nat" where
  "le_nat [] = 0"
| "le_nat (b # bs) = unat b + 256 * le_nat bs"

fun nat_le :: "nat \<Rightarrow> nat \<Rightarrow> u8 list" where
  "nat_le 0 v = []"
| "nat_le (Suc n) v = word_of_nat v # nat_le n (v div 256)"

definition load64 :: "memory \<Rightarrow> nat \<Rightarrow> u64" where
  "load64 m a = word_of_nat (le_nat (mem_read m a 8))"

definition store64 :: "memory \<Rightarrow> nat \<Rightarrow> u64 \<Rightarrow> memory" where
  "store64 m a w = mem_write m a (nat_le 8 (unat w))"

lemma unat_u8: "unat (b :: u8) < 256"
  using unsigned_less [of b, where 'a = nat] by simp

lemma unat_u64: "unat (w :: u64) < 256 ^ 8"
  using unsigned_less [of w, where 'a = nat] by simp

lemma length_nat_le [simp]: "length (nat_le n v) = n"
  by (induction n arbitrary: v) simp_all

lemma le_nat_less: "le_nat bs < 256 ^ length bs"
proof (induction bs)
  case Nil
  then show ?case by simp
next
  case (Cons b bs)
  have "unat b < 256" by (rule unat_u8)
  with Cons show ?case by simp
qed

lemma unat_byte_of_nat: "unat (word_of_nat v :: u8) = v mod 256"
  by (simp add: unat_of_nat)

lemma le_nat_nat_le: "le_nat (nat_le n v) = v mod 256 ^ n"
proof (induction n arbitrary: v)
  case 0
  then show ?case by simp
next
  case (Suc n)
  have "v mod 256 ^ Suc n = v mod 256 + 256 * (v div 256 mod 256 ^ n)"
    by (simp add: mod_mult2_eq)
  with Suc show ?case by (simp add: unat_byte_of_nat)
qed

lemma nat_le_le_nat: "nat_le (length bs) (le_nat bs) = bs"
proof (induction bs)
  case Nil
  then show ?case by simp
next
  case (Cons b bs)
  have b: "unat b < 256" by (rule unat_u8)
  have "unat (word_of_nat (unat b + 256 * le_nat bs) :: u8) = unat b"
    unfolding unat_byte_of_nat using b by simp
  then have "(word_of_nat (unat b + 256 * le_nat bs) :: u8) = b"
    by (simp only: word_unat_eq_iff)
  moreover have "(unat b + 256 * le_nat bs) div 256 = le_nat bs" using b by simp
  ultimately show ?case using Cons by simp
qed

lemma le_nat_append: "le_nat (xs @ ys) = le_nat xs + 256 ^ length xs * le_nat ys"
  by (induction xs) (simp_all add: algebra_simps)

lemma le_nat_replicate_0 [simp]: "le_nat (replicate n 0) = 0"
  by (induction n) simp_all

lemma load64_store64_same [simp]: "load64 (store64 m a w) a = w"
proof -
  have "mem_read (store64 m a w) a 8 = nat_le 8 (unat w)"
    unfolding store64_def using mem_read_write_same [of m a "nat_le 8 (unat w)"] by simp
  moreover have "unat w < 256 ^ 8" by (rule unat_u64)
  ultimately show ?thesis by (simp add: load64_def le_nat_nat_le)
qed

lemma store64_outside: "x < a \<or> a + 8 \<le> x \<Longrightarrow> store64 m a w x = m x"
  unfolding store64_def by (intro mem_write_outside) simp

lemma load64_cong: "(\<And>x. a \<le> x \<Longrightarrow> x < a + 8 \<Longrightarrow> m x = m' x) \<Longrightarrow> load64 m a = load64 m' a"
  unfolding load64_def using mem_read_cong [of a 8 m m'] by simp

lemma load64_store64_other: "b + 8 \<le> a \<or> a + 8 \<le> b \<Longrightarrow> load64 (store64 m a w) b = load64 m b"
  by (intro load64_cong store64_outside) auto

lemma load64_zero: "(\<And>x. a \<le> x \<Longrightarrow> x < a + 8 \<Longrightarrow> m x = 0) \<Longrightarrow> load64 m a = 0"
proof -
  assume "\<And>x. a \<le> x \<Longrightarrow> x < a + 8 \<Longrightarrow> m x = 0"
  then have "mem_read m a 8 = replicate 8 0"
    by (intro nth_equalityI) simp_all
  then show ?thesis by (simp add: load64_def)
qed

end
