(* ===== verification/PageTable.thy ===== *)
theory PageTable
  imports VmArea Bytes
begin

text \<open>
  \<open>kernel/src/arch/x64/vmspace.rs\<close>: four-level page tables in physical memory. A table is the
  physical address of a page that holds 512 entries, read and written through the direct map.
  \<open>mmu\<close> is what the processor does with them. \<open>pt_wf\<close> says that the tables of the user half
  (the first 256 entries of the PML4) form a tree of pages that the page allocator has given away;
  \<open>table_at\<close> finds the table at a path of indices. Code addresses (\<open>BOOT_PDPT\<close>) are arguments.
\<close>

definition ENTRIES_PER_TABLE :: usize where "ENTRIES_PER_TABLE = 512"

definition PTE_V :: u64 where "PTE_V = 1"
definition PTE_W :: u64 where "PTE_W = 2"
definition PTE_U :: u64 where "PTE_U = 4"
definition PTE_HUGE :: u64 where "PTE_HUGE = 128"

type_synonym Pte = u64

definition pte_new :: "PAddr \<Rightarrow> u64 \<Rightarrow> Pte exec" where
  "pte_new paddr flags =
     exec_bind (paddr_is_aligned paddr 4096) (\<lambda>aligned. assert_exec aligned
       (Val (word_of_nat paddr OR flags)))"

definition is_present :: "Pte \<Rightarrow> bool" where
  "is_present e \<longleftrightarrow> e AND PTE_V \<noteq> 0"

definition is_huge :: "Pte \<Rightarrow> bool" where
  "is_huge e \<longleftrightarrow> e AND PTE_HUGE \<noteq> 0"

definition pte_paddr :: "Pte \<Rightarrow> PAddr" where
  "pte_paddr e = unat (e AND 0x000ffffffffff000)"

text \<open>The entry \<open>table.0[index]\<close>; an index beyond the table panics.\<close>

definition entry :: "memory \<Rightarrow> PAddr \<Rightarrow> usize \<Rightarrow> Pte" where
  "entry m table index = load64 m (table + 8 * index)"

definition table_get :: "phys \<Rightarrow> PAddr \<Rightarrow> usize \<Rightarrow> Pte exec" where
  "table_get ph table index = assert_exec (index < ENTRIES_PER_TABLE) (Val (entry (ph_mem ph) table index))"

definition table_set :: "phys \<Rightarrow> PAddr \<Rightarrow> usize \<Rightarrow> Pte \<Rightarrow> phys" where
  "table_set ph table index e = ph\<lparr>ph_mem := store64 (ph_mem ph) (table + 8 * index) e\<rparr>"

text \<open>The page directory that maps the first 4 GiB with 1 GiB pages, built at compile time.\<close>

fun boot_pdpt_loop :: "nat \<Rightarrow> usize \<Rightarrow> Pte list \<Rightarrow> Pte list exec" where
  "boot_pdpt_loop 0 i pdpt = Val pdpt"
| "boot_pdpt_loop (Suc n) i pdpt =
     exec_bind (pte_new (i * GIGA_PAGE_SIZE) (PTE_V OR PTE_W OR PTE_HUGE)) (\<lambda>e.
       boot_pdpt_loop n (i + 1) (pdpt[i := e]))"

definition BOOT_PDPT :: "Pte list exec" where
  "BOOT_PDPT = boot_pdpt_loop (DIRECT_MAP_SIZE div GIGA_PAGE_SIZE) 0 (replicate ENTRIES_PER_TABLE 0)"

definition paddr_to_table_mut :: "PAddr \<Rightarrow> PAddr" where
  "paddr_to_table_mut paddr = vaddr2paddr (paddr2vaddr paddr)"

definition alloc_table :: "phys \<Rightarrow> ((ErrorCode + PAddr) \<times> phys) exec" where
  "alloc_table ph =
     exec_bind (page_alloc Zeroed ph MIN_PAGE_SIZE) (\<lambda>(r, ph). case r of
       None \<Rightarrow> Val (Inl OUT_OF_MEMORY, ph)
     | Some paddr \<Rightarrow> Val (Inr paddr, ph))"

definition ensure_next_table :: "phys \<Rightarrow> PAddr \<Rightarrow> usize \<Rightarrow> ((ErrorCode + PAddr) \<times> phys) exec" where
  "ensure_next_table ph table index =
     exec_bind (table_get ph table index) (\<lambda>e.
       if \<not> is_present e
       then exec_try (alloc_table ph) (\<lambda>paddr ph.
              exec_bind (pte_new paddr (PTE_V OR PTE_W OR PTE_U)) (\<lambda>e.
                Val (Inr (paddr_to_table_mut paddr), table_set ph table index e)))
       else if is_huge e then Val (Inl UNSUPPORTED, ph)
       else Val (Inr (paddr_to_table_mut (pte_paddr e)), ph))"

definition pml4_index :: "usize \<Rightarrow> usize" where "pml4_index vaddr = drop_bit 39 vaddr AND 0x1ff"
definition pdpt_index :: "usize \<Rightarrow> usize" where "pdpt_index vaddr = drop_bit 30 vaddr AND 0x1ff"
definition pdt_index :: "usize \<Rightarrow> usize" where "pdt_index vaddr = drop_bit 21 vaddr AND 0x1ff"
definition pt_index :: "usize \<Rightarrow> usize" where "pt_index vaddr = drop_bit 12 vaddr AND 0x1ff"

record ArchVmSpace =
  avs_pml4 :: VAddr
  avs_cr3 :: u64

definition arch_vmspace_new :: "VAddr \<Rightarrow> phys \<Rightarrow> ((ErrorCode + ArchVmSpace) \<times> phys) exec" where
  "arch_vmspace_new pdpt_vaddr ph =
     (let pdpt_paddr = vaddr2paddr pdpt_vaddr in
      exec_bind (page_alloc Zeroed ph 4096) (\<lambda>(r, ph). case r of
        None \<Rightarrow> Val (Inl OUT_OF_MEMORY, ph)
      | Some pml4_paddr \<Rightarrow>
          let pml4_vaddr = paddr2vaddr pml4_paddr in
          exec_bind (pte_new pdpt_paddr PTE_V) (\<lambda>e.
            Val (Inr \<lparr>avs_pml4 = pml4_vaddr, avs_cr3 = word_of_nat pml4_paddr\<rparr>,
                 table_set ph (vaddr2paddr pml4_vaddr) 256 e))))"

text \<open>\<open>switch\<close>: CR3 is written only when it changes (a write flushes the TLB).\<close>

definition arch_switch :: "ArchVmSpace \<Rightarrow> u64 \<Rightarrow> u64 \<times> bool" where
  "arch_switch vs current_cr3 = (if current_cr3 = avs_cr3 vs then (current_cr3, False) else (avs_cr3 vs, True))"

definition arch_map :: "ArchVmSpace \<Rightarrow> phys \<Rightarrow> UAddr \<Rightarrow> PAddr \<Rightarrow> usize \<Rightarrow> PageAttrs
    \<Rightarrow> ((ErrorCode + unit) \<times> phys) exec" where
  "arch_map vs ph uaddr paddr len attrs =
     exec_bind (is_aligned uaddr MIN_PAGE_SIZE) (\<lambda>a1.
     exec_bind (if a1 then paddr_is_aligned paddr MIN_PAGE_SIZE else Val False) (\<lambda>a2.
     exec_bind (if a2 then is_aligned len MIN_PAGE_SIZE else Val False) (\<lambda>a3.
       if \<not> a3 then Val (Inl INVALID_ARG, ph)
       else if KERNEL_BASE \<le> uaddr then Val (Inl NOT_ALLOWED, ph)
       else
         let pml4 = vaddr2paddr (avs_pml4 vs) in
         exec_try (ensure_next_table ph pml4 (pml4_index uaddr)) (\<lambda>pdpt ph.
         exec_try (ensure_next_table ph pdpt (pdpt_index uaddr)) (\<lambda>pdt ph.
         exec_try (ensure_next_table ph pdt (pdt_index uaddr)) (\<lambda>pt ph.
           exec_bind (table_get ph pt (pt_index uaddr)) (\<lambda>e.
             if is_present e then Val (Inl ALREADY_EXISTS, ph)
             else exec_bind (pte_new paddr (PTE_V OR PTE_U OR attrs_as_raw attrs)) (\<lambda>e.
                    Val (Inr (), table_set ph pt (pt_index uaddr) e)))))))))"

section \<open>The processor\<close>

text \<open>
  Address translation: the physical address, and whether the access may write and may come from user
  mode (the bits of all levels together).
\<close>

definition may :: "u64 \<Rightarrow> Pte list \<Rightarrow> bool" where
  "may flag es \<longleftrightarrow> list_all (\<lambda>e. e AND flag \<noteq> 0) es"

definition mmu :: "memory \<Rightarrow> PAddr \<Rightarrow> usize \<Rightarrow> (nat \<times> bool \<times> bool) option" where
  "mmu m root va =
     (let e4 = entry m root (pml4_index va) in if \<not> is_present e4 then None else
      let e3 = entry m (pte_paddr e4) (pdpt_index va) in if \<not> is_present e3 then None else
      if is_huge e3 then Some (pte_paddr e3 + va mod 2 ^ 30, may PTE_W [e4, e3], may PTE_U [e4, e3]) else
      let e2 = entry m (pte_paddr e3) (pdt_index va) in if \<not> is_present e2 then None else
      if is_huge e2 then Some (pte_paddr e2 + va mod 2 ^ 21, may PTE_W [e4, e3, e2], may PTE_U [e4, e3, e2]) else
      let e1 = entry m (pte_paddr e2) (pt_index va) in if \<not> is_present e1 then None else
      Some (pte_paddr e1 + va mod 2 ^ 12, may PTE_W [e4, e3, e2, e1], may PTE_U [e4, e3, e2, e1]))"

section \<open>Entries\<close>

lemma nat_bit_less: "x < 2 ^ k \<Longrightarrow> bit (x :: nat) n \<Longrightarrow> n < k"
  by (metis bit_take_bit_iff take_bit_nat_eq_self)

lemma pte_mask_bits: "bit (0x000ffffffffff000 :: u64) n \<longleftrightarrow> 12 \<le> n \<and> n < 52"
proof -
  have "bit (push_bit 12 (mask 40) :: u64) n \<longleftrightarrow> 12 \<le> n \<and> n < 52"
    by (auto simp: bit_push_bit_iff bit_mask_iff)
  moreover have "push_bit 12 (mask 40) = (0x000ffffffffff000 :: u64)" by (simp add: mask_eq_exp_minus_1)
  ultimately show ?thesis by metis
qed

lemma flag_bits: "w < 4096 \<Longrightarrow> bit (w :: u64) n \<Longrightarrow> n < 12"
  using nat_bit_less [of "unat w" 12 n] by (simp add: word_less_nat_alt bit_unsigned_iff bit_imp_le_length)

lemma paddr_bits:
  assumes "4096 dvd p" and "p < 2 ^ 52" and "bit (word_of_nat p :: u64) n"
  shows "12 \<le> n" and "n < 52"
proof -
  have b: "bit p n" using assms(3) by (simp add: bit_of_nat_iff)
  obtain k where k: "p = push_bit 12 k" using assms(1) by (auto simp: push_bit_eq_mult dvd_def mult.commute)
  with b show "12 \<le> n" by (simp add: bit_push_bit_iff)
  show "n < 52" by (rule nat_bit_less [OF assms(2) b])
qed

text \<open>An entry built by \<open>Pte::new\<close> gives its address back.\<close>

lemma pte_paddr_or:
  assumes "4096 dvd p" and "p < 2 ^ 52" and "flags < 4096"
  shows "pte_paddr (word_of_nat p OR flags) = p"
proof -
  have "(word_of_nat p OR flags) AND 0x000ffffffffff000 = (word_of_nat p :: u64)"
  proof (rule bit_word_eqI)
    fix n assume "n < LENGTH(64)"
    show "bit ((word_of_nat p OR flags) AND 0x000ffffffffff000) n = bit (word_of_nat p :: u64) n"
      unfolding bit_and_iff bit_or_iff pte_mask_bits
      using paddr_bits [OF assms(1,2), of n] flag_bits [OF assms(3), of n] by (metis leD)
  qed
  moreover have "unat (word_of_nat p :: u64) = p"
    using assms(2) by (simp add: unat_of_nat)
  ultimately show ?thesis by (simp add: pte_paddr_def)
qed

lemma pte_flag:
  assumes "4096 dvd p" and "p < 2 ^ 52" and "f < 4096"
  shows "(word_of_nat p OR flags) AND f = flags AND (f :: u64)"
proof (rule bit_word_eqI)
  fix n
  show "bit ((word_of_nat p OR flags) AND f) n = bit (flags AND f) n"
    unfolding bit_and_iff bit_or_iff
    using paddr_bits [OF assms(1,2), of n] flag_bits [OF assms(3), of n] by (metis leD)
qed

lemma pte_new_eq: "pte_new p flags = (if 4096 dvd p then Val (word_of_nat p OR flags) else Panic)"
proof -
  have "is_power_of_two 4096" using is_power_of_two_pow [of 12] by simp
  then show ?thesis by (simp add: pte_new_def paddr_is_aligned_def is_aligned_eq assert_exec_def)
qed

lemmas pte_flags = PTE_V_def PTE_W_def PTE_U_def PTE_HUGE_def

lemma not_present_0 [simp]: "\<not> is_present 0"
  by (simp add: is_present_def)

text \<open>An entry for a next-level table, and an entry for a page.\<close>

lemma table_pte:
  assumes "4096 dvd p" and "p < 2 ^ 52"
  defines "e \<equiv> word_of_nat p OR (PTE_V OR PTE_W OR PTE_U)"
  shows "is_present e" and "\<not> is_huge e" and "pte_paddr e = p" and "e AND PTE_W \<noteq> 0" and "e AND PTE_U \<noteq> 0"
  using pte_paddr_or [OF assms(1,2), of "PTE_V OR PTE_W OR PTE_U"] pte_flag [OF assms(1,2)]
  by (simp_all add: e_def is_present_def is_huge_def pte_flags)

section \<open>Trees of tables\<close>

definition child :: "memory \<Rightarrow> PAddr \<Rightarrow> usize \<Rightarrow> PAddr option" where
  "child m t i = (let e = entry m t i in if is_present e \<and> \<not> is_huge e then Some (pte_paddr e) else None)"

fun table_at :: "memory \<Rightarrow> PAddr \<Rightarrow> usize list \<Rightarrow> PAddr option" where
  "table_at m t [] = Some t"
| "table_at m t (i # p) = (case child m t i of None \<Rightarrow> None | Some u \<Rightarrow> table_at m u p)"

lemma table_at_snoc:
  "table_at m t (p @ [i]) = (case table_at m t p of None \<Rightarrow> None | Some u \<Rightarrow> child m u i)"
  by (induction p arbitrary: t) (auto split: option.splits)

definition user_path :: "usize list \<Rightarrow> bool" where
  "user_path p \<longleftrightarrow> length p \<le> 3 \<and> (\<forall>i\<in>set p. i < 512) \<and> (p \<noteq> [] \<longrightarrow> hd p < 256)"

lemma user_path_Nil [simp]: "user_path []"
  by (simp add: user_path_def)

lemma user_path_snocD: "user_path (p @ [i]) \<Longrightarrow> user_path p \<and> i < 512 \<and> length p \<le> 2 \<and> (p = [] \<longrightarrow> i < 256)"
  by (auto simp: user_path_def)

definition user_tables :: "memory \<Rightarrow> PAddr \<Rightarrow> PAddr set" where
  "user_tables m root = {t. \<exists>p. user_path p \<and> table_at m root p = Some t}"

definition tables_mem :: "memory \<Rightarrow> PAddr \<Rightarrow> nat set" where
  "tables_mem m root = (\<Union>t\<in>user_tables m root. page_frame t)"

text \<open>
  The invariant: every table is a page that the page allocator has given away, no table is used at
  two places, and every entry of the user half that leads to a table grants all accesses and is not
  a huge page.
\<close>

definition table_entry_ok :: "Pte \<Rightarrow> bool" where
  "table_entry_ok e \<longleftrightarrow> \<not> is_huge e \<and> e AND PTE_W \<noteq> 0 \<and> e AND PTE_U \<noteq> 0"

definition pt_wf :: "memory \<Rightarrow> PAddr \<Rightarrow> nat set \<Rightarrow> bool" where
  "pt_wf m root av \<longleftrightarrow>
     (\<forall>t\<in>user_tables m root. 4096 dvd t \<and> t + 4096 \<le> DIRECT_MAP_END \<and> page_frame t \<inter> av = {})
     \<and> (\<forall>p q t. user_path p \<longrightarrow> user_path q \<longrightarrow> table_at m root p = Some t \<longrightarrow> table_at m root q = Some t \<longrightarrow> p = q)
     \<and> (\<forall>p i t. user_path (p @ [i]) \<longrightarrow> table_at m root p = Some t \<longrightarrow> is_present (entry m t i) \<longrightarrow> table_entry_ok (entry m t i))"

lemma pt_wf_table:
  assumes "pt_wf m root av" and "user_path p" and "table_at m root p = Some t"
  shows "4096 dvd t" and "t + 4096 \<le> DIRECT_MAP_END" and "page_frame t \<inter> av = {}" and "page_frame t \<subseteq> tables_mem m root"
    and "t < 2 ^ 47" and "t < 2 ^ 52"
proof -
  have t: "t \<in> user_tables m root" using assms(2,3) by (auto simp: user_tables_def)
  then show "4096 dvd t" "t + 4096 \<le> DIRECT_MAP_END" "page_frame t \<inter> av = {}" "page_frame t \<subseteq> tables_mem m root"
    using assms(1) by (auto simp: pt_wf_def tables_mem_def)
  then show "t < 2 ^ 47" "t < 2 ^ 52" by (simp_all add: direct_map_bound)
qed

lemma pt_wf_inj:
  "pt_wf m root av \<Longrightarrow> user_path p \<Longrightarrow> user_path q \<Longrightarrow> table_at m root p = Some t \<Longrightarrow> table_at m root q = Some t \<Longrightarrow> p = q"
  unfolding pt_wf_def by blast

lemma pt_wf_entry:
  "pt_wf m root av \<Longrightarrow> user_path (p @ [i]) \<Longrightarrow> table_at m root p = Some t \<Longrightarrow> is_present (entry m t i) \<Longrightarrow>
     table_entry_ok (entry m t i)"
  unfolding pt_wf_def by blast

text \<open>The bytes of an entry, and when a store to one entry leaves another alone.\<close>

lemma entry_frame: "i < 512 \<Longrightarrow> t + 8 * i \<le> x \<Longrightarrow> x < t + 8 * i + 8 \<Longrightarrow> x \<in> page_frame t"
  by (auto simp: page_frame_def MIN_PAGE_SIZE_def)

lemma entry_cong: "i < 512 \<Longrightarrow> (\<And>x. x \<in> page_frame t \<Longrightarrow> m' x = m x) \<Longrightarrow> entry m' t i = entry m t i"
  unfolding entry_def by (rule load64_cong) (metis entry_frame)

lemma entry_store_same [simp]: "entry (store64 m (t + 8 * i) e) t i = e"
  by (simp add: entry_def)

lemma entry_store_index: "j \<noteq> i \<Longrightarrow> entry (store64 m (t + 8 * i) e) t j = entry m t j"
  unfolding entry_def by (rule load64_store64_other) linarith

lemma store_outside_frame: "i < 512 \<Longrightarrow> x \<notin> page_frame t \<Longrightarrow> store64 m (t + 8 * i) e x = m x"
  by (rule store64_outside) (auto simp: page_frame_def MIN_PAGE_SIZE_def)

lemma entry_store_other:
  assumes "4096 dvd t" and "4096 dvd u" and "t \<noteq> u" and "i < 512" and "j < 512"
  shows "entry (store64 m (t + 8 * i) e) u j = entry m u j"
proof (rule entry_cong [OF assms(5)])
  fix x assume "x \<in> page_frame u"
  then have "x \<notin> page_frame t" using page_frames_apart [of t u] assms by (auto simp: MIN_PAGE_SIZE_def)
  then show "store64 m (t + 8 * i) e x = m x" by (rule store_outside_frame [OF assms(4)])
qed

text \<open>Tables that are not written stay where they are.\<close>

lemma table_at_frame:
  assumes "\<And>x. x \<in> tables_mem m root \<Longrightarrow> m' x = m x" and "user_path p"
  shows "table_at m' root p = table_at m root p"
  using assms(2)
proof (induction p rule: rev_induct)
  case Nil
  then show ?case by simp
next
  case (snoc i p)
  note up = user_path_snocD [OF snoc.prems]
  then have IH: "table_at m' root p = table_at m root p" using snoc.IH by simp
  show ?case
  proof (cases "table_at m root p")
    case None
    then show ?thesis by (simp add: table_at_snoc IH)
  next
    case (Some t)
    then have "page_frame t \<subseteq> tables_mem m root" using up by (auto simp: tables_mem_def user_tables_def)
    then have "entry m' t i = entry m t i" using assms(1) up by (intro entry_cong) auto
    then show ?thesis by (simp add: table_at_snoc IH Some child_def)
  qed
qed

section \<open>Linking a new table\<close>

text \<open>
  A zeroed page \<open>n\<close> from the page allocator is entered at index \<open>i\<close> of the table at path \<open>p\<close>, whose
  entry was not present.
\<close>

definition linkable :: "memory \<Rightarrow> PAddr \<Rightarrow> nat set \<Rightarrow> usize list \<Rightarrow> usize \<Rightarrow> PAddr \<Rightarrow> PAddr \<Rightarrow> memory \<Rightarrow> bool" where
  "linkable m root av p i t n m1 \<longleftrightarrow> pt_wf m root av \<and> user_path (p @ [i]) \<and> table_at m root p = Some t
     \<and> \<not> is_present (entry m t i)
     \<and> 4096 dvd n \<and> n + 4096 \<le> DIRECT_MAP_END \<and> page_frame n \<subseteq> av
     \<and> (\<forall>x\<in>page_frame n. m1 x = 0) \<and> (\<forall>x. x \<notin> page_frame n \<longrightarrow> m1 x = m x)"

definition link :: "memory \<Rightarrow> PAddr \<Rightarrow> usize \<Rightarrow> PAddr \<Rightarrow> memory" where
  "link m1 t i n = store64 m1 (t + 8 * i) (word_of_nat n OR (PTE_V OR PTE_W OR PTE_U))"

lemma linkableD:
  assumes "linkable m root av p i t n m1"
  shows "pt_wf m root av" and "user_path (p @ [i])" and "table_at m root p = Some t"
    and "\<not> is_present (entry m t i)" and "4096 dvd n" and "n + 4096 \<le> DIRECT_MAP_END" and "page_frame n \<subseteq> av"
    and "\<And>x. x \<in> page_frame n \<Longrightarrow> m1 x = 0" and "\<And>x. x \<notin> page_frame n \<Longrightarrow> m1 x = m x"
    and "i < 512" and "user_path p" and "length p \<le> 2" and "n < 2 ^ 52"
  using assms user_path_snocD [of p i] by (auto simp: linkable_def direct_map_bound)

lemma linkable_apart:
  assumes "linkable m root av p i t n m1" and "user_path q" and "table_at m root q = Some u"
  shows "page_frame u \<inter> page_frame n = {}" and "u \<noteq> n"
  using pt_wf_table(3) [OF linkableD(1) [OF assms(1)] assms(2,3)] linkableD(7) [OF assms(1)] page_frame_start
  by blast+

lemma linkable_entry:
  assumes "linkable m root av p i t n m1" and "user_path q" and "table_at m root q = Some u" and "j < 512"
  shows "entry m1 u j = entry m u j"
  using linkable_apart(1) [OF assms(1-3)] linkableD(9) [OF assms(1)] by (intro entry_cong [OF assms(4)]) auto

lemma link_child:
  assumes "linkable m root av p i t n m1"
  shows "child (link m1 t i n) t i = Some n"
  using table_pte(1-3) [OF linkableD(5,13) [OF assms]] by (simp add: child_def link_def)

lemma link_other_entry:
  assumes L: "linkable m root av p i t n m1" and q: "user_path q" "table_at m root q = Some u" "j < 512"
    and "(q, j) \<noteq> (p, i)"
  shows "entry (link m1 t i n) u j = entry m u j"
proof (cases "u = t")
  case True
  then have "q = p" using pt_wf_inj [OF linkableD(1) [OF L] q(1) linkableD(11) [OF L] q(2)] linkableD(3) [OF L] by simp
  with assms(5) have "j \<noteq> i" by simp
  then show ?thesis using True linkable_entry [OF L q] by (simp add: link_def entry_store_index)
next
  case False
  have "4096 dvd t" "4096 dvd u"
    using pt_wf_table(1) [OF linkableD(1) [OF L]] linkableD(3,11) [OF L] q(1,2) by auto
  with False show ?thesis
    using entry_store_other [of t u i j m1] linkableD(10) [OF L] q(3) linkable_entry [OF L q] by (simp add: link_def)
qed

lemma link_new_table:
  assumes L: "linkable m root av p i t n m1" and j: "j < 512"
  shows "entry (link m1 t i n) n j = 0"
proof -
  have "4096 dvd t" "t \<noteq> n"
    using pt_wf_table(1) [OF linkableD(1,11,3) [OF L]] linkable_apart(2) [OF L linkableD(11,3) [OF L]] by simp_all
  then have "entry (link m1 t i n) n j = entry m1 n j"
    using entry_store_other [of t n i j m1] linkableD(5,10) [OF L] j by (simp add: link_def)
  also have "\<dots> = 0"
    unfolding entry_def using linkableD(8) [OF L] entry_frame [OF j] by (intro load64_zero) auto
  finally show ?thesis .
qed

lemma link_table_at:
  assumes L: "linkable m root av p i t n m1" and "user_path q"
  shows "table_at (link m1 t i n) root q = (if q = p @ [i] then Some n else table_at m root q)"
  using assms(2)
proof (induction q rule: rev_induct)
  case Nil
  then show ?case by simp
next
  case (snoc j q)
  let ?m = "link m1 t i n"
  note uq = user_path_snocD [OF snoc.prems]
  show ?case
  proof (cases "q = p @ [i]")
    case True
    have "table_at m root q = None" using True linkableD(3,4) [OF L] by (simp add: table_at_snoc child_def)
    moreover have "table_at ?m root q = Some n" using snoc.IH uq True by simp
    moreover have "q @ [j] \<noteq> p @ [i]" using True by auto
    ultimately show ?thesis
      using link_new_table [OF L, of j] uq by (simp add: table_at_snoc [of _ _ q] child_def del: append_assoc)
  next
    case False
    then have IH: "table_at ?m root q = table_at m root q" using snoc.IH uq by simp
    show ?thesis
    proof (cases "table_at m root q")
      case None
      then have "q \<noteq> p" using linkableD(3) [OF L] by auto
      then show ?thesis using None IH by (simp add: table_at_snoc)
    next
      case (Some u)
      show ?thesis
      proof (cases "(q, j) = (p, i)")
        case True
        then show ?thesis using Some IH linkableD(3) [OF L] link_child [OF L] by (simp add: table_at_snoc)
      next
        case False
        have "j < 512" "user_path q" using uq by simp_all
        then have "child ?m u j = child m u j"
          using link_other_entry [OF L _ Some _ False] by (simp add: child_def)
        with Some IH False show ?thesis by (auto simp: table_at_snoc)
      qed
    qed
  qed
qed

section \<open>The user mappings\<close>

definition va_path :: "usize \<Rightarrow> usize list" where
  "va_path va = [pml4_index va, pdpt_index va, pdt_index va]"

text \<open>The entry that maps the page of a user address.\<close>

definition user_pte :: "memory \<Rightarrow> PAddr \<Rightarrow> usize \<Rightarrow> Pte option" where
  "user_pte m root va = (case table_at m root (va_path va) of None \<Rightarrow> None
     | Some t \<Rightarrow> let e = entry m t (pt_index va) in if is_present e then Some e else None)"

text \<open>
  What every step of \<open>map\<close> keeps: the invariant, the tables that are there, the kernel half of the
  PML4, and all memory outside the tables and the page allocator.
\<close>

definition pt_step :: "memory \<Rightarrow> PAddr \<Rightarrow> nat set \<Rightarrow> memory \<Rightarrow> nat set \<Rightarrow> bool" where
  "pt_step m root av m' av' \<longleftrightarrow> pt_wf m' root av' \<and> av' \<subseteq> av
     \<and> (\<forall>q t. user_path q \<longrightarrow> table_at m root q = Some t \<longrightarrow> table_at m' root q = Some t)
     \<and> (\<forall>j. 256 \<le> j \<longrightarrow> j < 512 \<longrightarrow> entry m' root j = entry m root j)
     \<and> tables_mem m' root \<subseteq> tables_mem m root \<union> (av - av')
     \<and> (\<forall>x. x \<notin> tables_mem m root \<longrightarrow> x \<notin> av \<longrightarrow> m' x = m x)"

lemma pt_step_refl: "pt_wf m root av \<Longrightarrow> pt_step m root av m av"
  by (simp add: pt_step_def)

lemma pt_step_trans:
  assumes "pt_step m root av m1 av1" and "pt_step m1 root av1 m2 av2"
  shows "pt_step m root av m2 av2"
proof -
  have "m2 x = m x" if "x \<notin> tables_mem m root" "x \<notin> av" for x
  proof -
    have "x \<notin> tables_mem m1 root" "x \<notin> av1" using assms(1) that unfolding pt_step_def by blast+
    then have "m2 x = m1 x" using assms(2) unfolding pt_step_def by blast
    also have "m1 x = m x" using assms(1) that unfolding pt_step_def by blast
    finally show ?thesis .
  qed
  moreover have "tables_mem m2 root \<subseteq> tables_mem m root \<union> (av - av2)" "av2 \<subseteq> av"
    using assms unfolding pt_step_def by blast+
  ultimately show ?thesis using assms unfolding pt_step_def by (intro conjI) auto
qed

lemma link_wf:
  assumes L: "linkable m root av p i t n m1" and av': "av' \<subseteq> av - page_frame n"
  shows "pt_wf (link m1 t i n) root av'"
  unfolding pt_wf_def
proof (intro conjI ballI allI impI)
  let ?m = "link m1 t i n"
  fix u assume "u \<in> user_tables ?m root"
  then obtain q where q: "user_path q" "table_at ?m root q = Some u" by (auto simp: user_tables_def)
  then have "u = n \<or> table_at m root q = Some u" using link_table_at [OF L q(1)] by (auto split: if_splits)
  then show "4096 dvd u" "u + 4096 \<le> DIRECT_MAP_END" "page_frame u \<inter> av' = {}"
    using linkableD(5-7) [OF L] pt_wf_table(1-3) [OF linkableD(1) [OF L] q(1), of u] av' by blast+
next
  let ?m = "link m1 t i n"
  fix q r u assume qr: "user_path q" "user_path r" "table_at ?m root q = Some u" "table_at ?m root r = Some u"
  then show "q = r"
    using link_table_at [OF L qr(1)] link_table_at [OF L qr(2)] linkable_apart(2) [OF L]
      pt_wf_inj [OF linkableD(1) [OF L] qr(1,2), of u] by (auto split: if_splits)
next
  let ?m = "link m1 t i n"
  fix q j u assume q: "user_path (q @ [j])" "table_at ?m root q = Some u" "is_present (entry ?m u j)"
  then have uq: "user_path q" "j < 512" using user_path_snocD by auto
  show "table_entry_ok (entry ?m u j)"
  proof (cases "q = p @ [i]")
    case True
    then have "u = n" using q(2) link_table_at [OF L uq(1)] by simp
    then show ?thesis using link_new_table [OF L uq(2)] q(3) by simp
  next
    case False
    then have u: "table_at m root q = Some u" using q(2) link_table_at [OF L uq(1)] by simp
    show ?thesis
    proof (cases "(q, j) = (p, i)")
      case True
      then have "u = t" using u linkableD(3) [OF L] by simp
      then show ?thesis using True table_pte [OF linkableD(5,13) [OF L]] by (simp add: link_def table_entry_ok_def)
    next
      case False
      then show ?thesis
        using link_other_entry [OF L uq(1) u uq(2) False] pt_wf_entry [OF linkableD(1) [OF L] q(1) u] q(3) by simp
    qed
  qed
qed

lemma link_step:
  assumes L: "linkable m root av p i t n m1" and av': "av' \<subseteq> av - page_frame n" and fr: "page_frame n \<inter> av' = {}"
  shows "pt_step m root av (link m1 t i n) av'"
  unfolding pt_step_def
proof (intro conjI allI impI)
  let ?m = "link m1 t i n"
  show "pt_wf ?m root av'" by (rule link_wf [OF L av'])
  show "av' \<subseteq> av" using av' by blast
  fix q u assume "user_path q" "table_at m root q = Some u"
  then show "table_at ?m root q = Some u"
    using link_table_at [OF L, of q] linkableD(3,4) [OF L] by (auto simp: table_at_snoc child_def)
next
  fix j :: nat assume "256 \<le> j" "j < 512"
  moreover from this have "([], j) \<noteq> (p, i)" using linkableD(2) [OF L] by (auto simp: user_path_def)
  ultimately show "entry (link m1 t i n) root j = entry m root j"
    using link_other_entry [OF L, of "[]" root j] by simp
next
  let ?m = "link m1 t i n"
  have "user_tables ?m root \<subseteq> user_tables m root \<union> {n}"
    using link_table_at [OF L] by (auto simp: user_tables_def split: if_splits)
  then have "tables_mem ?m root \<subseteq> tables_mem m root \<union> page_frame n" by (auto simp: tables_mem_def)
  moreover have "page_frame n \<subseteq> av - av'" using linkableD(7) [OF L] fr by blast
  ultimately show "tables_mem ?m root \<subseteq> tables_mem m root \<union> (av - av')" by blast
next
  fix x assume x: "x \<notin> tables_mem m root" "x \<notin> av"
  then have "x \<notin> page_frame t" "x \<notin> page_frame n"
    using pt_wf_table(4) [OF linkableD(1,11,3) [OF L]] linkableD(7) [OF L] by auto
  then show "link m1 t i n x = m x"
    using store_outside_frame [OF linkableD(10) [OF L]] linkableD(9) [OF L] by (simp add: link_def)
qed

lemma index_less: "pml4_index va < 512" "pdpt_index va < 512" "pdt_index va < 512" "pt_index va < 512"
proof -
  have "(0x1ff :: nat) = mask 9" by (simp add: mask_eq_exp_minus_1)
  then show "pml4_index va < 512" "pdpt_index va < 512" "pdt_index va < 512" "pt_index va < 512"
    unfolding pml4_index_def pdpt_index_def pdt_index_def pt_index_def
    by (simp_all only: take_bit_eq_mask [symmetric]) (use take_bit_nat_less_exp [of 9] in simp_all)
qed

lemma index_div:
  "pml4_index va = va div 2 ^ 39 mod 512" "pdpt_index va = va div 2 ^ 30 mod 512"
  "pdt_index va = va div 2 ^ 21 mod 512" "pt_index va = va div 2 ^ 12 mod 512"
proof -
  have m: "(0x1ff :: nat) = mask 9" by (simp add: mask_eq_exp_minus_1)
  show "pml4_index va = va div 2 ^ 39 mod 512" "pdpt_index va = va div 2 ^ 30 mod 512"
    "pdt_index va = va div 2 ^ 21 mod 512" "pt_index va = va div 2 ^ 12 mod 512"
    unfolding pml4_index_def pdpt_index_def pdt_index_def pt_index_def m
    by (simp_all only: take_bit_eq_mask [symmetric] take_bit_eq_mod drop_bit_eq_div) simp_all
qed

text \<open>User addresses are the lower canonical half.\<close>

lemma user_va_path: "va < 2 ^ 47 \<Longrightarrow> user_path (va_path va)"
proof -
  assume "va < 2 ^ 47"
  then have "pml4_index va < 256" by (simp add: index_div)
  then show ?thesis using index_less by (simp add: user_path_def va_path_def)
qed

lemma link_user_pte:
  assumes L: "linkable m root av p i t n m1" and va: "va < 2 ^ 47"
  shows "user_pte (link m1 t i n) root va = user_pte m root va"
proof (cases "va_path va = p @ [i]")
  case True
  then have "table_at m root (va_path va) = None" using linkableD(3,4) [OF L] by (simp add: table_at_snoc child_def)
  then show ?thesis
    using link_table_at [OF L user_va_path [OF va]] True link_new_table [OF L index_less(4)]
    by (simp add: user_pte_def)
next
  case False
  then have same: "table_at (link m1 t i n) root (va_path va) = table_at m root (va_path va)"
    using link_table_at [OF L user_va_path [OF va]] by simp
  have "va_path va \<noteq> p" using linkableD(12) [OF L] by (auto simp: va_path_def)
  then show ?thesis
    using same link_other_entry [OF L user_va_path [OF va] _ index_less(4)]
    by (auto simp: user_pte_def split: option.splits)
qed

text \<open>\<open>ensure_next_table\<close> on a table of the tree.\<close>

lemma ensure_next_table_spec:
  assumes phw: "phys_wf ph" and wf: "pt_wf (ph_mem ph) root (page_avail ph)" and up: "user_path (p @ [i])"
    and t: "table_at (ph_mem ph) root p = Some t"
  shows "\<exists>r ph'. ensure_next_table ph t i = Val (r, ph') \<and> phys_wf ph'
    \<and> pt_step (ph_mem ph) root (page_avail ph) (ph_mem ph') (page_avail ph')
    \<and> (\<forall>va<2 ^ 47. user_pte (ph_mem ph') root va = user_pte (ph_mem ph) root va)
    \<and> (case r of Inl e \<Rightarrow> e = OUT_OF_MEMORY \<and> table_at (ph_mem ph) root (p @ [i]) = None
        | Inr u \<Rightarrow> table_at (ph_mem ph') root (p @ [i]) = Some u)"
proof (cases "is_present (entry (ph_mem ph) t i)")
  case True
  have i: "i < 512" using user_path_snocD [OF up] by simp
  have nh: "\<not> is_huge (entry (ph_mem ph) t i)" using pt_wf_entry [OF wf up t True] by (simp add: table_entry_ok_def)
  then have u: "table_at (ph_mem ph) root (p @ [i]) = Some (pte_paddr (entry (ph_mem ph) t i))"
    using True t by (simp add: table_at_snoc child_def)
  then have "ensure_next_table ph t i = Val (Inr (pte_paddr (entry (ph_mem ph) t i)), ph)"
    using True nh i pt_wf_table(5) [OF wf up u]
    by (simp add: ensure_next_table_def table_get_def assert_exec_def ENTRIES_PER_TABLE_def paddr_to_table_mut_def)
  with u phw pt_step_refl [OF wf] show ?thesis by simp
next
  case False
  have i: "i < 512" using user_path_snocD [OF up] by simp
  obtain r ph1 where pg: "page_alloc Zeroed ph MIN_PAGE_SIZE = Val (r, ph1)" "phys_wf ph1"
    using page_alloc_total [OF phw page_size_pos dvd_refl] by blast
  show ?thesis
  proof (cases r)
    case None
    then have "page_avail ph1 = page_avail ph" "ph_mem ph1 = ph_mem ph"
      using page_alloc_None [OF phw page_size_pos dvd_refl] pg(1) by simp_all
    moreover have "ensure_next_table ph t i = Val (Inl OUT_OF_MEMORY, ph1)"
      using False None pg(1) i
      by (simp add: ensure_next_table_def table_get_def assert_exec_def ENTRIES_PER_TABLE_def alloc_table_def)
    moreover have "table_at (ph_mem ph) root (p @ [i]) = None" using False t by (simp add: table_at_snoc child_def)
    ultimately show ?thesis using pg(2) pt_step_refl [OF wf] by simp
  next
    case (Some n)
    note pa = page_alloc_Some [OF phw page_size_pos dvd_refl pg(1) [unfolded Some]]
    have n: "4096 dvd n" "n + 4096 \<le> DIRECT_MAP_END" "page_frame n \<subseteq> page_avail ph"
      "page_avail ph1 \<subseteq> page_avail ph - page_frame n"
      using pa by (simp_all add: MIN_PAGE_SIZE_def page_frame_def)
    have m1: "ph_mem ph1 = mem_fill (ph_mem ph) n 0 MIN_PAGE_SIZE" using pa(5) by simp
    have L: "linkable (ph_mem ph) root (page_avail ph) p i t n (ph_mem ph1)"
      using wf up t False n unfolding linkable_def m1 by (auto simp: mem_fill_def page_frame_def)
    have en: "ensure_next_table ph t i = Val (Inr n, ph1\<lparr>ph_mem := link (ph_mem ph1) t i n\<rparr>)"
      using False Some pg(1) i n(1,2)
      by (simp add: ensure_next_table_def table_get_def assert_exec_def ENTRIES_PER_TABLE_def alloc_table_def
          pte_new_eq table_set_def link_def paddr_to_table_mut_def direct_map_bound)
    have "page_frame n \<inter> page_avail ph1 = {}" using n(4) by blast
    from link_step [OF L n(4) this] link_user_pte [OF L] link_table_at [OF L up] en pg(2)
    show ?thesis by (simp add: phys_wf_def page_avail_def)
  qed
qed

section \<open>Mapping a page\<close>

lemma page_number_eq:
  assumes "va < 2 ^ 47" and "w < 2 ^ 47"
  shows "va_path w = va_path va \<and> pt_index w = pt_index va \<longleftrightarrow> w div 4096 = va div 4096"
proof
  assume eq: "va_path w = va_path va \<and> pt_index w = pt_index va"
  define x y where "x = w div 4096" and "y = va div 4096"
  have xy: "x < 2 ^ 35" "y < 2 ^ 35" using assms by (simp_all add: x_def y_def less_mult_imp_div_less)
  have e: "pml4_index z = z div 4096 div 512 div 512 div 512 mod 512"
    "pdpt_index z = z div 4096 div 512 div 512 mod 512" "pdt_index z = z div 4096 div 512 mod 512"
    "pt_index z = z div 4096 mod 512" for z
    by (simp_all add: index_div div_mult2_eq [symmetric])
  have "x mod 512 = y mod 512" "x div 512 mod 512 = y div 512 mod 512"
    "x div 512 div 512 mod 512 = y div 512 div 512 mod 512"
    "x div 512 div 512 div 512 mod 512 = y div 512 div 512 div 512 mod 512"
    using eq by (simp_all only: va_path_def list.inject e x_def y_def)
  moreover have "x div 512 div 512 div 512 < 512" "y div 512 div 512 div 512 < 512" using xy by simp_all
  ultimately have "x div 512 div 512 div 512 = y div 512 div 512 div 512" by simp
  then have "x div 512 div 512 = y div 512 div 512"
    using \<open>x div 512 div 512 mod 512 = y div 512 div 512 mod 512\<close> by (metis div_mult_mod_eq)
  then have "x div 512 = y div 512"
    using \<open>x div 512 mod 512 = y div 512 mod 512\<close> by (metis div_mult_mod_eq)
  then show "w div 4096 = va div 4096"
    using \<open>x mod 512 = y mod 512\<close> unfolding x_def y_def by (metis div_mult_mod_eq)
next
  assume "w div 4096 = va div 4096"
  moreover have "z div 2 ^ 39 = z div 4096 div 2 ^ 27" "z div 2 ^ 30 = z div 4096 div 2 ^ 18"
    "z div 2 ^ 21 = z div 4096 div 2 ^ 9" "z div 2 ^ 12 = z div 4096" for z :: nat
    by (simp_all add: div_mult2_eq [symmetric])
  ultimately show "va_path w = va_path va \<and> pt_index w = pt_index va"
    by (simp add: va_path_def index_div)
qed

text \<open>Storing a leaf entry.\<close>

lemma leaf_table_at:
  assumes wf: "pt_wf m root av" and va: "va < 2 ^ 47" and t: "table_at m root (va_path va) = Some t" and "user_path q"
  shows "table_at (store64 m (t + 8 * pt_index va) e) root q = table_at m root q"
  using assms(4)
proof (induction q rule: rev_induct)
  case Nil
  then show ?case by simp
next
  case (snoc j q)
  let ?m = "store64 m (t + 8 * pt_index va) e"
  note uq = user_path_snocD [OF snoc.prems]
  have IH: "table_at ?m root q = table_at m root q" using snoc.IH uq by simp
  show ?case
  proof (cases "table_at m root q")
    case None
    then show ?thesis using IH by (simp add: table_at_snoc)
  next
    case (Some u)
    have "q \<noteq> va_path va" using uq by (auto simp: va_path_def)
    then have "t \<noteq> u" using pt_wf_inj [OF wf _ user_va_path [OF va] Some] t uq by blast
    then have "entry ?m u j = entry m u j"
      using entry_store_other [OF pt_wf_table(1) [OF wf user_va_path [OF va] t] pt_wf_table(1) [OF wf _ Some]]
        uq index_less(4) by simp
    then show ?thesis using IH Some by (simp add: table_at_snoc child_def)
  qed
qed

lemma leaf_user_pte:
  assumes wf: "pt_wf m root av" and va: "va < 2 ^ 47" and t: "table_at m root (va_path va) = Some t"
    and e: "is_present e" and w: "w < 2 ^ 47"
  shows "user_pte (store64 m (t + 8 * pt_index va) e) root w =
    (if w div 4096 = va div 4096 then Some e else user_pte m root w)"
proof -
  let ?m = "store64 m (t + 8 * pt_index va) e"
  note at = leaf_table_at [OF wf va t user_va_path [OF w], of e]
  show ?thesis
  proof (cases "table_at m root (va_path w)")
    case None
    then have "va_path w \<noteq> va_path va" using t by auto
    then show ?thesis using None at page_number_eq [OF va w] by (auto simp: user_pte_def)
  next
    case (Some u)
    show ?thesis
    proof (cases "u = t")
      case True
      then have path: "va_path w = va_path va" using pt_wf_inj [OF wf user_va_path [OF w] user_va_path [OF va] Some] t by simp
      then show ?thesis
        using True Some at e page_number_eq [OF va w] entry_store_index [of "pt_index w" "pt_index va" m t e]
        by (cases "pt_index w = pt_index va") (simp_all add: user_pte_def)
    next
      case False
      then have "va_path w \<noteq> va_path va" using Some t by auto
      then show ?thesis
        using False Some at page_number_eq [OF va w] index_less(4)
          entry_store_other [OF pt_wf_table(1) [OF wf user_va_path [OF va] t] pt_wf_table(1) [OF wf user_va_path [OF w] Some]]
        by (auto simp: user_pte_def)
    qed
  qed
qed

lemma leaf_step:
  fixes e :: Pte
  assumes wf: "pt_wf m root av" and va: "va < 2 ^ 47" and t: "table_at m root (va_path va) = Some t"
  defines "m' \<equiv> store64 m (t + 8 * pt_index va) e"
  shows "pt_step m root av m' av"
proof -
  note uva = user_va_path [OF va]
  have at: "user_path q \<Longrightarrow> table_at m' root q = table_at m root q" for q
    unfolding m'_def by (rule leaf_table_at [OF wf va t])
  have tables: "user_tables m' root = user_tables m root" using at by (auto simp: user_tables_def)
  have upper: "entry m' u j = entry m u j" if "user_path q" "table_at m root q = Some u" "q \<noteq> va_path va" "j < 512" for q u j
  proof -
    have "t \<noteq> u" using pt_wf_inj [OF wf that(1) uva that(2)] t that(3) by blast
    then show ?thesis
      unfolding m'_def using entry_store_other [OF pt_wf_table(1) [OF wf uva t] pt_wf_table(1) [OF wf that(1,2)]]
        index_less(4) that(4) by blast
  qed
  have wf': "pt_wf m' root av"
    unfolding pt_wf_def
  proof (intro conjI allI impI)
    fix p i u assume p: "user_path (p @ [i])" "table_at m' root p = Some u" "is_present (entry m' u i)"
    then have up: "user_path p" "i < 512" "p \<noteq> va_path va" using user_path_snocD [OF p(1)] by (auto simp: va_path_def)
    then have "entry m' u i = entry m u i" "table_at m root p = Some u" using upper p(2) at by auto
    then show "table_entry_ok (entry m' u i)" using pt_wf_entry [OF wf p(1)] p(3) by simp
  qed (use wf at tables in \<open>auto simp: pt_wf_def\<close>)
  moreover have "entry m' root j = entry m root j" if "256 \<le> j" "j < 512" for j
    using upper [of "[]" root j] that by (simp add: va_path_def)
  moreover have "m' x = m x" if "x \<notin> tables_mem m root" for x
    unfolding m'_def using store_outside_frame [OF index_less(4)] pt_wf_table(4) [OF wf uva t] that by blast
  ultimately show ?thesis unfolding pt_step_def using at by (simp add: tables_mem_def tables)
qed

definition avs_root :: "ArchVmSpace \<Rightarrow> PAddr" where
  "avs_root vs = vaddr2paddr (avs_pml4 vs)"

definition arch_vs_wf :: "ArchVmSpace \<Rightarrow> phys \<Rightarrow> bool" where
  "arch_vs_wf vs ph \<longleftrightarrow> pt_wf (ph_mem ph) (avs_root vs) (page_avail ph) \<and> avs_cr3 vs = word_of_nat (avs_root vs)"

definition map_step :: "ArchVmSpace \<Rightarrow> phys \<Rightarrow> phys \<Rightarrow> bool" where
  "map_step vs ph ph' \<longleftrightarrow> phys_wf ph' \<and> pt_step (ph_mem ph) (avs_root vs) (page_avail ph) (ph_mem ph') (page_avail ph')"

lemma map_step_trans: "map_step vs ph ph1 \<Longrightarrow> map_step vs ph1 ph2 \<Longrightarrow> map_step vs ph ph2"
  unfolding map_step_def using pt_step_trans by blast

lemma map_step_wf: "map_step vs ph ph' \<Longrightarrow> pt_wf (ph_mem ph') (avs_root vs) (page_avail ph')"
  by (simp add: map_step_def pt_step_def)

lemma map_step_keeps:
  "map_step vs ph ph' \<Longrightarrow> user_path q \<Longrightarrow> table_at (ph_mem ph') (avs_root vs) q = None \<Longrightarrow>
     table_at (ph_mem ph) (avs_root vs) q = None"
  unfolding map_step_def pt_step_def by (metis not_None_eq)

text \<open>One level of the walk, in the form the three levels share.\<close>

lemma ensure_level:
  assumes "phys_wf ph" and "pt_wf (ph_mem ph) (avs_root vs) (page_avail ph)" and "user_path (p @ [i])"
    and "table_at (ph_mem ph) (avs_root vs) p = Some t"
  obtains r ph' where "ensure_next_table ph t i = Val (r, ph')" and "map_step vs ph ph'"
    and "\<And>va. va < 2 ^ 47 \<Longrightarrow> user_pte (ph_mem ph') (avs_root vs) va = user_pte (ph_mem ph) (avs_root vs) va"
    and "case r of Inl e \<Rightarrow> e = OUT_OF_MEMORY \<and> table_at (ph_mem ph) (avs_root vs) (p @ [i]) = None
      | Inr u \<Rightarrow> table_at (ph_mem ph') (avs_root vs) (p @ [i]) = Some u"
  using ensure_next_table_spec [OF assms] unfolding map_step_def by blast

text \<open>The three levels together: the page table of an address.\<close>

lemma walk_spec:
  assumes phw: "phys_wf ph" and wf: "pt_wf (ph_mem ph) (avs_root vs) (page_avail ph)" and va: "va < 2 ^ 47"
  shows "\<exists>r ph'. exec_try (ensure_next_table ph (avs_root vs) (pml4_index va)) (\<lambda>pdpt ph.
      exec_try (ensure_next_table ph pdpt (pdpt_index va)) (\<lambda>pdt ph. ensure_next_table ph pdt (pdt_index va))) = Val (r, ph')
    \<and> map_step vs ph ph'
    \<and> (\<forall>w<2 ^ 47. user_pte (ph_mem ph') (avs_root vs) w = user_pte (ph_mem ph) (avs_root vs) w)
    \<and> (case r of Inl e \<Rightarrow> e = OUT_OF_MEMORY \<and> table_at (ph_mem ph) (avs_root vs) (va_path va) = None
        | Inr t \<Rightarrow> table_at (ph_mem ph') (avs_root vs) (va_path va) = Some t)"
proof -
  let ?root = "avs_root vs"
  have up: "user_path ([] @ [pml4_index va])" "user_path ([pml4_index va] @ [pdpt_index va])"
    "user_path ([pml4_index va, pdpt_index va] @ [pdt_index va])"
    using user_va_path [OF va] by (auto simp: va_path_def user_path_def)
  obtain r1 ph1 where 1: "ensure_next_table ph ?root (pml4_index va) = Val (r1, ph1)" "map_step vs ph ph1"
    "\<And>w. w < 2 ^ 47 \<Longrightarrow> user_pte (ph_mem ph1) ?root w = user_pte (ph_mem ph) ?root w"
    "case r1 of Inl e \<Rightarrow> e = OUT_OF_MEMORY \<and> table_at (ph_mem ph) ?root ([] @ [pml4_index va]) = None
      | Inr u \<Rightarrow> table_at (ph_mem ph1) ?root ([] @ [pml4_index va]) = Some u"
    using ensure_level [OF phw wf up(1)] by (metis table_at.simps(1))
  show ?thesis
  proof (cases r1)
    case (Inl e)
    then have "table_at (ph_mem ph) ?root (va_path va) = None"
      using 1(4) by (auto simp: va_path_def split: option.splits)
    with Inl 1 show ?thesis by auto
  next
    case (Inr t1)
    then have t1: "table_at (ph_mem ph1) ?root [pml4_index va] = Some t1" using 1(4) by simp
    have p1: "phys_wf ph1" using 1(2) by (simp add: map_step_def)
    obtain r2 ph2 where 2: "ensure_next_table ph1 t1 (pdpt_index va) = Val (r2, ph2)" "map_step vs ph1 ph2"
      "\<And>w. w < 2 ^ 47 \<Longrightarrow> user_pte (ph_mem ph2) ?root w = user_pte (ph_mem ph1) ?root w"
      "case r2 of Inl e \<Rightarrow> e = OUT_OF_MEMORY \<and> table_at (ph_mem ph1) ?root ([pml4_index va] @ [pdpt_index va]) = None
        | Inr u \<Rightarrow> table_at (ph_mem ph2) ?root ([pml4_index va] @ [pdpt_index va]) = Some u"
      using ensure_level [OF p1 map_step_wf [OF 1(2)] up(2) t1] by metis
    note st2 = map_step_trans [OF 1(2) 2(2)]
    show ?thesis
    proof (cases r2)
      case (Inl e)
      then have "table_at (ph_mem ph) ?root [pml4_index va, pdpt_index va] = None"
        using 2(4) map_step_keeps [OF 1(2) up(2)] by auto
      then have "table_at (ph_mem ph) ?root (va_path va) = None"
        by (auto simp: va_path_def split: option.splits)
      with Inl Inr 1 2 st2 show ?thesis by auto
    next
      case inr2: (Inr t2)
      then have t2: "table_at (ph_mem ph2) ?root [pml4_index va, pdpt_index va] = Some t2" using 2(4) by simp
      have p2: "phys_wf ph2" using 2(2) by (simp add: map_step_def)
      obtain r3 ph3 where 3: "ensure_next_table ph2 t2 (pdt_index va) = Val (r3, ph3)" "map_step vs ph2 ph3"
        "\<And>w. w < 2 ^ 47 \<Longrightarrow> user_pte (ph_mem ph3) ?root w = user_pte (ph_mem ph2) ?root w"
        "case r3 of Inl e \<Rightarrow> e = OUT_OF_MEMORY
             \<and> table_at (ph_mem ph2) ?root ([pml4_index va, pdpt_index va] @ [pdt_index va]) = None
           | Inr u \<Rightarrow> table_at (ph_mem ph3) ?root ([pml4_index va, pdpt_index va] @ [pdt_index va]) = Some u"
        using ensure_level [OF p2 map_step_wf [OF 2(2)] up(3) t2] by metis
      have "case r3 of Inl e \<Rightarrow> e = OUT_OF_MEMORY \<and> table_at (ph_mem ph) ?root (va_path va) = None
          | Inr t \<Rightarrow> table_at (ph_mem ph3) ?root (va_path va) = Some t"
        using 3(4) map_step_keeps [OF st2 user_va_path [OF va]] by (cases r3) (auto simp: va_path_def)
      moreover have "\<forall>w<2 ^ 47. user_pte (ph_mem ph3) ?root w = user_pte (ph_mem ph) ?root w"
        using 1(3) 2(3) 3(3) by simp
      ultimately show ?thesis
        using Inr inr2 1(1) 2(1) 3(1) map_step_trans [OF st2 3(2)] by simp
    qed
  qed
qed

definition page_pte :: "PAddr \<Rightarrow> PageAttrs \<Rightarrow> Pte" where
  "page_pte paddr attrs = word_of_nat paddr OR (PTE_V OR PTE_U OR attrs)"

lemma page_pte_present: "is_present (page_pte paddr attrs)"
  by (simp add: page_pte_def is_present_def PTE_V_def and_one_eq mod2_eq_if even_or_iff)

lemma arch_map_eq:
  assumes "MIN_PAGE_SIZE dvd uaddr" and "MIN_PAGE_SIZE dvd paddr" and "MIN_PAGE_SIZE dvd len" and "uaddr < KERNEL_BASE"
  shows "arch_map vs ph uaddr paddr len attrs =
    exec_try (exec_try (ensure_next_table ph (avs_root vs) (pml4_index uaddr)) (\<lambda>pdpt ph.
      exec_try (ensure_next_table ph pdpt (pdpt_index uaddr)) (\<lambda>pdt ph. ensure_next_table ph pdt (pdt_index uaddr))))
      (\<lambda>pt ph. if is_present (entry (ph_mem ph) pt (pt_index uaddr)) then Val (Inl ALREADY_EXISTS, ph)
         else Val (Inr (), table_set ph pt (pt_index uaddr) (page_pte paddr attrs)))"
proof -
  have "4096 dvd paddr" using assms(2) by (simp add: MIN_PAGE_SIZE_def)
  then show ?thesis
    using assms index_less(4) [of uaddr]
    by (simp add: arch_map_def is_aligned_page paddr_is_aligned_def avs_root_def exec_try_assoc table_get_def
        assert_exec_def ENTRIES_PER_TABLE_def pte_new_eq page_pte_def attrs_as_raw_def Let_def cong: if_cong)
qed

lemma arch_map_refused:
  "\<not> (MIN_PAGE_SIZE dvd uaddr \<and> MIN_PAGE_SIZE dvd paddr \<and> MIN_PAGE_SIZE dvd len) \<Longrightarrow>
     arch_map vs ph uaddr paddr len attrs = Val (Inl INVALID_ARG, ph)"
  "MIN_PAGE_SIZE dvd uaddr \<Longrightarrow> MIN_PAGE_SIZE dvd paddr \<Longrightarrow> MIN_PAGE_SIZE dvd len \<Longrightarrow> KERNEL_BASE \<le> uaddr \<Longrightarrow>
     arch_map vs ph uaddr paddr len attrs = Val (Inl NOT_ALLOWED, ph)"
  by (auto simp: arch_map_def is_aligned_page paddr_is_aligned_def)

text \<open>What \<open>map\<close> does for a user address: one page is entered, or nothing changes.\<close>

definition map_result :: "ArchVmSpace \<Rightarrow> phys \<Rightarrow> UAddr \<Rightarrow> PAddr \<Rightarrow> usize \<Rightarrow> PageAttrs \<Rightarrow> ErrorCode + unit \<Rightarrow> phys \<Rightarrow> bool" where
  "map_result vs ph uaddr paddr len attrs r ph' \<longleftrightarrow>
     (\<forall>w<2 ^ 47. user_pte (ph_mem ph') (avs_root vs) w =
        (if r = Inr () \<and> w div 4096 = uaddr div 4096 then Some (page_pte paddr attrs)
         else user_pte (ph_mem ph) (avs_root vs) w))
     \<and> (if \<not> (MIN_PAGE_SIZE dvd uaddr \<and> MIN_PAGE_SIZE dvd paddr \<and> MIN_PAGE_SIZE dvd len) then r = Inl INVALID_ARG
        else if user_pte (ph_mem ph) (avs_root vs) uaddr \<noteq> None then r = Inl ALREADY_EXISTS
        else r = Inr () \<or> r = Inl OUT_OF_MEMORY)"

lemma arch_map_spec:
  assumes phw: "phys_wf ph" and wf: "pt_wf (ph_mem ph) (avs_root vs) (page_avail ph)" and va: "uaddr < 2 ^ 47"
  shows "\<exists>r ph'. arch_map vs ph uaddr paddr len attrs = Val (r, ph') \<and> map_step vs ph ph'
    \<and> map_result vs ph uaddr paddr len attrs r ph'"
proof (cases "MIN_PAGE_SIZE dvd uaddr \<and> MIN_PAGE_SIZE dvd paddr \<and> MIN_PAGE_SIZE dvd len")
  case False
  then show ?thesis
    using arch_map_refused(1) [OF False] phw pt_step_refl [OF wf] by (simp add: map_step_def map_result_def)
next
  case True
  let ?root = "avs_root vs"
  have "uaddr < KERNEL_BASE" using va by (simp add: KERNEL_BASE_def)
  note eq = arch_map_eq [OF True [THEN conjunct1] _ _ this, of paddr len vs ph attrs]
  obtain r ph1 where w: "exec_try (ensure_next_table ph ?root (pml4_index uaddr)) (\<lambda>pdpt ph.
      exec_try (ensure_next_table ph pdpt (pdpt_index uaddr)) (\<lambda>pdt ph. ensure_next_table ph pdt (pdt_index uaddr))) = Val (r, ph1)"
    "map_step vs ph ph1" "\<forall>w<2 ^ 47. user_pte (ph_mem ph1) ?root w = user_pte (ph_mem ph) ?root w"
    "case r of Inl e \<Rightarrow> e = OUT_OF_MEMORY \<and> table_at (ph_mem ph) ?root (va_path uaddr) = None
      | Inr t \<Rightarrow> table_at (ph_mem ph1) ?root (va_path uaddr) = Some t"
    using walk_spec [OF phw wf va] by blast
  show ?thesis
  proof (cases r)
    case (Inl e)
    then have "arch_map vs ph uaddr paddr len attrs = Val (Inl OUT_OF_MEMORY, ph1)" using eq w(1,4) True by simp
    moreover have "user_pte (ph_mem ph) ?root uaddr = None" using w(4) Inl by (simp add: user_pte_def)
    then have "map_result vs ph uaddr paddr len attrs (Inl OUT_OF_MEMORY) ph1"
      using w(3) True by (simp add: map_result_def)
    ultimately show ?thesis using w(2) by blast
  next
    case (Inr t)
    then have t: "table_at (ph_mem ph1) ?root (va_path uaddr) = Some t" using w(4) by simp
    have old: "user_pte (ph_mem ph) ?root uaddr =
        (let e = entry (ph_mem ph1) t (pt_index uaddr) in if is_present e then Some e else None)"
    proof -
      have "user_pte (ph_mem ph1) ?root uaddr =
          (let e = entry (ph_mem ph1) t (pt_index uaddr) in if is_present e then Some e else None)"
        using t by (simp add: user_pte_def)
      then show ?thesis using w(3) va by simp
    qed
    show ?thesis
    proof (cases "is_present (entry (ph_mem ph1) t (pt_index uaddr))")
      case present: True
      then have "arch_map vs ph uaddr paddr len attrs = Val (Inl ALREADY_EXISTS, ph1)" using eq w(1) Inr True by simp
      moreover have "map_result vs ph uaddr paddr len attrs (Inl ALREADY_EXISTS) ph1"
        using w(3) True old present by (simp add: map_result_def)
      ultimately show ?thesis using w(2) by blast
    next
      case False
      let ?ph = "table_set ph1 t (pt_index uaddr) (page_pte paddr attrs)"
      have run: "arch_map vs ph uaddr paddr len attrs = Val (Inr (), ?ph)" using eq w(1) Inr True False by simp
      have wf1: "pt_wf (ph_mem ph1) ?root (page_avail ph1)" by (rule map_step_wf [OF w(2)])
      have "map_step vs ph1 ?ph"
        using leaf_step [OF wf1 va t] w(2) by (simp add: map_step_def table_set_def phys_wf_def page_avail_def)
      moreover have "map_result vs ph uaddr paddr len attrs (Inr ()) ?ph"
        using leaf_user_pte [OF wf1 va t page_pte_present] w(3) True old False
        by (simp add: map_result_def table_set_def)
      ultimately show ?thesis using run map_step_trans [OF w(2)] by blast
    qed
  qed
qed

section \<open>Translation\<close>

lemma present_child: "is_present (entry m t i) \<Longrightarrow> table_entry_ok (entry m t i) \<Longrightarrow> child m t i = Some (pte_paddr (entry m t i))"
  by (simp add: child_def table_entry_ok_def)

lemma absent_child: "\<not> is_present (entry m t i) \<Longrightarrow> child m t i = None"
  by (simp add: child_def)

text \<open>On the user half the processor finds exactly the entries of \<open>user_pte\<close>.\<close>

lemma mmu_user:
  assumes wf: "pt_wf m root av" and va: "va < 2 ^ 47"
  shows "mmu m root va = map_option (\<lambda>e. (pte_paddr e + va mod 4096, e AND PTE_W \<noteq> 0, e AND PTE_U \<noteq> 0)) (user_pte m root va)"
proof -
  have up: "user_path ([] @ [pml4_index va])" "user_path ([pml4_index va] @ [pdpt_index va])"
    "user_path ([pml4_index va, pdpt_index va] @ [pdt_index va])"
    using user_va_path [OF va] by (auto simp: va_path_def user_path_def)
  let ?e4 = "entry m root (pml4_index va)"
  let ?e3 = "entry m (pte_paddr ?e4) (pdpt_index va)"
  let ?e2 = "entry m (pte_paddr ?e3) (pdt_index va)"
  show ?thesis
  proof (cases "is_present ?e4")
    case False
    then show ?thesis by (simp add: mmu_def user_pte_def va_path_def absent_child)
  next
    case p4: True
    then have ok4: "table_entry_ok ?e4" using pt_wf_entry [OF wf up(1), of root] by simp
    note c4 = present_child [OF p4 ok4]
    then have t4: "table_at m root [pml4_index va] = Some (pte_paddr ?e4)" by simp
    show ?thesis
    proof (cases "is_present ?e3")
      case False
      then show ?thesis using p4 c4 by (simp add: mmu_def user_pte_def va_path_def absent_child)
    next
      case p3: True
      then have ok3: "table_entry_ok ?e3" using pt_wf_entry [OF wf up(2) t4] by simp
      note c3 = present_child [OF p3 ok3]
      then have t3: "table_at m root [pml4_index va, pdpt_index va] = Some (pte_paddr ?e3)" using c4 by simp
      show ?thesis
      proof (cases "is_present ?e2")
        case False
        then show ?thesis using p4 c4 p3 c3 ok3 by (simp add: mmu_def user_pte_def va_path_def absent_child table_entry_ok_def)
      next
        case p2: True
        then have ok2: "table_entry_ok ?e2" using pt_wf_entry [OF wf up(3) t3] by simp
        show ?thesis
          using p4 p3 p2 ok4 ok3 ok2 c4 c3 present_child [OF p2 ok2]
          by (simp add: mmu_def user_pte_def va_path_def table_entry_ok_def may_def Let_def)
      qed
    qed
  qed
qed

lemma attrs_cases: "attrs < (8 :: u64) \<Longrightarrow> attrs \<in> {0, 1, 2, 3, 4, 5, 6, 7}"
proof -
  assume "attrs < 8"
  then have "unat attrs < 8" by (simp add: word_less_nat_alt)
  then have "unat attrs \<in> {0, 1, 2, 3, 4, 5, 6, 7}" by auto
  moreover have "attrs = word_of_nat (unat attrs)" by simp
  ultimately show ?thesis by (elim insertE emptyE) (simp_all only: insert_iff, simp_all)
qed

lemma attrs_bound: "attrs < 8 \<Longrightarrow> PTE_V OR PTE_U OR attrs < (4096 :: u64)"
  using attrs_cases [of attrs] by (auto simp: pte_flags)

lemma page_pte_fields:
  assumes "4096 dvd paddr" and "paddr < 2 ^ 52" and "attrs < 8"
  shows "pte_paddr (page_pte paddr attrs) = paddr"
    and "page_pte paddr attrs AND PTE_W = attrs AND PTE_W" and "page_pte paddr attrs AND PTE_U \<noteq> 0"
proof -
  show "pte_paddr (page_pte paddr attrs) = paddr"
    unfolding page_pte_def by (rule pte_paddr_or [OF assms(1,2) attrs_bound [OF assms(3)]])
  have f: "page_pte paddr attrs AND f = (PTE_V OR PTE_U OR attrs) AND f" if "f < 4096" for f
    unfolding page_pte_def by (rule pte_flag [OF assms(1,2) that])
  show "page_pte paddr attrs AND PTE_W = attrs AND PTE_W"
    using f [of PTE_W] attrs_cases [OF assms(3)] by (auto simp: pte_flags)
  show "page_pte paddr attrs AND PTE_U \<noteq> 0"
    using f [of PTE_U] attrs_cases [OF assms(3)] by (auto simp: pte_flags)
qed

section \<open>New address spaces\<close>

text \<open>A fresh PML4: no user mapping, and one entry for the kernel half.\<close>

lemma fresh_pml4:
  fixes e :: Pte
  assumes zero: "\<And>x. x \<in> page_frame n \<Longrightarrow> m1 x = 0" and n: "4096 dvd n" "n + 4096 \<le> DIRECT_MAP_END"
    and av: "page_frame n \<inter> av = {}"
  defines "m \<equiv> store64 m1 (n + 8 * 256) e"
  shows "pt_wf m n av" and "user_tables m n = {n}" and "va < 2 ^ 47 \<Longrightarrow> user_pte m n va = None"
    and "entry m n 256 = e"
proof -
  show "entry m n 256 = e" unfolding m_def by (rule entry_store_same)
  have empty: "entry m n j = 0" if "j < 512" "j \<noteq> 256" for j
  proof -
    have "entry m n j = entry m1 n j" unfolding m_def by (rule entry_store_index [OF that(2)])
    also have "\<dots> = 0"
      unfolding entry_def using entry_frame [OF that(1), of n] zero by (intro load64_zero) auto
    finally show ?thesis .
  qed
  have paths: "table_at m n q = (if q = [] then Some n else None)" if "user_path q" for q
  proof (cases q)
    case (Cons j q')
    then have "j < 256" using that by (simp add: user_path_def)
    then show ?thesis using Cons empty [of j] by (simp add: child_def)
  qed simp
  show tables: "user_tables m n = {n}"
    using paths by (auto simp: user_tables_def split: if_splits intro: exI [of _ "[]"])
  show "pt_wf m n av"
    unfolding pt_wf_def
  proof (intro conjI allI impI)
    fix p i t assume p: "user_path (p @ [i])" "table_at m n p = Some t" "is_present (entry m t i)"
    then have "p = []" "t = n" "i < 256" using paths [of p] user_path_snocD [OF p(1)] by (auto split: if_splits)
    then show "table_entry_ok (entry m t i)" using p(3) empty [of i] by simp
  qed (use n av tables paths in \<open>auto split: if_splits\<close>)
  show "user_pte m n va = None" if "va < 2 ^ 47"
    using paths [OF user_va_path [OF that]] by (simp add: user_pte_def va_path_def)
qed

lemma arch_vmspace_new_spec:
  assumes phw: "phys_wf ph" and pd: "4096 dvd vaddr2paddr pdpt"
  shows "\<exists>r ph'. arch_vmspace_new pdpt ph = Val (r, ph') \<and> phys_wf ph' \<and> page_avail ph' \<subseteq> page_avail ph
    \<and> (\<forall>x. x \<notin> page_avail ph \<longrightarrow> ph_mem ph' x = ph_mem ph x)
    \<and> (case r of Inl e \<Rightarrow> e = OUT_OF_MEMORY
        | Inr vs \<Rightarrow> arch_vs_wf vs ph' \<and> tables_mem (ph_mem ph') (avs_root vs) \<subseteq> page_avail ph - page_avail ph'
            \<and> entry (ph_mem ph') (avs_root vs) 256 = word_of_nat (vaddr2paddr pdpt) OR PTE_V
            \<and> (\<forall>va<2 ^ 47. user_pte (ph_mem ph') (avs_root vs) va = None))"
proof -
  obtain r ph1 where pg: "page_alloc Zeroed ph MIN_PAGE_SIZE = Val (r, ph1)" "phys_wf ph1"
    using page_alloc_total [OF phw page_size_pos dvd_refl] by blast
  show ?thesis
  proof (cases r)
    case None
    then have "page_avail ph1 = page_avail ph" "ph_mem ph1 = ph_mem ph"
      using page_alloc_None [OF phw page_size_pos dvd_refl] pg(1) by simp_all
    moreover have "arch_vmspace_new pdpt ph = Val (Inl OUT_OF_MEMORY, ph1)"
      using pg(1) None by (simp add: arch_vmspace_new_def MIN_PAGE_SIZE_def)
    ultimately show ?thesis using pg(2) by simp
  next
    case (Some n)
    note pa = page_alloc_Some [OF phw page_size_pos dvd_refl pg(1) [unfolded Some]]
    have n: "4096 dvd n" "n + 4096 \<le> DIRECT_MAP_END" "page_frame n \<subseteq> page_avail ph - page_avail ph1"
      "page_avail ph1 \<subseteq> page_avail ph" "n < 2 ^ 47" "page_frame n \<inter> page_avail ph1 = {}"
      using pa by (auto simp: MIN_PAGE_SIZE_def page_frame_def direct_map_bound)
    let ?e = "word_of_nat (vaddr2paddr pdpt) OR PTE_V"
    let ?vs = "\<lparr>avs_pml4 = paddr2vaddr n, avs_cr3 = word_of_nat n\<rparr>" and ?ph = "table_set ph1 n 256 ?e"
    have run: "arch_vmspace_new pdpt ph = Val (Inr ?vs, ?ph)"
      using pg(1) Some pd n(5) by (simp add: arch_vmspace_new_def MIN_PAGE_SIZE_def pte_new_eq)
    have root: "avs_root ?vs = n" using n(5) by (simp add: avs_root_def)
    have ph: "ph_mem ?ph = store64 (ph_mem ph1) (n + 8 * 256) ?e" "page_avail ?ph = page_avail ph1" "phys_wf ?ph"
      using pg(2) by (simp_all add: table_set_def page_avail_def phys_wf_def)
    have zero: "ph_mem ph1 x = 0" if "x \<in> page_frame n" for x using that pa(5) by (simp add: mem_fill_def page_frame_def)
    have fresh: "pt_wf (ph_mem ?ph) n (page_avail ph1)" "user_tables (ph_mem ?ph) n = {n}"
      "\<And>va. va < 2 ^ 47 \<Longrightarrow> user_pte (ph_mem ?ph) n va = None" "entry (ph_mem ?ph) n 256 = ?e"
      unfolding ph(1) using fresh_pml4 [of n "ph_mem ph1" "page_avail ph1"] zero n(1,2,6) by blast+
    have same: "ph_mem ?ph x = ph_mem ph x" if "x \<notin> page_avail ph" for x
    proof -
      have "x \<notin> page_frame n" using that n(3) by blast
      then show ?thesis
        using store_outside_frame [of 256 x n] pa(5) by (auto simp: ph(1) mem_fill_def page_frame_def)
    qed
    have wf: "arch_vs_wf ?vs ?ph" using fresh(1) root ph(2) by (simp add: arch_vs_wf_def)
    have "tables_mem (ph_mem ?ph) n = page_frame n" using fresh(2) by (simp add: tables_mem_def)
    with run root n(3,4) ph(2,3) same wf fresh(3,4) show ?thesis by simp
  qed
qed

section \<open>The direct map\<close>

lemma boot_pdpt_eq:
  "BOOT_PDPT = Val (map (\<lambda>i. word_of_nat (i * GIGA_PAGE_SIZE) OR (PTE_V OR PTE_W OR PTE_HUGE)) [0..<4] @ replicate 508 0)"
proof -
  have four: "(4 :: nat) = Suc (Suc (Suc (Suc 0)))" by simp
  have "DIRECT_MAP_SIZE div GIGA_PAGE_SIZE = Suc (Suc (Suc (Suc 0)))" by (simp add: address_consts)
  moreover have "replicate ENTRIES_PER_TABLE (0 :: Pte) = 0 # 0 # 0 # 0 # replicate 508 0"
    using replicate_add [of "Suc (Suc (Suc (Suc 0)))" 508 "0 :: Pte"] by (simp add: ENTRIES_PER_TABLE_def)
  moreover have "4096 dvd GIGA_PAGE_SIZE" by (simp add: GIGA_PAGE_SIZE_def)
  moreover have "[0..<4] = [0, Suc 0, Suc (Suc 0), Suc (Suc (Suc 0))]" unfolding four by simp
  ultimately show ?thesis
    by (simp add: BOOT_PDPT_def pte_new_eq)
qed

lemma giga_pte:
  assumes "i < 4"
  defines "e \<equiv> word_of_nat (i * GIGA_PAGE_SIZE) OR (PTE_V OR PTE_W OR PTE_HUGE) :: Pte"
  shows "is_present e" and "is_huge e" and "pte_paddr e = i * 2 ^ 30" and "\<not> e AND PTE_U \<noteq> 0"
proof -
  have p: "4096 dvd i * GIGA_PAGE_SIZE" "i * GIGA_PAGE_SIZE < 2 ^ 52" using assms(1) by (simp_all add: GIGA_PAGE_SIZE_def)
  show "is_present e" "is_huge e" "pte_paddr e = i * 2 ^ 30" "\<not> e AND PTE_U \<noteq> 0"
    using pte_paddr_or [OF p, of "PTE_V OR PTE_W OR PTE_HUGE"] pte_flag [OF p]
    by (simp_all add: e_def is_present_def is_huge_def pte_flags GIGA_PAGE_SIZE_def)
qed

lemma kernel_indices:
  assumes "p < DIRECT_MAP_END"
  shows "pml4_index (paddr2vaddr p) = 256" and "pdpt_index (paddr2vaddr p) = p div 2 ^ 30"
    and "paddr2vaddr p mod 2 ^ 30 = p mod 2 ^ 30"
proof -
  have "p < 2 ^ 32" using assms by (simp add: direct_map_bound)
  then have v: "paddr2vaddr p = p + KERNEL_BASE" using paddr2vaddr_add [of p] by simp
  have "p div 2 ^ 39 = 0" "p div 2 ^ 30 < 512" using \<open>p < 2 ^ 32\<close> by auto
  moreover have "(p + KERNEL_BASE) div 2 ^ 39 = p div 2 ^ 39 + KERNEL_BASE div 2 ^ 39"
    "(p + KERNEL_BASE) div 2 ^ 30 = p div 2 ^ 30 + KERNEL_BASE div 2 ^ 30"
    by (simp_all add: div_plus_div_distrib_dvd_right KERNEL_BASE_def)
  ultimately show "pml4_index (paddr2vaddr p) = 256" "pdpt_index (paddr2vaddr p) = p div 2 ^ 30"
    unfolding v index_div by (simp_all add: KERNEL_BASE_def mod_add_eq [symmetric])
  show "paddr2vaddr p mod 2 ^ 30 = p mod 2 ^ 30"
    unfolding v by (simp add: KERNEL_BASE_def mod_add_eq [symmetric])
qed

lemma giga_walk:
  assumes "4096 dvd pdpt" and "pdpt < 2 ^ 52" and "entry m root (pml4_index va) = word_of_nat pdpt OR PTE_V"
    and "BOOT_PDPT = Val es" and "\<And>i. i < 512 \<Longrightarrow> entry m pdpt i = es ! i" and "pdpt_index va < 4"
  shows "mmu m root va = Some (pdpt_index va * 2 ^ 30 + va mod 2 ^ 30, False, False)"
proof -
  have e4: "is_present (word_of_nat pdpt OR PTE_V)" "pte_paddr (word_of_nat pdpt OR PTE_V) = pdpt"
    "(word_of_nat pdpt OR PTE_V) AND PTE_W = 0" "(word_of_nat pdpt OR PTE_V) AND PTE_U = 0"
    using pte_paddr_or [OF assms(1,2), of PTE_V] pte_flag [OF assms(1,2)] by (simp_all add: is_present_def pte_flags)
  have es: "es = map (\<lambda>i. word_of_nat (i * GIGA_PAGE_SIZE) OR (PTE_V OR PTE_W OR PTE_HUGE)) [0..<4] @ replicate 508 0"
    using assms(4) unfolding boot_pdpt_eq by simp
  have "entry m pdpt (pdpt_index va) = word_of_nat (pdpt_index va * GIGA_PAGE_SIZE) OR (PTE_V OR PTE_W OR PTE_HUGE)"
    using assms(6) assms(5) [of "pdpt_index va"] by (simp add: es nth_append)
  then show ?thesis
    using giga_pte [OF assms(6)] assms(3) e4 by (simp add: mmu_def may_def)
qed

text \<open>
  The direct map: in every address space whose PML4 leads from entry 256 to the page directory
  built by \<open>BOOT_PDPT\<close>, the processor translates \<open>paddr2vaddr p\<close> to \<open>p\<close> for all of the first 4 GiB, and
  never for user mode. The entry in the PML4 does not carry the write bit, so writes go through because
  the kernel runs with write protection off.
\<close>

theorem direct_map_translates:
  assumes "4096 dvd pdpt" and "pdpt < 2 ^ 52" and "entry m root 256 = word_of_nat pdpt OR PTE_V"
    and "BOOT_PDPT = Val es" and "\<And>i. i < 512 \<Longrightarrow> entry m pdpt i = es ! i" and "p < DIRECT_MAP_END"
  shows "mmu m root (paddr2vaddr p) = Some (p, False, False)"
proof -
  have i: "pdpt_index (paddr2vaddr p) < 4" using assms(6) kernel_indices [OF assms(6)] by (simp add: direct_map_bound)
  show ?thesis
    using giga_walk [of pdpt m root "paddr2vaddr p" es] assms(1-5) i kernel_indices [OF assms(6)] div_mult_mod_eq [of p "2 ^ 30"] by simp
qed

lemma entry_store_if: "entry (store64 m (t + 8 * i) e) t j = (if j = i then e else entry m t j)"
  by (simp add: entry_store_index)

definition giga_entry :: "nat \<Rightarrow> Pte" where
  "giga_entry i = word_of_nat (i * GIGA_PAGE_SIZE) OR (PTE_V OR PTE_W OR PTE_HUGE)"

definition example_boot_tables :: memory where
  "example_boot_tables =
     store64 (store64 (store64 (store64 (store64 (\<lambda>_. 0) (0x1000 + 8 * 0) (giga_entry 0)) (0x1000 + 8 * 1) (giga_entry 1))
       (0x1000 + 8 * 2) (giga_entry 2)) (0x1000 + 8 * 3) (giga_entry 3)) (0x2000 + 8 * 256) (word_of_nat 0x1000 OR PTE_V)"

lemma example_boot_entry:
  assumes "i < 512"
  shows "entry example_boot_tables 0x1000 i = (map giga_entry [0..<4] @ replicate 508 0) ! i"
proof -
  have z: "entry (\<lambda>_. 0) t j = 0" for t j unfolding entry_def by (rule load64_zero) simp
  have "entry example_boot_tables 0x1000 i = (if i = 0 then giga_entry 0 else if i = 1 then giga_entry 1
      else if i = 2 then giga_entry 2 else if i = 3 then giga_entry 3 else 0)"
    unfolding example_boot_tables_def using assms
    by (subst entry_store_other) (simp_all only: entry_store_if z, simp_all split: if_splits)
  also have "\<dots> = (map giga_entry [0..<4] @ replicate 508 0) ! i"
  proof -
    consider "i = 0" | "i = 1" | "i = 2" | "i = 3" | "4 \<le> i" by linarith
    then show ?thesis using assms by cases (simp_all add: nth_append numeral_2_eq_2)
  qed
  finally show ?thesis .
qed

theorem direct_map_translates_witness:
  "mmu example_boot_tables 0x2000 (paddr2vaddr 0xb8000) = Some (0xb8000, False, False)"
proof (rule direct_map_translates [OF _ _ _ boot_pdpt_eq])
  show "entry example_boot_tables 0x2000 256 = word_of_nat 0x1000 OR PTE_V"
    unfolding example_boot_tables_def by (rule entry_store_same)
  show "entry example_boot_tables 0x1000 i =
      (map (\<lambda>i. word_of_nat (i * GIGA_PAGE_SIZE) OR (PTE_V OR PTE_W OR PTE_HUGE)) [0..<4] @ replicate 508 0) ! i"
    if "i < 512" for i
    using example_boot_entry [OF that] unfolding giga_entry_def [abs_def] .
qed (simp_all add: direct_map_bound)

section \<open>Mapping a page\<close>

text \<open>
  C19. \<open>map\<close> on a well-formed address space, for a user address below \<open>2 ^ 47\<close> (the code accepts addresses up
  to the kernel base, and between the two it would change the kernel half), never panics. Arguments that
  are not page-aligned give \<open>INVALID_ARG\<close>, a page that is already mapped gives \<open>ALREADY_EXISTS\<close>; otherwise
  the page is mapped or the tables ran out of memory. On success the processor translates every address
  of that page to the given frame, accessible from user mode, and writable exactly if the attributes ask
  for it (the bits of the read and execute attributes are the present and user bits, which are always set).
  Every other translation below \<open>2 ^ 47\<close>, the kernel half and all memory outside the tables and the page allocator stay.
\<close>

theorem arch_map_translates:
  assumes "phys_wf ph" and "arch_vs_wf vs ph" and "uaddr < 2 ^ 47" and "paddr < 2 ^ 52" and "attrs < 8"
  shows "\<exists>r ph'. arch_map vs ph uaddr paddr len attrs = Val (r, ph') \<and> phys_wf ph' \<and> arch_vs_wf vs ph'
    \<and> (if \<not> (MIN_PAGE_SIZE dvd uaddr \<and> MIN_PAGE_SIZE dvd paddr \<and> MIN_PAGE_SIZE dvd len) then r = Inl INVALID_ARG
       else if mmu (ph_mem ph) (avs_root vs) uaddr \<noteq> None then r = Inl ALREADY_EXISTS
       else r = Inr () \<or> r = Inl OUT_OF_MEMORY)
    \<and> (\<forall>va<2 ^ 47. mmu (ph_mem ph') (avs_root vs) va =
        (if r = Inr () \<and> va div 4096 = uaddr div 4096
         then Some (paddr + va mod 4096, attrs_contains attrs ATTR_WRITE, True)
         else mmu (ph_mem ph) (avs_root vs) va))
    \<and> (\<forall>i. 256 \<le> i \<longrightarrow> i < 512 \<longrightarrow> entry (ph_mem ph') (avs_root vs) i = entry (ph_mem ph) (avs_root vs) i)
    \<and> (\<forall>x. x \<notin> tables_mem (ph_mem ph) (avs_root vs) \<longrightarrow> x \<notin> page_avail ph \<longrightarrow> ph_mem ph' x = ph_mem ph x)"
proof -
  have wf: "pt_wf (ph_mem ph) (avs_root vs) (page_avail ph)" using assms(2) by (simp add: arch_vs_wf_def)
  obtain r ph' where run: "arch_map vs ph uaddr paddr len attrs = Val (r, ph')" and st: "map_step vs ph ph'"
    and res: "map_result vs ph uaddr paddr len attrs r ph'"
    using arch_map_spec [OF assms(1) wf assms(3)] by blast
  note wf' = map_step_wf [OF st]
  have dvd: "4096 dvd paddr" if "r = Inr ()"
    using res that by (auto simp: map_result_def MIN_PAGE_SIZE_def split: if_splits)
  have w: "attrs AND PTE_W \<noteq> 0 \<longleftrightarrow> attrs_contains attrs ATTR_WRITE"
    using attrs_cases [OF assms(5)] by (auto simp: attrs_contains_def ATTR_WRITE_def pte_flags)
  have tr: "mmu (ph_mem ph') (avs_root vs) va = (if r = Inr () \<and> va div 4096 = uaddr div 4096
      then Some (paddr + va mod 4096, attrs_contains attrs ATTR_WRITE, True) else mmu (ph_mem ph) (avs_root vs) va)"
    if va: "va < 2 ^ 47" for va
    using res va dvd page_pte_fields [OF _ assms(4,5)] w
    by (auto simp: mmu_user [OF wf' va] mmu_user [OF wf va] map_result_def)
  have "mmu (ph_mem ph) (avs_root vs) uaddr = None \<longleftrightarrow> user_pte (ph_mem ph) (avs_root vs) uaddr = None"
    by (simp add: mmu_user [OF wf assms(3)])
  then have "if \<not> (MIN_PAGE_SIZE dvd uaddr \<and> MIN_PAGE_SIZE dvd paddr \<and> MIN_PAGE_SIZE dvd len) then r = Inl INVALID_ARG
       else if mmu (ph_mem ph) (avs_root vs) uaddr \<noteq> None then r = Inl ALREADY_EXISTS
       else r = Inr () \<or> r = Inl OUT_OF_MEMORY"
    using res by (simp add: map_result_def)
  with run tr st assms(2) show ?thesis
    by (intro exI [of _ r] exI [of _ ph']) (simp add: arch_vs_wf_def map_step_def pt_step_def)
qed

definition example_vs :: ArchVmSpace where
  "example_vs = \<lparr>avs_pml4 = paddr2vaddr 0x300000, avs_cr3 = 0x300000\<rparr>"

definition example_pt :: phys where
  "example_pt = example_ram\<lparr>ph_mem := store64 (\<lambda>_. 0) (0x300000 + 8 * 256) (word_of_nat 0x1000 OR PTE_V)\<rparr>"

lemma example_vs_root [simp]: "avs_root example_vs = 0x300000"
  by (simp add: avs_root_def example_vs_def)

lemma example_pt_wf: "phys_wf example_pt" "page_avail example_pt = {0x100000..<0x200000}" "arch_vs_wf example_vs example_pt"
  "user_tables (ph_mem example_pt) 0x300000 = {0x300000}"
  "\<And>va. va < 2 ^ 47 \<Longrightarrow> user_pte (ph_mem example_pt) 0x300000 va = None"
proof -
  show "phys_wf example_pt" using example_ram_wf by (simp add: example_pt_def phys_wf_def)
  show av: "page_avail example_pt = {0x100000..<0x200000}"
    using example_ram_avail by (simp add: example_pt_def page_avail_def)
  have fr: "page_frame 0x300000 \<inter> {0x100000..<0x200000} = {}" by (auto simp: page_frame_def)
  have e: "ph_mem example_pt = store64 (\<lambda>_. 0) (0x300000 + 8 * 256) (word_of_nat 0x1000 OR PTE_V)"
    by (simp add: example_pt_def)
  have n: "4096 dvd (0x300000 :: nat)" "0x300000 + 4096 \<le> DIRECT_MAP_END" by (simp_all add: direct_map_bound)
  have fresh: "pt_wf (ph_mem example_pt) 0x300000 {0x100000..<0x200000}"
    "user_tables (ph_mem example_pt) 0x300000 = {0x300000}"
    "\<And>va. va < 2 ^ 47 \<Longrightarrow> user_pte (ph_mem example_pt) 0x300000 va = None"
    unfolding e by (rule fresh_pml4 [OF _ n fr]; simp)+
  show "user_tables (ph_mem example_pt) 0x300000 = {0x300000}" by (rule fresh(2))
  show "user_pte (ph_mem example_pt) 0x300000 va = None" if "va < 2 ^ 47" for va by (rule fresh(3) [OF that])
  show "arch_vs_wf example_vs example_pt"
    unfolding arch_vs_wf_def av example_vs_root using fresh(1) by (simp add: example_vs_def)
qed

theorem arch_map_translates_witness:
  "\<exists>r ph'. arch_map example_vs example_pt 0x400000 0x500000 4096 ATTR_WRITE = Val (r, ph')
     \<and> phys_wf ph' \<and> arch_vs_wf example_vs ph'"
  using arch_map_translates [OF example_pt_wf(1,3), of "0x400000" "0x500000" ATTR_WRITE 4096]
  by (auto simp: ATTR_WRITE_def)

text \<open>
  A new address space: \<open>new\<close> never panics when \<open>BOOT_PDPT\<close> is page-aligned. It reports \<open>OUT_OF_MEMORY\<close>
  or takes pages from the page allocator and returns an address space in which no user address is
  mapped and entry 256 of the PML4 leads to \<open>BOOT_PDPT\<close>; no memory that was in use changes.
\<close>

theorem arch_vmspace_new_contract:
  assumes "phys_wf ph" and "4096 dvd vaddr2paddr pdpt"
  shows "\<exists>r ph'. arch_vmspace_new pdpt ph = Val (r, ph') \<and> phys_wf ph' \<and> page_avail ph' \<subseteq> page_avail ph
    \<and> (\<forall>x. x \<notin> page_avail ph \<longrightarrow> ph_mem ph' x = ph_mem ph x)
    \<and> (case r of Inl e \<Rightarrow> e = OUT_OF_MEMORY
        | Inr vs \<Rightarrow> arch_vs_wf vs ph' \<and> tables_mem (ph_mem ph') (avs_root vs) \<subseteq> page_avail ph - page_avail ph'
            \<and> entry (ph_mem ph') (avs_root vs) 256 = word_of_nat (vaddr2paddr pdpt) OR PTE_V
            \<and> (\<forall>va<2 ^ 47. mmu (ph_mem ph') (avs_root vs) va = None))"
proof -
  obtain r ph' where N: "arch_vmspace_new pdpt ph = Val (r, ph')" "phys_wf ph'" "page_avail ph' \<subseteq> page_avail ph"
    "\<forall>x. x \<notin> page_avail ph \<longrightarrow> ph_mem ph' x = ph_mem ph x"
    "case r of Inl e \<Rightarrow> e = OUT_OF_MEMORY
        | Inr vs \<Rightarrow> arch_vs_wf vs ph' \<and> tables_mem (ph_mem ph') (avs_root vs) \<subseteq> page_avail ph - page_avail ph'
            \<and> entry (ph_mem ph') (avs_root vs) 256 = word_of_nat (vaddr2paddr pdpt) OR PTE_V
            \<and> (\<forall>va<2 ^ 47. user_pte (ph_mem ph') (avs_root vs) va = None)"
    using arch_vmspace_new_spec [OF assms] by (elim exE conjE)
  have "mmu (ph_mem ph') (avs_root vs) va = None" if "r = Inr vs" "va < 2 ^ 47" for vs va
    using N(5) that mmu_user [of "ph_mem ph'" "avs_root vs" "page_avail ph'" va] by (simp add: arch_vs_wf_def)
  with N show ?thesis by (intro exI [of _ r] exI [of _ ph'] conjI) (auto split: sum.splits)
qed

theorem arch_vmspace_new_contract_witness:
  "\<exists>r ph'. arch_vmspace_new (paddr2vaddr 0x3000) example_ram = Val (r, ph') \<and> phys_wf ph'"
  using arch_vmspace_new_contract [OF example_ram_wf, of "paddr2vaddr 0x3000"] by auto

end
