(* ===== verification/VmSpace.thy ===== *)
theory VmSpace
  imports PageTable
begin

text \<open>
  \<open>kernel/src/vmspace.rs\<close>: address spaces as sorted lists of mappings over the page tables. Memory
  areas are shared objects: \<open>areas\<close> is the store in which a mapping's \<open>SharedRef<VmArea>\<close> is looked up.
  \<open>space_wf\<close> ties the list to the page tables: every page of a mapped area is entered for its
  addresses, so that the processor shows user code exactly the contents of the area. The outcome of
  \<open>Vec::try_reserve\<close> is the argument \<open>reserve\<close>: the vector has the room, the capacity overflows, or the
  kernel's global allocator panics.
\<close>

type_synonym areas = "nat \<rightharpoonup> VmArea"

record Mapping =
  mp_start :: UAddr
  mp_end :: UAddr
  mp_area :: nat
  mp_attrs :: PageAttrs

record VmSpace =
  vs_arch :: ArchVmSpace
  vs_mappings :: "Mapping list"

definition overlaps_with :: "Mapping \<Rightarrow> UAddr \<Rightarrow> UAddr \<Rightarrow> bool" where
  "overlaps_with mp start fin \<longleftrightarrow> start < mp_end mp \<and> mp_start mp < fin"

text \<open>\<open>slice::partition_point\<close>: the number of leading elements that satisfy the predicate.\<close>

definition partition_point :: "('a \<Rightarrow> bool) \<Rightarrow> 'a list \<Rightarrow> usize" where
  "partition_point P xs = length (takeWhile P xs)"

definition vec_insert :: "usize \<Rightarrow> 'a \<Rightarrow> 'a list \<Rightarrow> 'a list" where
  "vec_insert i x xs = take i xs @ x # drop i xs"

definition vmspace_new :: "VAddr \<Rightarrow> phys \<Rightarrow> ((ErrorCode + VmSpace) \<times> phys) exec" where
  "vmspace_new pdpt_vaddr ph =
     exec_try (arch_vmspace_new pdpt_vaddr ph) (\<lambda>arch ph. Val (Inr \<lparr>vs_arch = arch, vs_mappings = []\<rparr>, ph))"

definition vmspace_switch :: "VmSpace \<Rightarrow> u64 \<Rightarrow> u64 \<times> bool" where
  "vmspace_switch S current_cr3 = arch_switch (vs_arch S) current_cr3"

fun map_pages :: "ArchVmSpace \<Rightarrow> PageAttrs \<Rightarrow> nat \<Rightarrow> usize \<Rightarrow> UAddr \<Rightarrow> VmArea \<Rightarrow> phys
    \<Rightarrow> ((ErrorCode + unit) \<times> VmArea \<times> phys) exec" where
  "map_pages vs attrs 0 index uaddr A ph = Val (Inr (), A, ph)"
| "map_pages vs attrs (Suc n) index uaddr A ph =
     exec_try (ensure_page A ph index) (\<lambda>paddr (A, ph).
       exec_bind (arch_map vs ph uaddr paddr MIN_PAGE_SIZE attrs) (\<lambda>(r, ph). case r of
         Inl e \<Rightarrow> Val (Inl e, A, ph)
       | Inr _ \<Rightarrow> (case uaddr_add uaddr MIN_PAGE_SIZE of None \<Rightarrow> Panic
           | Some uaddr \<Rightarrow> map_pages vs attrs n (index + 1) uaddr A ph)))"

definition vmspace_map :: "bool exec \<Rightarrow> VmSpace \<Rightarrow> areas \<Rightarrow> phys \<Rightarrow> nat \<Rightarrow> UAddr \<Rightarrow> PageAttrs
    \<Rightarrow> ((ErrorCode + unit) \<times> VmSpace \<times> areas \<times> phys) exec" where
  "vmspace_map reserve S as ph vmarea uaddr attrs =
     (case as vmarea of None \<Rightarrow> Undef | Some A \<Rightarrow>
      exec_bind (uaddr_is_aligned_to uaddr MIN_PAGE_SIZE) (\<lambda>aligned.
        if \<not> aligned then Val (Inl INVALID_ARG, S, as, ph)
        else case uaddr_add uaddr (va_len A) of None \<Rightarrow> Val (Inl OUT_OF_BOUNDS, S, as, ph)
        | Some fin \<Rightarrow>
            if list_ex (\<lambda>mp. overlaps_with mp uaddr fin) (vs_mappings S) then Val (Inl ALREADY_EXISTS, S, as, ph)
            else exec_bind reserve (\<lambda>reserved.
            if \<not> reserved then Val (Inl OUT_OF_MEMORY, S, as, ph)
            else exec_bind (map_pages (vs_arch S) attrs (va_len A div MIN_PAGE_SIZE) 0 uaddr A ph) (\<lambda>(r, A, ph).
              let as = as(vmarea \<mapsto> A) in case r of
                Inl e \<Rightarrow> Val (Inl e, S, as, ph)
              | Inr _ \<Rightarrow>
                  let insert_at = partition_point (\<lambda>mp. mp_start mp < uaddr) (vs_mappings S);
                      mp = \<lparr>mp_start = uaddr, mp_end = fin, mp_area = vmarea, mp_attrs = attrs\<rparr>
                  in Val (Inr (), S\<lparr>vs_mappings := vec_insert insert_at mp (vs_mappings S)\<rparr>, as, ph)))))"

text \<open>The buffer is split into the part that is filled and the rest, as in \<open>VmArea::read\<close>.\<close>

fun read_mappings :: "areas \<Rightarrow> phys \<Rightarrow> UAddr \<Rightarrow> u8 list \<Rightarrow> u8 list \<Rightarrow> Mapping list
    \<Rightarrow> ((ErrorCode + unit) \<times> u8 list \<times> areas \<times> phys) exec" where
  "read_mappings as ph uaddr filled buf [] = Val (Inr (), filled @ buf, as, ph)"
| "read_mappings as ph uaddr filled buf (mp # mps) =
     (if buf = [] then Val (Inr (), filled, as, ph)
      else if \<not> (mp_start mp \<le> uaddr \<and> uaddr < mp_end mp) then Val (Inl OUT_OF_BOUNDS, filled @ buf, as, ph)
      else exec_bind (usize_sub (mp_end mp) uaddr) (\<lambda>left.
        let copy_len = min (length buf) left in
        exec_bind (usize_sub uaddr (mp_start mp)) (\<lambda>offset.
        case as (mp_area mp) of None \<Rightarrow> Undef | Some A \<Rightarrow>
        exec_bind (area_read A ph offset (take copy_len buf)) (\<lambda>(r, chunk, A, ph).
          let as = as(mp_area mp \<mapsto> A) in case r of
            Inl e \<Rightarrow> Val (Inl e, filled @ chunk @ drop copy_len buf, as, ph)
          | Inr _ \<Rightarrow> (case uaddr_add uaddr copy_len of None \<Rightarrow> Panic
              | Some uaddr \<Rightarrow> read_mappings as ph uaddr (filled @ chunk) (drop copy_len buf) mps)))))"

definition read_bytes :: "VmSpace \<Rightarrow> areas \<Rightarrow> phys \<Rightarrow> UAddr \<Rightarrow> u8 list
    \<Rightarrow> ((ErrorCode + unit) \<times> u8 list \<times> areas \<times> phys) exec" where
  "read_bytes S as ph uaddr buf =
     (if buf = [] then Val (Inr (), buf, as, ph)
      else case uaddr_add uaddr (length buf) of None \<Rightarrow> Val (Inl OUT_OF_BOUNDS, buf, as, ph)
      | Some _ \<Rightarrow>
        (case checked_sub (partition_point (\<lambda>mp. mp_start mp \<le> uaddr) (vs_mappings S)) 1 of
           None \<Rightarrow> Val (Inl OUT_OF_BOUNDS, buf, as, ph)
         | Some index \<Rightarrow> read_mappings as ph uaddr [] buf (drop index (vs_mappings S))))"

section \<open>One page\<close>

lemma user_pte_page:
  assumes "va < 2 ^ 47" and "w < 2 ^ 47" and "w div 4096 = va div 4096"
  shows "user_pte m root w = user_pte m root va"
  using page_number_eq [OF assms(1,2)] assms(3) by (simp add: user_pte_def cong: option.case_cong)

text \<open>
  What mapping keeps, for the area that is mapped and the address space together; \<open>va\<close> ranges over the
  addresses that are not being mapped.
\<close>

definition space_step :: "ArchVmSpace \<Rightarrow> VmArea \<Rightarrow> phys \<Rightarrow> VmArea \<Rightarrow> phys \<Rightarrow> bool" where
  "space_step vs A ph A' ph' \<longleftrightarrow> phys_wf ph' \<and> area_wf A' ph' \<and> arch_vs_wf vs ph' \<and> va_len A' = va_len A
     \<and> page_avail ph' \<subseteq> page_avail ph
     \<and> area_mem A' \<subseteq> area_mem A \<union> (page_avail ph - page_avail ph')
     \<and> tables_mem (ph_mem ph') (avs_root vs) \<subseteq> tables_mem (ph_mem ph) (avs_root vs) \<union> (page_avail ph - page_avail ph')
     \<and> area_mem A' \<inter> tables_mem (ph_mem ph') (avs_root vs) = {}
     \<and> area_bytes A' (ph_mem ph') = area_bytes A (ph_mem ph)
     \<and> (\<forall>j p. j < length (va_pages A) \<longrightarrow> va_pages A ! j = Some p \<longrightarrow> va_pages A' ! j = Some p)
     \<and> (\<forall>j. 256 \<le> j \<longrightarrow> j < 512 \<longrightarrow> entry (ph_mem ph') (avs_root vs) j = entry (ph_mem ph) (avs_root vs) j)
     \<and> (\<forall>x. x \<notin> area_mem A \<longrightarrow> x \<notin> tables_mem (ph_mem ph) (avs_root vs) \<longrightarrow> x \<notin> page_avail ph \<longrightarrow>
          ph_mem ph' x = ph_mem ph x)"

lemma space_step_refl:
  "phys_wf ph \<Longrightarrow> area_wf A ph \<Longrightarrow> arch_vs_wf vs ph \<Longrightarrow> area_mem A \<inter> tables_mem (ph_mem ph) (avs_root vs) = {} \<Longrightarrow>
     space_step vs A ph A ph"
  by (simp add: space_step_def)

lemma space_stepD:
  assumes "space_step vs A ph A' ph'"
  shows "phys_wf ph'" and "area_wf A' ph'" and "arch_vs_wf vs ph'" and "va_len A' = va_len A"
    and "page_avail ph' \<subseteq> page_avail ph" and "area_mem A' \<subseteq> area_mem A \<union> (page_avail ph - page_avail ph')"
    and "tables_mem (ph_mem ph') (avs_root vs) \<subseteq> tables_mem (ph_mem ph) (avs_root vs) \<union> (page_avail ph - page_avail ph')"
    and "area_mem A' \<inter> tables_mem (ph_mem ph') (avs_root vs) = {}"
    and "area_bytes A' (ph_mem ph') = area_bytes A (ph_mem ph)"
    and "\<And>j p. j < length (va_pages A) \<Longrightarrow> va_pages A ! j = Some p \<Longrightarrow> va_pages A' ! j = Some p"
    and "\<And>j. 256 \<le> j \<Longrightarrow> j < 512 \<Longrightarrow> entry (ph_mem ph') (avs_root vs) j = entry (ph_mem ph) (avs_root vs) j"
    and "\<And>x. x \<notin> area_mem A \<Longrightarrow> x \<notin> tables_mem (ph_mem ph) (avs_root vs) \<Longrightarrow> x \<notin> page_avail ph \<Longrightarrow>
          ph_mem ph' x = ph_mem ph x"
  using assms unfolding space_step_def by blast+

lemma area_wf_pages: "area_wf A ph \<Longrightarrow> area_wf B ph' \<Longrightarrow> va_len B = va_len A \<Longrightarrow> length (va_pages B) = length (va_pages A)"
  by (simp add: area_wf_def MIN_PAGE_SIZE_def)

lemma space_step_trans:
  assumes s: "space_step vs A ph B ph1" and t: "space_step vs B ph1 C ph2" and "area_wf A ph"
  shows "space_step vs A ph C ph2"
proof -
  note S = space_stepD [OF s] and T = space_stepD [OF t]
  have len: "length (va_pages B) = length (va_pages A)" by (rule area_wf_pages [OF assms(3) S(2,4)])
  have out: "ph_mem ph2 x = ph_mem ph x"
    if x: "x \<notin> area_mem A" "x \<notin> tables_mem (ph_mem ph) (avs_root vs)" "x \<notin> page_avail ph" for x
  proof -
    have "x \<notin> area_mem B" "x \<notin> tables_mem (ph_mem ph1) (avs_root vs)" "x \<notin> page_avail ph1"
      using S(5-7) x by blast+
    then show ?thesis using T(12) S(12) [OF x] by simp
  qed
  have pages: "va_pages C ! j = Some p" if "j < length (va_pages A)" "va_pages A ! j = Some p" for j p
    using S(10) [OF that] T(10) [of j p] that(1) len by simp
  have "area_mem C \<subseteq> area_mem A \<union> (page_avail ph - page_avail ph2)" using S(5,6) T(5,6) by blast
  moreover have "tables_mem (ph_mem ph2) (avs_root vs) \<subseteq> tables_mem (ph_mem ph) (avs_root vs) \<union> (page_avail ph - page_avail ph2)"
    using S(5,7) T(5,7) by blast
  moreover have "page_avail ph2 \<subseteq> page_avail ph" using S(5) T(5) by blast
  ultimately show ?thesis
    unfolding space_step_def using S(4,9,11) T(1-4,8,9,11) out pages by simp
qed

lemma get_or_fill_keeps:
  "get_or_fill A ph i = Val (r, A', ph') \<Longrightarrow> j < length (va_pages A) \<Longrightarrow> va_pages A ! j = Some p \<Longrightarrow> va_pages A' ! j = Some p"
  by (cases "va_pages A ! i"; cases "j = i")
     (auto simp: get_or_fill_def exec_bind_Val_iff nth_list_update split: if_splits option.splits)

lemma exec_try_return: "exec_try m (\<lambda>x (A, ph). Val (Inr x, A, ph)) = m"
proof (cases m)
  case (Val x)
  then show ?thesis by (cases x; cases "fst x") auto
qed auto

lemma ensure_page_eq: "i < length (va_pages A) \<Longrightarrow> ensure_page A ph i = get_or_fill A ph i"
  by (simp add: ensure_page_def exec_try_return)

text \<open>The page tables do not notice changes of other memory.\<close>

lemma user_pte_frame:
  assumes "\<And>x. x \<in> tables_mem m root \<Longrightarrow> m' x = m x" and "va < 2 ^ 47"
  shows "user_pte m' root va = user_pte m root va"
proof (cases "table_at m root (va_path va)")
  case None
  then show ?thesis using table_at_frame [OF assms(1) user_va_path [OF assms(2)]] by (simp add: user_pte_def)
next
  case (Some t)
  then have "page_frame t \<subseteq> tables_mem m root"
    using user_va_path [OF assms(2)] by (auto simp: tables_mem_def user_tables_def)
  then have "entry m' t (pt_index va) = entry m t (pt_index va)"
    using assms(1) by (intro entry_cong index_less(4)) auto
  then show ?thesis using Some table_at_frame [OF assms(1) user_va_path [OF assms(2)]] by (simp add: user_pte_def)
qed

lemma pt_wf_frame:
  assumes "pt_wf m root av" and same: "\<And>x. x \<in> tables_mem m root \<Longrightarrow> m' x = m x" and av: "av' \<subseteq> av"
  shows "pt_wf m' root av'" and "tables_mem m' root = tables_mem m root"
    and "j < 512 \<Longrightarrow> entry m' root j = entry m root j"
proof -
  note at = table_at_frame [OF same]
  have ut: "user_tables m' root = user_tables m root" unfolding user_tables_def using at by auto
  then show "tables_mem m' root = tables_mem m root" by (simp add: tables_mem_def)
  have en: "entry m' t i = entry m t i" if "user_path p" "table_at m root p = Some t" "i < 512" for p t i
  proof -
    have "page_frame t \<subseteq> tables_mem m root" using that by (auto simp: tables_mem_def user_tables_def)
    then show ?thesis using same by (intro entry_cong that(3)) auto
  qed
  show "entry m' root j = entry m root j" if "j < 512" using en [of "[]" root j] that by simp
  show "pt_wf m' root av'"
    unfolding pt_wf_def ut
  proof (intro conjI ballI allI impI)
    fix t assume "t \<in> user_tables m root"
    then show "4096 dvd t" "t + 4096 \<le> DIRECT_MAP_END" "page_frame t \<inter> av' = {}"
      using assms(1) av unfolding pt_wf_def by blast+
  next
    fix p q t assume "user_path p" "user_path q" "table_at m' root p = Some t" "table_at m' root q = Some t"
    then show "p = q" using at pt_wf_inj [OF assms(1)] by simp
  next
    fix p i t assume p: "user_path (p @ [i])" "table_at m' root p = Some t" "is_present (entry m' t i)"
    then have "user_path p" "i < 512" using user_path_snocD by blast+
    then show "table_entry_ok (entry m' t i)" using p at en pt_wf_entry [OF assms(1) p(1)] by simp
  qed
qed

lemma tables_not_avail: "arch_vs_wf vs ph \<Longrightarrow> tables_mem (ph_mem ph) (avs_root vs) \<inter> page_avail ph = {}"
  unfolding arch_vs_wf_def pt_wf_def tables_mem_def by blast

lemma area_step_space:
  assumes st: "area_step A ph A' ph'" and vs: "arch_vs_wf vs ph" and apart: "area_mem A \<inter> tables_mem (ph_mem ph) (avs_root vs) = {}"
    and bytes: "area_bytes A' (ph_mem ph') = area_bytes A (ph_mem ph)"
    and pages: "\<And>j p. j < length (va_pages A) \<Longrightarrow> va_pages A ! j = Some p \<Longrightarrow> va_pages A' ! j = Some p"
  shows "space_step vs A ph A' ph'" and "va < 2 ^ 47 \<Longrightarrow> user_pte (ph_mem ph') (avs_root vs) va = user_pte (ph_mem ph) (avs_root vs) va"
proof -
  note tav = tables_not_avail [OF vs]
  have D: "phys_wf ph'" "area_wf A' ph'" "va_len A' = va_len A" "page_avail ph' \<subseteq> page_avail ph"
    "area_mem A' \<subseteq> area_mem A \<union> (page_avail ph - page_avail ph')"
    "\<And>x. x \<notin> area_mem A \<Longrightarrow> x \<notin> page_avail ph \<Longrightarrow> ph_mem ph' x = ph_mem ph x"
    using st unfolding area_step_def by blast+
  have same: "ph_mem ph' x = ph_mem ph x" if "x \<in> tables_mem (ph_mem ph) (avs_root vs)" for x
    using D(6) that apart tav by blast
  have pt: "pt_wf (ph_mem ph) (avs_root vs) (page_avail ph)" using vs by (simp add: arch_vs_wf_def)
  note fr = pt_wf_frame [OF pt same D(4)]
  have "area_mem A' \<inter> tables_mem (ph_mem ph) (avs_root vs) = {}" using D(5) apart tav by blast
  then show "space_step vs A ph A' ph'"
    unfolding space_step_def using D fr pages bytes vs by (simp add: arch_vs_wf_def)
  show "user_pte (ph_mem ph') (avs_root vs) va = user_pte (ph_mem ph) (avs_root vs) va" if "va < 2 ^ 47"
    by (rule user_pte_frame [OF same that])
qed

lemma map_step_space:
  assumes st: "map_step vs ph ph'" and vs: "arch_vs_wf vs ph" and A: "area_wf A ph"
    and apart: "area_mem A \<inter> tables_mem (ph_mem ph) (avs_root vs) = {}"
  shows "space_step vs A ph A ph'"
proof -
  have D: "phys_wf ph'" "pt_wf (ph_mem ph') (avs_root vs) (page_avail ph')" "page_avail ph' \<subseteq> page_avail ph"
    "\<And>j. 256 \<le> j \<Longrightarrow> j < 512 \<Longrightarrow> entry (ph_mem ph') (avs_root vs) j = entry (ph_mem ph) (avs_root vs) j"
    "tables_mem (ph_mem ph') (avs_root vs) \<subseteq> tables_mem (ph_mem ph) (avs_root vs) \<union> (page_avail ph - page_avail ph')"
    "\<And>x. x \<notin> tables_mem (ph_mem ph) (avs_root vs) \<Longrightarrow> x \<notin> page_avail ph \<Longrightarrow> ph_mem ph' x = ph_mem ph x"
    using st unfolding map_step_def pt_step_def by blast+
  note av = area_wf_avail [OF A]
  have same: "ph_mem ph' x = ph_mem ph x" if "x \<in> area_mem A" for x using D(6) that apart av by blast
  have "area_mem A \<inter> tables_mem (ph_mem ph') (avs_root vs) = {}" using D(5) apart av by blast
  then show ?thesis
    unfolding space_step_def
    using D vs area_wf_shrink_avail [OF A D(3)] area_bytes_frame [OF A same] by (simp add: arch_vs_wf_def)
qed

section \<open>The loop over the pages\<close>

definition map_page :: "ArchVmSpace \<Rightarrow> PageAttrs \<Rightarrow> usize \<Rightarrow> UAddr \<Rightarrow> VmArea \<Rightarrow> phys
    \<Rightarrow> ((ErrorCode + unit) \<times> VmArea \<times> phys) exec" where
  "map_page vs attrs index uaddr A ph = exec_try (ensure_page A ph index) (\<lambda>paddr (A, ph).
     exec_bind (arch_map vs ph uaddr paddr MIN_PAGE_SIZE attrs) (\<lambda>(r, ph). Val (r, A, ph)))"

lemma map_pages_Suc:
  "map_pages vs attrs (Suc n) index uaddr A ph = exec_try (map_page vs attrs index uaddr A ph) (\<lambda>_ (A, ph).
     case uaddr_add uaddr MIN_PAGE_SIZE of None \<Rightarrow> Panic | Some uaddr \<Rightarrow> map_pages vs attrs n (index + 1) uaddr A ph)"
proof -
  have *: "exec_bind m (\<lambda>(r, ph). case r of Inl e \<Rightarrow> Val (Inl e, A, ph) | Inr _ \<Rightarrow> f A ph) =
      exec_try (exec_bind m (\<lambda>(r, ph). Val (r, A, ph))) (\<lambda>_ (A, ph). f A ph)"
    for m :: "((ErrorCode + unit) \<times> phys) exec" and A and f :: "VmArea \<Rightarrow> phys \<Rightarrow> ((ErrorCode + unit) \<times> VmArea \<times> phys) exec"
  proof (cases m)
    case (Val x)
    then show ?thesis by (cases x; cases "fst x") auto
  qed auto
  show ?thesis
    unfolding map_pages.simps map_page_def exec_try_assoc
      * [of _ _ "\<lambda>A ph. case uaddr_add uaddr MIN_PAGE_SIZE of None \<Rightarrow> Panic
          | Some uaddr \<Rightarrow> map_pages vs attrs n (index + 1) uaddr A ph"]
    by (simp add: split_def)
qed

lemma map_page_spec:
  assumes "phys_wf ph" and A: "area_wf A ph" and vs: "arch_vs_wf vs ph"
    and apart: "area_mem A \<inter> tables_mem (ph_mem ph) (avs_root vs) = {}"
    and i: "index < length (va_pages A)" and u: "uaddr < 2 ^ 47" "4096 dvd uaddr"
  shows "\<exists>r A' ph'. map_page vs attrs index uaddr A ph = Val (r, A', ph') \<and> space_step vs A ph A' ph'
    \<and> (\<forall>w<2 ^ 47. w div 4096 \<noteq> uaddr div 4096 \<longrightarrow> user_pte (ph_mem ph') (avs_root vs) w = user_pte (ph_mem ph) (avs_root vs) w)
    \<and> (case r of Inl e \<Rightarrow> e = OUT_OF_MEMORY \<or> e = ALREADY_EXISTS \<and> user_pte (ph_mem ph) (avs_root vs) uaddr \<noteq> None
        | Inr _ \<Rightarrow> \<exists>p. va_pages A' ! index = Some p \<and> user_pte (ph_mem ph') (avs_root vs) uaddr = Some (page_pte p attrs))"
proof -
  obtain r1 A1 ph1 where g: "get_or_fill A ph index = Val (r1, A1, ph1)" "area_step A ph A1 ph1"
    "\<forall>k<va_len A. area_byte A1 (ph_mem ph1) k = area_byte A (ph_mem ph) k"
    "case r1 of Inl e \<Rightarrow> e = OUT_OF_MEMORY \<and> (\<exists>ph''. page_alloc Zeroed ph MIN_PAGE_SIZE = Val (None, ph''))
      | Inr p \<Rightarrow> va_pages A1 ! index = Some p"
    using get_or_fill_spec [OF assms(1) A i] by blast
  have bytes: "area_bytes A1 (ph_mem ph1) = area_bytes A (ph_mem ph)"
    using g(3) area_stepD(3) [OF g(2)] by (simp add: area_bytes_def)
  have sp: "space_step vs A ph A1 ph1"
    "\<And>va. va < 2 ^ 47 \<Longrightarrow> user_pte (ph_mem ph1) (avs_root vs) va = user_pte (ph_mem ph) (avs_root vs) va"
    using area_step_space [OF g(2) vs apart bytes] get_or_fill_keeps [OF g(1)] by blast+
  show ?thesis
  proof (cases r1)
    case (Inl e)
    then have "map_page vs attrs index uaddr A ph = Val (Inl e, A1, ph1)"
      using g(1) i by (simp add: map_page_def ensure_page_eq)
    moreover have "e = OUT_OF_MEMORY" using Inl g(4) by simp
    ultimately show ?thesis
      using sp by (intro exI [of _ "Inl e"] exI [of _ A1] exI [of _ ph1]) (simp only: sum.case, blast)
  next
    case (Inr p)
    then have p: "va_pages A1 ! index = Some p" using g(4) by simp
    note S = space_stepD [OF sp(1)]
    have i1: "index < length (va_pages A1)" using i area_wf_pages [OF A S(2,4)] by simp
    have al: "MIN_PAGE_SIZE dvd uaddr" "MIN_PAGE_SIZE dvd p" "MIN_PAGE_SIZE dvd MIN_PAGE_SIZE"
      using u(2) area_wf_page(1) [OF S(2) i1 p] by (simp_all add: MIN_PAGE_SIZE_def)
    have pt1: "pt_wf (ph_mem ph1) (avs_root vs) (page_avail ph1)" using S(3) by (simp add: arch_vs_wf_def)
    obtain r ph' where m: "arch_map vs ph1 uaddr p MIN_PAGE_SIZE attrs = Val (r, ph')" "map_step vs ph1 ph'"
      "map_result vs ph1 uaddr p MIN_PAGE_SIZE attrs r ph'"
      using arch_map_spec [OF S(1) pt1 u(1)] by blast
    have run: "map_page vs attrs index uaddr A ph = Val (r, A1, ph')"
      using g(1) i Inr m(1) by (simp add: map_page_def ensure_page_eq)
    have st: "space_step vs A ph A1 ph'"
      by (rule space_step_trans [OF sp(1) map_step_space [OF m(2) S(3,2,8)] A])
    have res: "\<forall>w<2 ^ 47. user_pte (ph_mem ph') (avs_root vs) w =
        (if r = Inr () \<and> w div 4096 = uaddr div 4096 then Some (page_pte p attrs) else user_pte (ph_mem ph) (avs_root vs) w)"
      "if user_pte (ph_mem ph) (avs_root vs) uaddr \<noteq> None then r = Inl ALREADY_EXISTS else r = Inr () \<or> r = Inl OUT_OF_MEMORY"
      using m(3) sp(2) al u(1) unfolding map_result_def by simp_all
    then show ?thesis using run st p u(1) by (cases r) (auto split: if_splits)
  qed
qed

lemma area_full_index: "area_wf A ph \<Longrightarrow> va_len A div MIN_PAGE_SIZE = length (va_pages A)"
  by (simp add: area_wf_def MIN_PAGE_SIZE_def)

lemma other_page:
  assumes "4096 dvd (u :: nat)" and "w < u \<or> u + 4096 \<le> w"
  shows "w div 4096 \<noteq> u div 4096"
proof -
  obtain k where k: "u = 4096 * k" using assms(1) by (auto simp: dvd_def)
  show ?thesis
  proof (cases "w < u")
    case True
    then have "w div 4096 < k" by (simp add: div_less_iff_less_mult k mult.commute)
    then show ?thesis by (simp add: k)
  next
    case False
    then have "(u + 4096) div 4096 \<le> w div 4096" using assms(2) by (intro div_le_mono) simp
    then show ?thesis by (simp add: k)
  qed
qed

text \<open>
  The pages \<open>index .. index + n\<close> of an area are entered at consecutive addresses; some of \<open>n\<close> consecutive
  pages of addresses is in use.
\<close>

definition range_mapped :: "ArchVmSpace \<Rightarrow> phys \<Rightarrow> VmArea \<Rightarrow> PageAttrs \<Rightarrow> usize \<Rightarrow> nat \<Rightarrow> UAddr \<Rightarrow> bool" where
  "range_mapped vs ph A attrs index n uaddr \<longleftrightarrow> (\<forall>j<n. \<exists>p. va_pages A ! (index + j) = Some p
     \<and> user_pte (ph_mem ph) (avs_root vs) (uaddr + 4096 * j) = Some (page_pte p attrs))"

definition range_used :: "ArchVmSpace \<Rightarrow> phys \<Rightarrow> nat \<Rightarrow> UAddr \<Rightarrow> bool" where
  "range_used vs ph n uaddr \<longleftrightarrow> (\<exists>j<n. user_pte (ph_mem ph) (avs_root vs) (uaddr + 4096 * j) \<noteq> None)"

lemma range_mapped_Suc:
  assumes "va_pages A ! index = Some p" and "user_pte (ph_mem ph) (avs_root vs) uaddr = Some (page_pte p attrs)"
    and "range_mapped vs ph A attrs (index + 1) n (uaddr + 4096)"
  shows "range_mapped vs ph A attrs index (Suc n) uaddr"
  unfolding range_mapped_def
proof (intro allI impI)
  fix j assume "j < Suc n"
  then show "\<exists>p. va_pages A ! (index + j) = Some p \<and> user_pte (ph_mem ph) (avs_root vs) (uaddr + 4096 * j) = Some (page_pte p attrs)"
    using assms by (cases j) (auto simp: range_mapped_def add.assoc)
qed

lemma range_used_Suc:
  assumes "\<And>j. j < n \<Longrightarrow> user_pte (ph_mem ph1) (avs_root vs) (uaddr + 4096 + 4096 * j) =
      user_pte (ph_mem ph) (avs_root vs) (uaddr + 4096 + 4096 * j)" and "range_used vs ph1 n (uaddr + 4096)"
  shows "range_used vs ph (Suc n) uaddr"
proof -
  obtain j where "j < n" "user_pte (ph_mem ph) (avs_root vs) (uaddr + 4096 + 4096 * j) \<noteq> None"
    using assms by (auto simp: range_used_def)
  then show ?thesis unfolding range_used_def by (intro exI [of _ "Suc j"]) (simp add: add.assoc)
qed

lemma map_pages_spec:
  assumes "phys_wf ph" and "area_wf A ph" and "arch_vs_wf vs ph"
    and "area_mem A \<inter> tables_mem (ph_mem ph) (avs_root vs) = {}"
    and "index + n \<le> length (va_pages A)" and "uaddr + 4096 * n \<le> 2 ^ 47" and "4096 dvd uaddr"
  shows "\<exists>r A' ph'. map_pages vs attrs n index uaddr A ph = Val (r, A', ph') \<and> space_step vs A ph A' ph'
    \<and> (\<forall>w<2 ^ 47. w < uaddr \<or> uaddr + 4096 * n \<le> w \<longrightarrow> user_pte (ph_mem ph') (avs_root vs) w = user_pte (ph_mem ph) (avs_root vs) w)
    \<and> (case r of Inl e \<Rightarrow> e = OUT_OF_MEMORY \<or> e = ALREADY_EXISTS \<and> range_used vs ph n uaddr
        | Inr _ \<Rightarrow> range_mapped vs ph' A' attrs index n uaddr)"
  using assms
proof (induction n arbitrary: index uaddr A ph)
  case 0
  then show ?case using space_step_refl by (simp add: range_mapped_def)
next
  case (Suc n)
  note prems = Suc.prems
  have i: "index < length (va_pages A)" and u: "uaddr < 2 ^ 47" using prems(5,6) by simp_all
  obtain r1 A1 ph1 where m: "map_page vs attrs index uaddr A ph = Val (r1, A1, ph1)" "space_step vs A ph A1 ph1"
    "\<forall>w<2 ^ 47. w div 4096 \<noteq> uaddr div 4096 \<longrightarrow> user_pte (ph_mem ph1) (avs_root vs) w = user_pte (ph_mem ph) (avs_root vs) w"
    "case r1 of Inl e \<Rightarrow> e = OUT_OF_MEMORY \<or> e = ALREADY_EXISTS \<and> user_pte (ph_mem ph) (avs_root vs) uaddr \<noteq> None
        | Inr _ \<Rightarrow> \<exists>p. va_pages A1 ! index = Some p \<and> user_pte (ph_mem ph1) (avs_root vs) uaddr = Some (page_pte p attrs)"
    using map_page_spec [OF prems(1-4) i u prems(7)] by blast
  note S = space_stepD [OF m(2)]
  have out: "user_pte (ph_mem ph1) (avs_root vs) w = user_pte (ph_mem ph) (avs_root vs) w"
    if "w < 2 ^ 47" "w < uaddr \<or> uaddr + 4096 \<le> w" for w
    using m(3) that other_page [OF prems(7) that(2)] by simp
  show ?case
  proof (cases r1)
    case (Inl e)
    then have "map_pages vs attrs (Suc n) index uaddr A ph = Val (Inl e, A1, ph1)"
      using m(1) by (simp add: map_pages_Suc del: map_pages.simps)
    moreover have "e = OUT_OF_MEMORY \<or> e = ALREADY_EXISTS \<and> range_used vs ph (Suc n) uaddr"
      using Inl m(4) by (auto simp: range_used_def intro: exI [of _ 0])
    ultimately show ?thesis
      using m(2) out by (intro exI [of _ "Inl e"] exI [of _ A1] exI [of _ ph1]) (simp only: sum.case, simp)
  next
    case (Inr x)
    have add: "uaddr_add uaddr MIN_PAGE_SIZE = Some (uaddr + 4096)"
      using u by (simp add: uaddr_add_def checked_add_def MIN_PAGE_SIZE_def USIZE_MAX_def)
    obtain p where p: "va_pages A1 ! index = Some p" "user_pte (ph_mem ph1) (avs_root vs) uaddr = Some (page_pte p attrs)"
      using Inr m(4) by auto
    have len: "length (va_pages A1) = length (va_pages A)" by (rule area_wf_pages [OF prems(2) S(2,4)])
    have "index + 1 + n \<le> length (va_pages A1)" "uaddr + 4096 + 4096 * n \<le> 2 ^ 47" "4096 dvd uaddr + 4096"
      using prems(5-7) len by simp_all
    from Suc.IH [OF S(1-3,8) this] obtain r A' ph' where
      IH: "map_pages vs attrs n (index + 1) (uaddr + 4096) A1 ph1 = Val (r, A', ph')" "space_step vs A1 ph1 A' ph'"
      "\<forall>w<2 ^ 47. w < uaddr + 4096 \<or> uaddr + 4096 + 4096 * n \<le> w \<longrightarrow>
         user_pte (ph_mem ph') (avs_root vs) w = user_pte (ph_mem ph1) (avs_root vs) w"
      "case r of Inl e \<Rightarrow> e = OUT_OF_MEMORY \<or> e = ALREADY_EXISTS \<and> range_used vs ph1 n (uaddr + 4096)
        | Inr _ \<Rightarrow> range_mapped vs ph' A' attrs (index + 1) n (uaddr + 4096)"
      by blast
    have run: "map_pages vs attrs (Suc n) index uaddr A ph = Val (r, A', ph')"
      using m(1) Inr add IH(1) by (simp add: map_pages_Suc del: map_pages.simps)
    have st: "space_step vs A ph A' ph'" by (rule space_step_trans [OF m(2) IH(2) prems(2)])
    have old: "user_pte (ph_mem ph') (avs_root vs) w = user_pte (ph_mem ph) (avs_root vs) w"
      if "w < 2 ^ 47" "w < uaddr \<or> uaddr + 4096 * Suc n \<le> w" for w
      using IH(3) out [OF that(1)] that by auto
    have p': "va_pages A' ! index = Some p" "user_pte (ph_mem ph') (avs_root vs) uaddr = Some (page_pte p attrs)"
      using p IH(3) u i len space_stepD(10) [OF IH(2), of index p] by simp_all
    have used: "range_used vs ph (Suc n) uaddr" if "range_used vs ph1 n (uaddr + 4096)"
      using out prems(6) by (intro range_used_Suc [OF _ that]) simp
    have "case r of Inl e \<Rightarrow> e = OUT_OF_MEMORY \<or> e = ALREADY_EXISTS \<and> range_used vs ph (Suc n) uaddr
        | Inr _ \<Rightarrow> range_mapped vs ph' A' attrs index (Suc n) uaddr"
      using IH(4) used range_mapped_Suc [OF p', of n] by (cases r) auto
    with run st old show ?thesis by (intro exI [of _ r] exI [of _ A'] exI [of _ ph'] conjI) auto
  qed
qed

section \<open>Well-formed address spaces\<close>

text \<open>
  The store of areas: each area is well-formed and not empty, and no two share a page.
\<close>

definition areas_wf :: "areas \<Rightarrow> phys \<Rightarrow> bool" where
  "areas_wf as ph \<longleftrightarrow> (\<forall>a A. as a = Some A \<longrightarrow> area_wf A ph \<and> 0 < va_len A)
     \<and> (\<forall>a b A B. a \<noteq> b \<longrightarrow> as a = Some A \<longrightarrow> as b = Some B \<longrightarrow> area_mem A \<inter> area_mem B = {})"

definition mapping_ok :: "ArchVmSpace \<Rightarrow> areas \<Rightarrow> phys \<Rightarrow> Mapping \<Rightarrow> bool" where
  "mapping_ok vs as ph mp \<longleftrightarrow> (\<exists>A. as (mp_area mp) = Some A \<and> mp_end mp = mp_start mp + va_len A
     \<and> 4096 dvd mp_start mp \<and> mp_end mp \<le> 2 ^ 47 \<and> mp_attrs mp < 8
     \<and> range_mapped vs ph A (mp_attrs mp) 0 (length (va_pages A)) (mp_start mp))"

definition mappings_sorted :: "Mapping list \<Rightarrow> bool" where
  "mappings_sorted mps \<longleftrightarrow> sorted_wrt (\<lambda>p q. mp_end p \<le> mp_start q) mps"

definition space_wf :: "VmSpace \<Rightarrow> areas \<Rightarrow> phys \<Rightarrow> bool" where
  "space_wf S as ph \<longleftrightarrow> phys_wf ph \<and> arch_vs_wf (vs_arch S) ph \<and> areas_wf as ph
     \<and> (\<forall>a A. as a = Some A \<longrightarrow> area_mem A \<inter> tables_mem (ph_mem ph) (avs_root (vs_arch S)) = {})
     \<and> mappings_sorted (vs_mappings S) \<and> (\<forall>mp\<in>set (vs_mappings S). mapping_ok (vs_arch S) as ph mp)"

text \<open>What user code finds at an address: the byte of the area that is mapped there.\<close>

definition space_byte :: "VmSpace \<Rightarrow> areas \<Rightarrow> memory \<Rightarrow> usize \<Rightarrow> u8 option" where
  "space_byte S as m va = (case find (\<lambda>mp. mp_start mp \<le> va \<and> va < mp_end mp) (vs_mappings S) of None \<Rightarrow> None
     | Some mp \<Rightarrow> map_option (\<lambda>A. area_byte A m (va - mp_start mp)) (as (mp_area mp)))"

lemma space_wfD:
  assumes "space_wf S as ph"
  shows "phys_wf ph" and "arch_vs_wf (vs_arch S) ph" and "areas_wf as ph"
    and "\<And>a A. as a = Some A \<Longrightarrow> area_mem A \<inter> tables_mem (ph_mem ph) (avs_root (vs_arch S)) = {}"
    and "mappings_sorted (vs_mappings S)" and "\<And>mp. mp \<in> set (vs_mappings S) \<Longrightarrow> mapping_ok (vs_arch S) as ph mp"
    and "\<And>a A. as a = Some A \<Longrightarrow> area_wf A ph" and "\<And>a A. as a = Some A \<Longrightarrow> 0 < va_len A"
    and "\<And>a b A B. a \<noteq> b \<Longrightarrow> as a = Some A \<Longrightarrow> as b = Some B \<Longrightarrow> area_mem A \<inter> area_mem B = {}"
  using assms unfolding space_wf_def areas_wf_def by blast+

text \<open>
  A step for one area keeps the whole store and every mapping whose addresses were not touched.
\<close>

lemma space_step_areas:
  assumes st: "space_step vs A ph A' ph'" and as: "as a = Some A" and wf: "areas_wf as ph"
    and apart: "\<And>b B. as b = Some B \<Longrightarrow> area_mem B \<inter> tables_mem (ph_mem ph) (avs_root vs) = {}"
  shows "areas_wf (as(a \<mapsto> A')) ph'"
    and "\<And>b B. (as(a \<mapsto> A')) b = Some B \<Longrightarrow> area_mem B \<inter> tables_mem (ph_mem ph') (avs_root vs) = {}"
    and "\<And>b B. b \<noteq> a \<Longrightarrow> as b = Some B \<Longrightarrow> area_bytes B (ph_mem ph') = area_bytes B (ph_mem ph)"
proof -
  note S = space_stepD [OF st]
  have other: "area_wf B ph" "0 < va_len B" "area_mem B \<inter> area_mem A = {}" "area_mem B \<inter> page_avail ph = {}"
    if "b \<noteq> a" "as b = Some B" for b B
    using wf that as area_wf_avail [of B ph] unfolding areas_wf_def by blast+
  show bytes: "area_bytes B (ph_mem ph') = area_bytes B (ph_mem ph)" if b: "b \<noteq> a" "as b = Some B" for b B
  proof (rule area_bytes_frame [OF other(1) [OF b]])
    fix x assume "x \<in> area_mem B"
    then show "ph_mem ph' x = ph_mem ph x" using other(3,4) [OF b] apart [OF b(2)] by (intro S(12)) blast+
  qed
  show "area_mem B \<inter> tables_mem (ph_mem ph') (avs_root vs) = {}" if b: "(as(a \<mapsto> A')) b = Some B" for b B
  proof (cases "b = a")
    case True
    then show ?thesis using b S(8) by simp
  next
    case False
    then have "as b = Some B" using b by simp
    then show ?thesis using S(7) apart [of b B] other(4) [OF False] by blast
  qed
  have new: "area_mem B \<inter> area_mem A' = {}" if b: "b \<noteq> a" "as b = Some B" for b B
    using S(6) other(3,4) [OF b] by blast
  show "areas_wf (as(a \<mapsto> A')) ph'"
    unfolding areas_wf_def
  proof (intro conjI allI impI)
    fix b B assume b: "(as(a \<mapsto> A')) b = Some B"
    have "0 < va_len A" using wf as by (auto simp: areas_wf_def)
    with b show "area_wf B ph'" "0 < va_len B"
      using S(2,4) other(1,2) [of b B] area_wf_shrink_avail [OF _ S(5), of B] by (auto split: if_splits)
  next
    fix b c B C assume b: "b \<noteq> c" "(as(a \<mapsto> A')) b = Some B" "(as(a \<mapsto> A')) c = Some C"
    show "area_mem B \<inter> area_mem C = {}"
    proof (cases "b = a \<or> c = a")
      case True
      then show ?thesis using b new [of b B] new [of c C] by (auto simp: Int_commute)
    next
      case False
      then show ?thesis using b wf unfolding areas_wf_def by (metis fun_upd_other)
    qed
  qed
qed

lemma range_mapped_step:
  assumes st: "space_step vs A ph A' ph'" and as: "as a = Some A" and mp: "mapping_ok vs as ph mp" and A: "area_wf A ph"
    and same: "\<And>w. w < 2 ^ 47 \<Longrightarrow> mp_start mp \<le> w \<Longrightarrow> w < mp_end mp \<Longrightarrow>
      user_pte (ph_mem ph') (avs_root vs) w = user_pte (ph_mem ph) (avs_root vs) w"
    and lens: "\<And>b B. as b = Some B \<Longrightarrow> area_wf B ph"
  shows "mapping_ok vs (as(a \<mapsto> A')) ph' mp"
proof -
  note S = space_stepD [OF st]
  obtain B where B: "as (mp_area mp) = Some B" "mp_end mp = mp_start mp + va_len B" "4096 dvd mp_start mp" "mp_end mp \<le> 2 ^ 47"
    "mp_attrs mp < 8" "range_mapped vs ph B (mp_attrs mp) 0 (length (va_pages B)) (mp_start mp)"
    using mp unfolding mapping_ok_def by blast
  define B' where "B' = (if mp_area mp = a then A' else B)"
  have B': "(as(a \<mapsto> A')) (mp_area mp) = Some B'" using B(1) by (simp add: B'_def)
  have wB: "area_wf B ph" by (rule lens [OF B(1)])
  have len: "va_len B' = va_len B" "length (va_pages B') = length (va_pages B)"
    using S(4) area_wf_pages [OF A S(2,4)] B(1) as by (auto simp: B'_def)
  have "range_mapped vs ph' B' (mp_attrs mp) 0 (length (va_pages B')) (mp_start mp)"
    unfolding range_mapped_def len
  proof (intro allI impI)
    fix j assume j: "j < length (va_pages B)"
    obtain p where p: "va_pages B ! j = Some p"
      "user_pte (ph_mem ph) (avs_root vs) (mp_start mp + 4096 * j) = Some (page_pte p (mp_attrs mp))"
      using B(6) j by (auto simp: range_mapped_def)
    have "va_len B = 4096 * length (va_pages B)" using wB by (simp add: area_wf_def MIN_PAGE_SIZE_def)
    then have "mp_start mp + 4096 * j < mp_end mp" using B(2) j by simp
    moreover have "va_pages B' ! j = Some p" using p(1) S(10) [of j p] j B(1) as by (auto simp: B'_def)
    ultimately show "\<exists>p. va_pages B' ! (0 + j) = Some p
        \<and> user_pte (ph_mem ph') (avs_root vs) (mp_start mp + 4096 * j) = Some (page_pte p (mp_attrs mp))"
      using same [of "mp_start mp + 4096 * j"] p(2) B(4) by simp
  qed
  with B B' len show ?thesis by (auto simp: mapping_ok_def)
qed

lemma mapping_start_less: "space_wf S as ph \<Longrightarrow> mp \<in> set (vs_mappings S) \<Longrightarrow> mp_start mp < mp_end mp"
  using space_wfD(6) [of S as ph mp] space_wfD(8) [of S as ph "mp_area mp"] by (auto simp: mapping_ok_def)

text \<open>Inserting at the partition point keeps the list sorted.\<close>

lemma insert_sorted_mappings:
  assumes "mappings_sorted mps" and "\<And>p. p \<in> set mps \<Longrightarrow> mp_start p < mp_end p" and "mp_start mp < mp_end mp"
    and "\<not> list_ex (\<lambda>p. overlaps_with p (mp_start mp) (mp_end mp)) mps"
  shows "mappings_sorted (vec_insert (partition_point (\<lambda>p. mp_start p < mp_start mp) mps) mp mps)"
proof -
  let ?P = "\<lambda>p. mp_start p < mp_start mp"
  have split: "vec_insert (partition_point ?P mps) mp mps = takeWhile ?P mps @ mp # dropWhile ?P mps"
    by (simp add: vec_insert_def partition_point_def takeWhile_eq_take [symmetric] dropWhile_eq_drop [symmetric])
  have mps: "mps = takeWhile ?P mps @ dropWhile ?P mps" by simp
  have apart: "mp_end p \<le> mp_start mp \<or> mp_end mp \<le> mp_start p" if "p \<in> set mps" for p
    using assms(4) that by (auto simp: list_ex_iff overlaps_with_def not_less)
  have low: "mp_end p \<le> mp_start mp" if "p \<in> set (takeWhile ?P mps)" for p
    using apart [of p] set_takeWhileD [OF that] assms(3) by auto
  have high: "mp_end mp \<le> mp_start q" if q: "q \<in> set (dropWhile ?P mps)" for q
  proof -
    obtain h t where ht: "dropWhile ?P mps = h # t" using q by (cases "dropWhile ?P mps") auto
    then have "\<not> ?P h" by (metis dropWhile_eq_Cons_conv)
    moreover have "q = h \<or> mp_end h \<le> mp_start q" using assms(1) q ht mps unfolding mappings_sorted_def
      by (metis set_ConsD sorted_wrt.simps(2) sorted_wrt_append)
    moreover have "h \<in> set mps" "q \<in> set mps" using ht q by (metis list.set_intros(1) set_dropWhileD)+
    ultimately have "mp_start mp \<le> mp_start q" using assms(2) [of h] by auto
    then show ?thesis using apart [OF \<open>q \<in> set mps\<close>] assms(2) [OF \<open>q \<in> set mps\<close>] by auto
  qed
  have parts: "sorted_wrt (\<lambda>p q. mp_end p \<le> mp_start q) (takeWhile ?P mps @ dropWhile ?P mps)"
    using assms(1) by (simp add: mappings_sorted_def)
  show ?thesis
    unfolding split mappings_sorted_def using parts [unfolded sorted_wrt_append] low high by (simp add: sorted_wrt_append)
qed

lemma set_vec_insert: "set (vec_insert i x xs) = insert x (set xs)"
  using set_append [of "take i xs" "drop i xs"] by (simp add: vec_insert_def)

text \<open>The three early returns of \<open>map\<close>, then the case in which the loop runs.\<close>

definition map_refusal :: "bool \<Rightarrow> VmSpace \<Rightarrow> VmArea \<Rightarrow> UAddr \<Rightarrow> ErrorCode option" where
  "map_refusal reserve_ok S A uaddr =
     (if \<not> MIN_PAGE_SIZE dvd uaddr then Some INVALID_ARG
      else if USIZE_MAX < uaddr + va_len A then Some OUT_OF_BOUNDS
      else if list_ex (\<lambda>mp. overlaps_with mp uaddr (uaddr + va_len A)) (vs_mappings S) then Some ALREADY_EXISTS
      else if \<not> reserve_ok then Some OUT_OF_MEMORY else None)"

lemma vmspace_map_refused:
  "as a = Some A \<Longrightarrow> map_refusal ok S A uaddr = Some e \<Longrightarrow> vmspace_map (Val ok) S as ph a uaddr attrs = Val (Inl e, S, as, ph)"
  by (auto simp: vmspace_map_def map_refusal_def uaddr_is_aligned_to_def is_aligned_page uaddr_add_def checked_add_def
      split: if_splits)

lemma vmspace_map_runs:
  assumes "as a = Some A" and "map_refusal ok S A uaddr = None" and "area_wf A ph"
  shows "vmspace_map (Val ok) S as ph a uaddr attrs =
    exec_bind (map_pages (vs_arch S) attrs (length (va_pages A)) 0 uaddr A ph) (\<lambda>(r, A', ph). case r of
        Inl e \<Rightarrow> Val (Inl e, S, as(a \<mapsto> A'), ph)
      | Inr _ \<Rightarrow> Val (Inr (), S\<lparr>vs_mappings := vec_insert (partition_point (\<lambda>mp. mp_start mp < uaddr) (vs_mappings S))
          \<lparr>mp_start = uaddr, mp_end = uaddr + va_len A, mp_area = a, mp_attrs = attrs\<rparr> (vs_mappings S)\<rparr>, as(a \<mapsto> A'), ph))"
  using assms area_full_index [OF assms(3)] unfolding vmspace_map_def Let_def
  by (auto simp: map_refusal_def uaddr_is_aligned_to_def is_aligned_page uaddr_add_def checked_add_def
      split: if_splits)

text \<open>The first three early returns come before the reservation, whatever its outcome.\<close>

lemma vmspace_map_reserve:
  assumes "as a = Some A"
  shows "vmspace_map Panic S as ph a uaddr attrs =
    (case map_refusal True S A uaddr of None \<Rightarrow> Panic | Some e \<Rightarrow> Val (Inl e, S, as, ph))"
  using assms by (auto simp: vmspace_map_def map_refusal_def uaddr_is_aligned_to_def is_aligned_page uaddr_add_def checked_add_def)

lemma vmspace_map_spec:
  assumes wf: "space_wf S as ph" and a: "as a = Some A" and fit: "uaddr + va_len A \<le> 2 ^ 47" and at: "attrs < 8"
    and go: "map_refusal ok S A uaddr = None"
  shows "\<exists>r S' A' ph'. vmspace_map (Val ok) S as ph a uaddr attrs = Val (r, S', as(a \<mapsto> A'), ph')
    \<and> space_wf S' (as(a \<mapsto> A')) ph' \<and> space_step (vs_arch S) A ph A' ph'
    \<and> (\<forall>w<2 ^ 47. w < uaddr \<or> uaddr + va_len A \<le> w \<longrightarrow>
        user_pte (ph_mem ph') (avs_root (vs_arch S)) w = user_pte (ph_mem ph) (avs_root (vs_arch S)) w)
    \<and> (case r of Inl e \<Rightarrow> S' = S \<and> (e = OUT_OF_MEMORY
          \<or> e = ALREADY_EXISTS \<and> range_used (vs_arch S) ph (length (va_pages A)) uaddr)
        | Inr _ \<Rightarrow> S' = S\<lparr>vs_mappings := vec_insert (partition_point (\<lambda>mp. mp_start mp < uaddr) (vs_mappings S))
          \<lparr>mp_start = uaddr, mp_end = uaddr + va_len A, mp_area = a, mp_attrs = attrs\<rparr> (vs_mappings S)\<rparr>)"
proof -
  note W = space_wfD [OF wf]
  let ?vs = "vs_arch S" and ?n = "length (va_pages A)"
  have A: "area_wf A ph" "0 < va_len A" using W(7,8) a by blast+
  have lenA: "va_len A = 4096 * ?n" using A(1) by (simp add: area_wf_def MIN_PAGE_SIZE_def)
  have u: "4096 dvd uaddr" "\<not> list_ex (\<lambda>mp. overlaps_with mp uaddr (uaddr + va_len A)) (vs_mappings S)"
    using go by (auto simp: map_refusal_def MIN_PAGE_SIZE_def split: if_splits)
  have fit': "uaddr + 4096 * ?n \<le> 2 ^ 47" using fit lenA by simp
  obtain r A' ph' where m: "map_pages ?vs attrs ?n 0 uaddr A ph = Val (r, A', ph')" "space_step ?vs A ph A' ph'"
    "\<forall>w<2 ^ 47. w < uaddr \<or> uaddr + 4096 * ?n \<le> w \<longrightarrow> user_pte (ph_mem ph') (avs_root ?vs) w = user_pte (ph_mem ph) (avs_root ?vs) w"
    "case r of Inl e \<Rightarrow> e = OUT_OF_MEMORY \<or> e = ALREADY_EXISTS \<and> range_used ?vs ph ?n uaddr
        | Inr _ \<Rightarrow> range_mapped ?vs ph' A' attrs 0 ?n uaddr"
    using map_pages_spec [OF W(1) A(1) W(2) W(4) [OF a] _ fit' u(1), of 0 attrs] by auto
  note T = space_stepD [OF m(2)]
  have R: "areas_wf (as(a \<mapsto> A')) ph'"
    "\<And>b B. (as(a \<mapsto> A')) b = Some B \<Longrightarrow> area_mem B \<inter> tables_mem (ph_mem ph') (avs_root ?vs) = {}"
    using space_step_areas [where as = as and a = a, OF m(2) a W(3)] W(4) by blast+
  have keep: "mapping_ok ?vs (as(a \<mapsto> A')) ph' mp" if mp: "mp \<in> set (vs_mappings S)" for mp
  proof (rule range_mapped_step [where as = as and a = a, OF m(2) a W(6) [OF mp] A(1) _ W(7)])
    fix w :: nat assume "w < 2 ^ 47" "mp_start mp \<le> w" "w < mp_end mp"
    moreover have "uaddr + va_len A \<le> mp_start mp \<or> mp_end mp \<le> uaddr"
      using u(2) mp by (auto simp: list_ex_iff overlaps_with_def not_less)
    ultimately show "user_pte (ph_mem ph') (avs_root ?vs) w = user_pte (ph_mem ph) (avs_root ?vs) w"
      using m(3) lenA by auto
  qed
  let ?mp = "\<lparr>mp_start = uaddr, mp_end = uaddr + va_len A, mp_area = a, mp_attrs = attrs\<rparr>"
  let ?S = "S\<lparr>vs_mappings := vec_insert (partition_point (\<lambda>mp. mp_start mp < uaddr) (vs_mappings S)) ?mp (vs_mappings S)\<rparr>"
  note run = vmspace_map_runs [where as = as and a = a, OF a go A(1), of attrs, unfolded m(1)]
  show ?thesis
  proof (cases r)
    case (Inl e)
    then have "space_wf S (as(a \<mapsto> A')) ph'" unfolding space_wf_def using T(1,3) R(1,2) W(5) keep by blast
    then show ?thesis using run Inl m(2-4) lenA
      by (intro exI [of _ r] exI [of _ S] exI [of _ A'] exI [of _ ph'] conjI) simp_all
  next
    case (Inr x)
    have "length (va_pages A') = ?n" by (rule area_wf_pages [OF A(1) T(2,4)])
    then have "mapping_ok ?vs (as(a \<mapsto> A')) ph' ?mp" using Inr m(4) fit at u(1) T(4) by (simp add: mapping_ok_def)
    moreover have "mappings_sorted (vs_mappings ?S)"
      using insert_sorted_mappings [OF W(5) mapping_start_less [OF wf], of ?mp] A(2) u(2) by simp
    ultimately have "space_wf ?S (as(a \<mapsto> A')) ph'"
      unfolding space_wf_def using T(1,3) R(1,2) keep by (simp add: set_vec_insert)
    then show ?thesis using run Inr m(2,3) lenA
      by (intro exI [of _ "Inr ()"] exI [of _ ?S] exI [of _ A'] exI [of _ ph'] conjI) simp_all
  qed
qed

section \<open>Reading user memory\<close>

text \<open>An area with all its pages present is read without being changed.\<close>

definition area_full :: "VmArea \<Rightarrow> bool" where
  "area_full A \<longleftrightarrow> (\<forall>i<length (va_pages A). va_pages A ! i \<noteq> None)"

lemma read_loop_full:
  assumes "area_wf A ph" and "area_full A" and "offset + length buf \<le> va_len A"
  shows "\<exists>out. read_loop A ph offset filled buf = Val (Inr (), out, A, ph)"
  using assms(3)
proof (induction "length buf" arbitrary: offset filled buf rule: less_induct)
  case less
  show ?case
  proof (cases "buf = []")
    case True
    then show ?thesis by (simp add: read_loop.simps)
  next
    case False
    let ?c = "min (length buf) (MIN_PAGE_SIZE - offset mod MIN_PAGE_SIZE)"
    have c: "0 < ?c" using False by (simp add: MIN_PAGE_SIZE_def)
    have "offset < va_len A" using less.prems False by (cases buf) auto
    then have i: "offset div MIN_PAGE_SIZE < length (va_pages A)" by (rule page_index_less [OF assms(1)])
    then obtain p where p: "va_pages A ! (offset div MIN_PAGE_SIZE) = Some p" using assms(2) by (auto simp: area_full_def)
    have add: "usize_add offset ?c = Val (offset + ?c)"
    proof (rule usize_add_Val)
      have "?c \<le> length buf" "va_len A \<le> USIZE_MAX" using assms(1) by (simp_all add: area_wf_def)
      then show "offset + ?c \<le> USIZE_MAX" using less.prems by linarith
    qed
    have len: "length (drop ?c buf) < length buf" "offset + ?c + length (drop ?c buf) \<le> va_len A"
      using c False less.prems by auto
    have g: "get_or_fill A ph (offset div MIN_PAGE_SIZE) = Val (Inr p, A, ph)" using i p by (simp add: get_or_fill_def)
    show ?thesis
      using less.hyps [OF len] False
      by (subst read_loop.simps) (simp add: g add Let_def del: length_drop)
  qed
qed

lemma area_read_full:
  assumes "phys_wf ph" and "area_wf A ph" and "area_full A" and "offset + length buf \<le> va_len A"
  shows "area_read A ph offset buf = Val (Inr (), map (area_byte A (ph_mem ph)) [offset..<offset + length buf], A, ph)"
proof -
  have "area_read A ph offset buf = read_loop A ph offset [] buf"
    using assms(2,4) by (simp add: area_read_def checked_add_def area_wf_def)
  then obtain out where run: "area_read A ph offset buf = Val (Inr (), out, A, ph)"
    using read_loop_full [OF assms(2-4), of "[]"] by auto
  then have "out = take (length buf) (drop offset (area_bytes A (ph_mem ph)))"
    using area_read_spec [OF assms(1,2), of offset buf] assms(4) by auto
  also have "\<dots> = map (area_byte A (ph_mem ph)) [offset..<offset + length buf]"
    using assms(4) by (simp add: area_bytes_def drop_map take_map)
  finally show ?thesis using run by simp
qed

lemma mapping_full: "mapping_ok vs as ph mp \<Longrightarrow> as (mp_area mp) = Some A \<Longrightarrow> area_full A"
  by (auto simp: mapping_ok_def area_full_def range_mapped_def)

text \<open>Sorted mappings do not overlap, so an address lies in at most one of them.\<close>

lemma mapping_unique:
  assumes "mappings_sorted mps" and "p \<in> set mps" and "q \<in> set mps"
    and "mp_start p \<le> va" "va < mp_end p" "mp_start q \<le> va" "va < mp_end q"
  shows "p = q"
  using assms by (induction mps) (fastforce simp: mappings_sorted_def)+

lemma space_byte_mapping:
  assumes "mappings_sorted (vs_mappings S)" and "mp \<in> set (vs_mappings S)" and "mp_start mp \<le> va" and "va < mp_end mp"
    and "as (mp_area mp) = Some A"
  shows "space_byte S as m va = Some (area_byte A m (va - mp_start mp))"
proof -
  have "find (\<lambda>mp. mp_start mp \<le> va \<and> va < mp_end mp) (vs_mappings S) = Some mp"
  proof (cases "find (\<lambda>mp. mp_start mp \<le> va \<and> va < mp_end mp) (vs_mappings S)")
    case None
    then show ?thesis using assms(2-4) by (auto simp: find_None_iff)
  next
    case (Some q)
    then have "q \<in> set (vs_mappings S)" "mp_start q \<le> va" "va < mp_end q" by (auto simp: find_Some_iff)
    then show ?thesis using Some mapping_unique [OF assms(1,2) _ assms(3,4)] by simp
  qed
  then show ?thesis using assms(5) by (simp add: space_byte_def)
qed

lemma space_byte_SomeD:
  assumes "space_byte S as m va = Some b"
  obtains mp A where "mp \<in> set (vs_mappings S)" "mp_start mp \<le> va" "va < mp_end mp" "as (mp_area mp) = Some A"
    "b = area_byte A m (va - mp_start mp)"
proof -
  obtain mp where mp: "find (\<lambda>mp. mp_start mp \<le> va \<and> va < mp_end mp) (vs_mappings S) = Some mp"
    "map_option (\<lambda>A. area_byte A m (va - mp_start mp)) (as (mp_area mp)) = Some b"
    using assms by (auto simp: space_byte_def split: option.splits)
  then have "mp \<in> set (vs_mappings S)" "mp_start mp \<le> va" "va < mp_end mp" by (auto simp: find_Some_iff)
  with mp(2) show thesis using that by auto
qed

text \<open>The processor shows user code the bytes of the areas, and allows writing where the attributes do.\<close>

lemma mapping_translates:
  assumes wf: "space_wf S as ph" and mp: "mp \<in> set (vs_mappings S)" "mp_start mp \<le> va" "va < mp_end mp" and A: "as (mp_area mp) = Some A"
  shows "\<exists>p. mmu (ph_mem ph) (avs_root (vs_arch S)) va = Some (p, mp_attrs mp AND ATTR_WRITE \<noteq> 0, True)
    \<and> ph_mem ph p = area_byte A (ph_mem ph) (va - mp_start mp)"
proof -
  note W = space_wfD [OF wf]
  have ok: "mp_end mp = mp_start mp + va_len A" "4096 dvd mp_start mp" "mp_end mp \<le> 2 ^ 47" "mp_attrs mp < 8"
    "range_mapped (vs_arch S) ph A (mp_attrs mp) 0 (length (va_pages A)) (mp_start mp)"
    using W(6) [OF mp(1)] A by (auto simp: mapping_ok_def)
  obtain c where c: "mp_start mp = 4096 * c" using ok(2) by (auto simp: dvd_def)
  define k where "k = va - mp_start mp"
  have va: "va = mp_start mp + k" "va < 2 ^ 47" "k < va_len A" using mp(2,3) ok(1,3) by (auto simp: k_def)
  have i: "k div MIN_PAGE_SIZE < length (va_pages A)" by (rule page_index_less [OF W(7) [OF A] va(3)])
  then obtain p where p: "va_pages A ! (k div 4096) = Some p"
    "user_pte (ph_mem ph) (avs_root (vs_arch S)) (mp_start mp + 4096 * (k div 4096)) = Some (page_pte p (mp_attrs mp))"
    using ok(5) by (auto simp: range_mapped_def MIN_PAGE_SIZE_def)
  have same: "va div 4096 = (mp_start mp + 4096 * (k div 4096)) div 4096" "va mod 4096 = k mod 4096"
    unfolding va(1) c by simp_all
  have lt: "mp_start mp + 4096 * (k div 4096) < 2 ^ 47" using va(1,2) by (simp add: le_less_trans [OF _ va(2)])
  have pte: "user_pte (ph_mem ph) (avs_root (vs_arch S)) va = Some (page_pte p (mp_attrs mp))"
    using p(2) user_pte_page [OF lt va(2) same(1)] by simp
  have pa: "4096 dvd p" "p < 2 ^ 52"
    using area_wf_page(1,5) [OF W(7) [OF A] i] p(1) by (simp_all add: MIN_PAGE_SIZE_def)
  have pt: "pt_wf (ph_mem ph) (avs_root (vs_arch S)) (page_avail ph)" using W(2) by (simp add: arch_vs_wf_def)
  have "ph_mem ph (p + va mod 4096) = area_byte A (ph_mem ph) (va - mp_start mp)"
    using p(1) same(2) by (simp add: area_byte_def k_def [symmetric] MIN_PAGE_SIZE_def)
  moreover have "ATTR_WRITE = PTE_W" by (simp add: ATTR_WRITE_def PTE_W_def)
  ultimately show ?thesis
    using mmu_user [OF pt va(2)] pte page_pte_fields [OF pa ok(4)] by simp
qed

lemma mapped_byte:
  assumes wf: "space_wf S as ph" and b: "space_byte S as (ph_mem ph) va = Some b"
  shows "\<exists>p w. mmu (ph_mem ph) (avs_root (vs_arch S)) va = Some (p, w, True) \<and> ph_mem ph p = b"
proof -
  obtain mp A where mp: "mp \<in> set (vs_mappings S)" "mp_start mp \<le> va" "va < mp_end mp" "as (mp_area mp) = Some A"
    "b = area_byte A (ph_mem ph) (va - mp_start mp)" using space_byte_SomeD [OF b] by blast
  then show ?thesis using mapping_translates [where as = as, OF wf mp(1-4)] by blast
qed

definition bytes_at :: "VmSpace \<Rightarrow> areas \<Rightarrow> memory \<Rightarrow> usize \<Rightarrow> usize \<Rightarrow> u8 list" where
  "bytes_at S as m u v = map (\<lambda>va. the (space_byte S as m va)) [u..<v]"

lemma bytes_at_append: "u \<le> v \<Longrightarrow> v \<le> w \<Longrightarrow> bytes_at S as m u v @ bytes_at S as m v w = bytes_at S as m u w"
  unfolding bytes_at_def map_append [symmetric] by (metis le_Suc_ex upt_add_eq_append)

text \<open>One round of the loop of \<open>read_bytes\<close>.\<close>

lemma read_mappings_step:
  assumes wf: "space_wf S as ph" and mp: "mp \<in> set (vs_mappings S)" and u: "mp_start mp \<le> uaddr" "uaddr < mp_end mp"
    and buf: "buf \<noteq> []"
  defines "c \<equiv> min (length buf) (mp_end mp - uaddr)"
  shows "read_mappings as ph uaddr filled buf (mp # mps) =
    read_mappings as ph (uaddr + c) (filled @ bytes_at S as (ph_mem ph) uaddr (uaddr + c)) (drop c buf) mps"
proof -
  note W = space_wfD [OF wf]
  obtain A where A: "as (mp_area mp) = Some A" "mp_end mp = mp_start mp + va_len A" "mp_end mp \<le> 2 ^ 47"
    using W(6) [OF mp] by (auto simp: mapping_ok_def)
  have c: "c \<le> mp_end mp - uaddr" "c \<le> length buf" by (simp_all add: c_def)
  have rd: "area_read A ph (uaddr - mp_start mp) (take c buf) =
      Val (Inr (), map (area_byte A (ph_mem ph)) [uaddr - mp_start mp..<uaddr - mp_start mp + c], A, ph)"
    using area_read_full [OF W(1) W(7) [OF A(1)] mapping_full [OF W(6) [OF mp] A(1)], of "uaddr - mp_start mp" "take c buf"]
      c A(2) u by (simp add: min_def)
  have "map (area_byte A (ph_mem ph)) [uaddr - mp_start mp..<uaddr - mp_start mp + c] = bytes_at S as (ph_mem ph) uaddr (uaddr + c)"
    unfolding bytes_at_def
  proof (rule nth_equalityI)
    fix i assume "i < length (map (area_byte A (ph_mem ph)) [uaddr - mp_start mp..<uaddr - mp_start mp + c])"
    then have i: "i < c" by simp
    then have "space_byte S as (ph_mem ph) (uaddr + i) = Some (area_byte A (ph_mem ph) (uaddr + i - mp_start mp))"
      using c u by (intro space_byte_mapping [where as = as, OF W(5) mp _ _ A(1)]) simp_all
    then show "map (area_byte A (ph_mem ph)) [uaddr - mp_start mp..<uaddr - mp_start mp + c] ! i =
        map (\<lambda>va. the (space_byte S as (ph_mem ph) va)) [uaddr..<uaddr + c] ! i"
      using i u by simp
  qed simp
  moreover have "uaddr_add uaddr c = Some (uaddr + c)"
    using c A(3) u(2) by (simp add: uaddr_add_def checked_add_def USIZE_MAX_def)
  moreover have "as(mp_area mp \<mapsto> A) = as" using A(1) by (simp add: map_upd_triv)
  ultimately show ?thesis
    using buf u A(1) rd by (simp add: usize_sub_def c_def [symmetric])
qed

text \<open>When all addresses lie in the remaining mappings, the loop fills the buffer.\<close>

lemma read_mappings_covered:
  assumes wf: "space_wf S as ph" and "set mps \<subseteq> set (vs_mappings S)" and "mappings_sorted mps"
    and "\<And>q. q \<in> set mps \<Longrightarrow> uaddr < mp_end q"
    and "\<And>va. uaddr \<le> va \<Longrightarrow> va < uaddr + length buf \<Longrightarrow> \<exists>q\<in>set mps. mp_start q \<le> va \<and> va < mp_end q"
  shows "read_mappings as ph uaddr filled buf mps =
    Val (Inr (), filled @ bytes_at S as (ph_mem ph) uaddr (uaddr + length buf), as, ph)"
  using assms(2-)
proof (induction mps arbitrary: uaddr filled buf)
  case Nil
  then have "buf = []" using Nil.prems(4) [of uaddr] by (cases buf) auto
  then show ?case by (simp add: bytes_at_def)
next
  case (Cons mp mps)
  show ?case
  proof (cases "buf = []")
    case True
    then show ?thesis by (simp add: bytes_at_def)
  next
    case False
    define c where "c = min (length buf) (mp_end mp - uaddr)"
    have mp: "mp \<in> set (vs_mappings S)" using Cons.prems(1) by simp
    have end_u: "uaddr < mp_end mp" using Cons.prems(3) by simp
    have srt: "mappings_sorted mps" "\<And>q. q \<in> set mps \<Longrightarrow> mp_end mp \<le> mp_start q"
      using Cons.prems(2) by (auto simp: mappings_sorted_def)
    have start: "mp_start mp \<le> uaddr"
    proof -
      obtain q where "q \<in> set (mp # mps)" "mp_start q \<le> uaddr" "uaddr < mp_end q"
        using Cons.prems(4) [of uaddr] False by auto
      then show ?thesis using srt(2) [of q] end_u by auto
    qed
    have rest: "\<exists>q\<in>set mps. mp_start q \<le> va \<and> va < mp_end q" if va: "uaddr + c \<le> va" "va < uaddr + c + length (drop c buf)" for va
    proof -
      have "mp_end mp \<le> va" using va by (auto simp: c_def min_def split: if_splits)
      moreover obtain q where "q \<in> set (mp # mps)" "mp_start q \<le> va" "va < mp_end q"
        using Cons.prems(4) [of va] va by (auto simp: c_def)
      ultimately show ?thesis by auto
    qed
    have after: "uaddr + c < mp_end q" if "q \<in> set mps" for q
      using srt(2) [OF that] mapping_start_less [OF wf, of q] Cons.prems(1) that end_u by (auto simp: c_def)
    have sub: "set mps \<subseteq> set (vs_mappings S)" using Cons.prems(1) by simp
    have "read_mappings as ph uaddr filled buf (mp # mps) = Val (Inr (), (filled @ bytes_at S as (ph_mem ph) uaddr (uaddr + c))
        @ bytes_at S as (ph_mem ph) (uaddr + c) (uaddr + c + length (drop c buf)), as, ph)"
      unfolding read_mappings_step [OF wf mp start end_u False, folded c_def]
      by (rule Cons.IH [OF sub srt(1) after rest])
    then show ?thesis
      using bytes_at_append [of uaddr "uaddr + c" "uaddr + length buf" S as "ph_mem ph"] by (simp add: c_def)
  qed
qed

text \<open>The binary search finds the mapping of the first address.\<close>

lemma partition_point_find:
  assumes srt: "mappings_sorted mps" and ne: "\<And>q. q \<in> set mps \<Longrightarrow> mp_start q < mp_end q"
    and q: "q \<in> set mps" "mp_start q \<le> uaddr" "uaddr < mp_end q"
  shows "\<exists>i rest. partition_point (\<lambda>mp. mp_start mp \<le> uaddr) mps = Suc i \<and> drop i mps = q # rest"
  using assms
proof (induction mps)
  case (Cons p mps)
  have srt: "mappings_sorted mps" "\<And>r. r \<in> set mps \<Longrightarrow> mp_end p \<le> mp_start r"
    using Cons.prems(1) by (auto simp: mappings_sorted_def)
  show ?case
  proof (cases "q = p")
    case True
    have "takeWhile (\<lambda>mp. mp_start mp \<le> uaddr) mps = []"
      using srt(2) [of "hd mps"] Cons.prems(5) True by (cases mps) auto
    then show ?thesis using True Cons.prems(4) by (simp add: partition_point_def)
  next
    case False
    then have q: "q \<in> set mps" using Cons.prems(3) by simp
    obtain i rest where IH: "partition_point (\<lambda>mp. mp_start mp \<le> uaddr) mps = Suc i" "drop i mps = q # rest"
      using Cons.IH [OF srt(1) _ q Cons.prems(4,5)] Cons.prems(2) by auto
    have "mp_start p \<le> uaddr" using srt(2) [OF q] Cons.prems(2) [of p] Cons.prems(4) by simp
    then show ?thesis using IH by (simp add: partition_point_def)
  qed
qed simp

lemma read_bytes_at:
  assumes wf: "space_wf S as ph" and q: "q \<in> set (vs_mappings S)" "mp_start q \<le> uaddr" "uaddr < mp_end q"
    and buf: "buf \<noteq> []" "uaddr + length buf \<le> USIZE_MAX"
  obtains pre rest where "vs_mappings S = pre @ q # rest"
    and "read_bytes S as ph uaddr buf = read_mappings as ph uaddr [] buf (q # rest)"
proof -
  obtain i rest where i: "partition_point (\<lambda>mp. mp_start mp \<le> uaddr) (vs_mappings S) = Suc i"
    "drop i (vs_mappings S) = q # rest"
    using partition_point_find [OF space_wfD(5) [OF wf] mapping_start_less [OF wf] q] by blast
  have "vs_mappings S = take i (vs_mappings S) @ q # rest" using i(2) by (metis append_take_drop_id)
  moreover have "read_bytes S as ph uaddr buf = read_mappings as ph uaddr [] buf (q # rest)"
    using i buf by (simp add: read_bytes_def uaddr_add_def checked_add_def checked_sub_def del: read_mappings.simps)
  ultimately show thesis by (rule that)
qed

text \<open>Bytes that were visible stay visible when mappings are added.\<close>

lemma area_bytes_byte: "area_bytes B m' = area_bytes A m \<Longrightarrow> va_len B = va_len A \<Longrightarrow> k < va_len A \<Longrightarrow> area_byte B m' k = area_byte A m k"
  using arg_cong [of "area_bytes B m'" "area_bytes A m" "\<lambda>xs. xs ! k"] by (simp add: area_bytes_def)

lemma space_step_byte:
  assumes wf: "space_wf S as ph" and a: "as a = Some A" and st: "space_step (vs_arch S) A ph A' ph'"
    and wf': "space_wf S' (as(a \<mapsto> A')) ph'" and sub: "set (vs_mappings S) \<subseteq> set (vs_mappings S')"
    and b: "space_byte S as (ph_mem ph) va = Some b"
  shows "space_byte S' (as(a \<mapsto> A')) (ph_mem ph') va = Some b"
proof -
  note W = space_wfD [OF wf] and W' = space_wfD [OF wf'] and T = space_stepD [OF st]
  obtain mp B where mp: "mp \<in> set (vs_mappings S)" "mp_start mp \<le> va" "va < mp_end mp" "as (mp_area mp) = Some B"
    "b = area_byte B (ph_mem ph) (va - mp_start mp)" using space_byte_SomeD [OF b] by blast
  define B' where "B' = (if mp_area mp = a then A' else B)"
  have B': "(as(a \<mapsto> A')) (mp_area mp) = Some B'" using mp(4) by (simp add: B'_def)
  have k: "va - mp_start mp < va_len B" using W(6) [OF mp(1)] mp(2-4) by (auto simp: mapping_ok_def)
  have "area_bytes B' (ph_mem ph') = area_bytes B (ph_mem ph)" "va_len B' = va_len B"
    using T(4,9) mp(4) a space_step_areas(3) [where as = as and a = a, OF st a W(3) _ _ mp(4)] W(4) unfolding B'_def by auto
  from area_bytes_byte [OF this k] show ?thesis
    using space_byte_mapping [where as = "as(a \<mapsto> A')", OF W'(5) _ mp(2,3) B'] mp(1,5) sub by auto
qed

lemma mapping_byte:
  assumes "space_wf S as ph" and "q \<in> set (vs_mappings S)" and "mp_start q \<le> va" and "va < mp_end q"
  shows "space_byte S as (ph_mem ph) va \<noteq> None"
  using space_wfD(6) [OF assms(1,2)] space_byte_mapping [where as = as, OF space_wfD(5) [OF assms(1)] assms(2-)]
  by (auto simp: mapping_ok_def)

lemma read_bytes_unmapped:
  assumes "space_wf S as ph" and "buf \<noteq> []" and "space_byte S as (ph_mem ph) uaddr = None"
  shows "read_bytes S as ph uaddr buf = Val (Inl OUT_OF_BOUNDS, buf, as, ph)"
proof -
  have none: "\<not> (mp_start q \<le> uaddr \<and> uaddr < mp_end q)" if "q \<in> set (vs_mappings S)" for q
    using mapping_byte [OF assms(1) that] assms(3) by blast
  have "read_mappings as ph uaddr [] buf (drop i (vs_mappings S)) = Val (Inl OUT_OF_BOUNDS, buf, as, ph)"
    if "i < length (vs_mappings S)" for i
    using none [OF nth_mem [OF that]] assms(2) by (simp add: Cons_nth_drop_Suc [OF that, symmetric])
  then show ?thesis
    using assms(2) length_takeWhile_le [of "\<lambda>mp. mp_start mp \<le> uaddr" "vs_mappings S"]
    by (auto simp: read_bytes_def checked_sub_def partition_point_def split: option.splits)
qed

lemma read_bytes_covered:
  assumes wf: "space_wf S as ph" and ne: "buf \<noteq> []"
    and cov: "\<And>va. uaddr \<le> va \<Longrightarrow> va < uaddr + length buf \<Longrightarrow> space_byte S as (ph_mem ph) va \<noteq> None"
  shows "read_bytes S as ph uaddr buf = Val (Inr (), bytes_at S as (ph_mem ph) uaddr (uaddr + length buf), as, ph)"
proof -
  note W = space_wfD [OF wf]
  have some: "\<exists>q\<in>set (vs_mappings S). mp_start q \<le> va \<and> va < mp_end q" if "uaddr \<le> va" "va < uaddr + length buf" for va
    using cov [OF that] by (metis space_byte_SomeD not_None_eq)
  obtain n where n: "length buf = Suc n" using ne by (cases buf) auto
  obtain q where q: "q \<in> set (vs_mappings S)" "mp_start q \<le> uaddr" "uaddr < mp_end q" using some [of uaddr] n by auto
  obtain l where "l \<in> set (vs_mappings S)" "uaddr + n < mp_end l" using some [of "uaddr + n"] n by auto
  then have "uaddr + length buf \<le> USIZE_MAX" using W(6) [of l] n by (auto simp: mapping_ok_def USIZE_MAX_def)
  from read_bytes_at [OF wf q ne this] obtain pre rest where
    pr: "vs_mappings S = pre @ q # rest" "read_bytes S as ph uaddr buf = read_mappings as ph uaddr [] buf (q # rest)" by blast
  have srt: "mappings_sorted (q # rest)" "\<And>p. p \<in> set pre \<Longrightarrow> mp_end p \<le> mp_start q" "\<And>p. p \<in> set rest \<Longrightarrow> mp_end q \<le> mp_start p"
    using W(5) unfolding pr(1) mappings_sorted_def by (auto simp: sorted_wrt_append)
  have after: "uaddr < mp_end p" if "p \<in> set (q # rest)" for p
    using that q(3) srt(3) mapping_start_less [OF wf, of p] unfolding pr(1) by fastforce
  have covd: "\<exists>p\<in>set (q # rest). mp_start p \<le> va \<and> va < mp_end p" if va: "uaddr \<le> va" "va < uaddr + length buf" for va
    using some [OF va] srt(2) q(2) va(1) unfolding pr(1) by fastforce
  have "set (q # rest) \<subseteq> set (vs_mappings S)" unfolding pr(1) by auto
  from read_mappings_covered [OF wf this srt(1) after covd, of buf "[]"] show ?thesis
    by (simp add: pr(2) del: read_mappings.simps)
qed

section \<open>An address space with one page\<close>

text \<open>Tables at \<open>0x300000 .. 0x304000\<close> that map the page \<open>0x304000\<close> at the user address \<open>0x1000\<close>.\<close>

definition example_root :: memory where
  "example_root = store64 (\<lambda>_. 0) (0x300000 + 8 * 256) (word_of_nat 0x1000 OR PTE_V)"

definition example_pdpt :: memory where "example_pdpt = link example_root 0x300000 0 0x301000"
definition example_pdt :: memory where "example_pdt = link example_pdpt 0x301000 0 0x302000"
definition example_leaf :: memory where "example_leaf = link example_pdt 0x302000 0 0x303000"
definition example_mem :: memory where
  "example_mem = store64 example_leaf (0x303000 + 8 * pt_index 0x1000) (page_pte 0x304000 ATTR_WRITE)"

lemma link_outside: "i < 512 \<Longrightarrow> x \<notin> page_frame t \<Longrightarrow> link m t i n x = m x"
  unfolding link_def by (rule store_outside_frame)

lemma frame_ge: "x \<in> page_frame n \<longleftrightarrow> n \<le> x \<and> x < n + 4096"
  by (auto simp: page_frame_def MIN_PAGE_SIZE_def)

lemma example_zero:
  "x \<ge> 0x301000 \<Longrightarrow> example_root x = 0" "x \<ge> 0x301000 \<Longrightarrow> example_pdpt x = 0"
  "x \<ge> 0x302000 \<Longrightarrow> example_pdt x = 0" "x \<ge> 0x303000 \<Longrightarrow> example_leaf x = 0" "x \<ge> 0x304000 \<Longrightarrow> example_mem x = 0"
proof -
  show r: "example_root x = 0" if "x \<ge> 0x301000" for x
    using that unfolding example_root_def by (subst store_outside_frame) (auto simp: frame_ge)
  show p: "example_pdpt x = 0" if "x \<ge> 0x301000" for x
    using that r unfolding example_pdpt_def by (subst link_outside) (auto simp: frame_ge)
  show d: "example_pdt x = 0" if "x \<ge> 0x302000" for x
    using that p unfolding example_pdt_def by (subst link_outside) (auto simp: frame_ge)
  show l: "example_leaf x = 0" if "x \<ge> 0x303000" for x
    using that d unfolding example_leaf_def by (subst link_outside) (auto simp: frame_ge)
  show "example_mem x = 0" if "x \<ge> 0x304000" for x
    using that l index_less(4) unfolding example_mem_def by (subst store_outside_frame) (auto simp: frame_ge)
qed

lemma zero_entry: "(\<And>x. x \<in> page_frame t \<Longrightarrow> m x = 0) \<Longrightarrow> i < 512 \<Longrightarrow> entry m t i = 0"
  unfolding entry_def using entry_frame [of i t] by (intro load64_zero) auto

lemma linkableI:
  assumes "pt_wf m root av" and "user_path (p @ [i])" and "table_at m root p = Some t" and "entry m t i = 0"
    and "4096 dvd n" and "n + 4096 \<le> DIRECT_MAP_END" and "page_frame n \<subseteq> av" and "\<And>x. x \<in> page_frame n \<Longrightarrow> m x = 0"
  shows "linkable m root av p i t n m"
  using assms by (simp add: linkable_def)

lemma link_user_tables:
  assumes "linkable m root av p i t n m1"
  shows "user_tables (link m1 t i n) root \<subseteq> insert n (user_tables m root)"
  using link_table_at [OF assms] by (auto simp: user_tables_def split: if_splits)

lemma link_next:
  assumes "linkable m root av p i t n m1" and "av' \<subseteq> av" and "page_frame n \<inter> av' = {}"
  shows "pt_wf (link m1 t i n) root av'" and "table_at (link m1 t i n) root (p @ [i]) = Some n"
proof -
  have "av' \<subseteq> av - page_frame n" using assms(2,3) by blast
  then show "pt_wf (link m1 t i n) root av'" by (rule link_wf [OF assms(1)])
  show "table_at (link m1 t i n) root (p @ [i]) = Some n"
    using link_table_at [OF assms(1) linkableD(2) [OF assms(1)]] by simp
qed

lemma example_tables:
  "pt_wf example_leaf 0x300000 {0x100000..<0x200000}" "table_at example_leaf 0x300000 [0, 0, 0] = Some 0x303000"
  "user_tables example_leaf 0x300000 \<subseteq> {0x300000, 0x301000, 0x302000, 0x303000}"
proof -
  let ?av = "\<lambda>n :: nat. {0x100000..<0x200000} \<union> {n..<0x304000}"
  have fr: "page_frame 0x300000 \<inter> ?av 0x301000 = {}" by (auto simp: frame_ge)
  have av: "?av 0x302000 \<subseteq> ?av 0x301000" "page_frame 0x301000 \<inter> ?av 0x302000 = {}"
    "?av 0x303000 \<subseteq> ?av 0x302000" "page_frame 0x302000 \<inter> ?av 0x303000 = {}"
    "{0x100000..<0x200000} \<subseteq> ?av 0x303000" "page_frame 0x303000 \<inter> {0x100000..<0x200000} = {}"
    by (auto simp: frame_ge)
  have r: "pt_wf example_root 0x300000 (?av 0x301000)" "user_tables example_root 0x300000 = {0x300000}"
    unfolding example_root_def by (rule fresh_pml4 [OF _ _ _ fr]; simp add: direct_map_bound)+
  have e0: "entry example_root 0x300000 0 = 0"
    unfolding example_root_def by (subst entry_store_index) (simp_all add: zero_entry)
  have L1: "linkable example_root 0x300000 (?av 0x301000) [] 0 0x300000 0x301000 example_root"
    using example_zero(1) by (intro linkableI r e0) (auto simp: user_path_def frame_ge direct_map_bound)
  have p: "pt_wf example_pdpt 0x300000 (?av 0x302000)" "table_at example_pdpt 0x300000 [0] = Some 0x301000"
    unfolding example_pdpt_def using link_next [OF L1 av(1,2)] by (simp_all del: table_at.simps)
  have L2: "linkable example_pdpt 0x300000 (?av 0x302000) [0] 0 0x301000 0x302000 example_pdpt"
    using example_zero(2) by (intro linkableI p zero_entry) (auto simp: user_path_def frame_ge direct_map_bound)
  have d: "pt_wf example_pdt 0x300000 (?av 0x303000)" "table_at example_pdt 0x300000 [0, 0] = Some 0x302000"
    unfolding example_pdt_def using link_next [OF L2 av(3,4)] by (simp_all del: table_at.simps)
  have L3: "linkable example_pdt 0x300000 (?av 0x303000) [0, 0] 0 0x302000 0x303000 example_pdt"
    using example_zero(3) by (intro linkableI d zero_entry) (auto simp: user_path_def frame_ge direct_map_bound)
  show "pt_wf example_leaf 0x300000 {0x100000..<0x200000}" "table_at example_leaf 0x300000 [0, 0, 0] = Some 0x303000"
    unfolding example_leaf_def using link_next [OF L3 av(5,6)] by (simp_all del: table_at.simps)
  show "user_tables example_leaf 0x300000 \<subseteq> {0x300000, 0x301000, 0x302000, 0x303000}"
    using link_user_tables [OF L1] link_user_tables [OF L2] link_user_tables [OF L3] r(2)
    unfolding example_pdpt_def [symmetric] example_pdt_def [symmetric] example_leaf_def [symmetric] by auto
qed

definition example_phys1 :: phys where
  "example_phys1 = example_ram\<lparr>ph_mem := example_mem\<rparr>"

definition example_space1 :: VmSpace where
  "example_space1 = \<lparr>vs_arch = example_vs,
     vs_mappings = [\<lparr>mp_start = 0x1000, mp_end = 0x2000, mp_area = 7, mp_attrs = ATTR_WRITE\<rparr>]\<rparr>"

definition example_areas1 :: areas where
  "example_areas1 = [7 \<mapsto> \<lparr>va_pages = [Some 0x304000], va_len = 4096\<rparr>]"

lemma example_mem_tables:
  "pt_wf example_mem 0x300000 {0x100000..<0x200000}" "tables_mem example_mem 0x300000 \<subseteq> {0x300000..<0x304000}"
  "user_pte example_mem 0x300000 0x1000 = Some (page_pte 0x304000 ATTR_WRITE)"
proof -
  have va: "(0x1000 :: nat) < 2 ^ 47" by simp
  have t: "table_at example_leaf 0x300000 (va_path 0x1000) = Some 0x303000"
    using example_tables(2) by (simp add: va_path_def index_div)
  note st = leaf_step [OF example_tables(1) va t, of "page_pte 0x304000 ATTR_WRITE", folded example_mem_def]
  show "pt_wf example_mem 0x300000 {0x100000..<0x200000}" using st by (simp add: pt_step_def)
  have "tables_mem example_leaf 0x300000 \<subseteq> {0x300000..<0x304000}"
    using example_tables(3) unfolding tables_mem_def by (fastforce simp: frame_ge)
  then show "tables_mem example_mem 0x300000 \<subseteq> {0x300000..<0x304000}"
    using st unfolding pt_step_def by blast
  show "user_pte example_mem 0x300000 0x1000 = Some (page_pte 0x304000 ATTR_WRITE)"
    using leaf_user_pte [OF example_tables(1) va t page_pte_present va] by (simp add: example_mem_def)
qed

lemma example_space1_wf: "space_wf example_space1 example_areas1 example_phys1"
proof -
  have av: "page_avail example_phys1 = {0x100000..<0x200000}"
    using example_ram_avail by (simp add: example_phys1_def page_avail_def)
  have "arch_vs_wf example_vs example_phys1"
    using example_mem_tables(1) av by (simp add: arch_vs_wf_def example_phys1_def) (simp add: example_vs_def)
  moreover have "phys_wf example_phys1" using example_ram_wf by (simp add: example_phys1_def phys_wf_def)
  moreover have "area_mem \<lparr>va_pages = [Some 0x304000], va_len = 4096\<rparr> \<inter> tables_mem example_mem 0x300000 = {}"
    using example_mem_tables(2) by (fastforce simp: area_mem_def frame_ge)
  moreover have "area_wf \<lparr>va_pages = [Some 0x304000], va_len = 4096\<rparr> example_phys1"
    by (auto simp: area_wf_def av frame_ge MIN_PAGE_SIZE_def USIZE_MAX_def direct_map_bound)
  moreover have "ph_mem example_phys1 = example_mem" by (simp add: example_phys1_def)
  ultimately show ?thesis
    using example_mem_tables(3)
    by (simp add: space_wf_def example_space1_def example_areas1_def areas_wf_def mappings_sorted_def mapping_ok_def
        range_mapped_def ATTR_WRITE_def)
qed

lemma example_byte: "0x1000 \<le> va \<Longrightarrow> va < 0x2000 \<Longrightarrow> space_byte example_space1 example_areas1 example_mem va = Some 0"
  using example_zero(5) by (simp add: space_byte_def example_space1_def example_areas1_def area_byte_def MIN_PAGE_SIZE_def)

text \<open>Every outcome of \<open>map\<close> once the reservation has been answered.\<close>

lemma vmspace_map_result:
  assumes "space_wf S as ph" and "as a = Some A" and "uaddr + va_len A \<le> 2 ^ 47" and "attrs < 8"
  shows "\<exists>r S' as' ph'. vmspace_map (Val ok) S as ph a uaddr attrs = Val (r, S', as', ph') \<and> space_wf S' as' ph'
    \<and> (\<forall>e. map_refusal True S A uaddr = Some e \<longrightarrow> r = Inl e \<and> as' = as \<and> ph' = ph)
    \<and> (r = Inr () \<longrightarrow> (\<forall>k<va_len A. space_byte S' as' (ph_mem ph') (uaddr + k) = Some (area_byte A (ph_mem ph) k)
          \<and> (\<exists>p. mmu (ph_mem ph') (avs_root (vs_arch S')) (uaddr + k) = Some (p, attrs AND ATTR_WRITE \<noteq> 0, True))))
    \<and> (\<forall>va b. space_byte S as (ph_mem ph) va = Some b \<longrightarrow> space_byte S' as' (ph_mem ph') va = Some b)
    \<and> (r \<noteq> Inr () \<longrightarrow> S' = S)
    \<and> (\<forall>va b. space_byte S' as' (ph_mem ph') va = Some b \<longrightarrow>
        (\<exists>p w. mmu (ph_mem ph') (avs_root (vs_arch S')) va = Some (p, w, True) \<and> ph_mem ph' p = b))
    \<and> (\<forall>va<2 ^ 47. va < uaddr \<or> uaddr + va_len A \<le> va \<longrightarrow>
        mmu (ph_mem ph') (avs_root (vs_arch S')) va = mmu (ph_mem ph) (avs_root (vs_arch S)) va)"
proof (cases "map_refusal ok S A uaddr")
  case (Some e)
  moreover have "map_refusal True S A uaddr = Some e' \<Longrightarrow> e' = e" for e' using Some by (auto simp: map_refusal_def split: if_splits)
  ultimately show ?thesis
    using vmspace_map_refused [where as = as and a = a, OF assms(2) Some] assms(1) mapped_byte [OF assms(1)] by simp
next
  case None
  note W = space_wfD [OF assms(1)]
  let ?mp = "\<lparr>mp_start = uaddr, mp_end = uaddr + va_len A, mp_area = a, mp_attrs = attrs\<rparr>"
  have go: "map_refusal True S A uaddr = None" using None by (auto simp: map_refusal_def split: if_splits)
  obtain r S' A' ph' where run: "vmspace_map (Val ok) S as ph a uaddr attrs = Val (r, S', as(a \<mapsto> A'), ph')"
    and wf': "space_wf S' (as(a \<mapsto> A')) ph'" and st: "space_step (vs_arch S) A ph A' ph'"
    and out: "\<forall>w<2 ^ 47. w < uaddr \<or> uaddr + va_len A \<le> w \<longrightarrow>
        user_pte (ph_mem ph') (avs_root (vs_arch S)) w = user_pte (ph_mem ph) (avs_root (vs_arch S)) w"
    and res: "case r of Inl e \<Rightarrow> S' = S \<and> (e = OUT_OF_MEMORY
          \<or> e = ALREADY_EXISTS \<and> range_used (vs_arch S) ph (length (va_pages A)) uaddr)
        | Inr _ \<Rightarrow> S' = S\<lparr>vs_mappings := vec_insert (partition_point (\<lambda>mp. mp_start mp < uaddr) (vs_mappings S)) ?mp (vs_mappings S)\<rparr>"
    using vmspace_map_spec [where as = as and a = a, OF assms(1-4) None] by blast
  note W' = space_wfD [OF wf'] and T = space_stepD [OF st]
  have sub: "set (vs_mappings S) \<subseteq> set (vs_mappings S')" and arch: "vs_arch S' = vs_arch S"
    using res by (cases r; auto simp: set_vec_insert)+
  note keep = space_step_byte [where as = as and a = a, OF assms(1,2) st wf' sub]
  have new: "space_byte S' (as(a \<mapsto> A')) (ph_mem ph') (uaddr + k) = Some (area_byte A (ph_mem ph) k)
      \<and> (\<exists>p. mmu (ph_mem ph') (avs_root (vs_arch S')) (uaddr + k) = Some (p, attrs AND ATTR_WRITE \<noteq> 0, True))"
    if "r = Inr ()" "k < va_len A" for k
  proof -
    have mp: "?mp \<in> set (vs_mappings S')" using res that(1) by (simp add: set_vec_insert)
    from space_byte_mapping [where as = "as(a \<mapsto> A')" and A = A' and va = "uaddr + k", OF W'(5) mp]
      mapping_translates [where as = "as(a \<mapsto> A')" and A = A' and va = "uaddr + k", OF wf' mp]
    show ?thesis using area_bytes_byte [OF T(9,4) that(2)] that(2) by auto
  qed
  have same: "mmu (ph_mem ph') (avs_root (vs_arch S')) va = mmu (ph_mem ph) (avs_root (vs_arch S)) va"
    if va: "va < 2 ^ 47" "va < uaddr \<or> uaddr + va_len A \<le> va" for va
    using mmu_user [OF _ va(1)] W(2) W'(2) arch out va by (auto simp: arch_vs_wf_def)
  have "S' = S" if "r \<noteq> Inr ()" using res that by (cases r) auto
  with run wf' keep new mapped_byte [OF wf'] same go show ?thesis
    by (intro exI [of _ r] exI [of _ S'] exI [of _ "as(a \<mapsto> A')"] exI [of _ ph'] conjI) (simp | blast)+
qed

section \<open>Properties\<close>

text \<open>
  C18. \<open>VmSpace::map\<close> on a well-formed address space, for an area that fits below the end of the lower
  half: it keeps the invariant (the mappings stay sorted and apart, and every page of every mapped area
  is entered in the page tables), and panics only when the reservation for the list of mappings does.
  When it succeeds the area appears at the address: every user access in its range reaches the byte of
  the area, and may write it exactly if the attributes say so. What is mapped in the list is translated, to the
  byte of the area, before and after; outside the range no translation changes. A refused call changes
  nothing; a call that fails while it maps keeps the list of mappings. (The entries that such a
  call made in its own range are not removed by the code, and nothing is stated of them.)
\<close>

theorem vmspace_map_contract:
  assumes "space_wf S as ph" and "as a = Some A" and "uaddr + va_len A \<le> 2 ^ 47" and "attrs < 8" and "reserve \<noteq> Undef"
  shows "vmspace_map reserve S as ph a uaddr attrs = Panic \<and> reserve = Panic \<or>
    (\<exists>r S' as' ph'. vmspace_map reserve S as ph a uaddr attrs = Val (r, S', as', ph') \<and> space_wf S' as' ph'
    \<and> (\<forall>e. map_refusal True S A uaddr = Some e \<longrightarrow> r = Inl e \<and> as' = as \<and> ph' = ph)
    \<and> (r = Inr () \<longrightarrow> (\<forall>k<va_len A. space_byte S' as' (ph_mem ph') (uaddr + k) = Some (area_byte A (ph_mem ph) k)
          \<and> (\<exists>p. mmu (ph_mem ph') (avs_root (vs_arch S')) (uaddr + k) = Some (p, attrs AND ATTR_WRITE \<noteq> 0, True))))
    \<and> (\<forall>va b. space_byte S as (ph_mem ph) va = Some b \<longrightarrow> space_byte S' as' (ph_mem ph') va = Some b)
    \<and> (r \<noteq> Inr () \<longrightarrow> S' = S)
    \<and> (\<forall>va b. space_byte S' as' (ph_mem ph') va = Some b \<longrightarrow>
        (\<exists>p w. mmu (ph_mem ph') (avs_root (vs_arch S')) va = Some (p, w, True) \<and> ph_mem ph' p = b))
    \<and> (\<forall>va<2 ^ 47. va < uaddr \<or> uaddr + va_len A \<le> va \<longrightarrow>
        mmu (ph_mem ph') (avs_root (vs_arch S')) va = mmu (ph_mem ph) (avs_root (vs_arch S)) va))"
proof (cases reserve)
  case Panic
  then show ?thesis
    using vmspace_map_reserve [where as = as and a = a, OF assms(2), of S ph uaddr attrs] assms(1) mapped_byte [OF assms(1)]
    by (cases "map_refusal True S A uaddr") auto
next
  case (Val ok)
  show ?thesis
    unfolding Val by (rule disjI2, rule vmspace_map_result [where as = as and a = a, OF assms(1-4)])
next
  case Undef
  then show ?thesis using assms(5) by simp
qed

definition example_space :: VmSpace where
  "example_space = \<lparr>vs_arch = example_vs, vs_mappings = []\<rparr>"

definition example_areas :: areas where
  "example_areas = [7 \<mapsto> \<lparr>va_pages = [None, None], va_len = 8192\<rparr>]"

lemma example_space_wf: "space_wf example_space example_areas example_pt"
  using example_pt_wf by (auto simp: space_wf_def example_space_def example_areas_def areas_wf_def area_wf_def area_mem_def
      mappings_sorted_def MIN_PAGE_SIZE_def USIZE_MAX_def less_Suc_eq)

theorem vmspace_map_contract_witness:
  "\<exists>r S' as' ph'. vmspace_map (Val True) example_space example_areas example_pt 7 0x400000 ATTR_WRITE = Val (r, S', as', ph')
     \<and> space_wf S' as' ph'"
  using vmspace_map_contract [OF example_space_wf, of 7 "\<lparr>va_pages = [None, None], va_len = 8192\<rparr>" "0x400000" ATTR_WRITE "Val True"]
  by (auto simp: example_areas_def ATTR_WRITE_def)

text \<open>
  C20. \<open>read_bytes\<close> on a well-formed address space: a range of which every address is mapped is copied
  whole, across mappings, and the result is what user code sees there; an address that is not mapped is
  refused with \<open>OUT_OF_BOUNDS\<close> and the buffer is left alone. Neither case changes the state.
\<close>

theorem read_bytes_contract:
  assumes "space_wf S as ph" and "buf \<noteq> []"
  shows "((\<forall>va. uaddr \<le> va \<and> va < uaddr + length buf \<longrightarrow> space_byte S as (ph_mem ph) va \<noteq> None) \<longrightarrow>
      read_bytes S as ph uaddr buf =
        Val (Inr (), map (\<lambda>va. the (space_byte S as (ph_mem ph) va)) [uaddr..<uaddr + length buf], as, ph))
    \<and> (space_byte S as (ph_mem ph) uaddr = None \<longrightarrow> read_bytes S as ph uaddr buf = Val (Inl OUT_OF_BOUNDS, buf, as, ph))"
  using read_bytes_covered [OF assms] read_bytes_unmapped [OF assms] by (simp add: bytes_at_def)

theorem read_bytes_contract_witness:
  "read_bytes example_space1 example_areas1 example_phys1 0x1ffe [1, 2] = Val (Inr (), [0, 0], example_areas1, example_phys1)
   \<and> read_bytes example_space1 example_areas1 example_phys1 0x2000 [1, 2] = Val (Inl OUT_OF_BOUNDS, [1, 2], example_areas1, example_phys1)"
proof
  have m: "ph_mem example_phys1 = example_mem" by (simp add: example_phys1_def)
  have "space_byte example_space1 example_areas1 example_mem va = Some 0" if "0x1ffe \<le> va" "va < 0x2000" for va
    using example_byte [of va] that by simp
  then show "read_bytes example_space1 example_areas1 example_phys1 0x1ffe [1, 2] = Val (Inr (), [0, 0], example_areas1, example_phys1)"
    using read_bytes_contract [OF example_space1_wf, of "[1, 2]" "0x1ffe"] by (simp add: m upt_rec)
  have "space_byte example_space1 example_areas1 example_mem 0x2000 = None" by (simp add: space_byte_def example_space1_def)
  then show "read_bytes example_space1 example_areas1 example_phys1 0x2000 [1, 2] =
      Val (Inl OUT_OF_BOUNDS, [1, 2], example_areas1, example_phys1)"
    using read_bytes_contract [OF example_space1_wf, of "[1, 2]" "0x2000"] by (simp add: m)
qed

text \<open>
  C21. \<open>read_bytes\<close> does not notice that the mappings end before the buffer does: a read that runs over
  the end of the last mapping reports success with only the mapped part copied and the rest of the
  buffer as it was.
\<close>

theorem read_bytes_short:
  assumes "space_wf S as ph" and "vs_mappings S = mps @ [mp]" and "mp_start mp \<le> uaddr" and "uaddr < mp_end mp"
    and "mp_end mp < uaddr + length buf" and "uaddr + length buf \<le> USIZE_MAX"
  shows "read_bytes S as ph uaddr buf =
    Val (Inr (), bytes_at S as (ph_mem ph) uaddr (mp_end mp) @ drop (mp_end mp - uaddr) buf, as, ph)"
proof -
  have mp: "mp \<in> set (vs_mappings S)" using assms(2) by simp
  have ne: "buf \<noteq> []" using assms(4,5) by auto
  obtain pre rest where pr: "vs_mappings S = pre @ mp # rest"
    "read_bytes S as ph uaddr buf = read_mappings as ph uaddr [] buf (mp # rest)"
    using read_bytes_at [OF assms(1) mp assms(3,4) ne assms(6)] by blast
  have "rest = []"
  proof (rule ccontr)
    assume "rest \<noteq> []"
    then have "mp \<in> set rest" using pr(1) assms(2) by (metis append_is_Nil_conv last_ConsR last_append last_in_set last_snoc list.distinct(1))
    then have "mp_end mp \<le> mp_start mp"
      using space_wfD(5) [OF assms(1)] unfolding pr(1) mappings_sorted_def by (simp add: sorted_wrt_append)
    then show False using assms(3,4) by simp
  qed
  moreover have "min (length buf) (mp_end mp - uaddr) = mp_end mp - uaddr" using assms(5) by linarith
  ultimately show ?thesis
    using read_mappings_step [OF assms(1) mp assms(3,4) ne, of "[]" rest] pr(2) assms(4)
    by (simp del: read_mappings.simps(2))
qed

theorem read_bytes_short_witness:
  "read_bytes example_space1 example_areas1 example_phys1 0x1ffe [1, 2, 3, 4] =
     Val (Inr (), [0, 0, 3, 4], example_areas1, example_phys1)"
proof -
  have "bytes_at example_space1 example_areas1 example_mem 0x1ffe 0x2000 = [0, 0]"
    using example_byte [of "0x1ffe"] example_byte [of "0x1fff"] by (simp add: bytes_at_def upt_rec)
  then show ?thesis
    using read_bytes_short [OF example_space1_wf, of "[]" "\<lparr>mp_start = 0x1000, mp_end = 0x2000, mp_area = 7, mp_attrs = ATTR_WRITE\<rparr>"
        "0x1ffe" "[1, 2, 3, 4]"]
    by (simp add: example_space1_def example_phys1_def USIZE_MAX_def)
qed

end
