(* ===== verification/Elf.thy ===== *)
theory Elf
  imports Bytes
begin

text \<open>
  \<open>libs/rust/ftl_elf/src/lib.rs\<close>: ELF headers and their parser. The parser casts pointers into the
  file: headers are decoded from the bytes at their place, and a cast of a pointer that is not
  aligned for its type is undefined. \<open>addr\<close> is the address at which the file lies.
\<close>

definition EM_NATIVE :: nat where "EM_NATIVE = 62"
definition ET_EXEC :: nat where "ET_EXEC = 2"
definition ET_DYN :: nat where "ET_DYN = 3"

datatype PhdrType = PT_Null | PT_Load | PT_Dynamic | PT_Interp | PT_Note | PT_ShLib | PT_Phdr | PT_Tls

fun phdr_type_as_u32 :: "PhdrType \<Rightarrow> nat" where
  "phdr_type_as_u32 PT_Null = 0"
| "phdr_type_as_u32 PT_Load = 1"
| "phdr_type_as_u32 PT_Dynamic = 2"
| "phdr_type_as_u32 PT_Interp = 3"
| "phdr_type_as_u32 PT_Note = 4"
| "phdr_type_as_u32 PT_ShLib = 5"
| "phdr_type_as_u32 PT_Phdr = 6"
| "phdr_type_as_u32 PT_Tls = 7"

definition DT_NULL :: nat where "DT_NULL = 0"
definition DT_RELA :: nat where "DT_RELA = 7"
definition DT_RELASZ :: nat where "DT_RELASZ = 8"
definition R_X86_64_RELATIVE :: nat where "R_X86_64_RELATIVE = 8"

record Ehdr =
  e_ident :: "u8 list"
  e_type :: nat
  e_machine :: nat
  e_version :: nat
  e_entry :: nat
  e_phoff :: nat
  e_shoff :: nat
  e_flags :: nat
  e_ehsize :: nat
  e_phentsize :: nat
  e_phnum :: nat
  e_shentsize :: nat
  e_shnum :: nat
  e_shstrndx :: nat

record Phdr64 =
  p_type :: nat
  p_flags :: nat
  p_offset :: nat
  p_vaddr :: nat
  p_paddr :: nat
  p_filesz :: nat
  p_memsz :: nat
  p_align :: nat

record Dyn64 =
  d_tag :: nat
  d_val :: nat

record Rela64 =
  r_offset :: nat
  r_info :: nat
  r_addend :: nat

definition EHDR_SIZE :: usize where "EHDR_SIZE = 64"
definition PHDR_SIZE :: usize where "PHDR_SIZE = 56"
definition DYN_SIZE :: usize where "DYN_SIZE = 16"
definition RELA_SIZE :: usize where "RELA_SIZE = 24"

text \<open>The value of an integer of \<open>n\<close> bytes at an offset, and the layouts of \<open>repr(C)\<close>.\<close>

definition field :: "u8 list \<Rightarrow> usize \<Rightarrow> nat \<Rightarrow> nat" where
  "field bs off n = le_nat (take n (drop off bs))"

definition ehdr_at :: "u8 list \<Rightarrow> Ehdr" where
  "ehdr_at bs = \<lparr>e_ident = take 16 bs, e_type = field bs 16 2, e_machine = field bs 18 2, e_version = field bs 20 4,
     e_entry = field bs 24 8, e_phoff = field bs 32 8, e_shoff = field bs 40 8, e_flags = field bs 48 4,
     e_ehsize = field bs 52 2, e_phentsize = field bs 54 2, e_phnum = field bs 56 2, e_shentsize = field bs 58 2,
     e_shnum = field bs 60 2, e_shstrndx = field bs 62 2\<rparr>"

definition phdr_at :: "u8 list \<Rightarrow> usize \<Rightarrow> Phdr64" where
  "phdr_at bs off = \<lparr>p_type = field bs off 4, p_flags = field bs (off + 4) 4, p_offset = field bs (off + 8) 8,
     p_vaddr = field bs (off + 16) 8, p_paddr = field bs (off + 24) 8, p_filesz = field bs (off + 32) 8,
     p_memsz = field bs (off + 40) 8, p_align = field bs (off + 48) 8\<rparr>"

definition dyn_at :: "u8 list \<Rightarrow> usize \<Rightarrow> Dyn64" where
  "dyn_at bs off = \<lparr>d_tag = field bs off 8, d_val = field bs (off + 8) 8\<rparr>"

definition rela_at :: "u8 list \<Rightarrow> usize \<Rightarrow> Rela64" where
  "rela_at bs off = \<lparr>r_offset = field bs off 8, r_info = field bs (off + 8) 8, r_addend = field bs (off + 16) 8\<rparr>"

definition r_sym :: "Rela64 \<Rightarrow> nat" where
  "r_sym r = r_info r div 2 ^ 32"

definition r_type :: "Rela64 \<Rightarrow> nat" where
  "r_type r = r_info r mod 2 ^ 32"

definition readable :: "Phdr64 \<Rightarrow> bool" where "readable p \<longleftrightarrow> p_flags p AND 4 \<noteq> 0"
definition writable :: "Phdr64 \<Rightarrow> bool" where "writable p \<longleftrightarrow> p_flags p AND 2 \<noteq> 0"
definition executable :: "Phdr64 \<Rightarrow> bool" where "executable p \<longleftrightarrow> p_flags p AND 1 \<noteq> 0"

datatype ParseError = BufferTooShort | InvalidMagic | InvalidEtype | InvalidMachine | InvalidEhdrSize | InvalidPhdrSize

record Elf =
  elf_ehdr :: Ehdr
  elf_phdrs :: "Phdr64 list"

definition phdrs_at :: "u8 list \<Rightarrow> usize \<Rightarrow> nat \<Rightarrow> Phdr64 list" where
  "phdrs_at buf off n = map (\<lambda>i. phdr_at buf (off + PHDR_SIZE * i)) [0..<n]"

definition elf_parse :: "usize \<Rightarrow> u8 list \<Rightarrow> nat \<Rightarrow> (ParseError + Elf) exec" where
  "elf_parse addr buf expected_type =
     (if length buf < EHDR_SIZE then Val (Inl BufferTooShort)
      else if \<not> 8 dvd addr then Undef
      else
        let ehdr = ehdr_at buf in
        if take 4 (e_ident ehdr) \<noteq> [0x7f, 0x45, 0x4c, 0x46] then Val (Inl InvalidMagic)
        else if e_type ehdr \<noteq> expected_type then Val (Inl InvalidEtype)
        else if e_machine ehdr \<noteq> EM_NATIVE then Val (Inl InvalidMachine)
        else if e_ehsize ehdr \<noteq> EHDR_SIZE then Val (Inl InvalidEhdrSize)
        else if e_phentsize ehdr \<noteq> PHDR_SIZE then Val (Inl InvalidPhdrSize)
        else
          exec_bind (usize_mul (e_phnum ehdr) PHDR_SIZE) (\<lambda>phdrs_size.
          exec_bind (usize_add (e_phoff ehdr) phdrs_size) (\<lambda>limit.
            if length buf < limit then Val (Inl BufferTooShort)
            else if \<not> 8 dvd (addr + e_phoff ehdr) then Undef
            else Val (Inr \<lparr>elf_ehdr = ehdr, elf_phdrs = phdrs_at buf (e_phoff ehdr) (e_phnum ehdr)\<rparr>))))"

section \<open>Fields\<close>

lemma field_less: "field bs off n < 256 ^ n"
proof -
  have "field bs off n < 256 ^ length (take n (drop off bs))" unfolding field_def by (rule le_nat_less)
  also have "\<dots> \<le> 256 ^ n" by (intro power_increasing) simp_all
  finally show ?thesis .
qed

lemma ehdr_bounds: "e_phnum (ehdr_at bs) < 2 ^ 16" "e_phoff (ehdr_at bs) < 2 ^ 64" "e_entry (ehdr_at bs) < 2 ^ 64"
  using field_less [of bs 56 2] field_less [of bs 32 8] field_less [of bs 24 8] by (simp_all add: ehdr_at_def)

lemma field_append: "field (xs @ ys) (length xs + off) n = field ys off n"
  by (simp add: field_def)

lemma field_here: "v < 256 ^ n \<Longrightarrow> field (nat_le n v @ ys) 0 n = v"
  by (simp add: field_def le_nat_nat_le)

lemma field_skip: "length xs \<le> off \<Longrightarrow> field (xs @ ys) off n = field ys (off - length xs) n"
  by (simp add: field_def)

section \<open>Writing headers\<close>

text \<open>The bytes of headers, for the round trips.\<close>

definition ehdr_bytes :: "Ehdr \<Rightarrow> u8 list" where
  "ehdr_bytes h = e_ident h @ nat_le 2 (e_type h) @ nat_le 2 (e_machine h) @ nat_le 4 (e_version h) @ nat_le 8 (e_entry h)
     @ nat_le 8 (e_phoff h) @ nat_le 8 (e_shoff h) @ nat_le 4 (e_flags h) @ nat_le 2 (e_ehsize h) @ nat_le 2 (e_phentsize h)
     @ nat_le 2 (e_phnum h) @ nat_le 2 (e_shentsize h) @ nat_le 2 (e_shnum h) @ nat_le 2 (e_shstrndx h)"

definition phdr_bytes :: "Phdr64 \<Rightarrow> u8 list" where
  "phdr_bytes p = nat_le 4 (p_type p) @ nat_le 4 (p_flags p) @ nat_le 8 (p_offset p) @ nat_le 8 (p_vaddr p)
     @ nat_le 8 (p_paddr p) @ nat_le 8 (p_filesz p) @ nat_le 8 (p_memsz p) @ nat_le 8 (p_align p)"

definition ehdr_wf :: "Ehdr \<Rightarrow> bool" where
  "ehdr_wf h \<longleftrightarrow> length (e_ident h) = 16 \<and> e_type h < 2 ^ 16 \<and> e_machine h < 2 ^ 16 \<and> e_version h < 2 ^ 32
     \<and> e_entry h < 2 ^ 64 \<and> e_phoff h < 2 ^ 64 \<and> e_shoff h < 2 ^ 64 \<and> e_flags h < 2 ^ 32 \<and> e_ehsize h < 2 ^ 16
     \<and> e_phentsize h < 2 ^ 16 \<and> e_phnum h < 2 ^ 16 \<and> e_shentsize h < 2 ^ 16 \<and> e_shnum h < 2 ^ 16 \<and> e_shstrndx h < 2 ^ 16"

definition phdr_wf :: "Phdr64 \<Rightarrow> bool" where
  "phdr_wf p \<longleftrightarrow> p_type p < 2 ^ 32 \<and> p_flags p < 2 ^ 32 \<and> p_offset p < 2 ^ 64 \<and> p_vaddr p < 2 ^ 64 \<and> p_paddr p < 2 ^ 64
     \<and> p_filesz p < 2 ^ 64 \<and> p_memsz p < 2 ^ 64 \<and> p_align p < 2 ^ 64"

lemma length_ehdr_bytes: "ehdr_wf h \<Longrightarrow> length (ehdr_bytes h) = EHDR_SIZE"
  by (simp add: ehdr_bytes_def ehdr_wf_def EHDR_SIZE_def)

lemma length_phdr_bytes [simp]: "length (phdr_bytes p) = PHDR_SIZE"
  by (simp add: phdr_bytes_def PHDR_SIZE_def)

lemma ehdr_at_bytes: "ehdr_wf h \<Longrightarrow> ehdr_at (ehdr_bytes h @ rest) = h"
  by (cases h) (simp add: ehdr_at_def ehdr_bytes_def ehdr_wf_def field_skip field_here)

lemma phdr_at_bytes: "phdr_wf p \<Longrightarrow> phdr_at (phdr_bytes p @ rest) 0 = p"
  by (cases p) (simp add: phdr_at_def phdr_bytes_def phdr_wf_def field_skip field_here)

lemma phdr_at_append: "phdr_at (xs @ ys) (length xs + off) = phdr_at ys off"
  by (simp add: phdr_at_def field_append [of xs ys, symmetric] add.assoc)

lemma phdrs_at_bytes:
  "\<forall>p\<in>set ps. phdr_wf p \<Longrightarrow> phdrs_at (xs @ concat (map phdr_bytes ps) @ rest) (length xs) (length ps) = ps"
proof (induction ps arbitrary: xs)
  case Nil
  then show ?case by (simp add: phdrs_at_def)
next
  case (Cons p ps)
  let ?buf = "xs @ concat (map phdr_bytes (p # ps)) @ rest"
  have "phdrs_at ?buf (length xs) (length (p # ps)) =
      phdr_at ?buf (length xs) # map (\<lambda>i. phdr_at ?buf (length xs + PHDR_SIZE * Suc i)) [0..<length ps]"
    by (simp add: phdrs_at_def upt_conv_Cons map_Suc_upt [symmetric] del: upt_Suc)
  moreover have "phdr_at ?buf (length xs) = p"
    using phdr_at_append [of xs "concat (map phdr_bytes (p # ps)) @ rest" 0] phdr_at_bytes Cons.prems by simp
  moreover have "map (\<lambda>i. phdr_at ?buf (length xs + PHDR_SIZE * Suc i)) [0..<length ps] =
      phdrs_at ((xs @ phdr_bytes p) @ concat (map phdr_bytes ps) @ rest) (length (xs @ phdr_bytes p)) (length ps)"
    by (simp add: phdrs_at_def add.assoc)
  ultimately show ?case using Cons.IH [of "xs @ phdr_bytes p"] Cons.prems by simp
qed

lemma elf_parse_bytes:
  assumes "ehdr_wf h" and "\<forall>p\<in>set ps. phdr_wf p" and "8 dvd addr"
    and "take 4 (e_ident h) = [0x7f, 0x45, 0x4c, 0x46]" and "e_machine h = EM_NATIVE" and "e_ehsize h = EHDR_SIZE"
    and "e_phentsize h = PHDR_SIZE" and "e_phoff h = EHDR_SIZE" and "e_phnum h = length ps"
  shows "elf_parse addr (ehdr_bytes h @ concat (map phdr_bytes ps) @ rest) (e_type h) = Val (Inr \<lparr>elf_ehdr = h, elf_phdrs = ps\<rparr>)"
proof -
  let ?buf = "ehdr_bytes h @ concat (map phdr_bytes ps) @ rest"
  have len: "length (ehdr_bytes h) = EHDR_SIZE" by (rule length_ehdr_bytes [OF assms(1)])
  have eh: "ehdr_at ?buf = h" by (rule ehdr_at_bytes [OF assms(1)])
  have n: "length ps < 2 ^ 16" using assms(1,9) by (simp add: ehdr_wf_def)
  have size: "length (concat (map phdr_bytes ps)) = length ps * PHDR_SIZE"
    by (induction ps) simp_all
  have "phdrs_at ?buf EHDR_SIZE (length ps) = ps" using phdrs_at_bytes [OF assms(2), of "ehdr_bytes h" rest] len by simp
  moreover have "usize_mul (length ps) PHDR_SIZE = Val (length ps * PHDR_SIZE)"
    "usize_add EHDR_SIZE (length ps * PHDR_SIZE) = Val (EHDR_SIZE + length ps * PHDR_SIZE)"
    using n by (simp_all add: usize_mul_def usize_add_def PHDR_SIZE_def EHDR_SIZE_def USIZE_MAX_def)
  moreover have "8 dvd addr + EHDR_SIZE" using assms(3) by (simp add: EHDR_SIZE_def)
  ultimately show ?thesis
    unfolding elf_parse_def eh Let_def using assms(3-) len size by simp
qed

section \<open>Properties\<close>

text \<open>
  C23. The parser on an aligned file whose program header offset does not make the end of the table
  overflow: it never panics; it accepts exactly the files with the ELF magic, the expected type, the
  native machine, the right header sizes and a program header table inside the file, and then
  returns the headers at their places, every one of them inside the buffer.
\<close>

theorem elf_parse_contract:
  assumes "8 dvd addr" and "8 dvd e_phoff (ehdr_at buf)"
    and "e_phoff (ehdr_at buf) + e_phnum (ehdr_at buf) * PHDR_SIZE \<le> USIZE_MAX"
  shows "\<exists>r. elf_parse addr buf t = Val r
    \<and> (r = Inr E \<longleftrightarrow>
        EHDR_SIZE \<le> length buf \<and> take 4 buf = [0x7f, 0x45, 0x4c, 0x46] \<and> e_type (ehdr_at buf) = t
        \<and> e_machine (ehdr_at buf) = EM_NATIVE \<and> e_ehsize (ehdr_at buf) = EHDR_SIZE \<and> e_phentsize (ehdr_at buf) = PHDR_SIZE
        \<and> e_phoff (ehdr_at buf) + e_phnum (ehdr_at buf) * PHDR_SIZE \<le> length buf
        \<and> elf_ehdr E = ehdr_at buf \<and> length (elf_phdrs E) = e_phnum (ehdr_at buf)
        \<and> (\<forall>i<e_phnum (ehdr_at buf). elf_phdrs E ! i = phdr_at buf (e_phoff (ehdr_at buf) + PHDR_SIZE * i)
             \<and> e_phoff (ehdr_at buf) + PHDR_SIZE * i + PHDR_SIZE \<le> length buf))"
proof -
  let ?h = "ehdr_at buf"
  have mul: "usize_mul (e_phnum ?h) PHDR_SIZE = Val (e_phnum ?h * PHDR_SIZE)"
    and add: "usize_add (e_phoff ?h) (e_phnum ?h * PHDR_SIZE) = Val (e_phoff ?h + e_phnum ?h * PHDR_SIZE)"
    using assms(3) by (simp_all add: usize_mul_def usize_add_def)
  have al: "8 dvd addr + e_phoff ?h" using assms(1,2) by simp
  have magic: "take 4 (e_ident ?h) = take 4 buf" by (simp add: ehdr_at_def)
  have inside: "e_phoff ?h + PHDR_SIZE * i + PHDR_SIZE \<le> length buf"
    if "i < e_phnum ?h" "e_phoff ?h + e_phnum ?h * PHDR_SIZE \<le> length buf" for i
  proof -
    have "PHDR_SIZE * Suc i \<le> e_phnum ?h * PHDR_SIZE" using that(1) by (simp add: PHDR_SIZE_def)
    then show ?thesis using that(2) by simp
  qed
  have E: "E = \<lparr>elf_ehdr = ?h, elf_phdrs = phdrs_at buf (e_phoff ?h) (e_phnum ?h)\<rparr> \<longleftrightarrow> elf_ehdr E = ?h
      \<and> length (elf_phdrs E) = e_phnum ?h \<and> (\<forall>i<e_phnum ?h. elf_phdrs E ! i = phdr_at buf (e_phoff ?h + PHDR_SIZE * i))"
    by (cases E) (auto simp: phdrs_at_def list_eq_iff_nth_eq)
  show ?thesis
    unfolding elf_parse_def Let_def mul exec_bind.simps add magic using assms(1) al inside E by auto
qed

text \<open>
  C24. Writing headers and parsing them: a file that starts with the bytes of a valid ELF header whose
  program header table follows at once is parsed to exactly that header and that table.
\<close>

theorem elf_roundtrip:
  assumes "ehdr_wf h" and "\<forall>p\<in>set ps. phdr_wf p" and "8 dvd addr"
    and "take 4 (e_ident h) = [0x7f, 0x45, 0x4c, 0x46]" and "e_machine h = EM_NATIVE" and "e_ehsize h = EHDR_SIZE"
    and "e_phentsize h = PHDR_SIZE" and "e_phoff h = EHDR_SIZE" and "e_phnum h = length ps"
  shows "elf_parse addr (ehdr_bytes h @ concat (map phdr_bytes ps) @ rest) (e_type h) = Val (Inr \<lparr>elf_ehdr = h, elf_phdrs = ps\<rparr>)"
  by (rule elf_parse_bytes [OF assms])

definition example_ehdr :: "nat \<Rightarrow> nat \<Rightarrow> nat \<Rightarrow> Ehdr" where
  "example_ehdr t phoff n = \<lparr>e_ident = [0x7f, 0x45, 0x4c, 0x46] @ replicate 12 0, e_type = t, e_machine = 62, e_version = 1,
     e_entry = 0x1000, e_phoff = phoff, e_shoff = 0, e_flags = 0, e_ehsize = 64, e_phentsize = 56, e_phnum = n, e_shentsize = 0,
     e_shnum = 0, e_shstrndx = 0\<rparr>"

definition example_phdr :: Phdr64 where
  "example_phdr = \<lparr>p_type = 1, p_flags = 5, p_offset = 0, p_vaddr = 0, p_paddr = 0, p_filesz = 120, p_memsz = 4096, p_align = 8\<rparr>"

theorem elf_roundtrip_witness:
  "elf_parse 0x1000 (ehdr_bytes (example_ehdr 3 64 1) @ concat (map phdr_bytes [example_phdr]) @ [1, 2, 3]) 3 =
     Val (Inr \<lparr>elf_ehdr = example_ehdr 3 64 1, elf_phdrs = [example_phdr]\<rparr>)"
  using elf_roundtrip [of "example_ehdr 3 64 1" "[example_phdr]" "0x1000" "[1, 2, 3]"]
  by (simp add: example_ehdr_def example_phdr_def ehdr_wf_def phdr_wf_def EM_NATIVE_def EHDR_SIZE_def PHDR_SIZE_def)

lemma example_ehdr_at: "t < 2 ^ 16 \<Longrightarrow> phoff < 2 ^ 64 \<Longrightarrow> n < 2 ^ 16 \<Longrightarrow> ehdr_at (ehdr_bytes (example_ehdr t phoff n)) = example_ehdr t phoff n"
  using ehdr_at_bytes [of "example_ehdr t phoff n" "[]"] by (simp add: ehdr_wf_def example_ehdr_def)

theorem elf_parse_contract_witness:
  "\<exists>r. elf_parse 0x1000 (ehdr_bytes (example_ehdr 3 64 1)) 3 = Val r
     \<and> r \<noteq> Inr \<lparr>elf_ehdr = example_ehdr 3 64 1, elf_phdrs = [example_phdr]\<rparr>"
proof -
  let ?E = "\<lparr>elf_ehdr = example_ehdr 3 64 1, elf_phdrs = [example_phdr]\<rparr>"
  have "length (ehdr_bytes (example_ehdr 3 64 1)) = 64"
    using length_ehdr_bytes [of "example_ehdr 3 64 1"] by (simp add: ehdr_wf_def example_ehdr_def EHDR_SIZE_def)
  then show ?thesis
    using elf_parse_contract [of "0x1000" "ehdr_bytes (example_ehdr 3 64 1)" 3 ?E] example_ehdr_at [of 3 64 1]
    by (auto simp: example_ehdr_def USIZE_MAX_def PHDR_SIZE_def)
qed

text \<open>
  A file whose program header offset is close to the end of the address range panics the parser:
  the bound check itself overflows, before any error can be reported.
\<close>

theorem elf_phoff_overflow:
  assumes "8 dvd addr" and "EHDR_SIZE \<le> length buf" and "take 4 (e_ident (ehdr_at buf)) = [0x7f, 0x45, 0x4c, 0x46]"
    and "e_type (ehdr_at buf) = t" and "e_machine (ehdr_at buf) = EM_NATIVE" and "e_ehsize (ehdr_at buf) = EHDR_SIZE"
    and "e_phentsize (ehdr_at buf) = PHDR_SIZE" and "USIZE_MAX < e_phoff (ehdr_at buf) + e_phnum (ehdr_at buf) * PHDR_SIZE"
  shows "elf_parse addr buf t = Panic"
proof -
  have "e_phnum (ehdr_at buf) * PHDR_SIZE \<le> USIZE_MAX"
    using ehdr_bounds(1) [of buf] by (simp add: PHDR_SIZE_def USIZE_MAX_def)
  then show ?thesis using assms by (simp add: elf_parse_def Let_def usize_mul_def usize_add_def)
qed

theorem elf_phoff_overflow_witness:
  "elf_parse 0x1000 (ehdr_bytes (example_ehdr 3 (2 ^ 64 - 8) 1)) 3 = Panic"
proof -
  let ?h = "example_ehdr 3 (2 ^ 64 - 8) 1"
  have "length (ehdr_bytes ?h) = 64"
    using length_ehdr_bytes [of ?h] by (simp add: ehdr_wf_def example_ehdr_def EHDR_SIZE_def)
  moreover have "ehdr_at (ehdr_bytes ?h) = ?h" by (rule example_ehdr_at) simp_all
  ultimately show ?thesis
    using elf_phoff_overflow [of "0x1000" "ehdr_bytes ?h" 3]
    by (simp add: example_ehdr_def EM_NATIVE_def EHDR_SIZE_def PHDR_SIZE_def USIZE_MAX_def)
qed

end
