(* ===== verification/Loader.thy ===== *)
theory Loader
  imports VmArea Elf
begin

text \<open>
  \<open>kernel/src/loader.rs\<close>: loading a position-independent server image. The image is a block of
  zeroed pages that the loader owns, so it is a byte list here that is written to memory when the
  loader returns. Reading a table through a pointer outside the image, or through a pointer that is not
  aligned for its entries, is undefined. \<open>addr\<close> is the address of the ELF file.
\<close>

datatype LoadError = ParseElf | OutOfMemory | BadRelocType | BadRelocOffset | BadRelocSize

record LoadedElf =
  le_image :: VAddr
  le_entry_fn :: VAddr

definition is_load :: "Phdr64 \<Rightarrow> bool" where
  "is_load p \<longleftrightarrow> p_type p = phdr_type_as_u32 PT_Load"

definition is_dynamic :: "Phdr64 \<Rightarrow> bool" where
  "is_dynamic p \<longleftrightarrow> p_type p = phdr_type_as_u32 PT_Dynamic"

definition image_size_step :: "Phdr64 \<Rightarrow> usize \<Rightarrow> usize exec" where
  "image_size_step p image_size =
     (if is_load p then exec_bind (usize_add (p_vaddr p) (p_memsz p)) (\<lambda>limit. Val (max image_size limit)) else Val image_size)"

text \<open>\<open>img[a..b].copy_from_slice(src)\<close> and \<open>img[a..b].fill(0)\<close>.\<close>

definition copy_from_slice :: "u8 list \<Rightarrow> usize \<Rightarrow> usize \<Rightarrow> u8 list \<Rightarrow> u8 list exec" where
  "copy_from_slice img a b src =
     (if a \<le> b \<and> b \<le> length img \<and> length src = b - a then Val (take a img @ src @ drop b img) else Panic)"

definition load_segment :: "u8 list \<Rightarrow> Phdr64 \<Rightarrow> u8 list \<Rightarrow> u8 list exec" where
  "load_segment elf_file p img =
     (if \<not> is_load p then Val img
      else
        exec_bind (usize_add (p_offset p) (p_filesz p)) (\<lambda>src_end.
        exec_bind (slice_index elf_file (p_offset p) src_end) (\<lambda>src.
        exec_bind (usize_add (p_vaddr p) (p_filesz p)) (\<lambda>zeroed_off.
        exec_bind (copy_from_slice img (p_vaddr p) zeroed_off src) (\<lambda>img.
        exec_bind (usize_sub (p_memsz p) (p_filesz p)) (\<lambda>zeroed_len.
          if 0 < zeroed_len
          then exec_bind (usize_add zeroed_off zeroed_len) (\<lambda>zeroed_end.
                 copy_from_slice img zeroed_off zeroed_end (replicate (zeroed_end - zeroed_off) 0))
          else Val img))))))"

text \<open>The loop over the dynamic table stops at \<open>DT_NULL\<close>.\<close>

fun scan_dynamic :: "Dyn64 list \<Rightarrow> usize \<times> usize \<Rightarrow> usize \<times> usize" where
  "scan_dynamic [] st = st"
| "scan_dynamic (d # ds) (rela_addr, rela_size) =
     (if d_tag d = DT_NULL then (rela_addr, rela_size)
      else if d_tag d = DT_RELA then scan_dynamic ds (d_val d, rela_size)
      else if d_tag d = DT_RELASZ then scan_dynamic ds (rela_addr, d_val d)
      else scan_dynamic ds (rela_addr, rela_size))"

text \<open>\<open>slice::from_raw_parts\<close> on the img: entries of \<open>sz\<close> bytes that need 8-byte alignment.\<close>

definition raw_parts_ok :: "u8 list \<Rightarrow> usize \<Rightarrow> usize \<Rightarrow> usize \<Rightarrow> bool" where
  "raw_parts_ok img off n sz \<longleftrightarrow> 8 dvd off \<and> off + n * sz \<le> length img"

definition find_rela :: "u8 list \<Rightarrow> Phdr64 \<Rightarrow> usize \<times> usize \<Rightarrow> (usize \<times> usize) exec" where
  "find_rela img p st =
     (if \<not> is_dynamic p then Val st
      else
        let n = p_memsz p div DYN_SIZE in
        if \<not> raw_parts_ok img (p_vaddr p) n DYN_SIZE then Undef
        else Val (scan_dynamic (map (\<lambda>i. dyn_at img (p_vaddr p + DYN_SIZE * i)) [0..<n]) st))"

fun relocate :: "VAddr \<Rightarrow> nat \<Rightarrow> usize \<Rightarrow> u8 list \<Rightarrow> ((LoadError + unit) \<times> u8 list) exec" where
  "relocate base 0 off img = Val (Inr (), img)"
| "relocate base (Suc n) off img =
     (let rela = rela_at img off; target_off = r_offset rela in
      if r_sym rela \<noteq> 0 then Val (Inl BadRelocType, img)
      else if r_type rela \<noteq> R_X86_64_RELATIVE then Val (Inl BadRelocType, img)
      else case checked_add target_off 8 of
        None \<Rightarrow> Val (Inl BadRelocOffset, img)
      | Some target_end \<Rightarrow>
          if target_end \<le> length img
          then exec_bind (copy_from_slice img target_off target_end (nat_le 8 ((base + r_addend rela) mod 2 ^ 64))) (\<lambda>img.
                 relocate base n (off + RELA_SIZE) img)
          else Val (Inl BadRelocOffset, img))"

definition apply_relocations :: "VAddr \<Rightarrow> usize \<Rightarrow> usize \<Rightarrow> u8 list \<Rightarrow> ((LoadError + unit) \<times> u8 list) exec" where
  "apply_relocations base rela_addr rela_size img =
     (if rela_addr \<noteq> 0 \<and> 0 < rela_size
      then if rela_size mod RELA_SIZE \<noteq> 0 then Val (Inl BadRelocSize, img)
        else if \<not> raw_parts_ok img rela_addr (rela_size div RELA_SIZE) RELA_SIZE then Undef
        else relocate base (rela_size div RELA_SIZE) rela_addr img
      else Val (Inr (), img))"

definition load_elf :: "usize \<Rightarrow> u8 list \<Rightarrow> phys \<Rightarrow> ((LoadError + LoadedElf) \<times> phys) exec" where
  "load_elf addr elf_file ph =
     exec_bind (elf_parse addr elf_file ET_DYN) (\<lambda>r. case r of Inl _ \<Rightarrow> Val (Inl ParseElf, ph)
     | Inr elf \<Rightarrow>
       exec_bind (exec_fold image_size_step (elf_phdrs elf) 0) (\<lambda>image_size.
       exec_bind (align_up image_size MIN_PAGE_SIZE) (\<lambda>image_size.
       exec_bind (page_alloc Zeroed ph image_size) (\<lambda>(r, ph). case r of None \<Rightarrow> Val (Inl OutOfMemory, ph)
       | Some image_paddr \<Rightarrow>
         let image_ptr = paddr2vaddr image_paddr;
             img = mem_read (ph_mem ph) (vaddr2paddr image_ptr) image_size
         in
         exec_bind (exec_fold (load_segment elf_file) (elf_phdrs elf) img) (\<lambda>img.
         exec_bind (exec_fold (find_rela img) (elf_phdrs elf) (0, 0)) (\<lambda>(rela_addr, rela_size).
         exec_bind (apply_relocations image_ptr rela_addr rela_size img) (\<lambda>(r, img).
           let ph = ph\<lparr>ph_mem := mem_write (ph_mem ph) (vaddr2paddr image_ptr) img\<rparr> in
           case r of Inl e \<Rightarrow> Val (Inl e, ph)
           | Inr _ \<Rightarrow>
             if e_entry (elf_ehdr elf) \<le> length img
             then Val (Inr \<lparr>le_image = image_ptr, le_entry_fn = image_ptr + e_entry (elf_ehdr elf)\<rparr>, ph)
             else Undef)))))))"

section \<open>Segments\<close>

lemma copy_from_slice_eq:
  assumes "a + length src \<le> length img"
  shows "copy_from_slice img a (a + length src) src = Val (take a img @ src @ drop (a + length src) img)"
  using assms by (simp add: copy_from_slice_def)

lemma nth_copied:
  assumes "a + length src \<le> length img" and "i < length img"
  shows "(take a img @ src @ drop (a + length src) img) ! i = (if a \<le> i \<and> i < a + length src then src ! (i - a) else img ! i)"
  using assms by (auto simp: nth_append min_def)

lemma length_copied: "a + length src \<le> length img \<Longrightarrow> length (take a img @ src @ drop (a + length src) img) = length img"
  by simp

definition seg_ok :: "u8 list \<Rightarrow> usize \<Rightarrow> Phdr64 \<Rightarrow> bool" where
  "seg_ok file n p \<longleftrightarrow> (is_load p \<longrightarrow> p_offset p + p_filesz p \<le> length file \<and> p_filesz p \<le> p_memsz p \<and> p_vaddr p + p_memsz p \<le> n)"

text \<open>The byte that a segment puts at an offset of the image, if the offset is in the segment.\<close>

definition seg_byte :: "u8 list \<Rightarrow> usize \<Rightarrow> Phdr64 \<Rightarrow> u8 \<Rightarrow> u8" where
  "seg_byte file i p old =
     (if is_load p \<and> p_vaddr p \<le> i \<and> i < p_vaddr p + p_memsz p
      then if i < p_vaddr p + p_filesz p then file ! (p_offset p + (i - p_vaddr p)) else 0
      else old)"

lemma load_segment_ok:
  assumes "seg_ok file n p" and "length img = n" and "n \<le> USIZE_MAX" and "length file \<le> USIZE_MAX"
  shows "\<exists>img'. load_segment file p img = Val img' \<and> length img' = n \<and> (\<forall>i<n. img' ! i = seg_byte file i p (img ! i))"
proof (cases "is_load p")
  case False
  then show ?thesis using assms(2) by (simp add: load_segment_def seg_byte_def)
next
  case True
  then have ok: "p_offset p + p_filesz p \<le> length file" "p_filesz p \<le> p_memsz p" "p_vaddr p + p_memsz p \<le> n"
    using assms(1) by (simp_all add: seg_ok_def)
  define src where "src = take (p_filesz p) (drop (p_offset p) file)"
  have src: "length src = p_filesz p" "slice_index file (p_offset p) (p_offset p + p_filesz p) = Val src"
    using ok(1) by (simp_all add: src_def slice_index_def slice_get_def)
  define img1 where "img1 = take (p_vaddr p) img @ src @ drop (p_vaddr p + length src) img"
  have c1: "copy_from_slice img (p_vaddr p) (p_vaddr p + p_filesz p) src = Val img1"
    using copy_from_slice_eq [of "p_vaddr p" src img] src(1) ok assms(2) by (simp add: img1_def)
  have l1: "length img1 = n" unfolding img1_def using length_copied [of "p_vaddr p" src img] src(1) ok assms(2) by simp
  have n1: "img1 ! i = (if p_vaddr p \<le> i \<and> i < p_vaddr p + p_filesz p then src ! (i - p_vaddr p) else img ! i)" if "i < n" for i
    unfolding img1_def using nth_copied [of "p_vaddr p" src img i] that src(1) ok assms(2) by simp
  define z where "z = replicate (p_memsz p - p_filesz p) (0 :: u8)"
  define img2 where "img2 = take (p_vaddr p + p_filesz p) img1 @ z @ drop (p_vaddr p + p_filesz p + length z) img1"
  have lz: "p_vaddr p + p_filesz p + length z \<le> length img1" using ok l1 by (simp add: z_def)
  have run: "load_segment file p img = Val img2"
    using True ok assms src(2) c1 copy_from_slice_eq [OF lz] l1
    by (simp add: load_segment_def usize_add_def usize_sub_def z_def img2_def)
  have "length img2 = n" unfolding img2_def using length_copied [OF lz] l1 by simp
  moreover have "img2 ! i = seg_byte file i p (img ! i)" if "i < n" for i
    unfolding img2_def using nth_copied [OF lz, of i] n1 [OF that] that l1 True ok
    by (auto simp: seg_byte_def z_def src_def nth_append)
  ultimately show ?thesis using run by blast
qed

definition loaded_image :: "u8 list \<Rightarrow> Phdr64 list \<Rightarrow> usize \<Rightarrow> u8 list" where
  "loaded_image file ps n = map (\<lambda>i. fold (seg_byte file i) ps 0) [0..<n]"

lemma load_segments_ok:
  assumes "\<forall>p\<in>set ps. seg_ok file n p" and "length img = n" and "n \<le> USIZE_MAX" and "length file \<le> USIZE_MAX"
  shows "\<exists>img'. exec_fold (load_segment file) ps img = Val img' \<and> length img' = n
    \<and> (\<forall>i<n. img' ! i = fold (seg_byte file i) ps (img ! i))"
  using assms(1,2)
proof (induction ps arbitrary: img)
  case Nil
  then show ?case by simp
next
  case (Cons p ps)
  obtain img1 where 1: "load_segment file p img = Val img1" "length img1 = n" "\<forall>i<n. img1 ! i = seg_byte file i p (img ! i)"
    using load_segment_ok [of "file" n p img] Cons.prems assms(3,4) by auto
  obtain img2 where 2: "exec_fold (load_segment file) ps img1 = Val img2" "length img2 = n"
    "\<forall>i<n. img2 ! i = fold (seg_byte file i) ps (img1 ! i)"
    using Cons.IH [OF _ 1(2)] Cons.prems by auto
  show ?case using 1 2 by simp
qed

lemma load_zeroed_image:
  assumes "\<forall>p\<in>set ps. seg_ok file n p" and "n \<le> USIZE_MAX" and "length file \<le> USIZE_MAX"
  shows "exec_fold (load_segment file) ps (replicate n 0) = Val (loaded_image file ps n)"
proof -
  obtain img where img: "exec_fold (load_segment file) ps (replicate n 0) = Val img" "length img = n"
    "\<forall>i<n. img ! i = fold (seg_byte file i) ps 0"
    using load_segments_ok [OF assms(1) _ assms(2,3), of "replicate n 0"] by auto
  then have "img = loaded_image file ps n" by (intro nth_equalityI) (simp_all add: loaded_image_def)
  then show ?thesis using img(1) by simp
qed

section \<open>Relocations\<close>

lemma field_cong:
  assumes "length xs = length ys" and "\<And>i. off \<le> i \<Longrightarrow> i < off + n \<Longrightarrow> i < length xs \<Longrightarrow> xs ! i = ys ! i"
  shows "field xs off n = field ys off n"
proof -
  have "take n (drop off xs) = take n (drop off ys)" using assms by (intro nth_equalityI) auto
  then show ?thesis by (simp add: field_def)
qed

lemma rela_at_cong:
  assumes "length xs = length ys" and "\<And>i. off \<le> i \<Longrightarrow> i < off + RELA_SIZE \<Longrightarrow> i < length xs \<Longrightarrow> xs ! i = ys ! i"
  shows "rela_at xs off = rela_at ys off"
  using assms unfolding rela_at_def RELA_SIZE_def by (simp add: field_cong [OF assms(1)])

definition rela_ok :: "usize \<Rightarrow> Rela64 \<Rightarrow> bool" where
  "rela_ok n r \<longleftrightarrow> r_sym r = 0 \<and> r_type r = R_X86_64_RELATIVE \<and> r_offset r + 8 \<le> n"

definition relas :: "u8 list \<Rightarrow> usize \<Rightarrow> nat \<Rightarrow> Rela64 list" where
  "relas img off n = map (\<lambda>i. rela_at img (off + RELA_SIZE * i)) [0..<n]"

lemma relas_Suc: "relas img off (Suc n) = rela_at img off # relas img (off + RELA_SIZE) n"
  by (simp add: relas_def upt_conv_Cons map_Suc_upt [symmetric] add.assoc del: upt_Suc)

text \<open>One relocation applied to the image.\<close>

definition rela_store :: "VAddr \<Rightarrow> Rela64 \<Rightarrow> u8 list \<Rightarrow> u8 list" where
  "rela_store base r img = take (r_offset r) img @ nat_le 8 ((base + r_addend r) mod 2 ^ 64) @ drop (r_offset r + 8) img"

lemma rela_store_nth:
  assumes "r_offset r + 8 \<le> length img"
  shows "length (rela_store base r img) = length img"
    and "i < length img \<Longrightarrow> i < r_offset r \<or> r_offset r + 8 \<le> i \<Longrightarrow> rela_store base r img ! i = img ! i"
    and "field (rela_store base r img) (r_offset r) 8 = (base + r_addend r) mod 2 ^ 64"
proof -
  show "length (rela_store base r img) = length img" using assms by (simp add: rela_store_def)
  show "rela_store base r img ! i = img ! i" if "i < length img" "i < r_offset r \<or> r_offset r + 8 \<le> i"
    using nth_copied [of "r_offset r" "nat_le 8 ((base + r_addend r) mod 2 ^ 64)" img i] that assms by (auto simp: rela_store_def)
  have "length (take (r_offset r) img) = r_offset r" using assms by simp
  then show "field (rela_store base r img) (r_offset r) 8 = (base + r_addend r) mod 2 ^ 64"
    unfolding rela_store_def by (simp add: field_def le_nat_nat_le)
qed

lemma relocate_step:
  assumes "rela_ok (length img) (rela_at img off)" and "length img \<le> USIZE_MAX"
  shows "relocate base (Suc n) off img = relocate base n (off + RELA_SIZE) (rela_store base (rela_at img off) img)"
  using assms copy_from_slice_eq [of "r_offset (rela_at img off)" "nat_le 8 ((base + r_addend (rela_at img off)) mod 2 ^ 64)" img]
  by (simp add: rela_ok_def checked_add_def Let_def rela_store_def)

lemma relocate_bad:
  assumes "\<not> rela_ok (length img) (rela_at img off)" and "length img \<le> USIZE_MAX"
  shows "\<exists>e\<in>{BadRelocType, BadRelocOffset}. relocate base (Suc n) off img = Val (Inl e, img)"
  using assms by (auto simp: rela_ok_def checked_add_def Let_def)

text \<open>Relocation runs to its end, whatever the table holds.\<close>

lemma relocate_total:
  assumes "length img \<le> USIZE_MAX"
  shows "\<exists>r img'. relocate base n off img = Val (r, img') \<and> length img' = length img
    \<and> (case r of Inl e \<Rightarrow> e = BadRelocType \<or> e = BadRelocOffset | Inr _ \<Rightarrow> True)"
  using assms
proof (induction n arbitrary: off img)
  case 0
  then show ?case by simp
next
  case (Suc n)
  show ?case
  proof (cases "rela_ok (length img) (rela_at img off)")
    case True
    then have "length (rela_store base (rela_at img off) img) = length img" by (intro rela_store_nth(1)) (simp add: rela_ok_def)
    then show ?thesis
      using Suc.IH [of "rela_store base (rela_at img off) img" "off + RELA_SIZE"] Suc.prems relocate_step [OF True Suc.prems, of base n]
      by (simp del: relocate.simps)
  next
    case False
    then show ?thesis using relocate_bad [OF False Suc.prems, of base n] by (auto simp del: relocate.simps)
  qed
qed

text \<open>When no target lies in the table itself, the table that is applied is the one in the image.\<close>

definition apart_from_table :: "usize \<Rightarrow> nat \<Rightarrow> Rela64 \<Rightarrow> bool" where
  "apart_from_table off n r \<longleftrightarrow> r_offset r + 8 \<le> off \<or> off + RELA_SIZE * n \<le> r_offset r"

lemma relocate_fold:
  assumes "length img \<le> USIZE_MAX" and "\<forall>r\<in>set (relas img off n). rela_ok (length img) r \<and> apart_from_table off n r"
  shows "relocate base n off img = Val (Inr (), fold (rela_store base) (relas img off n) img)"
  using assms
proof (induction n arbitrary: off img)
  case 0
  then show ?case by (simp add: relas_def)
next
  case (Suc n)
  let ?r = "rela_at img off"
  let ?img = "rela_store base ?r img"
  have r: "rela_ok (length img) ?r" "apart_from_table off (Suc n) ?r" using Suc.prems(2) by (simp_all add: relas_Suc)
  have off: "r_offset ?r + 8 \<le> length img" using r(1) by (simp add: rela_ok_def)
  have same: "relas ?img (off + RELA_SIZE) n = relas img (off + RELA_SIZE) n"
    unfolding relas_def
  proof (rule map_cong [OF refl], rule rela_at_cong)
    show "length ?img = length img" by (rule rela_store_nth(1) [OF off])
    fix i j assume i: "i \<in> set [0..<n]" and j: "off + RELA_SIZE + RELA_SIZE * i \<le> j" "j < off + RELA_SIZE + RELA_SIZE * i + RELA_SIZE"
      "j < length ?img"
    have "RELA_SIZE * Suc i \<le> RELA_SIZE * n" using i by (simp add: RELA_SIZE_def)
    then have "j < r_offset ?r \<or> r_offset ?r + 8 \<le> j"
      using r(2) j(1,2) by (auto simp: apart_from_table_def)
    then show "?img ! j = img ! j" using j(3) rela_store_nth(1,2) [OF off] by simp
  qed
  have "\<forall>r\<in>set (relas ?img (off + RELA_SIZE) n). rela_ok (length ?img) r \<and> apart_from_table (off + RELA_SIZE) n r"
    using Suc.prems(2) unfolding same rela_store_nth(1) [OF off] relas_Suc by (auto simp: apart_from_table_def)
  then show ?case
    using Suc.IH [of ?img "off + RELA_SIZE"] Suc.prems(1) rela_store_nth(1) [OF off] relocate_step [OF r(1) Suc.prems(1), of base n]
    by (simp add: relas_Suc same del: relocate.simps)
qed

section \<open>The whole image\<close>

definition image_end :: "Phdr64 list \<Rightarrow> usize" where
  "image_end ps = fold (\<lambda>p m. if is_load p then max m (p_vaddr p + p_memsz p) else m) ps 0"

definition rela_table :: "u8 list \<Rightarrow> Phdr64 list \<Rightarrow> usize \<times> usize" where
  "rela_table img ps = fold (\<lambda>p st. if is_dynamic p
     then scan_dynamic (map (\<lambda>i. dyn_at img (p_vaddr p + DYN_SIZE * i)) [0..<p_memsz p div DYN_SIZE]) st else st) ps (0, 0)"

lemma image_size_eq:
  assumes "\<forall>p\<in>set ps. is_load p \<longrightarrow> p_vaddr p + p_memsz p \<le> USIZE_MAX"
  shows "exec_fold image_size_step ps k = Val (fold (\<lambda>p m. if is_load p then max m (p_vaddr p + p_memsz p) else m) ps k)"
  using assms by (induction ps arbitrary: k) (auto simp: image_size_step_def usize_add_def)

lemma fold_max_init: "k \<le> fold (\<lambda>p m. if is_load p then max m (p_vaddr p + p_memsz p) else m) ps k"
proof (induction ps arbitrary: k)
  case (Cons q ps)
  have "max k (p_vaddr q + p_memsz q) \<le> fold (\<lambda>p m. if is_load p then max m (p_vaddr p + p_memsz p) else m) ps (max k (p_vaddr q + p_memsz q))"
    by (rule Cons.IH)
  then show ?case using Cons.IH [of k] by simp
qed simp

lemma image_end_ge: "p \<in> set ps \<Longrightarrow> is_load p \<Longrightarrow> p_vaddr p + p_memsz p \<le> image_end ps"
proof -
  assume "p \<in> set ps" "is_load p"
  then have "p_vaddr p + p_memsz p \<le> fold (\<lambda>p m. if is_load p then max m (p_vaddr p + p_memsz p) else m) ps k" for k
  proof (induction ps arbitrary: k)
    case (Cons q ps)
    let ?k = "if is_load q then max k (p_vaddr q + p_memsz q) else k"
    show ?case using Cons fold_max_init [of ?k ps] by (cases "p = q") auto
  qed simp
  then show ?thesis by (simp add: image_end_def)
qed

lemma raw_parts_div: "8 dvd off \<Longrightarrow> off + len \<le> length img \<Longrightarrow> raw_parts_ok img off (len div sz) sz"
  unfolding raw_parts_ok_def by (meson add_left_mono div_times_less_eq_dividend le_trans)

lemma image_end_bound:
  assumes "\<forall>p\<in>set ps. is_load p \<longrightarrow> p_vaddr p + p_memsz p \<le> b"
  shows "image_end ps \<le> b"
proof -
  have "k \<le> b \<Longrightarrow> fold (\<lambda>p m. if is_load p then max m (p_vaddr p + p_memsz p) else m) ps k \<le> b" for k
    using assms by (induction ps arbitrary: k) auto
  then show ?thesis by (simp add: image_end_def)
qed

lemma find_rela_eq:
  assumes "\<forall>p\<in>set ps. is_dynamic p \<longrightarrow> 8 dvd p_vaddr p \<and> p_vaddr p + p_memsz p \<le> length img"
  shows "exec_fold (find_rela img) ps (0, 0) = Val (rela_table img ps)"
proof -
  have "exec_fold (find_rela img) ps st = Val (fold (\<lambda>p st. if is_dynamic p
     then scan_dynamic (map (\<lambda>i. dyn_at img (p_vaddr p + DYN_SIZE * i)) [0..<p_memsz p div DYN_SIZE]) st else st) ps st)" for st
    using assms by (induction ps arbitrary: st) (auto simp: find_rela_def Let_def raw_parts_div)
  then show ?thesis by (simp add: rela_table_def)
qed

definition loadable :: "u8 list \<Rightarrow> Elf \<Rightarrow> bool" where
  "loadable file elf \<longleftrightarrow>
     (let ps = elf_phdrs elf; n = round_up (image_end ps) MIN_PAGE_SIZE; img = loaded_image file ps n in
      length file \<le> USIZE_MAX \<and> 0 < image_end ps \<and> e_entry (elf_ehdr elf) \<le> n
      \<and> (\<forall>p\<in>set ps. is_load p \<longrightarrow> p_offset p + p_filesz p \<le> length file \<and> p_filesz p \<le> p_memsz p
           \<and> p_vaddr p + p_memsz p + MIN_PAGE_SIZE \<le> USIZE_MAX)
      \<and> (\<forall>p\<in>set ps. is_dynamic p \<longrightarrow> 8 dvd p_vaddr p \<and> p_vaddr p + p_memsz p \<le> n)
      \<and> (case rela_table img ps of (a, s) \<Rightarrow> a \<noteq> 0 \<longrightarrow> 0 < s \<longrightarrow> 8 dvd a \<and> a + s \<le> n))"

lemma apply_relocations_total:
  assumes "length img \<le> USIZE_MAX" and "a \<noteq> 0 \<longrightarrow> 0 < s \<longrightarrow> 8 dvd a \<and> a + s \<le> length img"
  shows "\<exists>r img'. apply_relocations base a s img = Val (r, img') \<and> length img' = length img
    \<and> (case r of Inl e \<Rightarrow> e \<in> {BadRelocType, BadRelocOffset, BadRelocSize} | Inr _ \<Rightarrow> True)"
proof -
  have ok: "raw_parts_ok img a (s div RELA_SIZE) RELA_SIZE" if "a \<noteq> 0" "0 < s"
    using assms(2) that by (intro raw_parts_div) auto
  obtain r img' where "relocate base (s div RELA_SIZE) a img = Val (r, img')" "length img' = length img"
    "case r of Inl e \<Rightarrow> e = BadRelocType \<or> e = BadRelocOffset | Inr _ \<Rightarrow> True"
    using relocate_total [OF assms(1)] by blast
  then show ?thesis using ok by (cases r) (auto simp: apply_relocations_def)
qed

definition targets_apart :: "Rela64 list \<Rightarrow> bool" where
  "targets_apart rs \<longleftrightarrow> sorted_wrt (\<lambda>r s. r_offset r + 8 \<le> r_offset s \<or> r_offset s + 8 \<le> r_offset r) rs"

lemma fold_rela_store_length:
  "\<forall>r\<in>set rs. r_offset r + 8 \<le> length img \<Longrightarrow> length (fold (rela_store base) rs img) = length img"
  by (induction rs arbitrary: img) (simp_all add: rela_store_nth(1))

lemma fold_rela_store_other:
  "\<forall>r\<in>set rs. r_offset r + 8 \<le> length img \<Longrightarrow> i < length img \<Longrightarrow> \<forall>r\<in>set rs. i < r_offset r \<or> r_offset r + 8 \<le> i \<Longrightarrow>
     fold (rela_store base) rs img ! i = img ! i"
  by (induction rs arbitrary: img) (simp_all add: rela_store_nth)

lemma fold_rela_store_target:
  assumes "\<forall>r\<in>set rs. r_offset r + 8 \<le> length img" and "targets_apart rs" and "r \<in> set rs"
  shows "field (fold (rela_store base) rs img) (r_offset r) 8 = (base + r_addend r) mod 2 ^ 64"
  using assms
proof (induction rs arbitrary: img)
  case (Cons q rs)
  let ?img = "rela_store base q img"
  have len: "length ?img = length img" using Cons.prems(1) by (simp add: rela_store_nth(1))
  have in_img: "\<forall>r\<in>set rs. r_offset r + 8 \<le> length ?img" using Cons.prems(1) len by simp
  show ?case
  proof (cases "r \<in> set rs")
    case True
    then show ?thesis using Cons.IH [OF in_img] Cons.prems(2) by (simp add: targets_apart_def)
  next
    case False
    then have r: "r = q" using Cons.prems(3) by simp
    have "field (fold (rela_store base) rs ?img) (r_offset r) 8 = field ?img (r_offset r) 8"
    proof (rule field_cong)
      show "length (fold (rela_store base) rs ?img) = length ?img" by (rule fold_rela_store_length [OF in_img])
      fix i assume i: "r_offset r \<le> i" "i < r_offset r + 8"
      have "\<forall>s\<in>set rs. i < r_offset s \<or> r_offset s + 8 \<le> i"
        using Cons.prems(2) i r by (fastforce simp: targets_apart_def)
      moreover have "i < length ?img" using i(2) Cons.prems(1) r len by simp
      ultimately show "fold (rela_store base) rs ?img ! i = ?img ! i" by (rule fold_rela_store_other [OF in_img, rotated])
    qed
    also have "\<dots> = (base + r_addend r) mod 2 ^ 64" using Cons.prems(1) r by (simp add: rela_store_nth(3))
    finally show ?thesis by simp
  qed
qed simp

lemma loadable_sizes:
  assumes "loadable elf_file elf"
  defines "ps \<equiv> elf_phdrs elf" and "n \<equiv> round_up (image_end (elf_phdrs elf)) MIN_PAGE_SIZE"
  defines "img \<equiv> loaded_image elf_file ps n"
  shows "exec_fold image_size_step ps 0 = Val (image_end ps)" and "align_up (image_end ps) MIN_PAGE_SIZE = Val n"
    and "n \<le> USIZE_MAX" and "0 < n" and "MIN_PAGE_SIZE dvd n" and "\<forall>p\<in>set ps. seg_ok elf_file n p"
    and "length img = n" and "exec_fold (find_rela img) ps (0, 0) = Val (rela_table img ps)"
    and "e_entry (elf_ehdr elf) \<le> n" and "length elf_file \<le> USIZE_MAX"
    and "rela_table img ps = (a, s) \<Longrightarrow> a \<noteq> 0 \<longrightarrow> 0 < s \<longrightarrow> 8 dvd a \<and> a + s \<le> n"
proof -
  have L: "length elf_file \<le> USIZE_MAX" "0 < image_end ps" "e_entry (elf_ehdr elf) \<le> n"
    "\<forall>p\<in>set ps. is_load p \<longrightarrow> p_offset p + p_filesz p \<le> length elf_file \<and> p_filesz p \<le> p_memsz p
       \<and> p_vaddr p + p_memsz p + MIN_PAGE_SIZE \<le> USIZE_MAX"
    "\<forall>p\<in>set ps. is_dynamic p \<longrightarrow> 8 dvd p_vaddr p \<and> p_vaddr p + p_memsz p \<le> n"
    using assms(1) unfolding loadable_def Let_def n_def ps_def by auto
  have lim: "image_end ps + MIN_PAGE_SIZE \<le> USIZE_MAX"
    using image_end_bound [of ps "USIZE_MAX - MIN_PAGE_SIZE"] L(4) by (force simp: MIN_PAGE_SIZE_def USIZE_MAX_def)
  show n: "n \<le> USIZE_MAX" "0 < n" "MIN_PAGE_SIZE dvd n"
    using round_up_le [of "image_end ps" MIN_PAGE_SIZE] round_up_ge [OF page_size_pos, of "image_end ps"] lim L(2)
    by (simp_all add: n_def ps_def)
  show "exec_fold image_size_step ps 0 = Val (image_end ps)" unfolding image_end_def using L(4) by (intro image_size_eq) auto
  show "align_up (image_end ps) MIN_PAGE_SIZE = Val n"
    unfolding n_def ps_def by (rule align_up_round [OF is_power_of_two_page lim [unfolded ps_def]])
  have "image_end ps \<le> n" using round_up_ge [OF page_size_pos, of "image_end ps"] by (simp add: n_def ps_def)
  then show "\<forall>p\<in>set ps. seg_ok elf_file n p" using L(4) image_end_ge [of _ ps] by (force simp: seg_ok_def)
  show limg: "length img = n" by (simp add: img_def loaded_image_def)
  show "exec_fold (find_rela img) ps (0, 0) = Val (rela_table img ps)" using find_rela_eq [of ps img] L(5) limg by simp
  show "e_entry (elf_ehdr elf) \<le> n" "length elf_file \<le> USIZE_MAX" using L by simp_all
  show "rela_table img ps = (a, s) \<Longrightarrow> a \<noteq> 0 \<longrightarrow> 0 < s \<longrightarrow> 8 dvd a \<and> a + s \<le> n"
    using assms(1) unfolding loadable_def Let_def n_def img_def ps_def by auto
qed

lemma load_elf_spec:
  assumes "phys_wf ph" and "elf_parse addr elf_file ET_DYN = Val (Inr elf)" and "loadable elf_file elf"
  defines "n \<equiv> round_up (image_end (elf_phdrs elf)) MIN_PAGE_SIZE"
  defines "img \<equiv> loaded_image elf_file (elf_phdrs elf) n"
  shows "\<exists>r ph'. load_elf addr elf_file ph = Val (r, ph') \<and> phys_wf ph' \<and> page_avail ph' \<subseteq> page_avail ph
    \<and> (\<forall>x. x \<notin> page_avail ph \<longrightarrow> ph_mem ph' x = ph_mem ph x)
    \<and> (case r of Inl e \<Rightarrow> e \<noteq> ParseElf
        | Inr L \<Rightarrow> \<exists>p. L = \<lparr>le_image = paddr2vaddr p, le_entry_fn = paddr2vaddr p + e_entry (elf_ehdr elf)\<rparr>
            \<and> MIN_PAGE_SIZE dvd p \<and> {p..<p + n} \<subseteq> page_avail ph - page_avail ph'
            \<and> (case rela_table img (elf_phdrs elf) of (a, s) \<Rightarrow>
                 apply_relocations (paddr2vaddr p) a s img = Val (Inr (), mem_read (ph_mem ph') p n)))"
proof -
  obtain a s where rt: "rela_table img (elf_phdrs elf) = (a, s)" by fastforce
  note sz = loadable_sizes [OF assms(3), folded n_def, folded img_def]
  obtain r ph1 where pg: "page_alloc Zeroed ph n = Val (r, ph1)" "phys_wf ph1"
    using page_alloc_total [OF assms(1) sz(4,5)] by blast
  show ?thesis
  proof (cases r)
    case None
    then have "load_elf addr elf_file ph = Val (Inl OutOfMemory, ph1)"
      using assms(2) sz(1,2) pg(1) by (simp add: load_elf_def)
    then show ?thesis using page_alloc_None [OF assms(1) sz(4,5) pg(1) [unfolded None]] pg(2) by simp
  next
    case (Some p)
    note pa = page_alloc_Some [OF assms(1) sz(4,5) pg(1) [unfolded Some]]
    have p: "p < 2 ^ 47" using pa(4) sz(4) by (simp add: direct_map_bound)
    have zero: "mem_read (ph_mem ph1) p n = replicate n 0" using pa(5) by (intro nth_equalityI) (simp_all add: mem_fill_def)
    obtain r' img' where ar: "apply_relocations (paddr2vaddr p) a s img = Val (r', img')" "length img' = n"
      "case r' of Inl e \<Rightarrow> e \<in> {BadRelocType, BadRelocOffset, BadRelocSize} | Inr _ \<Rightarrow> True"
      using apply_relocations_total [of img a s "paddr2vaddr p"] sz(3,7) sz(11) [OF rt] by auto
    define ph2 where "ph2 = ph1\<lparr>ph_mem := mem_write (ph_mem ph1) p img'\<rparr>"
    have run: "load_elf addr elf_file ph = Val (case r' of Inl e \<Rightarrow> Inl e
        | Inr _ \<Rightarrow> Inr \<lparr>le_image = paddr2vaddr p, le_entry_fn = paddr2vaddr p + e_entry (elf_ehdr elf)\<rparr>, ph2)"
      using assms(2) sz(1,2,8,9) pg(1) Some p zero load_zeroed_image [OF sz(6,3,10)] rt ar
      by (cases r') (simp_all add: load_elf_def Let_def img_def [symmetric] ph2_def)
    have "phys_wf ph2" "page_avail ph2 = page_avail ph1" using pg(2) by (simp_all add: ph2_def phys_wf_def page_avail_def)
    moreover have "ph_mem ph2 x = ph_mem ph x" if "x \<notin> page_avail ph" for x
    proof -
      have "x \<notin> {p..<p + n}" using that pa(1) by blast
      then show ?thesis using pa(5) ar(2) by (auto simp: ph2_def mem_write_def mem_fill_def)
    qed
    moreover have "mem_read (ph_mem ph2) p n = img'" using mem_read_write_same [of "ph_mem ph1" p img'] ar(2) by (simp add: ph2_def)
    ultimately show ?thesis using run pa(1-3) ar rt by (cases r') auto
  qed
qed

section \<open>Properties\<close>

text \<open>
  C22. Loading a server whose segments lie inside the file, whose tables lie inside the image and whose
  entry point is in the image never panics and never reads outside the image. It reports that memory
  ran out or that a relocation is bad; or it returns the address of freshly allocated pages that hold
  the loaded segments, zeros elsewhere, with the relocations applied. Memory that was in use is not
  changed in any case.
\<close>

theorem load_elf_contract:
  assumes "phys_wf ph" and "elf_parse addr elf_file ET_DYN = Val (Inr elf)" and "loadable elf_file elf"
  defines "n \<equiv> round_up (image_end (elf_phdrs elf)) MIN_PAGE_SIZE"
  defines "img \<equiv> loaded_image elf_file (elf_phdrs elf) n"
  shows "\<exists>r ph'. load_elf addr elf_file ph = Val (r, ph') \<and> phys_wf ph' \<and> page_avail ph' \<subseteq> page_avail ph
    \<and> (\<forall>x. x \<notin> page_avail ph \<longrightarrow> ph_mem ph' x = ph_mem ph x)
    \<and> (case r of Inl e \<Rightarrow> e \<noteq> ParseElf
        | Inr L \<Rightarrow> \<exists>p. L = \<lparr>le_image = paddr2vaddr p, le_entry_fn = paddr2vaddr p + e_entry (elf_ehdr elf)\<rparr>
            \<and> MIN_PAGE_SIZE dvd p \<and> {p..<p + n} \<subseteq> page_avail ph - page_avail ph'
            \<and> (case rela_table img (elf_phdrs elf) of (a, s) \<Rightarrow>
                 apply_relocations (paddr2vaddr p) a s img = Val (Inr (), mem_read (ph_mem ph') p n)))"
  using load_elf_spec [OF assms(1-3)] unfolding n_def img_def .

definition example_file :: "u8 list" where
  "example_file = ehdr_bytes (example_ehdr 3 64 1) @ concat (map phdr_bytes [example_phdr]) @ []"

lemma example_file_parse:
  "elf_parse 0x1000 example_file ET_DYN = Val (Inr \<lparr>elf_ehdr = example_ehdr 3 64 1, elf_phdrs = [example_phdr]\<rparr>)"
  using elf_parse_bytes [of "example_ehdr 3 64 1" "[example_phdr]" "0x1000" "[]"] unfolding example_file_def
  by (simp add: example_ehdr_def example_phdr_def ehdr_wf_def phdr_wf_def EM_NATIVE_def EHDR_SIZE_def PHDR_SIZE_def ET_DYN_def)

lemma example_file_length: "length example_file = 120"
  using length_ehdr_bytes [of "example_ehdr 3 64 1"]
  by (simp add: example_file_def ehdr_wf_def example_ehdr_def EHDR_SIZE_def PHDR_SIZE_def)

lemma example_loadable: "loadable example_file \<lparr>elf_ehdr = example_ehdr 3 64 1, elf_phdrs = [example_phdr]\<rparr>"
proof -
  have "image_end [example_phdr] = 4096" by (simp add: image_end_def is_load_def example_phdr_def)
  moreover have "round_up 4096 MIN_PAGE_SIZE = 4096" by (rule round_up_idem) (simp_all add: MIN_PAGE_SIZE_def)
  ultimately show ?thesis
    by (simp add: loadable_def example_file_length is_load_def is_dynamic_def example_phdr_def example_ehdr_def USIZE_MAX_def
        MIN_PAGE_SIZE_def rela_table_def)
qed

theorem load_elf_contract_witness:
  "\<exists>r ph'. load_elf 0x1000 example_file example_ram = Val (r, ph') \<and> phys_wf ph'"
  using load_elf_contract [OF example_ram_wf example_file_parse example_loadable] by blast

text \<open>
  Relocation: when every entry of the table is a relative relocation with its target inside the
  image, and targets overlap neither each other nor the table, \<open>relocate\<close> succeeds, puts the address
  \<open>base + addend\<close> (wrapped to 64 bits) at every target and leaves every other byte as it was.
\<close>

theorem relocate_applies:
  assumes "length img \<le> USIZE_MAX" and "targets_apart (relas img off n)"
    and "\<forall>r\<in>set (relas img off n). rela_ok (length img) r \<and> apart_from_table off n r"
  shows "\<exists>img'. relocate base n off img = Val (Inr (), img') \<and> length img' = length img
    \<and> (\<forall>r\<in>set (relas img off n). field img' (r_offset r) 8 = (base + r_addend r) mod 2 ^ 64)
    \<and> (\<forall>i<length img. (\<forall>r\<in>set (relas img off n). i < r_offset r \<or> r_offset r + 8 \<le> i) \<longrightarrow> img' ! i = img ! i)"
proof -
  have "\<forall>r\<in>set (relas img off n). r_offset r + 8 \<le> length img" using assms(3) by (simp add: rela_ok_def)
  then show ?thesis
    using relocate_fold [OF assms(1,3)] fold_rela_store_length fold_rela_store_target [OF _ assms(2)] fold_rela_store_other
    by simp
qed

definition example_image :: "u8 list" where
  "example_image = replicate 8 0 @ nat_le 8 0 @ nat_le 8 8 @ nat_le 8 0x40"

theorem relocate_applies_witness:
  "\<exists>img'. relocate 0x1000 1 8 example_image = Val (Inr (), img') \<and> field img' 0 8 = 0x1040"
proof -
  have "rela_at example_image 8 = \<lparr>r_offset = 0, r_info = 8, r_addend = 0x40\<rparr>"
    by (simp add: rela_at_def example_image_def field_def le_nat_nat_le)
  then have "relas example_image 8 1 = [\<lparr>r_offset = 0, r_info = 8, r_addend = 0x40\<rparr>]" by (simp add: relas_def)
  moreover have "length example_image = 32" by (simp add: example_image_def)
  ultimately show ?thesis
    using relocate_applies [of example_image 8 1 "0x1000"]
    by (simp add: targets_apart_def rela_ok_def r_sym_def r_type_def R_X86_64_RELATIVE_def apart_from_table_def USIZE_MAX_def
        del: relocate.simps) blast
qed

end
