(* ===== verification/Initfs.thy ===== *)
theory Initfs
  imports Memory
begin

text \<open>
  \<open>kernel/src/initfs.rs\<close>: the iterator over the files of a CPIO archive (new ASCII format) in a boot
  module. \<open>files\<close> is the \<open>for\<close> loop over it. The other direction, \<open>cpio_archive\<close>, is the documented
  format that \<open>struct CpioHeader\<close> refers to: headers with any metadata, hexadecimal digits of either
  case, padding to four bytes, a trailer entry and anything after it.
\<close>

section \<open>The reader\<close>

definition CPIO_HEADER_SIZE :: usize where "CPIO_HEADER_SIZE = 110"
definition FILESIZE_OFFSET :: usize where "FILESIZE_OFFSET = 54"
definition NAMESIZE_OFFSET :: usize where "NAMESIZE_OFFSET = 94"

definition hex_digit :: "u8 \<Rightarrow> nat option" where
  "hex_digit byte =
     (if 0x30 \<le> byte \<and> byte \<le> 0x39 then Some (unat (byte - 0x30))
      else if 0x61 \<le> byte \<and> byte \<le> 0x66 then Some (unat (byte - 0x61 + 10))
      else if 0x41 \<le> byte \<and> byte \<le> 0x46 then Some (unat (byte - 0x41 + 10))
      else None)"

fun parse_hex_loop :: "u8 list \<Rightarrow> usize \<Rightarrow> usize option exec" where
  "parse_hex_loop [] v = Val (Some v)"
| "parse_hex_loop (b # bs) v =
     (case hex_digit b of None \<Rightarrow> Val None
      | Some digit \<Rightarrow>
          exec_bind (usize_mul v 16) (\<lambda>v. exec_bind (usize_add v digit) (\<lambda>v. parse_hex_loop bs v)))"

definition parse_hex :: "u8 list \<Rightarrow> usize option exec" where
  "parse_hex s = parse_hex_loop s 0"

record File =
  file_name :: "u8 list"
  file_data :: "u8 list"

record InitFsLoader =
  fs_file :: "u8 list"
  fs_offset :: usize

definition initfs_new :: "phys \<Rightarrow> Module \<Rightarrow> InitFsLoader" where
  "initfs_new ph md =
     (let start = paddr2vaddr (mod_start md); limit = paddr2vaddr (mod_end md); len = saturating_sub limit start in
      \<lparr>fs_file = mem_read (ph_mem ph) (vaddr2paddr start) len, fs_offset = 0\<rparr>)"

text \<open>\<open>slice.get(a..a + n)?\<close>: the iterator ends when the range is not in the slice.\<close>

definition get_or_end :: "InitFsLoader \<Rightarrow> usize \<Rightarrow> usize \<Rightarrow> (u8 list \<Rightarrow> (File option \<times> InitFsLoader) exec)
    \<Rightarrow> (File option \<times> InitFsLoader) exec" where
  "get_or_end L a n k =
     exec_bind (usize_add a n) (\<lambda>b. case slice_get (fs_file L) a b of None \<Rightarrow> Val (None, L) | Some xs \<Rightarrow> k xs)"

definition hex_or_end :: "InitFsLoader \<Rightarrow> u8 list \<Rightarrow> (usize \<Rightarrow> (File option \<times> InitFsLoader) exec)
    \<Rightarrow> (File option \<times> InitFsLoader) exec" where
  "hex_or_end L bs k = exec_bind (parse_hex bs) (\<lambda>r. case r of None \<Rightarrow> Val (None, L) | Some v \<Rightarrow> k v)"

definition strip_nul :: "u8 list \<Rightarrow> u8 list" where
  "strip_nul name = (if name \<noteq> [] \<and> last name = 0 then butlast name else name)"

definition initfs_next :: "InitFsLoader \<Rightarrow> (File option \<times> InitFsLoader) exec" where
  "initfs_next L =
     (let offset = fs_offset L in
      get_or_end L offset 6 (\<lambda>magic.
        if magic \<noteq> [0x30, 0x37, 0x30, 0x37, 0x30, 0x31] then Val (None, L)
        else
          exec_bind (usize_add offset NAMESIZE_OFFSET) (\<lambda>namesize_offset.
          get_or_end L namesize_offset 8 (\<lambda>namesize_bytes.
          hex_or_end L namesize_bytes (\<lambda>namesize.
          exec_bind (usize_add offset FILESIZE_OFFSET) (\<lambda>filesize_offset.
          get_or_end L filesize_offset 8 (\<lambda>filesize_bytes.
          hex_or_end L filesize_bytes (\<lambda>filesize.
          exec_bind (usize_add offset CPIO_HEADER_SIZE) (\<lambda>name_offset.
          get_or_end L name_offset namesize (\<lambda>name.
            let name = strip_nul name in
            if name = [0x54, 0x52, 0x41, 0x49, 0x4c, 0x45, 0x52, 0x21, 0x21, 0x21] then Val (None, L)
            else
              exec_bind (usize_add name_offset namesize) (\<lambda>name_end.
              exec_bind (align_up name_end 4) (\<lambda>data_offset.
              get_or_end L data_offset filesize (\<lambda>data.
              exec_bind (usize_add data_offset filesize) (\<lambda>data_end.
              exec_bind (align_up data_end 4) (\<lambda>offset.
                Val (Some \<lparr>file_name = name, file_data = data\<rparr>, L\<lparr>fs_offset := offset\<rparr>))))))))))))))))"

section \<open>Hexadecimal numbers\<close>

lemma hex_digit_less: "hex_digit b = Some d \<Longrightarrow> d < 16"
  by (auto simp: hex_digit_def word_le_nat_alt unat_sub unat_word_ariths split: if_splits)

lemma parse_hex_total:
  assumes "v < 16 ^ k" and "k + length bs \<le> 16"
  shows "\<exists>r. parse_hex_loop bs v = Val r \<and> (\<forall>x. r = Some x \<longrightarrow> x < 16 ^ (k + length bs))"
  using assms
proof (induction bs arbitrary: v k)
  case Nil
  then show ?case by simp
next
  case (Cons b bs)
  show ?case
  proof (cases "hex_digit b")
    case None
    then show ?thesis by simp
  next
    case (Some d)
    have d: "d < 16" by (rule hex_digit_less [OF Some])
    have lt: "v * 16 + d < 16 ^ Suc k" using Cons.prems(1) d by simp
    have "(16 :: nat) ^ Suc k \<le> 16 ^ 16" using Cons.prems(2) by (intro power_increasing) simp_all
    then have "v * 16 + d \<le> USIZE_MAX" using lt by (simp add: USIZE_MAX_def)
    then show ?thesis
      using Some Cons.IH [OF lt] Cons.prems(2) by (auto simp: usize_mul_def usize_add_def)
  qed
qed

lemma parse_hex_8: "length bs = 8 \<Longrightarrow> \<exists>r. parse_hex bs = Val r \<and> (\<forall>x. r = Some x \<longrightarrow> x < 2 ^ 32)"
  using parse_hex_total [of 0 0 bs] by (simp add: parse_hex_def)

section \<open>The iterator moves forward\<close>

lemma get_or_end_Some:
  "get_or_end L a n k = Val (Some f, L') \<longleftrightarrow>
     a + n \<le> USIZE_MAX \<and> a + n \<le> length (fs_file L) \<and> k (take n (drop a (fs_file L))) = Val (Some f, L')"
  by (auto simp: get_or_end_def usize_add_def slice_get_def)

lemma hex_or_end_Some:
  "hex_or_end L bs k = Val (Some f, L') \<longleftrightarrow> (\<exists>v. parse_hex bs = Val (Some v) \<and> k v = Val (Some f, L'))"
  by (auto simp: hex_or_end_def exec_bind_Val_iff split: option.splits)

lemma four_power: "is_power_of_two 4"
  using is_power_of_two_pow [of 2] by simp

lemma align_up_4: "align_up v 4 = (if v + 4 \<le> USIZE_MAX then Val (round_up v 4) else Panic)"
  using align_up_round [OF four_power, of v] align_up_overflow [OF four_power, of v] by (simp add: not_le)

lemma if_name_Some: "(if c then Val (None, L) else k) = Val (Some f, L') \<longleftrightarrow> \<not> c \<and> k = Val (Some f, L')"
  by auto

lemma initfs_next_parts:
  assumes "initfs_next L = Val (Some f, L')"
  obtains namesize data_offset where "data_offset = round_up (fs_offset L + CPIO_HEADER_SIZE + namesize) 4"
    and "data_offset + length (file_data f) \<le> length (fs_file L)" and "fs_offset L' = round_up (data_offset + length (file_data f)) 4"
    and "fs_file L' = fs_file L" and "file_data f = take (length (file_data f)) (drop data_offset (fs_file L))"
proof -
  obtain namesize filesize data_offset where d: "data_offset = round_up (fs_offset L + CPIO_HEADER_SIZE + namesize) 4"
    "data_offset + filesize \<le> length (fs_file L)" "fs_offset L' = round_up (data_offset + filesize) 4" "fs_file L' = fs_file L"
    "file_data f = take filesize (drop data_offset (fs_file L))"
    using assms unfolding initfs_next_def Let_def
    by (auto simp: get_or_end_Some hex_or_end_Some if_name_Some exec_bind_Val_iff usize_add_Val_iff align_up_4 split: if_splits)
  moreover have "length (file_data f) = filesize" using d(2,5) by simp
  ultimately show ?thesis using that by simp
qed

lemma initfs_next_Some:
  assumes "initfs_next L = Val (Some f, L')"
  shows "fs_file L' = fs_file L" and "fs_offset L + CPIO_HEADER_SIZE \<le> fs_offset L'" and "fs_offset L' \<le> length (fs_file L) + 3"
    and "\<exists>a. a + length (file_data f) \<le> length (fs_file L) \<and> file_data f = take (length (file_data f)) (drop a (fs_file L))"
proof -
  obtain namesize data_offset where d: "data_offset = round_up (fs_offset L + CPIO_HEADER_SIZE + namesize) 4"
    "data_offset + length (file_data f) \<le> length (fs_file L)" "fs_offset L' = round_up (data_offset + length (file_data f)) 4"
    "fs_file L' = fs_file L" "file_data f = take (length (file_data f)) (drop data_offset (fs_file L))"
    by (rule initfs_next_parts [OF assms])
  have "fs_offset L + CPIO_HEADER_SIZE + namesize \<le> data_offset" unfolding d(1) by (rule round_up_ge) simp
  moreover have "data_offset + length (file_data f) \<le> fs_offset L'" unfolding d(3) by (rule round_up_ge) simp
  ultimately show "fs_offset L + CPIO_HEADER_SIZE \<le> fs_offset L'" by linarith
  show "fs_offset L' \<le> length (fs_file L) + 3" using round_up_le [of "data_offset + length (file_data f)" 4] d(2,3) by linarith
  show "fs_file L' = fs_file L" by (rule d(4))
  show "\<exists>a. a + length (file_data f) \<le> length (fs_file L) \<and> file_data f = take (length (file_data f)) (drop a (fs_file L))"
    using d(2,5) by blast
qed

text \<open>The \<open>for\<close> loop over the iterator.\<close>

function files :: "InitFsLoader \<Rightarrow> File list exec" where
  "files L = (case initfs_next L of Panic \<Rightarrow> Panic | Undef \<Rightarrow> Undef
     | Val (None, _) \<Rightarrow> Val []
     | Val (Some f, L') \<Rightarrow> exec_bind (files L') (\<lambda>fs. Val (f # fs)))"
  by pat_completeness auto

termination
proof (relation "measure (\<lambda>L. length (fs_file L) + 4 - fs_offset L)", goal_cases)
  case 1
  show ?case by simp
next
  case (2 L x r L' f)
  then have "initfs_next L = Val (Some f, L')" by simp
  from initfs_next_Some(1-3) [OF this] show ?case by (simp add: CPIO_HEADER_SIZE_def)
qed

declare files.simps [simp del]

lemma slice_get_None_iff: "slice_get xs a b = None \<longleftrightarrow> \<not> (a \<le> b \<and> b \<le> length xs)"
  by (simp add: slice_get_def)

text \<open>On a file that is not close to the end of the address range the iterator never panics.\<close>

lemma get_or_end_total:
  assumes "a + n \<le> USIZE_MAX" and "a + n \<le> length (fs_file L) \<Longrightarrow> \<exists>r L'. k (take n (drop a (fs_file L))) = Val (r, L')"
  shows "\<exists>r L'. get_or_end L a n k = Val (r, L')"
  using assms by (cases "a + n \<le> length (fs_file L)") (auto simp: get_or_end_def usize_add_def slice_get_def)

lemma hex_or_end_total:
  assumes "length bs = 8" and "\<And>v. v < 2 ^ 32 \<Longrightarrow> \<exists>r L'. k v = Val (r, L')"
  shows "\<exists>r L'. hex_or_end L bs k = Val (r, L')"
  using parse_hex_8 [OF assms(1)] assms(2) by (auto simp: hex_or_end_def split: option.splits)

lemma if_total: "(\<not> c \<Longrightarrow> \<exists>r L'. k = Val (r, L')) \<Longrightarrow> \<exists>r L'. (if c then Val (None, L) else k) = Val (r, L')"
  by auto

lemma initfs_next_total:
  assumes "length (fs_file L) \<le> 2 ^ 62" and "fs_offset L \<le> length (fs_file L) + 3"
  shows "\<exists>r L'. initfs_next L = Val (r, L')"
proof -
  let ?o = "fs_offset L"
  have o: "?o + k \<le> USIZE_MAX" if "k \<le> 2 ^ 34" for k using assms that by (simp add: USIZE_MAX_def)
  have al: "align_up v 4 = Val (round_up v 4)" if "v \<le> ?o + 2 ^ 34" for v
    using that assms by (simp add: align_up_4 USIZE_MAX_def)
  have rest: "\<exists>r L'. exec_bind (usize_add (?o + CPIO_HEADER_SIZE) namesize) (\<lambda>name_end.
      exec_bind (align_up name_end 4) (\<lambda>data_offset.
      get_or_end L data_offset filesize (\<lambda>data.
      exec_bind (usize_add data_offset filesize) (\<lambda>data_end.
      exec_bind (align_up data_end 4) (\<lambda>offset.
        Val (Some \<lparr>file_name = name, file_data = data\<rparr>, L\<lparr>fs_offset := offset\<rparr>)))))) = Val (r, L')"
    if "namesize < 2 ^ 32" "filesize < 2 ^ 32" for namesize filesize name
  proof -
    have ne: "?o + CPIO_HEADER_SIZE + namesize \<le> ?o + 2 ^ 34" using that by (simp add: CPIO_HEADER_SIZE_def)
    have "round_up (?o + CPIO_HEADER_SIZE + namesize) 4 + filesize \<le> ?o + 2 ^ 34"
      using that round_up_le [of "?o + CPIO_HEADER_SIZE + namesize" 4] by (simp add: CPIO_HEADER_SIZE_def)
    then show ?thesis
      using ne o [of "CPIO_HEADER_SIZE + namesize"] al assms that
      by (auto simp: usize_add_def USIZE_MAX_def CPIO_HEADER_SIZE_def intro!: get_or_end_total)
  qed
  have add: "usize_add ?o NAMESIZE_OFFSET = Val (?o + NAMESIZE_OFFSET)" "usize_add ?o FILESIZE_OFFSET = Val (?o + FILESIZE_OFFSET)"
    "usize_add ?o CPIO_HEADER_SIZE = Val (?o + CPIO_HEADER_SIZE)"
    using o by (simp_all add: usize_add_def NAMESIZE_OFFSET_def FILESIZE_OFFSET_def CPIO_HEADER_SIZE_def)
  have lim: "?o + 6 \<le> USIZE_MAX" "?o + NAMESIZE_OFFSET + 8 \<le> USIZE_MAX" "?o + FILESIZE_OFFSET + 8 \<le> USIZE_MAX"
    "n < 2 ^ 32 \<Longrightarrow> ?o + CPIO_HEADER_SIZE + n \<le> USIZE_MAX" for n
    using assms by (simp_all add: USIZE_MAX_def NAMESIZE_OFFSET_def FILESIZE_OFFSET_def CPIO_HEADER_SIZE_def)
  show ?thesis
    unfolding initfs_next_def Let_def add exec_bind.simps
    by (intro get_or_end_total hex_or_end_total if_total rest lim) simp_all
qed

lemma files_total:
  assumes "length (fs_file L) \<le> 2 ^ 62" and "fs_offset L \<le> length (fs_file L) + 3"
  shows "\<exists>fs. files L = Val fs
    \<and> (\<forall>f\<in>set fs. \<exists>a. a + length (file_data f) \<le> length (fs_file L) \<and> file_data f = take (length (file_data f)) (drop a (fs_file L)))"
  using assms
proof (induction L rule: files.induct)
  case (1 L)
  obtain r L' where n: "initfs_next L = Val (r, L')" using initfs_next_total [OF "1.prems"] by blast
  show ?case
  proof (cases r)
    case None
    then show ?thesis using n by (subst files.simps) simp
  next
    case (Some f)
    note nx = initfs_next_Some [OF n [unfolded Some]]
    then obtain fs where "files L' = Val fs" "\<forall>f\<in>set fs. \<exists>a. a + length (file_data f) \<le> length (fs_file L)
        \<and> file_data f = take (length (file_data f)) (drop a (fs_file L))"
      using "1.IH" [OF n refl Some] "1.prems" by auto
    then show ?thesis using n Some nx(4) by (subst files.simps) simp
  qed
qed

section \<open>The format\<close>

text \<open>A digit is written in lower or in upper case; \<open>up\<close> says which, for every position.\<close>

definition hex_char :: "bool \<Rightarrow> nat \<Rightarrow> u8" where
  "hex_char upper d = (if d < 10 then 0x30 + word_of_nat d else (if upper then 0x41 else 0x61) + word_of_nat (d - 10))"

fun hex_bytes :: "(nat \<Rightarrow> bool) \<Rightarrow> nat \<Rightarrow> nat \<Rightarrow> u8 list" where
  "hex_bytes up 0 v = []"
| "hex_bytes up (Suc n) v = hex_bytes up n (v div 16) @ [hex_char (up n) (v mod 16)]"

definition pad4 :: "u8 list \<Rightarrow> u8 list" where
  "pad4 bs = bs @ replicate (round_up (length bs) 4 - length bs) 0"

record CpioHeader =
  ch_magic :: "u8 list"
  ch_inode :: "u8 list"
  ch_mode :: "u8 list"
  ch_uid :: "u8 list"
  ch_gid :: "u8 list"
  ch_nlink :: "u8 list"
  ch_mtime :: "u8 list"
  ch_filesize :: "u8 list"
  ch_dev_major :: "u8 list"
  ch_dev_minor :: "u8 list"
  ch_rdev_major :: "u8 list"
  ch_rdev_minor :: "u8 list"
  ch_namesize :: "u8 list"
  ch_checksum :: "u8 list"

definition cpio_header :: "CpioHeader \<Rightarrow> u8 list" where
  "cpio_header h = ch_magic h @ ch_inode h @ ch_mode h @ ch_uid h @ ch_gid h @ ch_nlink h @ ch_mtime h @ ch_filesize h
     @ ch_dev_major h @ ch_dev_minor h @ ch_rdev_major h @ ch_rdev_minor h @ ch_namesize h @ ch_checksum h"

text \<open>
  The header of a file: the two sizes in hexadecimal, in any mixture of cases; the other fields hold
  any eight bytes.
\<close>

definition newc_header :: "CpioHeader \<Rightarrow> File \<Rightarrow> bool" where
  "newc_header h f \<longleftrightarrow> ch_magic h = [0x30, 0x37, 0x30, 0x37, 0x30, 0x31]
     \<and> list_all (\<lambda>field. length field = 8) [ch_inode h, ch_mode h, ch_uid h, ch_gid h, ch_nlink h, ch_mtime h,
          ch_dev_major h, ch_dev_minor h, ch_rdev_major h, ch_rdev_minor h, ch_checksum h]
     \<and> (\<exists>up. ch_filesize h = hex_bytes up 8 (length (file_data f)))
     \<and> (\<exists>up. ch_namesize h = hex_bytes up 8 (length (file_name f) + 1))
     \<and> length (file_name f) + 1 < 2 ^ 32 \<and> length (file_data f) < 2 ^ 32"

definition cpio_entry :: "CpioHeader \<Rightarrow> File \<Rightarrow> u8 list" where
  "cpio_entry h f = pad4 (pad4 (cpio_header h @ file_name f @ [0]) @ file_data f)"

definition trailer :: "u8 list" where
  "trailer = [0x54, 0x52, 0x41, 0x49, 0x4c, 0x45, 0x52, 0x21, 0x21, 0x21]"

definition cpio_archive :: "(CpioHeader \<times> File) list \<Rightarrow> CpioHeader \<Rightarrow> u8 list" where
  "cpio_archive es h = concat (map (\<lambda>(h, f). cpio_entry h f) es) @ cpio_entry h \<lparr>file_name = trailer, file_data = []\<rparr>"

lemma length_hex_bytes [simp]: "length (hex_bytes up n v) = n"
  by (induction n arbitrary: v) simp_all

lemma hex_digit_char:
  assumes "d < 16"
  shows "hex_digit (hex_char up d) = Some d"
proof -
  have "d \<in> {0, 1, 2, 3, 4, 5, 6, 7, 8, 9, 10, 11, 12, 13, 14, 15}"
    unfolding insert_iff empty_iff using assms by presburger
  then show ?thesis by (elim insertE emptyE) (cases up; simp add: hex_char_def hex_digit_def)+
qed

lemma parse_hex_append:
  "parse_hex_loop (xs @ ys) v = exec_bind (parse_hex_loop xs v) (\<lambda>r. case r of None \<Rightarrow> Val None | Some v \<Rightarrow> parse_hex_loop ys v)"
proof (induction xs arbitrary: v)
  case (Cons b xs)
  then show ?case by (cases "hex_digit b") (simp_all add: usize_mul_def usize_add_def)
qed simp

lemma parse_hex_bytes:
  assumes "v < 16 ^ n" and "n \<le> 16"
  shows "parse_hex_loop (hex_bytes up n v) 0 = Val (Some v)"
  using assms
proof (induction n arbitrary: v)
  case (Suc n)
  have IH: "parse_hex_loop (hex_bytes up n (v div 16)) 0 = Val (Some (v div 16))"
    using Suc.prems by (intro Suc.IH) (simp_all add: less_mult_imp_div_less mult.commute)
  have "(16 :: nat) ^ Suc n \<le> 16 ^ 16" using Suc.prems(2) by (intro power_increasing) simp_all
  then have "v \<le> USIZE_MAX" using Suc.prems(1) by (simp add: USIZE_MAX_def)
  then have "v div 16 * 16 \<le> USIZE_MAX" "v div 16 * 16 + v mod 16 \<le> USIZE_MAX"
    using div_times_less_eq_dividend [of v 16] by simp_all
  then show ?case
    using IH hex_digit_char [of "v mod 16"] by (simp add: parse_hex_append usize_mul_def usize_add_def)
qed simp

lemma round_up_add: "a dvd k \<Longrightarrow> 0 < a \<Longrightarrow> round_up (k + v) a = k + round_up v a"
proof -
  assume "a dvd k" "0 < a"
  then obtain m where k: "k = a * m" by blast
  define w where "w = v + a - 1"
  have "k + v + a - 1 = k + w" using \<open>0 < a\<close> by (simp add: w_def)
  moreover have "k + w - (k + w) mod a = k + (w - w mod a)" unfolding k by simp
  ultimately show ?thesis by (simp add: round_up_def round_down_def w_def)
qed

lemma length_pad4: "length (pad4 bs) = round_up (length bs) 4"
  using round_up_ge [of 4 "length bs"] by (simp add: pad4_def)

lemma length_cpio_header: "newc_header h f \<Longrightarrow> length (cpio_header h) = CPIO_HEADER_SIZE"
  by (auto simp: newc_header_def cpio_header_def CPIO_HEADER_SIZE_def)

definition name_block :: "CpioHeader \<Rightarrow> File \<Rightarrow> u8 list" where
  "name_block h f = pad4 (cpio_header h @ file_name f @ [0])"

lemma length_name_block:
  "newc_header h f \<Longrightarrow> length (name_block h f) = round_up (CPIO_HEADER_SIZE + (length (file_name f) + 1)) 4"
  by (simp add: name_block_def length_pad4 length_cpio_header)

lemma cpio_entry_parts: "\<exists>pad. cpio_entry h f = name_block h f @ file_data f @ pad"
  by (simp add: cpio_entry_def name_block_def pad4_def [of "_ @ file_data f"])

lemma length_cpio_entry: "length (cpio_entry h f) = round_up (length (name_block h f) + length (file_data f)) 4"
  by (simp add: cpio_entry_def name_block_def length_pad4)

lemma take_drop_at: "length xs = a \<Longrightarrow> length ys = c \<Longrightarrow> take c (drop a (xs @ ys @ zs)) = ys"
  by simp

lemma header_fields:
  assumes "newc_header h f"
  shows "take 6 (cpio_header h @ xs) = [0x30, 0x37, 0x30, 0x37, 0x30, 0x31]"
    and "take 8 (drop NAMESIZE_OFFSET (cpio_header h @ xs)) = ch_namesize h"
    and "take 8 (drop FILESIZE_OFFSET (cpio_header h @ xs)) = ch_filesize h"
proof -
  show "take 6 (cpio_header h @ xs) = [0x30, 0x37, 0x30, 0x37, 0x30, 0x31]"
    using assms by (simp add: newc_header_def cpio_header_def)
  show "take 8 (drop NAMESIZE_OFFSET (cpio_header h @ xs)) = ch_namesize h"
    using assms take_drop_at [of "ch_magic h @ ch_inode h @ ch_mode h @ ch_uid h @ ch_gid h @ ch_nlink h @ ch_mtime h @ ch_filesize h
      @ ch_dev_major h @ ch_dev_minor h @ ch_rdev_major h @ ch_rdev_minor h" NAMESIZE_OFFSET "ch_namesize h" 8]
    by (auto simp: newc_header_def cpio_header_def NAMESIZE_OFFSET_def)
  show "take 8 (drop FILESIZE_OFFSET (cpio_header h @ xs)) = ch_filesize h"
    using assms take_drop_at [of "ch_magic h @ ch_inode h @ ch_mode h @ ch_uid h @ ch_gid h @ ch_nlink h @ ch_mtime h"
      FILESIZE_OFFSET "ch_filesize h" 8]
    by (auto simp: newc_header_def cpio_header_def FILESIZE_OFFSET_def)
qed

text \<open>Evaluating \<open>get_or_end\<close> inside an archive.\<close>

lemma get_or_end_at:
  assumes "a + n \<le> length tail" and "length pre + length tail \<le> USIZE_MAX"
  shows "get_or_end \<lparr>fs_file = pre @ tail, fs_offset = off\<rparr> (length pre + a) n k = k (take n (drop a tail))"
  using assms by (simp add: get_or_end_def usize_add_def slice_get_def)

lemma hex_or_end_bytes: "v < 2 ^ 32 \<Longrightarrow> hex_or_end L (hex_bytes up 8 v) k = k v"
  using parse_hex_bytes [of v 8 up] by (simp add: hex_or_end_def parse_hex_def)

lemma hex_or_end_sizes:
  assumes "newc_header h f"
  shows "hex_or_end L (ch_namesize h) k = k (length (file_name f) + 1)" and "hex_or_end L (ch_filesize h) k = k (length (file_data f))"
proof -
  obtain up up' where "ch_filesize h = hex_bytes up 8 (length (file_data f))" "ch_namesize h = hex_bytes up' 8 (length (file_name f) + 1)"
    "length (file_name f) + 1 < 2 ^ 32" "length (file_data f) < 2 ^ 32"
    using assms unfolding newc_header_def by blast
  then show "hex_or_end L (ch_namesize h) k = k (length (file_name f) + 1)" "hex_or_end L (ch_filesize h) k = k (length (file_data f))"
    by (simp_all only: hex_or_end_bytes)
qed

lemma strip_nul_snoc [simp]: "strip_nul (xs @ [0]) = xs"
  by (simp add: strip_nul_def)

lemma initfs_next_entry:
  assumes f: "newc_header h f" and pre: "4 dvd length pre" and lim: "length pre + length (cpio_entry h f @ rest) + 4 \<le> USIZE_MAX"
  shows "initfs_next \<lparr>fs_file = pre @ cpio_entry h f @ rest, fs_offset = length pre\<rparr> =
    Val (if file_name f = trailer then (None, \<lparr>fs_file = pre @ cpio_entry h f @ rest, fs_offset = length pre\<rparr>)
      else (Some f, \<lparr>fs_file = pre @ cpio_entry h f @ rest, fs_offset = length pre + length (cpio_entry h f)\<rparr>))"
proof -
  define tail where "tail = cpio_entry h f @ rest"
  define n m where "n = length (file_name f) + 1" and "m = length (file_data f)"
  let ?L = "\<lparr>fs_file = pre @ tail, fs_offset = length pre\<rparr>"
  define D where "D = length (name_block h f)"
  obtain pad where e: "cpio_entry h f = name_block h f @ file_data f @ pad" using cpio_entry_parts by blast
  obtain pad' where nb: "name_block h f = cpio_header h @ file_name f @ [0] @ pad'" by (simp add: name_block_def pad4_def n_def m_def)
  have t: "tail = cpio_header h @ (file_name f @ [0] @ pad' @ file_data f @ pad @ rest)" using e nb by (simp add: tail_def)
  have D: "D = round_up (CPIO_HEADER_SIZE + n) 4" by (simp add: D_def length_name_block [OF f] n_def)
  have lens: "CPIO_HEADER_SIZE + n \<le> D" "D + m \<le> length (cpio_entry h f)" "length pre + length (cpio_entry h f) + 4 \<le> USIZE_MAX"
    "length (cpio_entry h f) \<le> length tail" "length pre + length tail \<le> USIZE_MAX"
    using lim nb e by (simp_all add: D_def length_cpio_header [OF f] tail_def n_def m_def)
  have ge: "get_or_end ?L (length pre + a) c k = k (take c (drop a tail))" if "a + c \<le> D + m" for a c k
    using that lens by (intro get_or_end_at) simp_all
  have ge0: "get_or_end ?L (length pre) 6 k = k (take 6 tail)" for k
    using lens get_or_end_at [of 0 6 tail pre "length pre" k] by (simp add: CPIO_HEADER_SIZE_def)
  have add: "usize_add (length pre) k = Val (length pre + k)" if "k \<le> D" for k using that lens by (simp add: usize_add_def)
  have offs: "NAMESIZE_OFFSET \<le> D" "FILESIZE_OFFSET \<le> D" "CPIO_HEADER_SIZE \<le> D" "6 \<le> D + m" "NAMESIZE_OFFSET + 8 \<le> D + m"
    "FILESIZE_OFFSET + 8 \<le> D + m" "CPIO_HEADER_SIZE + n \<le> D + m"
    using lens(1) by (simp_all add: CPIO_HEADER_SIZE_def NAMESIZE_OFFSET_def FILESIZE_OFFSET_def)
  note fields = header_fields [OF f, of "file_name f @ [0] @ pad' @ file_data f @ pad @ rest", folded t]
  have name: "take n (drop CPIO_HEADER_SIZE tail) = file_name f @ [0]" by (simp add: t length_cpio_header [OF f] n_def)
  have data: "take m (drop D tail) = file_data f" by (simp add: tail_def e D_def m_def)
  note sizes = hex_or_end_sizes [OF f, folded n_def m_def]
  have al1: "align_up (length pre + CPIO_HEADER_SIZE + n) 4 = Val (length pre + D)"
    using round_up_add [OF pre, of "CPIO_HEADER_SIZE + n"] lens(1-3) D by (simp add: align_up_4 add.assoc)
  have al2: "align_up (length pre + D + m) 4 = Val (length pre + length (cpio_entry h f))"
    using round_up_add [OF pre, of "D + m"] lens(2,3) length_cpio_entry [of h f] by (simp add: align_up_4 add.assoc D_def m_def)
  have add': "usize_add (length pre + CPIO_HEADER_SIZE) n = Val (length pre + CPIO_HEADER_SIZE + n)"
    "usize_add (length pre + D) m = Val (length pre + D + m)" using lens(1-3) by (simp_all add: usize_add_def)
  have "initfs_next ?L = Val (if file_name f = trailer then (None, ?L)
      else (Some f, \<lparr>fs_file = pre @ tail, fs_offset = length pre + length (cpio_entry h f)\<rparr>))"
    by (simp add: initfs_next_def Let_def ge ge0 add add' offs fields sizes name al1 al2 data trailer_def)
  then show ?thesis by (simp add: tail_def)
qed

lemma files_archive:
  assumes "list_all (\<lambda>(h, f). newc_header h f \<and> file_name f \<noteq> trailer) es" and h: "newc_header h \<lparr>file_name = trailer, file_data = []\<rparr>"
    and "4 dvd length pre" and "length pre + length (cpio_archive es h @ rest) + 4 \<le> USIZE_MAX"
  shows "files \<lparr>fs_file = pre @ cpio_archive es h @ rest, fs_offset = length pre\<rparr> = Val (map snd es)"
  using assms(1,3,4)
proof (induction es arbitrary: pre)
  case Nil
  then show ?case
    using initfs_next_entry [OF h, of pre rest] by (subst files.simps) (simp add: cpio_archive_def)
next
  case (Cons e es)
  obtain h' f where e: "e = (h', f)" by (cases e)
  have f: "newc_header h' f" "file_name f \<noteq> trailer" using Cons.prems(1) e by simp_all
  have arch: "cpio_archive ((h', f) # es) h = cpio_entry h' f @ cpio_archive es h" by (simp add: cpio_archive_def)
  have "4 dvd length (cpio_entry h' f)" by (simp add: length_cpio_entry)
  then have IH: "files \<lparr>fs_file = (pre @ cpio_entry h' f) @ cpio_archive es h @ rest, fs_offset = length (pre @ cpio_entry h' f)\<rparr> = Val (map snd es)"
    using Cons.prems arch e by (intro Cons.IH) simp_all
  show ?case
    using initfs_next_entry [OF f(1), of pre "cpio_archive es h @ rest"] Cons.prems f IH by (subst files.simps) (simp add: arch e)
qed

lemma initfs_new_eq:
  assumes "mod_start md \<le> mod_end md" and "mod_end md < 2 ^ 47"
  shows "initfs_new ph md = \<lparr>fs_file = mem_read (ph_mem ph) (mod_start md) (mod_end md - mod_start md), fs_offset = 0\<rparr>"
proof -
  have "saturating_sub (paddr2vaddr (mod_end md)) (paddr2vaddr (mod_start md)) = mod_end md - mod_start md"
    using assms paddr2vaddr_add [of "mod_start md"] paddr2vaddr_add [of "mod_end md"] by (simp add: saturating_sub_def)
  moreover have "vaddr2paddr (paddr2vaddr (mod_start md)) = mod_start md" using assms by simp
  ultimately show ?thesis by (simp add: initfs_new_def Let_def)
qed

section \<open>Properties\<close>

text \<open>
  C25. The initial file system round trip: a boot module that holds an archive in the new ASCII format
  (any metadata in the headers, sizes written with hexadecimal digits of either case, names and contents
  below 4 GiB, names and contents padded to four bytes, no file called \<open>TRAILER!!!\<close>, anything after the
  trailer entry) is read back as exactly its files, in their order.
\<close>

theorem initfs_roundtrip:
  assumes "list_all (\<lambda>(h, f). newc_header h f \<and> file_name f \<noteq> trailer) es" and "newc_header h \<lparr>file_name = trailer, file_data = []\<rparr>"
    and "mod_start md \<le> mod_end md" and "mod_end md < 2 ^ 47"
    and "mem_read (ph_mem ph) (mod_start md) (mod_end md - mod_start md) = cpio_archive es h @ rest"
  shows "files (initfs_new ph md) = Val (map snd es)"
proof -
  have "length (cpio_archive es h @ rest) = mod_end md - mod_start md" using assms(5) by (metis length_mem_read)
  then show ?thesis
    using files_archive [of es h "[]" rest] assms by (simp add: initfs_new_eq USIZE_MAX_def)
qed

text \<open>An archive as \<open>cpio\<close> writes it: upper case digits, and a block of padding at the end.\<close>

definition example_header :: "nat \<Rightarrow> nat \<Rightarrow> CpioHeader" where
  "example_header namesize filesize =
     (let field = hex_bytes (\<lambda>_. True) 8 in
      \<lparr>ch_magic = [0x30, 0x37, 0x30, 0x37, 0x30, 0x31], ch_inode = field 0xcafe, ch_mode = field 0x81a4, ch_uid = field 1000,
       ch_gid = field 1000, ch_nlink = field 1, ch_mtime = field 0x6543abcd, ch_filesize = field filesize,
       ch_dev_major = field 8, ch_dev_minor = field 2, ch_rdev_major = field 0, ch_rdev_minor = field 0,
       ch_namesize = field namesize, ch_checksum = field 0\<rparr>)"

lemma example_header_newc:
  "n = length (file_name f) + 1 \<Longrightarrow> m = length (file_data f) \<Longrightarrow> n < 2 ^ 32 \<Longrightarrow> m < 2 ^ 32 \<Longrightarrow> newc_header (example_header n m) f"
  by (auto simp: newc_header_def example_header_def Let_def simp del: hex_bytes.simps)

definition example_files :: "File list" where
  "example_files = [\<lparr>file_name = [0x61], file_data = replicate 26 1\<rparr>]"

definition example_archive :: "u8 list" where
  "example_archive = cpio_archive (map (Pair (example_header 2 26)) example_files) (example_header 11 0) @ replicate 100 0"

definition example_module :: Module where
  "example_module = \<lparr>mod_start = 0x8000, mod_end = 0x8000 + length example_archive\<rparr>"

lemma example_trailer: "newc_header (example_header 11 0) \<lparr>file_name = trailer, file_data = []\<rparr>"
  by (rule example_header_newc) (simp_all add: trailer_def)

theorem initfs_roundtrip_witness:
  "files (initfs_new (example_phys\<lparr>ph_mem := mem_write (\<lambda>_. 0) 0x8000 example_archive\<rparr>) example_module) = Val example_files"
proof -
  let ?f = "hd example_files"
  have f: "newc_header (example_header 2 26) ?f" "file_name ?f \<noteq> trailer"
    by (rule example_header_newc) (simp_all add: example_files_def trailer_def)
  have "length example_archive < 1000"
    using length_name_block [OF f(1)] length_name_block [OF example_trailer]
    by (simp add: example_archive_def cpio_archive_def example_files_def length_cpio_entry round_up_def round_down_def trailer_def
        CPIO_HEADER_SIZE_def)
  then show ?thesis
    using initfs_roundtrip [of "[(example_header 2 26, ?f)]" "example_header 11 0" example_module
        "example_phys\<lparr>ph_mem := mem_write (\<lambda>_. 0) 0x8000 example_archive\<rparr>" "replicate 100 0"]
      mem_read_write_same [of "\<lambda>_. 0" "0x8000" example_archive] f example_trailer
    by (simp add: example_module_def example_files_def example_archive_def add.commute)
qed

text \<open>
  C26. Iterating over any boot module ends without a panic, whatever bytes it holds: every step moves
  the offset forward by at least a header, and the data of every file that is returned is a part of
  the module.
\<close>

theorem initfs_iteration_ends:
  assumes "mod_start md \<le> mod_end md" and "mod_end md < 2 ^ 47"
  shows "\<exists>fs. files (initfs_new ph md) = Val fs
    \<and> (\<forall>f\<in>set fs. \<exists>a. mod_start md \<le> a \<and> a + length (file_data f) \<le> mod_end md
         \<and> file_data f = mem_read (ph_mem ph) a (length (file_data f)))"
proof -
  let ?n = "mod_end md - mod_start md"
  have "?n \<le> 2 ^ 62" using assms(2) by simp
  then obtain fs where fs: "files (initfs_new ph md) = Val fs" "\<forall>f\<in>set fs. \<exists>a. a + length (file_data f) \<le> ?n
      \<and> file_data f = take (length (file_data f)) (drop a (mem_read (ph_mem ph) (mod_start md) ?n))"
    using files_total [of "initfs_new ph md"] by (auto simp: initfs_new_eq [OF assms])
  have part: "take k (drop a (mem_read (ph_mem ph) (mod_start md) ?n)) = mem_read (ph_mem ph) (mod_start md + a) k"
    if "a + k \<le> ?n" for a k using that by (intro nth_equalityI) (simp_all add: add.assoc)
  have "\<exists>a. mod_start md \<le> a \<and> a + length (file_data f) \<le> mod_end md \<and> file_data f = mem_read (ph_mem ph) a (length (file_data f))"
    if f: "f \<in> set fs" for f
  proof -
    obtain a where a: "a + length (file_data f) \<le> ?n"
      "file_data f = take (length (file_data f)) (drop a (mem_read (ph_mem ph) (mod_start md) ?n))" using fs(2) f by blast
    have "file_data f = mem_read (ph_mem ph) (mod_start md + a) (length (file_data f))" using a(2) unfolding part [OF a(1)] .
    then show ?thesis using a(1) assms(1) by (intro exI [of _ "mod_start md + a"]) simp
  qed
  then show ?thesis using fs(1) by blast
qed

theorem initfs_iteration_ends_witness:
  "\<exists>fs. files (initfs_new example_phys \<lparr>mod_start = 0x8000, mod_end = 0x9000\<rparr>) = Val fs"
  using initfs_iteration_ends [of "\<lparr>mod_start = 0x8000, mod_end = 0x9000\<rparr>" example_phys] by auto

end
