(* ===== verification/BootParse.thy ===== *)
theory BootParse
  imports Memory Bytes
begin

text \<open>
  \<open>kernel/src/arch/x64/multiboot.rs\<close> and \<open>pvh.rs\<close>: the two boot protocols. Both parsers read tables
  in physical memory through the direct map; an access beyond it is undefined. The multiboot loop does
  not end on a tag of size zero, so it is a \<open>partial_function\<close>; \<open>mb_info_bytes\<close> writes a boot
  information block in the documented format, for the statement that parsing gives back its contents.
\<close>

section \<open>Physical memory\<close>

definition peek :: "memory \<Rightarrow> nat \<Rightarrow> nat \<Rightarrow> u8 list exec" where
  "peek m a n = (if a + n \<le> DIRECT_MAP_END then Val (mem_read m (vaddr2paddr (paddr2vaddr a)) n) else Undef)"

definition peek_int :: "memory \<Rightarrow> nat \<Rightarrow> nat \<Rightarrow> nat exec" where
  "peek_int m a n = exec_bind (peek m a n) (\<lambda>bs. Val (le_nat bs))"

section \<open>Multiboot2\<close>

definition MULTIBOOT2_TAG_CMDLINE :: nat where "MULTIBOOT2_TAG_CMDLINE = 1"
definition MULTIBOOT2_TAG_MODULE :: nat where "MULTIBOOT2_TAG_MODULE = 3"
definition MULTIBOOT2_TAG_MEMORY_MAP :: nat where "MULTIBOOT2_TAG_MEMORY_MAP = 6"
definition MULTIBOOT2_MEMORY_AVAILABLE :: nat where "MULTIBOOT2_MEMORY_AVAILABLE = 1"

definition cmdline_until_null :: "u8 list \<Rightarrow> u8 list" where
  "cmdline_until_null bs = takeWhile (\<lambda>b. b \<noteq> 0) bs"

definition mb_entry :: "memory \<Rightarrow> nat \<Rightarrow> nat \<Rightarrow> nat \<Rightarrow> FreeRam ArrayVec \<Rightarrow> FreeRam ArrayVec exec" where
  "mb_entry m mmap entry_size i free_rams =
     (let at = mmap + 16 + i * entry_size in
      exec_bind (peek_int m at 8) (\<lambda>addr.
      exec_bind (peek_int m (at + 8) 8) (\<lambda>len.
      exec_bind (peek_int m (at + 16) 4) (\<lambda>kind.
        if kind \<noteq> MULTIBOOT2_MEMORY_AVAILABLE then Val free_rams
        else exec_bind (av_try_push free_rams \<lparr>fr_addr = addr, fr_size = len\<rparr>) (\<lambda>(r, free_rams). Val free_rams)))))"

definition mb_tag :: "memory \<Rightarrow> nat \<Rightarrow> BootInfo \<Rightarrow> (nat \<times> BootInfo) exec" where
  "mb_tag m at bi =
     exec_bind (peek_int m at 4) (\<lambda>kind.
     exec_bind (peek_int m (at + 4) 4) (\<lambda>sz.
       if kind = MULTIBOOT2_TAG_CMDLINE
       then exec_bind (peek m (at + 8) (saturating_sub sz 8)) (\<lambda>cmdline_with_null.
              Val (sz, bi\<lparr>bi_cmdline := cmdline_until_null cmdline_with_null\<rparr>))
       else if kind = MULTIBOOT2_TAG_MEMORY_MAP
       then exec_bind (peek_int m (at + 8) 4) (\<lambda>entry_size.
              if entry_size = 0 then Panic
              else exec_bind (exec_fold (mb_entry m at entry_size) [0..<sz div entry_size] (bi_free_rams bi)) (\<lambda>free_rams.
                     Val (sz, bi\<lparr>bi_free_rams := free_rams\<rparr>)))
       else if kind = MULTIBOOT2_TAG_MODULE
       then exec_bind (peek_int m (at + 8) 4) (\<lambda>start.
            exec_bind (peek_int m (at + 12) 4) (\<lambda>limit.
            exec_bind (av_try_push (bi_modules bi) \<lparr>mod_start = start, mod_end = limit\<rparr>) (\<lambda>(r, modules).
              Val (sz, bi\<lparr>bi_modules := modules\<rparr>))))
       else Val (sz, bi)))"

definition tag_stride :: "nat \<Rightarrow> nat" where
  "tag_stride sz = (sz + 7) AND usize_not 7"

partial_function (option) mb_loop :: "memory \<Rightarrow> nat \<Rightarrow> nat \<Rightarrow> nat \<Rightarrow> BootInfo \<Rightarrow> BootInfo exec option" where
  "mb_loop m info total_size offset bi =
     (if offset < total_size
      then case mb_tag m (info + offset) bi of Panic \<Rightarrow> Some Panic | Undef \<Rightarrow> Some Undef
        | Val r \<Rightarrow> mb_loop m info total_size (offset + tag_stride (fst r)) (snd r)
      else Some (Val bi))"

definition parse_multiboot2_info :: "memory \<Rightarrow> PAddr \<Rightarrow> BootInfo exec option" where
  "parse_multiboot2_info m info =
     run_bind (Some (peek_int m info 4)) (\<lambda>total_size.
       mb_loop m info total_size 8 \<lparr>bi_cmdline = [], bi_modules = av_new 8, bi_free_rams = av_new 8\<rparr>)"

section \<open>PVH\<close>

definition HVM_MEMMAP_TYPE_RAM :: nat where "HVM_MEMMAP_TYPE_RAM = 1"

text \<open>The scan for the terminator leaves the direct map at the latest.\<close>

function cstr_len :: "memory \<Rightarrow> nat \<Rightarrow> nat \<Rightarrow> nat exec" where
  "cstr_len m p len =
     (if DIRECT_MAP_END \<le> p + len then Undef
      else if m (p + len) \<noteq> 0 then cstr_len m p (len + 1) else Val len)"
  by pat_completeness auto

termination
  by (relation "measure (\<lambda>(m, p, len). DIRECT_MAP_END - (p + len))") auto

declare cstr_len.simps [simp del]

definition cstr2slice :: "memory \<Rightarrow> PAddr \<Rightarrow> u8 list exec" where
  "cstr2slice m paddr =
     (if paddr = 0 then Val []
      else exec_bind (cstr_len m (vaddr2paddr (paddr2vaddr paddr)) 0) (\<lambda>len. peek m paddr len))"

definition pvh_module :: "memory \<Rightarrow> nat \<Rightarrow> nat \<Rightarrow> Module ArrayVec \<Rightarrow> Module ArrayVec exec" where
  "pvh_module m modlist i modules =
     (let at = modlist + 32 * i in
      exec_bind (peek_int m at 8) (\<lambda>start.
      exec_bind (peek_int m (at + 8) 8) (\<lambda>sz.
      exec_bind (usize_add start sz) (\<lambda>limit.
      exec_bind (av_try_push modules \<lparr>mod_start = start, mod_end = limit\<rparr>) (\<lambda>(r, modules). Val modules)))))"

definition pvh_entry :: "memory \<Rightarrow> nat \<Rightarrow> nat \<Rightarrow> FreeRam ArrayVec \<Rightarrow> FreeRam ArrayVec exec" where
  "pvh_entry m memmap i free_rams =
     (let at = memmap + 24 * i in
      exec_bind (peek_int m (at + 16) 4) (\<lambda>kind.
        if kind = HVM_MEMMAP_TYPE_RAM
        then exec_bind (peek_int m at 8) (\<lambda>addr.
             exec_bind (peek_int m (at + 8) 8) (\<lambda>sz.
             exec_bind (av_try_push free_rams \<lparr>fr_addr = addr, fr_size = sz\<rparr>) (\<lambda>(r, free_rams). Val free_rams)))
        else Val free_rams))"

definition parse_start_info :: "memory \<Rightarrow> PAddr \<Rightarrow> BootInfo exec" where
  "parse_start_info m info =
     exec_bind (peek m info 4) (\<lambda>magic.
       if magic \<noteq> [0x78, 0x45 OR 0x80, 0x6e, 0x33] then Panic
       else
         exec_bind (peek_int m (info + 24) 8) (\<lambda>cmdline_paddr.
         exec_bind (cstr2slice m cmdline_paddr) (\<lambda>cmdline.
         exec_bind (peek_int m (info + 16) 8) (\<lambda>modlist.
         exec_bind (peek_int m (info + 12) 4) (\<lambda>nr_modules.
         exec_bind (exec_fold (pvh_module m modlist) [0..<nr_modules] (av_new 8)) (\<lambda>modules.
         exec_bind (peek_int m (info + 40) 8) (\<lambda>memmap.
         exec_bind (peek_int m (info + 48) 4) (\<lambda>memmap_entries.
         exec_bind (exec_fold (pvh_entry m memmap) [0..<memmap_entries] (av_new 8)) (\<lambda>free_rams.
           Val \<lparr>bi_cmdline = cmdline, bi_modules = modules, bi_free_rams = free_rams\<rparr>)))))))))"

section \<open>Bytes in memory\<close>

definition holds :: "memory \<Rightarrow> nat \<Rightarrow> u8 list \<Rightarrow> bool" where
  "holds m a bs \<longleftrightarrow> mem_read m a (length bs) = bs \<and> a + length bs \<le> DIRECT_MAP_END"

lemma holds_append: "holds m a (xs @ ys) \<longleftrightarrow> holds m a xs \<and> holds m (a + length xs) ys"
  by (auto simp: holds_def mem_read_add add.assoc)

lemma holds_Nil: "holds m a [] \<longleftrightarrow> a \<le> DIRECT_MAP_END"
  by (simp add: holds_def)

lemma peek_eq: "a + n \<le> DIRECT_MAP_END \<Longrightarrow> peek m a n = Val (mem_read m a n)"
  by (cases "n = 0") (simp_all add: peek_def direct_map_bound)

lemma peek_holds: "holds m a bs \<Longrightarrow> n = length bs \<Longrightarrow> peek m a n = Val bs"
  by (simp add: holds_def peek_eq)

lemma peek_int_holds: "holds m a (nat_le n v) \<Longrightarrow> v < 256 ^ n \<Longrightarrow> peek_int m a n = Val v"
  using peek_holds [of m a "nat_le n v" n] by (simp add: peek_int_def le_nat_nat_le)

lemma holds_concat:
  assumes "holds m a (concat (map f xs))" and "\<And>x. x \<in> set xs \<Longrightarrow> length (f x) = k" and "i < length xs"
  shows "holds m (a + k * i) (f (xs ! i))"
  using assms
proof (induction xs arbitrary: a i)
  case (Cons x xs)
  have len: "length (f x) = k" using Cons.prems(2) by simp
  show ?case
  proof (cases i)
    case 0
    then show ?thesis using Cons.prems(1) by (simp add: holds_append)
  next
    case (Suc j)
    have "holds m (a + k) (concat (map f xs))" using Cons.prems(1) len by (simp add: holds_append)
    from Cons.IH [OF this, of j] show ?thesis using Cons.prems(2,3) Suc by (simp add: algebra_simps)
  qed
qed simp

section \<open>Loops that push\<close>

lemma exec_fold_push:
  assumes "\<And>i v. i \<in> set is \<Longrightarrow>
    f i v = (case g i of None \<Rightarrow> Val v | Some x \<Rightarrow> exec_bind (av_try_push v x) (\<lambda>(r, v). Val v))"
  shows "exec_fold f is v = push_each av_try_push v (List.map_filter g is)"
  using assms
proof (induction "is" arbitrary: v)
  case Nil
  then show ?case by (simp add: List.map_filter_simps)
next
  case (Cons i "is")
  have IH: "exec_fold f is u = push_each av_try_push u (List.map_filter g is)" for u using Cons by simp
  show ?case
  proof (cases "g i")
    case None
    then show ?thesis using Cons.prems [of i v] IH by (simp add: List.map_filter_simps)
  next
    case (Some x)
    then show ?thesis
      using Cons.prems [of i v] IH by (cases "av_try_push v x") (auto simp: List.map_filter_simps)
  qed
qed

lemma map_filter_upt: "List.map_filter (\<lambda>i. h (xs ! i)) [0..<length xs] = List.map_filter h xs"
proof -
  have "List.map_filter h (map ((!) xs) [0..<length xs]) = List.map_filter (\<lambda>i. h (xs ! i)) [0..<length xs]"
    by (simp add: List.map_filter_def filter_map comp_def)
  then show ?thesis by (simp add: map_nth)
qed

section \<open>Boot information blocks\<close>

datatype mb_tag_spec = CmdlineTag "u8 list" | MmapTag "(nat \<times> nat \<times> nat) list" | ModuleTag nat nat "u8 list" | OtherTag nat "u8 list"

fun tag_type :: "mb_tag_spec \<Rightarrow> nat" where
  "tag_type (CmdlineTag _) = 1"
| "tag_type (MmapTag _) = 6"
| "tag_type (ModuleTag _ _ _) = 3"
| "tag_type (OtherTag k _) = k"

definition mmap_entry_bytes :: "nat \<times> nat \<times> nat \<Rightarrow> u8 list" where
  "mmap_entry_bytes e = (case e of (a, l, k) \<Rightarrow> nat_le 8 a @ nat_le 8 l @ nat_le 4 k @ nat_le 4 0)"

fun tag_body :: "mb_tag_spec \<Rightarrow> u8 list" where
  "tag_body (CmdlineTag bs) = bs"
| "tag_body (MmapTag es) = nat_le 4 24 @ nat_le 4 0 @ concat (map mmap_entry_bytes es)"
| "tag_body (ModuleTag a b bs) = nat_le 4 a @ nat_le 4 b @ bs"
| "tag_body (OtherTag _ bs) = bs"

definition tag_size :: "mb_tag_spec \<Rightarrow> nat" where
  "tag_size t = 8 + length (tag_body t)"

definition tag_bytes :: "mb_tag_spec \<Rightarrow> u8 list" where
  "tag_bytes t = nat_le 4 (tag_type t) @ nat_le 4 (tag_size t) @ tag_body t @ replicate (round_up (tag_size t) 8 - tag_size t) 0"

definition mb_info_bytes :: "mb_tag_spec list \<Rightarrow> u8 list" where
  "mb_info_bytes ts = (let tags = concat (map tag_bytes ts) in nat_le 4 (8 + length tags) @ nat_le 4 0 @ tags)"

fun tag_ok :: "mb_tag_spec \<Rightarrow> bool" where
  "tag_ok (MmapTag es) \<longleftrightarrow> (\<forall>(a, l, k)\<in>set es. a < 2 ^ 64 \<and> l < 2 ^ 64 \<and> k < 2 ^ 32)"
| "tag_ok (ModuleTag a b bs) \<longleftrightarrow> a < 2 ^ 32 \<and> b < 2 ^ 32"
| "tag_ok (OtherTag k bs) \<longleftrightarrow> k < 2 ^ 32 \<and> k \<notin> {1, 3, 6}"
| "tag_ok (CmdlineTag bs) \<longleftrightarrow> True"

text \<open>What the tags say.\<close>

definition ram_of_entry :: "nat \<times> nat \<times> nat \<Rightarrow> FreeRam option" where
  "ram_of_entry e = (case e of (a, l, k) \<Rightarrow> if k = 1 then Some \<lparr>fr_addr = a, fr_size = l\<rparr> else None)"

fun tag_rams :: "mb_tag_spec \<Rightarrow> FreeRam list" where
  "tag_rams (MmapTag es) = List.map_filter ram_of_entry es"
| "tag_rams _ = []"

fun tag_modules :: "mb_tag_spec \<Rightarrow> Module list" where
  "tag_modules (ModuleTag a b _) = [\<lparr>mod_start = a, mod_end = b\<rparr>]"
| "tag_modules _ = []"

fun tag_cmdline :: "mb_tag_spec \<Rightarrow> u8 list \<Rightarrow> u8 list" where
  "tag_cmdline (CmdlineTag bs) _ = cmdline_until_null bs"
| "tag_cmdline _ old = old"

lemma length_tag_bytes: "length (tag_bytes t) = round_up (tag_size t) 8"
  using round_up_ge [of 8 "tag_size t"] by (simp add: tag_bytes_def tag_size_def)

lemma tag_stride_eq:
  assumes "sz < 2 ^ 32"
  shows "tag_stride sz = round_up sz 8"
  using and_high_mask [of "sz + 7" 3] assms by (simp add: tag_stride_def round_up_def round_down_def add.commute [of 7])

lemma length_mmap_entry [simp]: "length (mmap_entry_bytes e) = 24"
  by (simp add: mmap_entry_bytes_def split: prod.splits)

definition boot_inv :: "BootInfo \<Rightarrow> bool" where
  "boot_inv bi \<longleftrightarrow> av_inv (bi_modules bi) \<and> av_inv (bi_free_rams bi) \<and> av_cap (bi_modules bi) = 8 \<and> av_cap (bi_free_rams bi) = 8"

text \<open>One tag is parsed to what it says.\<close>

lemma mb_entry_eq:
  assumes "holds m (at + 16 + 24 * i) (mmap_entry_bytes (a, l, k))" and "a < 2 ^ 64" "l < 2 ^ 64" "k < 2 ^ 32"
  shows "mb_entry m at 24 i v = (case ram_of_entry (a, l, k) of None \<Rightarrow> Val v
    | Some x \<Rightarrow> exec_bind (av_try_push v x) (\<lambda>(r, v). Val v))"
proof -
  have "peek_int m (at + 16 + i * 24) 8 = Val a" "peek_int m (at + 16 + i * 24 + 8) 8 = Val l"
    "peek_int m (at + 16 + i * 24 + 16) 4 = Val k"
    using assms by (auto simp: mmap_entry_bytes_def holds_append mult.commute intro!: peek_int_holds)
  then show ?thesis by (simp add: mb_entry_def Let_def ram_of_entry_def MULTIBOOT2_MEMORY_AVAILABLE_def)
qed

lemma mb_tag_spec:
  assumes h: "holds m at (tag_bytes t)" and ok: "tag_ok t" "tag_size t < 2 ^ 32" and bi: "boot_inv bi"
  shows "\<exists>bi'. mb_tag m at bi = Val (tag_size t, bi') \<and> boot_inv bi'
    \<and> bi_cmdline bi' = tag_cmdline t (bi_cmdline bi)
    \<and> av_list (bi_free_rams bi') = take 8 (av_list (bi_free_rams bi) @ tag_rams t)
    \<and> av_list (bi_modules bi') = take 8 (av_list (bi_modules bi) @ tag_modules t)"
proof -
  have b: "av_inv (bi_modules bi)" "av_inv (bi_free_rams bi)" "av_cap (bi_modules bi) = 8" "av_cap (bi_free_rams bi) = 8"
    using bi by (simp_all add: boot_inv_def)
  have lists: "take 8 (av_list (bi_free_rams bi)) = av_list (bi_free_rams bi)" "take 8 (av_list (bi_modules bi)) = av_list (bi_modules bi)"
    using avec.items_cap [OF b(1)] avec.items_cap [OF b(2)] b(3,4) by simp_all
  have kind: "tag_type t < 2 ^ 32" using ok(1) by (cases t) simp_all
  have H: "holds m at (nat_le 4 (tag_type t))" "holds m (at + 4) (nat_le 4 (tag_size t))" "holds m (at + 8) (tag_body t)"
    using h by (simp_all add: tag_bytes_def holds_append add.assoc)
  have hd: "peek_int m at 4 = Val (tag_type t)" "peek_int m (at + 4) 4 = Val (tag_size t)"
    using H(1,2) kind ok(2) by (auto intro!: peek_int_holds)
  note tag_kinds = MULTIBOOT2_TAG_CMDLINE_def MULTIBOOT2_TAG_MEMORY_MAP_def MULTIBOOT2_TAG_MODULE_def
  show ?thesis
  proof (cases t)
    case (CmdlineTag bs)
    have "peek m (at + 8) (saturating_sub (tag_size t) 8) = Val bs"
      using H(3) CmdlineTag by (intro peek_holds) (simp_all add: tag_size_def saturating_sub_def)
    then show ?thesis using CmdlineTag hd bi lists by (simp add: mb_tag_def tag_kinds boot_inv_def)
  next
    case (MmapTag es)
    have es: "holds m (at + 16) (concat (map mmap_entry_bytes es))" "peek_int m (at + 8) 4 = Val 24"
      using H(3) MmapTag by (auto simp: holds_append add.assoc intro!: peek_int_holds)
    have n: "tag_size t div 24 = length es"
      using MmapTag by (simp add: tag_size_def length_concat comp_def sum_list_triv)
    have step: "mb_entry m at 24 i v = (case ram_of_entry (es ! i) of None \<Rightarrow> Val v
        | Some x \<Rightarrow> exec_bind (av_try_push v x) (\<lambda>(r, v). Val v))" if "i \<in> set [0..<length es]" for i v
    proof -
      obtain a l k where e: "es ! i = (a, l, k)" by (cases "es ! i")
      have "(a, l, k) \<in> set es" using that e by (metis atLeastLessThan_iff nth_mem set_upt)
      then have "a < 2 ^ 64" "l < 2 ^ 64" "k < 2 ^ 32" using ok(1) MmapTag by auto
      then show ?thesis using mb_entry_eq [of m "at" i a l k v] holds_concat [OF es(1), of 24 i] that e by simp
    qed
    have "exec_fold (mb_entry m at 24) [0..<length es] (bi_free_rams bi) =
        push_each av_try_push (bi_free_rams bi) (List.map_filter ram_of_entry es)"
      unfolding map_filter_upt [of ram_of_entry es, symmetric] by (rule exec_fold_push [OF step])
    then show ?thesis
      using MmapTag hd es(2) n b lists avec.push_each_items [OF b(2), of "List.map_filter ram_of_entry es"]
      by (auto simp: mb_tag_def tag_kinds boot_inv_def)
  next
    case (ModuleTag a c bs)
    have "peek_int m (at + 8) 4 = Val a" "peek_int m (at + 12) 4 = Val c"
      using H(3) ModuleTag ok(1) by (auto simp: holds_append add.assoc intro!: peek_int_holds)
    then show ?thesis
      using ModuleTag hd b lists avec.push_lossy [OF b(1), of "\<lparr>mod_start = a, mod_end = c\<rparr>"]
      by (auto simp: mb_tag_def tag_kinds boot_inv_def)
  next
    case (OtherTag k bs)
    then show ?thesis using hd bi lists ok(1) by (simp add: mb_tag_def tag_kinds boot_inv_def)
  qed
qed

fun tags_cmdline :: "mb_tag_spec list \<Rightarrow> u8 list \<Rightarrow> u8 list" where
  "tags_cmdline [] c = c"
| "tags_cmdline (t # ts) c = tags_cmdline ts (tag_cmdline t c)"

lemma take_take_append: "take n (take n (xs @ ys) @ zs) = take n (xs @ ys @ zs)"
  by (cases "length (xs @ ys) \<le> n") (auto simp: min_def)

lemma mb_loop_prefix:
  assumes "holds m (info + offset) (concat (map tag_bytes ts))" and "\<forall>t\<in>set ts. tag_ok t \<and> tag_size t < 2 ^ 32"
    and "boot_inv bi" and "offset + length (concat (map tag_bytes ts)) \<le> limit"
  shows "\<exists>bi'. mb_loop m info limit offset bi = mb_loop m info limit (offset + length (concat (map tag_bytes ts))) bi' \<and> boot_inv bi'
    \<and> bi_cmdline bi' = tags_cmdline ts (bi_cmdline bi)
    \<and> av_list (bi_free_rams bi') = take 8 (av_list (bi_free_rams bi) @ concat (map tag_rams ts))
    \<and> av_list (bi_modules bi') = take 8 (av_list (bi_modules bi) @ concat (map tag_modules ts))"
  using assms
proof (induction ts arbitrary: offset bi)
  case Nil
  have "av_list (bi_free_rams bi) = take 8 (av_list (bi_free_rams bi))" "av_list (bi_modules bi) = take 8 (av_list (bi_modules bi))"
    using Nil.prems(3) avec.items_cap [of "bi_free_rams bi"] avec.items_cap [of "bi_modules bi"] by (simp_all add: boot_inv_def)
  then show ?case using Nil.prems by auto
next
  case (Cons t ts)
  let ?n = "offset + length (concat (map tag_bytes (t # ts)))"
  have h: "holds m (info + offset) (tag_bytes t)" "holds m (info + (offset + length (tag_bytes t))) (concat (map tag_bytes ts))"
    using Cons.prems(1) by (simp_all add: holds_append add.assoc)
  have t: "tag_ok t" "tag_size t < 2 ^ 32" using Cons.prems(2) by simp_all
  obtain bi1 where 1: "mb_tag m (info + offset) bi = Val (tag_size t, bi1)" "boot_inv bi1"
    "bi_cmdline bi1 = tag_cmdline t (bi_cmdline bi)"
    "av_list (bi_free_rams bi1) = take 8 (av_list (bi_free_rams bi) @ tag_rams t)"
    "av_list (bi_modules bi1) = take 8 (av_list (bi_modules bi) @ tag_modules t)"
    using mb_tag_spec [OF h(1) t Cons.prems(3)] by blast
  have stride: "tag_stride (tag_size t) = length (tag_bytes t)" by (simp add: tag_stride_eq [OF t(2)] length_tag_bytes)
  obtain bi2 where 2: "mb_loop m info limit (offset + length (tag_bytes t)) bi1 = mb_loop m info limit ?n bi2" "boot_inv bi2"
    "bi_cmdline bi2 = tags_cmdline ts (bi_cmdline bi1)"
    "av_list (bi_free_rams bi2) = take 8 (av_list (bi_free_rams bi1) @ concat (map tag_rams ts))"
    "av_list (bi_modules bi2) = take 8 (av_list (bi_modules bi1) @ concat (map tag_modules ts))"
    using Cons.IH [OF h(2) _ 1(2)] Cons.prems(2,4) by (auto simp: add.assoc)
  have "offset < limit" using Cons.prems(4) round_up_ge [of 8 "tag_size t"] by (simp add: length_tag_bytes tag_size_def)
  then have "mb_loop m info limit offset bi = mb_loop m info limit ?n bi2" using 1(1) 2(1) stride by (subst mb_loop.simps) simp
  moreover have "bi_cmdline bi2 = tags_cmdline (t # ts) (bi_cmdline bi)" using 1(3) 2(3) by simp
  moreover have "av_list (bi_free_rams bi2) = take 8 (av_list (bi_free_rams bi) @ concat (map tag_rams (t # ts)))"
    "av_list (bi_modules bi2) = take 8 (av_list (bi_modules bi) @ concat (map tag_modules (t # ts)))"
    unfolding 1(4,5) 2(4,5) by (simp_all only: take_take_append list.map concat.simps)
  ultimately show ?case using 2(2) by (intro exI [of _ bi2] conjI)
qed

lemma mb_loop_spec:
  assumes "holds m (info + offset) (concat (map tag_bytes ts))" and "\<forall>t\<in>set ts. tag_ok t \<and> tag_size t < 2 ^ 32"
    and "boot_inv bi" and "limit = offset + length (concat (map tag_bytes ts))"
  shows "\<exists>bi'. mb_loop m info limit offset bi = Some (Val bi') \<and> boot_inv bi'
    \<and> bi_cmdline bi' = tags_cmdline ts (bi_cmdline bi)
    \<and> av_list (bi_free_rams bi') = take 8 (av_list (bi_free_rams bi) @ concat (map tag_rams ts))
    \<and> av_list (bi_modules bi') = take 8 (av_list (bi_modules bi) @ concat (map tag_modules ts))"
proof -
  have "mb_loop m info limit limit b = Some (Val b)" for b by (subst mb_loop.simps) simp
  then show ?thesis using mb_loop_prefix [OF assms(1-3), of limit] assms(4) by auto
qed

text \<open>A tag of size zero is processed again and again, whatever its type.\<close>

lemma zero_tag:
  assumes "boot_inv bi" and "peek_int m at 4 = Val k" "peek_int m (at + 4) 4 = Val 0" "peek_int m (at + 8) 4 = Val a"
    and "peek_int m (at + 12) 4 = Val b" and "peek m (at + 8) 0 = Val []"
  shows "if k = 6 \<and> a = 0 then mb_tag m at bi = Panic else \<exists>bi'. mb_tag m at bi = Val (0, bi') \<and> boot_inv bi'"
  using assms avec.push_lossy [of "bi_modules bi" "\<lparr>mod_start = a, mod_end = b\<rparr>"]
  by (auto simp: mb_tag_def boot_inv_def saturating_sub_def MULTIBOOT2_TAG_CMDLINE_def MULTIBOOT2_TAG_MEMORY_MAP_def MULTIBOOT2_TAG_MODULE_def)

lemma mb_loop_stuck:
  assumes "offset < limit" and "boot_inv bi"
    and stay: "\<And>bi. boot_inv bi \<Longrightarrow> \<exists>bi'. mb_tag m (info + offset) bi = Val (0, bi') \<and> boot_inv bi'"
  shows "mb_loop m info limit offset bi = None"
proof -
  have stride: "tag_stride 0 = 0" using tag_stride_eq [of 0] by (simp add: round_up_def round_down_def)
  have "\<not> ((m', i', l', off) = (m, info, limit, offset) \<and> boot_inv b)" if "mb_loop m' i' l' off b = Some y" for m' i' l' off b y
  proof (rule mb_loop.raw_induct [where P = "\<lambda>m' i' l' off b y. \<not> ((m', i', l', off) = (m, info, limit, offset) \<and> boot_inv b)", OF _ that])
    fix f m' i' l' off b y
    assume IH: "\<And>m' i' l' off b y. f m' i' l' off b = Some y \<Longrightarrow> \<not> ((m', i', l', off) = (m, info, limit, offset) \<and> boot_inv b)"
      and eq: "(if off < l' then case mb_tag m' (i' + off) b of Val r \<Rightarrow> f m' i' l' (off + tag_stride (fst r)) (snd r)
          | Panic \<Rightarrow> Some Panic | Undef \<Rightarrow> Some Undef else Some (Val b)) = Some y"
    show "\<not> ((m', i', l', off) = (m, info, limit, offset) \<and> boot_inv b)"
    proof
      assume at: "(m', i', l', off) = (m, info, limit, offset) \<and> boot_inv b"
      then obtain b' where "mb_tag m (info + offset) b = Val (0, b')" "boot_inv b'" using stay by blast
      then have "f m info limit offset b' = Some y" using eq assms(1) at stride by simp
      from IH [OF this] show False using \<open>boot_inv b'\<close> by simp
    qed
  qed
  then show ?thesis using assms(2) by (metis not_None_eq)
qed

text \<open>The PVH tables.\<close>

definition module_bytes :: "nat \<times> nat \<Rightarrow> u8 list" where
  "module_bytes e = (case e of (p, n) \<Rightarrow> nat_le 8 p @ nat_le 8 n @ nat_le 8 0 @ nat_le 8 0)"

definition start_info_bytes :: "nat \<Rightarrow> nat \<Rightarrow> nat \<Rightarrow> nat \<Rightarrow> nat \<Rightarrow> u8 list" where
  "start_info_bytes nr_modules modlist cmdline memmap entries = [0x78, 0xc5, 0x6e, 0x33] @ nat_le 4 1 @ nat_le 4 0 @ nat_le 4 nr_modules
     @ nat_le 8 modlist @ nat_le 8 cmdline @ nat_le 8 0 @ nat_le 8 memmap @ nat_le 4 entries @ nat_le 4 0"

lemma length_pvh_tables [simp]: "length (module_bytes e) = 32" "length (start_info_bytes a b c d n) = 56"
  by (simp_all add: module_bytes_def start_info_bytes_def split: prod.splits)

lemma holds_nth: "holds m a bs \<Longrightarrow> i < length bs \<Longrightarrow> m (a + i) = bs ! i"
  unfolding holds_def by (metis nth_mem_read)

lemma cstr_len_holds:
  assumes "holds m p (cs @ [0])" and "0 \<notin> set cs" and "k \<le> length cs"
  shows "cstr_len m p k = Val (length cs)"
  using assms(3)
proof (induction "length cs - k" arbitrary: k)
  case 0
  then have "k = length cs" by simp
  then show ?case
    using holds_nth [OF assms(1), of k] assms(1) by (subst cstr_len.simps) (simp add: holds_def)
next
  case (Suc d)
  then have k: "k < length cs" by simp
  then have "m (p + k) \<noteq> 0" using holds_nth [OF assms(1), of k] assms(2) by (simp add: nth_append) (metis nth_mem)
  moreover have "p + k < DIRECT_MAP_END" using assms(1) k by (simp add: holds_def)
  ultimately show ?case using Suc k by (subst cstr_len.simps) simp
qed

lemma cstr2slice_holds:
  assumes "holds m p (cs @ [0])" and "0 \<notin> set cs" and "p \<noteq> 0"
  shows "cstr2slice m p = Val cs"
proof -
  have "holds m p cs" using assms(1) by (simp add: holds_append)
  moreover have "p < 2 ^ 47" using assms(1) by (simp add: holds_def direct_map_bound)
  ultimately show ?thesis
    using cstr_len_holds [OF assms(1,2), of 0] assms(3) by (simp add: cstr2slice_def peek_holds)
qed

lemma pvh_entry_eq:
  assumes "holds m (memmap + 24 * i) (mmap_entry_bytes (a, l, k))" and "a < 2 ^ 64" "l < 2 ^ 64" "k < 2 ^ 32"
  shows "pvh_entry m memmap i v = (case ram_of_entry (a, l, k) of None \<Rightarrow> Val v
    | Some x \<Rightarrow> exec_bind (av_try_push v x) (\<lambda>(r, v). Val v))"
proof -
  have "peek_int m (memmap + 24 * i) 8 = Val a" "peek_int m (memmap + 24 * i + 8) 8 = Val l" "peek_int m (memmap + 24 * i + 16) 4 = Val k"
    using assms by (auto simp: mmap_entry_bytes_def holds_append add.assoc intro!: peek_int_holds)
  then show ?thesis by (simp add: pvh_entry_def Let_def ram_of_entry_def HVM_MEMMAP_TYPE_RAM_def)
qed

lemma pvh_module_eq:
  assumes "holds m (modlist + 32 * i) (module_bytes (p, n))" and "p + n < 2 ^ 64"
  shows "pvh_module m modlist i v = exec_bind (av_try_push v \<lparr>mod_start = p, mod_end = p + n\<rparr>) (\<lambda>(r, v). Val v)"
proof -
  have "peek_int m (modlist + 32 * i) 8 = Val p" "peek_int m (modlist + 32 * i + 8) 8 = Val n"
    using assms by (auto simp: module_bytes_def holds_append intro!: peek_int_holds)
  then show ?thesis using assms(2) by (simp add: pvh_module_def Let_def usize_add_def USIZE_MAX_def)
qed

lemma pvh_modules_eq:
  assumes "holds m modlist (concat (map module_bytes mods))" and "\<forall>(p, n)\<in>set mods. p + n < 2 ^ 64"
  shows "exec_fold (pvh_module m modlist) [0..<length mods] v =
    push_each av_try_push v (map (\<lambda>(p, n). \<lparr>mod_start = p, mod_end = p + n\<rparr>) mods)"
proof -
  let ?g = "\<lambda>(p, n). Some \<lparr>mod_start = p, mod_end = p + n\<rparr> :: Module option"
  have "exec_fold (pvh_module m modlist) [0..<length mods] v = push_each av_try_push v (List.map_filter (\<lambda>i. ?g (mods ! i)) [0..<length mods])"
  proof (rule exec_fold_push)
    fix i v assume i: "i \<in> set [0..<length mods]"
    obtain p n where e: "mods ! i = (p, n)" by (cases "mods ! i")
    have "(p, n) \<in> set mods" using i e by (metis atLeastLessThan_iff nth_mem set_upt)
    then have "p + n < 2 ^ 64" using assms(2) by auto
    moreover have "holds m (modlist + 32 * i) (module_bytes (mods ! i))"
      using i by (intro holds_concat [OF assms(1)]) (auto simp: module_bytes_def)
    ultimately show "pvh_module m modlist i v = (case ?g (mods ! i) of None \<Rightarrow> Val v
        | Some x \<Rightarrow> exec_bind (av_try_push v x) (\<lambda>(r, v). Val v))" using pvh_module_eq [of m modlist i p n v] e by simp
  qed
  moreover have "List.map_filter ?g xs = map (\<lambda>(p, n). \<lparr>mod_start = p, mod_end = p + n\<rparr>) xs" for xs :: "(nat \<times> nat) list"
    by (induction xs) (auto simp: List.map_filter_simps)
  ultimately show ?thesis by (simp add: map_filter_upt [of ?g mods])
qed

lemma pvh_rams_eq:
  assumes "holds m memmap (concat (map mmap_entry_bytes es))" and "\<forall>(a, l, k)\<in>set es. a < 2 ^ 64 \<and> l < 2 ^ 64 \<and> k < 2 ^ 32"
  shows "exec_fold (pvh_entry m memmap) [0..<length es] v = push_each av_try_push v (List.map_filter ram_of_entry es)"
  unfolding map_filter_upt [of ram_of_entry es, symmetric]
proof (rule exec_fold_push)
  fix i v assume i: "i \<in> set [0..<length es]"
  obtain a l k where e: "es ! i = (a, l, k)" by (cases "es ! i")
  have "(a, l, k) \<in> set es" using i e by (metis atLeastLessThan_iff nth_mem set_upt)
  then have "a < 2 ^ 64" "l < 2 ^ 64" "k < 2 ^ 32" using assms(2) by auto
  moreover have "holds m (memmap + 24 * i) (mmap_entry_bytes (es ! i))" using i by (intro holds_concat [OF assms(1)]) auto
  ultimately show "pvh_entry m memmap i v = (case ram_of_entry (es ! i) of None \<Rightarrow> Val v
      | Some x \<Rightarrow> exec_bind (av_try_push v x) (\<lambda>(r, v). Val v))" using pvh_entry_eq [of m memmap i a l k v] e by simp
qed

section \<open>Properties\<close>

text \<open>
  C27. A multiboot2 information block is parsed to what its tags say: the first eight available memory
  ranges, the first eight modules, and the command line of the last command-line tag up to its
  terminator. The parser returns, without a panic and without reading outside the block.
\<close>

theorem multiboot_parse:
  assumes "holds m info (mb_info_bytes ts)" and "\<forall>t\<in>set ts. tag_ok t \<and> tag_size t < 2 ^ 32"
    and "length (mb_info_bytes ts) < 2 ^ 32"
  shows "\<exists>bi. parse_multiboot2_info m info = Some (Val bi) \<and> bi_cmdline bi = tags_cmdline ts []
    \<and> av_inv (bi_free_rams bi) \<and> av_list (bi_free_rams bi) = take 8 (concat (map tag_rams ts))
    \<and> av_inv (bi_modules bi) \<and> av_list (bi_modules bi) = take 8 (concat (map tag_modules ts))"
proof -
  let ?tags = "concat (map tag_bytes ts)" and ?bi = "\<lparr>bi_cmdline = [], bi_modules = av_new 8, bi_free_rams = av_new 8\<rparr>"
  have h: "holds m info (nat_le 4 (8 + length ?tags))" "holds m (info + 8) ?tags"
    using assms(1) by (simp_all add: mb_info_bytes_def Let_def holds_append add.assoc)
  have "peek_int m info 4 = Val (8 + length ?tags)"
    using h(1) assms(3) by (intro peek_int_holds) (simp_all add: mb_info_bytes_def Let_def)
  moreover have "boot_inv ?bi" by (simp add: boot_inv_def av_new_inv USIZE_MAX_def)
  ultimately show ?thesis
    using mb_loop_spec [OF h(2) assms(2), of ?bi "8 + length ?tags"] by (auto simp: parse_multiboot2_info_def boot_inv_def)
qed

definition example_tags :: "mb_tag_spec list" where
  "example_tags = [CmdlineTag [0x61, 0x62, 0], MmapTag [(0, 0x9fc00, 1), (0x9fc00, 0x400, 2), (0x100000, 0x7ee0000, 1)],
     ModuleTag 0x200000 0x240000 [], OtherTag 0 []]"

theorem multiboot_parse_witness:
  "\<exists>bi. parse_multiboot2_info (mem_write (\<lambda>_. 0) 0x9000 (mb_info_bytes example_tags)) 0x9000 = Some (Val bi)
     \<and> bi_cmdline bi = [0x61, 0x62]
     \<and> av_list (bi_free_rams bi) = [\<lparr>fr_addr = 0, fr_size = 0x9fc00\<rparr>, \<lparr>fr_addr = 0x100000, fr_size = 0x7ee0000\<rparr>]
     \<and> av_list (bi_modules bi) = [\<lparr>mod_start = 0x200000, mod_end = 0x240000\<rparr>]"
proof -
  let ?m = "mem_write (\<lambda>_. 0) 0x9000 (mb_info_bytes example_tags)"
  have len: "length (mb_info_bytes example_tags) < 1000"
    by (simp add: mb_info_bytes_def example_tags_def Let_def length_tag_bytes tag_size_def round_up_def round_down_def)
  have "holds ?m 0x9000 (mb_info_bytes example_tags)" using len by (simp add: holds_def direct_map_bound)
  moreover have "\<forall>t\<in>set example_tags. tag_ok t \<and> tag_size t < 2 ^ 32" by (simp add: example_tags_def tag_size_def)
  ultimately obtain bi where "parse_multiboot2_info ?m 0x9000 = Some (Val bi)" "bi_cmdline bi = tags_cmdline example_tags []"
    "av_list (bi_free_rams bi) = take 8 (concat (map tag_rams example_tags))"
    "av_list (bi_modules bi) = take 8 (concat (map tag_modules example_tags))"
    using multiboot_parse [of ?m "0x9000" example_tags] len by auto
  moreover have "tags_cmdline example_tags [] = [0x61, 0x62]" by (simp add: example_tags_def cmdline_until_null_def)
  ultimately show ?thesis
    by (intro exI [of _ bi]) (simp add: example_tags_def List.map_filter_simps ram_of_entry_def)
qed

text \<open>
  C29. A tag of size zero stops the kernel for good, at any place after well formed tags and whatever its
  type: the offset does not move and the parser does not return. The one exception is a memory map whose
  entry size is zero too, where the division by the entry size panics.
\<close>

theorem multiboot_zero_size_hangs:
  assumes "holds m info (nat_le 4 limit @ nat_le 4 0 @ concat (map tag_bytes ts) @ nat_le 4 k @ nat_le 4 0 @ nat_le 4 a @ nat_le 4 b)"
    and "\<forall>t\<in>set ts. tag_ok t \<and> tag_size t < 2 ^ 32" and "8 + length (concat (map tag_bytes ts)) < limit"
    and "limit < 2 ^ 32" "k < 2 ^ 32" "a < 2 ^ 32" "b < 2 ^ 32"
  shows "parse_multiboot2_info m info = (if k = 6 \<and> a = 0 then Some Panic else None)"
proof -
  let ?n = "8 + length (concat (map tag_bytes ts))"
  define at where "at = info + ?n"
  have H: "holds m info (nat_le 4 limit)" "holds m (info + 8) (concat (map tag_bytes ts))" "holds m at (nat_le 4 k)"
    "holds m (at + 4) (nat_le 4 0)" "holds m (at + 8) (nat_le 4 a)" "holds m (at + 12) (nat_le 4 b)" "holds m (at + 8) []"
    using assms(1) by (simp_all add: holds_append at_def holds_Nil add.assoc) (simp_all add: holds_def)
  have p: "peek_int m at 4 = Val k" "peek_int m (at + 4) 4 = Val 0" "peek_int m (at + 8) 4 = Val a" "peek_int m (at + 12) 4 = Val b"
    "peek m (at + 8) 0 = Val []" "peek_int m info 4 = Val limit"
    using H assms(4-7) peek_holds [OF H(7)] by (auto intro!: peek_int_holds)
  let ?bi = "\<lparr>bi_cmdline = [], bi_modules = av_new 8, bi_free_rams = av_new 8\<rparr>"
  have "boot_inv ?bi" by (simp add: boot_inv_def av_new_inv USIZE_MAX_def)
  then obtain bi where bi: "mb_loop m info limit 8 ?bi = mb_loop m info limit ?n bi" "boot_inv bi"
    using mb_loop_prefix [OF H(2) assms(2), of ?bi limit] assms(3) by auto
  have "mb_loop m info limit ?n bi = (if k = 6 \<and> a = 0 then Some Panic else None)"
  proof (cases "k = 6 \<and> a = 0")
    case True
    then have "mb_tag m (info + ?n) bi = Panic" using zero_tag [OF bi(2) p(1-5)] at_def by simp
    then show ?thesis using True assms(3) by (subst mb_loop.simps) simp
  next
    case False
    have "\<exists>bi'. mb_tag m (info + ?n) bi = Val (0, bi') \<and> boot_inv bi'" if "boot_inv bi" for bi
      using zero_tag [OF that p(1-5)] False by (auto simp: at_def split: if_splits)
    from mb_loop_stuck [OF assms(3) bi(2) this] show ?thesis using False by auto
  qed
  then show ?thesis using p(6) bi(1) by (simp add: parse_multiboot2_info_def)
qed

theorem multiboot_zero_size_hangs_witness:
  "parse_multiboot2_info (mem_write (\<lambda>_. 0) 0x9000 (nat_le 4 40 @ nat_le 4 0 @ concat (map tag_bytes [OtherTag 21 [1]])
     @ nat_le 4 3 @ nat_le 4 0 @ nat_le 4 0x200000 @ nat_le 4 0x201000)) 0x9000 = None"
  using multiboot_zero_size_hangs [of "mem_write (\<lambda>_. 0) 0x9000 (nat_le 4 40 @ nat_le 4 0 @ concat (map tag_bytes [OtherTag 21 [1]])
      @ nat_le 4 3 @ nat_le 4 0 @ nat_le 4 0x200000 @ nat_le 4 0x201000)" "0x9000" 40 "[OtherTag 21 [1]]" 3 "0x200000" "0x201000"]
    mem_read_write_same [of "\<lambda>_. 0" "0x9000" "nat_le 4 40 @ nat_le 4 0 @ concat (map tag_bytes [OtherTag 21 [1]])
      @ nat_le 4 3 @ nat_le 4 0 @ nat_le 4 0x200000 @ nat_le 4 0x201000"]
  by (simp add: holds_def tag_size_def length_tag_bytes round_up_def round_down_def direct_map_bound del: mem_read_add)

text \<open>
  C28. The PVH start information is parsed to what it says: the command line up to its terminator, the
  first eight modules (their end is start plus size) and the first eight RAM ranges of the memory map.
\<close>

theorem pvh_parse:
  assumes "holds m info (start_info_bytes (length mods) modlist cmdline memmap (length es))"
    and "holds m modlist (concat (map module_bytes mods))" and "holds m memmap (concat (map mmap_entry_bytes es))"
    and "holds m cmdline (cs @ [0])" and "0 \<notin> set cs" and "cmdline \<noteq> 0"
    and "\<forall>(p, n)\<in>set mods. p + n < 2 ^ 64" and "\<forall>(a, l, k)\<in>set es. a < 2 ^ 64 \<and> l < 2 ^ 64 \<and> k < 2 ^ 32"
    and "length mods < 2 ^ 32" and "length es < 2 ^ 32"
  shows "\<exists>bi. parse_start_info m info = Val bi \<and> bi_cmdline bi = cs
    \<and> av_inv (bi_modules bi) \<and> av_list (bi_modules bi) = take 8 (map (\<lambda>(p, n). \<lparr>mod_start = p, mod_end = p + n\<rparr>) mods)
    \<and> av_inv (bi_free_rams bi) \<and> av_list (bi_free_rams bi) = take 8 (List.map_filter ram_of_entry es)"
proof -
  have addrs: "modlist < 2 ^ 64" "cmdline < 2 ^ 64" "memmap < 2 ^ 64" using assms(2-4) by (simp_all add: holds_def direct_map_bound)
  have H: "holds m info [0x78, 0xc5, 0x6e, 0x33]" "holds m (info + 12) (nat_le 4 (length mods))" "holds m (info + 16) (nat_le 8 modlist)"
    "holds m (info + 24) (nat_le 8 cmdline)" "holds m (info + 40) (nat_le 8 memmap)" "holds m (info + 48) (nat_le 4 (length es))"
    using assms(1) unfolding start_info_bytes_def holds_append by (simp_all add: ac_simps)
  have "peek m info 4 = Val [0x78, 0xc5, 0x6e, 0x33]" by (rule peek_holds [OF H(1)]) simp
  moreover have "peek_int m (info + 12) 4 = Val (length mods)" "peek_int m (info + 16) 8 = Val modlist" "peek_int m (info + 24) 8 = Val cmdline"
    "peek_int m (info + 40) 8 = Val memmap" "peek_int m (info + 48) 4 = Val (length es)"
    using H(2-) addrs assms(9,10) by (simp_all add: peek_int_holds)
  moreover obtain M where "push_each av_try_push (av_new 8) (map (\<lambda>(p, n). \<lparr>mod_start = p, mod_end = p + n\<rparr>) mods) = Val M"
    "av_inv M" "av_list M = take 8 (map (\<lambda>(p, n). \<lparr>mod_start = p, mod_end = p + n\<rparr>) mods)"
    using avec.push_each_items [of "av_new 8"] by (auto simp: av_new_inv USIZE_MAX_def)
  moreover obtain R where "push_each av_try_push (av_new 8) (List.map_filter ram_of_entry es) = Val R"
    "av_inv R" "av_list R = take 8 (List.map_filter ram_of_entry es)"
    using avec.push_each_items [of "av_new 8"] by (auto simp: av_new_inv USIZE_MAX_def)
  ultimately show ?thesis
    using cstr2slice_holds [OF assms(4-6)] pvh_modules_eq [OF assms(2,7)] pvh_rams_eq [OF assms(3,8)]
    by (simp add: parse_start_info_def)
qed

definition example_pvh :: memory where
  "example_pvh = mem_write (mem_write (mem_write (mem_write (\<lambda>_. 0) 0x9000 (start_info_bytes 1 0xa000 0xb000 0xc000 1))
     0xa000 (module_bytes (0x200000, 0x1000))) 0xb000 [0x61, 0]) 0xc000 (mmap_entry_bytes (0x100000, 0x100000, 1))"

lemma holds_write: "a + length bs \<le> DIRECT_MAP_END \<Longrightarrow> holds (mem_write m a bs) a bs"
  by (simp add: holds_def)

lemma holds_write_other: "holds m a bs \<Longrightarrow> a + length bs \<le> b \<or> b + length cs \<le> a \<Longrightarrow> holds (mem_write m b cs) a bs"
  unfolding holds_def using mem_read_cong [of a "length bs" "mem_write m b cs" m] by (auto simp: mem_write_def)

theorem pvh_parse_witness:
  "\<exists>bi. parse_start_info example_pvh 0x9000 = Val bi \<and> bi_cmdline bi = [0x61]
     \<and> av_list (bi_modules bi) = [\<lparr>mod_start = 0x200000, mod_end = 0x201000\<rparr>]
     \<and> av_list (bi_free_rams bi) = [\<lparr>fr_addr = 0x100000, fr_size = 0x100000\<rparr>]"
proof -
  note other = holds_write_other
  have 1: "holds example_pvh 0x9000 (start_info_bytes 1 0xa000 0xb000 0xc000 1)"
    unfolding example_pvh_def by (rule other, rule other, rule other, rule holds_write) (simp_all add: direct_map_bound)
  have 2: "holds example_pvh 0xa000 (module_bytes (0x200000, 0x1000))"
    unfolding example_pvh_def by (rule other, rule other, rule holds_write) (simp_all add: direct_map_bound)
  have 3: "holds example_pvh 0xb000 [0x61, 0]"
    unfolding example_pvh_def by (rule other, rule holds_write) (simp_all add: direct_map_bound)
  have 4: "holds example_pvh 0xc000 (mmap_entry_bytes (0x100000, 0x100000, 1))"
    unfolding example_pvh_def by (rule holds_write) (simp add: direct_map_bound)
  from 1 2 3 4 show ?thesis
    using pvh_parse [of example_pvh "0x9000" "[(0x200000, 0x1000)]" "0xa000" "0xb000" "0xc000" "[(0x100000, 0x100000, 1)]" "[0x61]"]
    by (auto simp: List.map_filter_simps ram_of_entry_def)
qed

end
