(* ===== verification/SpinLock.thy ===== *)
theory SpinLock
  imports Prelude
begin

text \<open>
  \<open>libs/rust/ftl_utils/src/spinlock.rs\<close>: the lock word is one atomic flag, the guard gives access to
  the value and its destructor releases the flag. \<open>spin_step\<close> is the interleaving of any number of
  processors that use one lock, at the grain of single atomic accesses to the flag and single loads
  and stores of the value through a guard (memory orders are taken as sequentially consistent).
\<close>

section \<open>Operations\<close>

record 'a SpinLock =
  sl_lock :: bool
  sl_value :: 'a

definition spinlock_new :: "'a \<Rightarrow> 'a SpinLock" where
  "spinlock_new v = \<lparr>sl_lock = False, sl_value = v\<rparr>"

text \<open>\<open>AtomicBool::compare_exchange\<close>: the old value as a success or a failure, and the new flag.\<close>

definition compare_exchange :: "bool \<Rightarrow> bool \<Rightarrow> bool \<Rightarrow> (bool + bool) \<times> bool" where
  "compare_exchange flag current new = (if flag = current then (Inr flag, new) else (Inl flag, flag))"

text \<open>A guard is a reference to the lock it was taken from, so that success carries no further data.\<close>

definition try_lock :: "'a SpinLock \<Rightarrow> (unit + unit) \<times> 'a SpinLock" where
  "try_lock l = (case compare_exchange (sl_lock l) False True of
     (Inl _, flag) \<Rightarrow> (Inl (), l\<lparr>sl_lock := flag\<rparr>)
   | (Inr _, flag) \<Rightarrow> (Inr (), l\<lparr>sl_lock := flag\<rparr>))"

text \<open>The spin loop of a processor that runs alone; none: it spins forever.\<close>

partial_function (option) lock_spin :: "'a SpinLock \<Rightarrow> 'a SpinLock option" where
  "lock_spin l = (case try_lock l of
     (Inr _, l) \<Rightarrow> Some l
   | (Inl _, l) \<Rightarrow> lock_spin l)"

definition guard_drop :: "'a SpinLock \<Rightarrow> 'a SpinLock" where
  "guard_drop l = l\<lparr>sl_lock := False\<rparr>"

definition guard_deref :: "'a SpinLock \<Rightarrow> 'a" where
  "guard_deref l = sl_value l"

definition guard_deref_mut :: "'a \<Rightarrow> 'a SpinLock \<Rightarrow> 'a SpinLock" where
  "guard_deref_mut v l = l\<lparr>sl_value := v\<rparr>"

section \<open>Processors\<close>

text \<open>
  Where a processor is: not using the lock, in the spin loop, holding a guard, or holding a guard and
  a copy of the value that it has loaded and is about to update.
\<close>

datatype 'a pc = Idle | Spin | Held | Loaded 'a

fun holds_guard :: "'a pc \<Rightarrow> bool" where
  "holds_guard Idle = False"
| "holds_guard Spin = False"
| "holds_guard Held = True"
| "holds_guard (Loaded v) = True"

text \<open>
  One step of one of the processors. \<open>upd c\<close> is what processor \<open>c\<close> does to the value; \<open>hist\<close> records
  whose updates have been stored, the latest first.
\<close>

inductive spin_step :: "(nat \<Rightarrow> 'a \<Rightarrow> 'a) \<Rightarrow> 'a SpinLock \<times> (nat \<Rightarrow> 'a pc) \<times> nat list
    \<Rightarrow> 'a SpinLock \<times> (nat \<Rightarrow> 'a pc) \<times> nat list \<Rightarrow> bool" for upd where
  start: "pc c = Idle \<Longrightarrow> spin_step upd (l, pc, hist) (l, pc(c := Spin), hist)"
| acquire: "pc c = Spin \<Longrightarrow> try_lock l = (Inr (), l') \<Longrightarrow> spin_step upd (l, pc, hist) (l', pc(c := Held), hist)"
| retry: "pc c = Spin \<Longrightarrow> try_lock l = (Inl (), l') \<Longrightarrow> spin_step upd (l, pc, hist) (l', pc, hist)"
| load: "pc c = Held \<Longrightarrow> spin_step upd (l, pc, hist) (l, pc(c := Loaded (guard_deref l)), hist)"
| store: "pc c = Loaded v \<Longrightarrow> spin_step upd (l, pc, hist) (guard_deref_mut (upd c v) l, pc(c := Held), c # hist)"
| release: "pc c = Held \<Longrightarrow> spin_step upd (l, pc, hist) (guard_drop l, pc(c := Idle), hist)"

inductive_cases spin_stepE: "spin_step upd s t"

text \<open>
  The invariant: the flag is set exactly while some processor holds a guard, no two do, a loaded copy
  is current, and the value is the result of the recorded updates.
\<close>

definition spin_inv :: "(nat \<Rightarrow> 'a \<Rightarrow> 'a) \<Rightarrow> 'a \<Rightarrow> 'a SpinLock \<times> (nat \<Rightarrow> 'a pc) \<times> nat list \<Rightarrow> bool" where
  "spin_inv upd v0 s \<longleftrightarrow> (case s of (l, pc, hist) \<Rightarrow>
     (sl_lock l \<longleftrightarrow> (\<exists>c. holds_guard (pc c)))
     \<and> (\<forall>c d. holds_guard (pc c) \<longrightarrow> holds_guard (pc d) \<longrightarrow> c = d)
     \<and> (\<forall>c v. pc c = Loaded v \<longrightarrow> v = sl_value l)
     \<and> sl_value l = foldr upd hist v0)"

lemma try_lock_iff:
  "try_lock l = (Inr (), l') \<longleftrightarrow> \<not> sl_lock l \<and> l' = l\<lparr>sl_lock := True\<rparr>"
  "try_lock l = (Inl (), l') \<longleftrightarrow> sl_lock l \<and> l' = l"
  by (cases l; auto simp: try_lock_def compare_exchange_def)+

lemma spin_inv_init: "spin_inv upd v (spinlock_new v, \<lambda>_. Idle, [])"
  by (simp add: spin_inv_def spinlock_new_def)

text \<open>The invariant while processor \<open>c\<close> holds the guard, and while nobody does.\<close>

lemma spin_inv_held:
  assumes "holds_guard (pc c)"
  shows "spin_inv upd v0 (l, pc, hist) \<longleftrightarrow> sl_lock l \<and> (\<forall>d. d \<noteq> c \<longrightarrow> \<not> holds_guard (pc d))
    \<and> (\<forall>v. pc c = Loaded v \<longrightarrow> v = sl_value l) \<and> sl_value l = foldr upd hist v0"
proof -
  have "pc d = Loaded v \<Longrightarrow> holds_guard (pc d)" for d v by simp
  then show ?thesis unfolding spin_inv_def prod.case using assms by metis
qed

lemma spin_inv_free:
  "(\<And>d. \<not> holds_guard (pc d)) \<Longrightarrow> spin_inv upd v0 (l, pc, hist) \<longleftrightarrow> \<not> sl_lock l \<and> sl_value l = foldr upd hist v0"
  unfolding spin_inv_def prod.case by (metis holds_guard.simps(4))

lemma spin_inv_step: "spin_step upd s t \<Longrightarrow> spin_inv upd v0 s \<Longrightarrow> spin_inv upd v0 t"
proof (induction rule: spin_step.induct)
  case (start pc c l hist)
  then have "holds_guard ((pc(c := Spin)) d) = holds_guard (pc d)" "(pc(c := Spin)) d = Loaded v \<longleftrightarrow> pc d = Loaded v" for d v
    by auto
  with start show ?case unfolding spin_inv_def prod.case by metis
next
  case (acquire pc c l l' hist)
  then have "\<not> sl_lock l" and l': "l' = l\<lparr>sl_lock := True\<rparr>" by (simp_all add: try_lock_iff)
  with acquire.prems have "\<not> holds_guard (pc d)" for d unfolding spin_inv_def by auto
  with acquire.prems l' show ?case by (simp add: spin_inv_held [of _ c] spin_inv_free)
next
  case (retry pc c l l' hist)
  then show ?case by (simp add: try_lock_iff)
next
  case (load pc c l hist)
  then show ?case by (simp add: spin_inv_held [of _ c] guard_deref_def)
next
  case (store pc c v l hist)
  then show ?case by (simp add: spin_inv_held [of _ c] guard_deref_mut_def)
next
  case (release pc c l hist)
  then have "\<not> holds_guard ((pc(c := Idle)) d)" for d by (simp add: spin_inv_held [of _ c])
  with release show ?case by (simp add: spin_inv_held [of pc c] spin_inv_free guard_drop_def)
qed

lemma spin_inv_reachable:
  "(spin_step upd)\<^sup>*\<^sup>* (spinlock_new v, \<lambda>_. Idle, []) s \<Longrightarrow> spin_inv upd v s"
  by (induction rule: rtranclp_induct) (auto simp: spin_inv_init intro: spin_inv_step)

lemma spin_step_then: "spin_step upd s t \<Longrightarrow> (spin_step upd)\<^sup>*\<^sup>* t u \<Longrightarrow> (spin_step upd)\<^sup>*\<^sup>* s u"
  by (rule converse_rtranclp_into_rtranclp)

lemma lock_spin_some: "lock_spin l = Some l' \<Longrightarrow> \<not> sl_lock l"
  by (erule lock_spin.raw_induct [where P = "\<lambda>l l'. \<not> sl_lock l", rotated])
     (fastforce simp: try_lock_def compare_exchange_def split: if_splits)

lemma lock_spin_held: "sl_lock l \<Longrightarrow> lock_spin l = None"
  using lock_spin_some by (cases "lock_spin l") auto

lemma lock_spin_free: "\<not> sl_lock l \<Longrightarrow> lock_spin l = Some (l\<lparr>sl_lock := True\<rparr>)"
  by (subst lock_spin.simps) (simp add: try_lock_def compare_exchange_def)

section \<open>Properties\<close>

text \<open>
  C30. The spin lock under every interleaving of any number of processors: at most one of them has a
  guard, the flag is set exactly while one has, and no update is lost: the value is what the stored
  updates give one after another. A processor that takes a free lock gets it at once, and one that
  takes a lock it already holds spins forever.
\<close>

theorem spinlock_mutual_exclusion:
  assumes "(spin_step upd)\<^sup>*\<^sup>* (spinlock_new v, \<lambda>_. Idle, []) (l, pc, hist)"
  shows "(holds_guard (pc c) \<longrightarrow> holds_guard (pc d) \<longrightarrow> c = d)
    \<and> (sl_lock l \<longleftrightarrow> (\<exists>e. holds_guard (pc e))) \<and> guard_deref l = foldr upd hist v
    \<and> lock_spin l = (if \<exists>e. holds_guard (pc e) then None else Some (l\<lparr>sl_lock := True\<rparr>))"
  using spin_inv_reachable [OF assms] lock_spin_held [of l] lock_spin_free [of l]
  by (auto simp: spin_inv_def guard_deref_def)

text \<open>Two processors that both increment a counter: the second one waits for the first.\<close>

definition two_cpus :: "'a pc \<Rightarrow> 'a pc \<Rightarrow> nat \<Rightarrow> 'a pc" where
  "two_cpus x y c = (if c = 0 then x else if c = 1 then y else Idle)"

lemma two_cpus_simps [simp]:
  "two_cpus x y 0 = x" "two_cpus x y (Suc 0) = y"
  "(two_cpus x y)(0 := z) = two_cpus z y" "(two_cpus x y)(Suc 0 := z) = two_cpus x z"
  by (auto simp: two_cpus_def)

theorem spinlock_mutual_exclusion_witness:
  "(spin_step (\<lambda>c v. v + c + 1))\<^sup>*\<^sup>* (spinlock_new (0::nat), \<lambda>_. Idle, [])
     (\<lparr>sl_lock = True, sl_value = 1\<rparr>, two_cpus Held Spin, [0])
   \<and> lock_spin \<lparr>sl_lock = True, sl_value = 1::nat\<rparr> = None"
proof -
  let ?u = "\<lambda>c v::nat. v + c + 1" and ?l = "\<lambda>b v. \<lparr>sl_lock = b, sl_value = v::nat\<rparr>"
  have idle: "(\<lambda>_. Idle) = two_cpus Idle Idle" by (auto simp: two_cpus_def)
  have s1: "spin_step ?u (?l False 0, two_cpus Idle Idle, []) (?l False 0, two_cpus Spin Idle, [])"
    using spin_step.start [of "two_cpus Idle Idle" 0 ?u "?l False 0" "[]"] by simp
  have s2: "spin_step ?u (?l False 0, two_cpus Spin Idle, []) (?l False 0, two_cpus Spin Spin, [])"
    using spin_step.start [of "two_cpus Spin Idle" 1 ?u "?l False 0" "[]"] by simp
  have s3: "spin_step ?u (?l False 0, two_cpus Spin Spin, []) (?l True 0, two_cpus Held Spin, [])"
    using spin_step.acquire [of "two_cpus Spin Spin" 0 "?l False 0" "?l True 0" ?u "[]"] by (simp add: try_lock_iff)
  have s4: "spin_step ?u (?l True 0, two_cpus Held Spin, []) (?l True 0, two_cpus (Loaded 0) Spin, [])"
    using spin_step.load [of "two_cpus Held Spin" 0 ?u "?l True 0" "[]"] by (simp add: guard_deref_def)
  have s5: "spin_step ?u (?l True 0, two_cpus (Loaded 0) Spin, []) (?l True 1, two_cpus Held Spin, [0])"
    using spin_step.store [of "two_cpus (Loaded 0) Spin" 0 0 ?u "?l True 0" "[]"] by (simp add: guard_deref_mut_def)
  have run: "(spin_step ?u)\<^sup>*\<^sup>* (spinlock_new 0, \<lambda>_. Idle, []) (?l True 1, two_cpus Held Spin, [0])"
    unfolding spinlock_new_def idle
    by (rule spin_step_then [OF s1 spin_step_then [OF s2 spin_step_then [OF s3 spin_step_then [OF s4
        spin_step_then [OF s5 rtranclp.rtrancl_refl]]]]])
  have "holds_guard (two_cpus Held (Spin :: nat pc) 0)" by simp
  then have "\<exists>e. holds_guard (two_cpus Held (Spin :: nat pc) e)" ..
  then have "lock_spin (?l True 1) = None" using spinlock_mutual_exclusion [OF run] by simp
  with run show ?thesis by blast
qed

end
