(* ===== verification/SharedRef.thy ===== *)
theory SharedRef
  imports Api "HOL-Library.Multiset"
begin

text \<open>
  \<open>kernel/src/shared_ref.rs\<close>: reference-counted kernel objects. A store maps the address of a live
  \<open>RefCounted<T>\<close> to its counter and value; a \<open>SharedRef<T>\<close> is such an address, and touching an
  address that is not in the store is a use after free (\<open>Undef\<close>). Raw pointers point at the value
  inside the object: \<open>off\<close> is the field offset \<open>offset_of!(RefCounted<T>, value)\<close> that the compiler
  chooses. \<open>drop\<close> gives the value of an object that it frees to the caller, who drops its fields.

  The locale \<open>shared_refs\<close> states what the clients of reference counting rely on. \<open>owned\<close> says that
  the counters are exactly the numbers of references that exist, given as a multiset.
\<close>

section \<open>Operations\<close>

record 'a RefCounted =
  rc_counter :: u64
  rc_value :: 'a

type_synonym 'a refs = "nat \<rightharpoonup> 'a RefCounted"

definition refcounted_new :: "'a \<Rightarrow> 'a RefCounted" where
  "refcounted_new v = \<lparr>rc_counter = 1, rc_value = v\<rparr>"

definition refcounted_new_static :: "'a \<Rightarrow> 'a RefCounted" where
  "refcounted_new_static v = \<lparr>rc_counter = of_nat (USIZE_MAX div 2), rc_value = v\<rparr>"

text \<open>
  \<open>alloc\<close> is the outcome of the global allocator for the object: an address, a null pointer (none), or a
  panic, which is what the kernel's own allocator does when it is out of memory.
\<close>

definition sr_new :: "nat option exec \<Rightarrow> 'a \<Rightarrow> 'a refs \<Rightarrow> ((ErrorCode + nat) \<times> 'a refs) exec" where
  "sr_new alloc v s = exec_bind alloc (\<lambda>ptr. case ptr of
     None \<Rightarrow> Val (Inl OUT_OF_MEMORY, s)
   | Some p \<Rightarrow> Val (Inr p, s(p \<mapsto> refcounted_new v)))"

definition sr_new_static :: "nat \<Rightarrow> nat" where
  "sr_new_static inner = inner"

definition sr_inner :: "nat \<Rightarrow> 'a refs \<Rightarrow> 'a RefCounted exec" where
  "sr_inner p s = (case s p of None \<Rightarrow> Undef | Some r \<Rightarrow> Val r)"

definition sr_deref :: "nat \<Rightarrow> 'a refs \<Rightarrow> 'a exec" where
  "sr_deref p s = exec_bind (sr_inner p s) (\<lambda>r. Val (rc_value r))"

definition as_ptr :: "nat \<Rightarrow> nat \<Rightarrow> nat" where
  "as_ptr off p = p + off"

definition sr_eq :: "nat \<Rightarrow> nat \<Rightarrow> bool" where
  "sr_eq a b \<longleftrightarrow> a = b"

definition into_raw :: "nat \<Rightarrow> nat \<Rightarrow> nat" where
  "into_raw off p = as_ptr off p"

definition from_raw :: "nat \<Rightarrow> nat \<Rightarrow> nat" where
  "from_raw off ptr = ptr - off"

definition sr_drop :: "nat \<Rightarrow> 'a refs \<Rightarrow> ('a option \<times> 'a refs) exec" where
  "sr_drop p s = exec_bind (sr_inner p s) (\<lambda>r.
     assert_exec (0 < rc_counter r)
       (let s' = s(p \<mapsto> r\<lparr>rc_counter := rc_counter r - 1\<rparr>) in
        if rc_counter r = 1 then Val (Some (rc_value r), s'(p := None)) else Val (None, s')))"

definition sr_clone :: "nat \<Rightarrow> 'a refs \<Rightarrow> 'a refs exec" where
  "sr_clone p s = exec_bind (sr_inner p s) (\<lambda>r.
     assert_exec (0 < rc_counter r) (Val (s(p \<mapsto> r\<lparr>rc_counter := rc_counter r + 1\<rparr>))))"

text \<open>The temporary reference is never dropped (\<open>ManuallyDrop\<close>).\<close>

definition clone_from_raw :: "nat \<Rightarrow> nat \<Rightarrow> 'a refs \<Rightarrow> (nat \<times> 'a refs) exec" where
  "clone_from_raw off ptr s = (let borrowed = from_raw off ptr in
     exec_bind (sr_clone borrowed s) (\<lambda>s. Val (borrowed, s)))"

definition from_borrowed_handle :: "obj_type \<Rightarrow> nat \<Rightarrow> Handle \<Rightarrow> HandleRight \<Rightarrow> 'a refs
    \<Rightarrow> ((ErrorCode + nat) \<times> 'a refs) exec" where
  "from_borrowed_handle T off h action s =
     (if \<not> is_type h T then Val (Inl INVALID_TYPE, s)
      else if \<not> authorize h action then Val (Inl NOT_ALLOWED, s)
      else exec_bind (clone_from_raw off (hd_raw h) s) (\<lambda>(p, s). Val (Inr p, s)))"

definition from_moved_handle :: "obj_type \<Rightarrow> nat \<Rightarrow> Handle \<Rightarrow> ErrorCode + nat" where
  "from_moved_handle T off h =
     (if \<not> is_type h T then Inl INVALID_TYPE else Inr (from_raw off (hd_raw h)))"

definition into_handle :: "obj_type \<Rightarrow> nat \<Rightarrow> nat \<Rightarrow> Handle" where
  "into_handle T off p = handle_new T (into_raw off p) (default_right T)"

section \<open>What reference counting promises\<close>

text \<open>
  \<open>owned s R\<close>: the references that exist in state \<open>s\<close> are those of the multiset \<open>R\<close>; \<open>object_at\<close> is the
  object behind a reference. Cloning adds a reference, dropping takes one away, and the object goes
  with the last one, whose dropper gets the value.
\<close>

locale shared_refs =
  fixes clone_ref :: "nat \<Rightarrow> 's \<Rightarrow> 's exec"
    and drop_ref :: "nat \<Rightarrow> 's \<Rightarrow> ('v option \<times> 's) exec"
    and owned :: "'s \<Rightarrow> nat multiset \<Rightarrow> bool"
    and object_at :: "'s \<Rightarrow> nat \<Rightarrow> 'v option"
  assumes owned_object: "owned s R \<Longrightarrow> object_at s p \<noteq> None \<longleftrightarrow> p \<in># R"
    and clone_law: "owned s R \<Longrightarrow> p \<in># R \<Longrightarrow> size R < USIZE_MAX \<Longrightarrow>
      \<exists>s'. clone_ref p s = Val s' \<and> owned s' (add_mset p R) \<and> object_at s' = object_at s"
    and drop_law: "owned s (add_mset p R) \<Longrightarrow>
      \<exists>s'. drop_ref p s = Val (if p \<in># R then None else object_at s p, s') \<and> owned s' R
        \<and> object_at s' = (if p \<in># R then object_at s else (object_at s)(p := None))"

text \<open>Sequences of clones and drops, each on a reference that exists when it is its turn.\<close>

datatype ref_op = CloneOp nat | DropOp nat

fun ops_valid :: "ref_op list \<Rightarrow> nat multiset \<Rightarrow> bool" where
  "ops_valid [] R \<longleftrightarrow> True"
| "ops_valid (CloneOp p # ops) R \<longleftrightarrow> p \<in># R \<and> ops_valid ops (add_mset p R)"
| "ops_valid (DropOp p # ops) R \<longleftrightarrow> p \<in># R \<and> ops_valid ops (R - {#p#})"

fun ops_refs :: "ref_op list \<Rightarrow> nat multiset \<Rightarrow> nat multiset" where
  "ops_refs [] R = R"
| "ops_refs (CloneOp p # ops) R = ops_refs ops (add_mset p R)"
| "ops_refs (DropOp p # ops) R = ops_refs ops (R - {#p#})"

text \<open>The run of a sequence, with the objects it frees, in order.\<close>

fun run_ops :: "(nat \<Rightarrow> 's \<Rightarrow> 's exec) \<Rightarrow> (nat \<Rightarrow> 's \<Rightarrow> ('v option \<times> 's) exec) \<Rightarrow> ref_op list \<Rightarrow> 's
    \<Rightarrow> ('v list \<times> 's) exec" where
  "run_ops clone_ref drop_ref [] s = Val ([], s)"
| "run_ops clone_ref drop_ref (CloneOp p # ops) s = exec_bind (clone_ref p s) (run_ops clone_ref drop_ref ops)"
| "run_ops clone_ref drop_ref (DropOp p # ops) s = exec_bind (drop_ref p s) (\<lambda>(v, s).
     exec_bind (run_ops clone_ref drop_ref ops s) (\<lambda>(vs, s).
       Val (case v of None \<Rightarrow> vs | Some v \<Rightarrow> v # vs, s)))"

lemma ops_refs_subset: "ops_valid ops R \<Longrightarrow> p \<in># ops_refs ops R \<Longrightarrow> p \<in># R"
proof (induction ops R rule: ops_refs.induct)
  case (3 q ops R)
  then have "p \<in># R - {#q#}" by simp
  then show ?case by (rule in_diffD)
qed auto

context shared_refs
begin

lemma run_owned:
  assumes "owned s R" and "ops_valid ops R" and "size R + length ops \<le> USIZE_MAX"
  shows "\<exists>vs s'. run_ops clone_ref drop_ref ops s = Val (vs, s') \<and> owned s' (ops_refs ops R)
    \<and> (\<forall>p. p \<in># ops_refs ops R \<longrightarrow> object_at s' p = object_at s p)
    \<and> card (set_mset R) = card (set_mset (ops_refs ops R)) + length vs"
  using assms
proof (induction ops R arbitrary: s rule: ops_refs.induct)
  case (1 R)
  then show ?case by auto
next
  case (2 p ops R)
  then obtain s1 where "clone_ref p s = Val s1" "owned s1 (add_mset p R)" "object_at s1 = object_at s"
    using clone_law [of s R p] by auto
  then show ?case using "2.IH" [of s1] "2.prems" by (simp add: insert_absorb)
next
  case (3 p ops R)
  then have p: "p \<in># R" by simp
  then have R: "R = add_mset p (R - {#p#})" by simp
  have sz: "size (R - {#p#}) + length ops \<le> USIZE_MAX" using "3.prems"(3) by (simp add: size_Diff_singleton [OF p])
  obtain s1 where s1: "drop_ref p s = Val (if p \<in># R - {#p#} then None else object_at s p, s1)" "owned s1 (R - {#p#})"
    "object_at s1 = (if p \<in># R - {#p#} then object_at s else (object_at s)(p := None))"
    using drop_law [of s p "R - {#p#}"] "3.prems"(1) R by auto
  obtain vs s' where IH: "run_ops clone_ref drop_ref ops s1 = Val (vs, s')" "owned s' (ops_refs ops (R - {#p#}))"
    "\<forall>q. q \<in># ops_refs ops (R - {#p#}) \<longrightarrow> object_at s' q = object_at s1 q"
    "card (set_mset (R - {#p#})) = card (set_mset (ops_refs ops (R - {#p#}))) + length vs"
    using "3.IH" [OF s1(2)] sz "3.prems"(2) by auto
  have keep: "object_at s' q = object_at s q" if q: "q \<in># ops_refs ops (R - {#p#})" for q
  proof -
    have "q \<in># R - {#p#}" using ops_refs_subset [OF _ q] "3.prems"(2) by simp
    then show ?thesis using IH(3) q s1(3) by auto
  qed
  show ?case
  proof (cases "p \<in># R - {#p#}")
    case True
    then have "set_mset R = set_mset (R - {#p#})" using R by (metis insert_absorb set_mset_add_mset_insert)
    then show ?thesis using True s1(1) IH keep by simp
  next
    case False
    obtain v where v: "object_at s p = Some v" using owned_object [OF "3.prems"(1), of p] p by auto
    have "card (set_mset R) = Suc (card (set_mset (R - {#p#})))"
      using False R by (metis card_insert_disjoint finite_set_mset set_mset_add_mset_insert)
    then show ?thesis using False s1(1) v IH keep by simp
  qed
qed

end

section \<open>The store keeps the promise\<close>

definition refs_owned :: "'a refs \<Rightarrow> nat multiset \<Rightarrow> bool" where
  "refs_owned s R \<longleftrightarrow> dom s = set_mset R \<and> (\<forall>p r. s p = Some r \<longrightarrow> unat (rc_counter r) = count R p)"

definition refs_object :: "'a refs \<Rightarrow> nat \<Rightarrow> 'a option" where
  "refs_object s p = map_option rc_value (s p)"

lemma u64_inc: "unat c < USIZE_MAX \<Longrightarrow> unat (c + 1 :: u64) = Suc (unat c)"
  by (simp add: USIZE_MAX_def unat_word_ariths)

lemma u64_dec: "c \<noteq> 0 \<Longrightarrow> unat (c - 1 :: u64) = unat c - 1"
  by (rule unat_minus_one)

lemma refs_owned_live:
  assumes "refs_owned s R" and "p \<in># R"
  shows "\<exists>r. s p = Some r \<and> unat (rc_counter r) = count R p \<and> 0 < rc_counter r"
proof -
  have "p \<in> dom s" using assms by (simp add: refs_owned_def)
  then obtain r where r: "s p = Some r" by blast
  then have "unat (rc_counter r) = count R p" using assms(1) by (simp add: refs_owned_def)
  moreover have "count R p \<noteq> 0" using assms(2) by simp
  ultimately have "rc_counter r \<noteq> 0" by (metis unat_0)
  with r \<open>unat (rc_counter r) = count R p\<close> show ?thesis by (simp add: word_neq_0_conv)
qed

lemma sr_clone_owned:
  assumes "refs_owned s R" and "p \<in># R" and "size R < USIZE_MAX"
  shows "\<exists>s'. sr_clone p s = Val s' \<and> refs_owned s' (add_mset p R) \<and> refs_object s' = refs_object s"
proof -
  obtain r where r: "s p = Some r" "unat (rc_counter r) = count R p" "0 < rc_counter r"
    using refs_owned_live [OF assms(1,2)] by blast
  let ?s = "s(p \<mapsto> r\<lparr>rc_counter := rc_counter r + 1\<rparr>)"
  have "unat (rc_counter r) < USIZE_MAX" using r(2) assms(3) count_le_size [of R p] by simp
  then have "refs_owned ?s (add_mset p R)"
    using assms(1) r(1,2) by (auto simp: refs_owned_def u64_inc)
  moreover have "refs_object ?s = refs_object s" using r(1) by (auto simp: refs_object_def)
  ultimately show ?thesis using r by (simp add: sr_clone_def sr_inner_def assert_exec_def)
qed

lemma sr_drop_owned:
  assumes "refs_owned s (add_mset p R)"
  shows "\<exists>s'. sr_drop p s = Val (if p \<in># R then None else refs_object s p, s') \<and> refs_owned s' R
    \<and> refs_object s' = (if p \<in># R then refs_object s else (refs_object s)(p := None))"
proof -
  obtain r where r: "s p = Some r" "unat (rc_counter r) = Suc (count R p)" "0 < rc_counter r"
    using refs_owned_live [OF assms, of p] by auto
  have one: "rc_counter r = 1 \<longleftrightarrow> p \<notin># R"
    using r(2) word_unat_eq_iff [of "rc_counter r" 1] by (auto simp: not_in_iff)
  show ?thesis
  proof (cases "p \<in># R")
    case True
    let ?s = "s(p \<mapsto> r\<lparr>rc_counter := rc_counter r - 1\<rparr>)"
    have "refs_owned ?s R" using assms r(1,2,3) True by (auto simp: refs_owned_def u64_dec)
    moreover have "refs_object ?s = refs_object s" using r(1) by (auto simp: refs_object_def)
    ultimately show ?thesis using r one True by (simp add: sr_drop_def sr_inner_def assert_exec_def Let_def)
  next
    case False
    have "refs_owned (s(p := None)) R"
      unfolding refs_owned_def
    proof (intro conjI allI impI)
      show "dom (s(p := None)) = set_mset R" using assms False by (auto simp: refs_owned_def)
      fix q t assume "(s(p := None)) q = Some t"
      then show "unat (rc_counter t) = count R q" using assms by (auto simp: refs_owned_def split: if_splits)
    qed
    moreover have "refs_object (s(p := None)) = (refs_object s)(p := None)" by (auto simp: refs_object_def)
    ultimately show ?thesis using r one False
      by (simp add: sr_drop_def sr_inner_def assert_exec_def Let_def refs_object_def)
  qed
qed

lemma refs_object_owned: "refs_owned s R \<Longrightarrow> refs_object s p \<noteq> None \<longleftrightarrow> p \<in># R"
  by (auto simp: refs_owned_def refs_object_def)

interpretation refs: shared_refs sr_clone sr_drop refs_owned refs_object
  by unfold_locales (rule refs_object_owned sr_clone_owned sr_drop_owned; assumption)+

section \<open>Handles\<close>

lemma from_raw_into_raw [simp]: "from_raw off (into_raw off p) = p"
  by (simp add: from_raw_def into_raw_def as_ptr_def)

lemma into_handle_fields [simp]:
  "is_type (into_handle T off p) U \<longleftrightarrow> T = U" "from_raw off (hd_raw (into_handle T off p)) = p"
  "authorize (into_handle T off p) action \<longleftrightarrow> right_contains (default_right T) action"
  by (simp_all add: into_handle_def handle_new_def is_type_def authorize_def)

text \<open>Using a handle that owns a reference.\<close>

lemma from_borrowed_handle_owned:
  assumes "refs_owned s R" and "from_raw off (hd_raw h) \<in># R" and "size R < USIZE_MAX"
    and "is_type h T" and "authorize h action"
  shows "\<exists>s'. from_borrowed_handle T off h action s = Val (Inr (from_raw off (hd_raw h)), s')
    \<and> refs_owned s' (add_mset (from_raw off (hd_raw h)) R) \<and> refs_object s' = refs_object s"
  using refs.clone_law [OF assms(1-3)] assms(4,5) by (auto simp: from_borrowed_handle_def clone_from_raw_def)

section \<open>Properties\<close>

text \<open>
  C31. Reference counting is safe: as long as every clone and every drop is done by a holder of a
  reference (and there are fewer references than a counter can count), no sequence of them panics or
  touches a freed object, an object stays alive with its value exactly as long as a reference to it
  is left, and every object that goes is handed to its destructor exactly once.
\<close>

theorem refcount_safe:
  assumes "refs_owned s R" and "ops_valid ops R" and "size R + length ops \<le> USIZE_MAX"
  shows "\<exists>vs s'. run_ops sr_clone sr_drop ops s = Val (vs, s') \<and> refs_owned s' (ops_refs ops R)
    \<and> dom s' = set_mset (ops_refs ops R) \<and> (\<forall>p. p \<in># ops_refs ops R \<longrightarrow> sr_deref p s' = sr_deref p s)
    \<and> card (dom s) = card (dom s') + length vs"
proof -
  obtain vs s' where r: "run_ops sr_clone sr_drop ops s = Val (vs, s')" "refs_owned s' (ops_refs ops R)"
    "\<forall>p. p \<in># ops_refs ops R \<longrightarrow> refs_object s' p = refs_object s p"
    "card (set_mset R) = card (set_mset (ops_refs ops R)) + length vs"
    using refs.run_owned [OF assms] by blast
  have "sr_deref p t = (case refs_object t p of None \<Rightarrow> Undef | Some v \<Rightarrow> Val v)" for p and t :: "'a refs"
    by (cases "t p") (simp_all add: sr_deref_def sr_inner_def refs_object_def)
  then show ?thesis using r assms(1) by (auto simp: refs_owned_def)
qed

text \<open>An object at address 16 is created, shared and given up twice: the second drop frees it.\<close>

theorem refcount_safe_witness:
  "\<exists>s. sr_new (Val (Some 16)) (7::nat) Map.empty = Val (Inr 16, s)
    \<and> (\<exists>vs s'. run_ops sr_clone sr_drop [CloneOp 16, DropOp 16, DropOp 16] s = Val (vs, s')
        \<and> dom s' = {} \<and> length vs = 1)"
proof -
  let ?s = "[16 \<mapsto> refcounted_new (7::nat)]"
  have "refs_owned ?s {#16#}" by (auto simp: refs_owned_def refcounted_new_def)
  from refcount_safe [OF this, of "[CloneOp 16, DropOp 16, DropOp 16]"]
  have "\<exists>vs s'. run_ops sr_clone sr_drop [CloneOp 16, DropOp 16, DropOp 16] ?s = Val (vs, s')
      \<and> dom s' = {} \<and> length vs = 1"
    by (auto simp: USIZE_MAX_def)
  then show ?thesis by (simp add: sr_new_def)
qed

end
