(* ===== verification/Context.thy ===== *)
theory Context
  imports Prelude
begin

text \<open>
  The user context of a thread: \<open>kernel/src/arch/x64/thread.rs\<close> (the saved registers, reading and
  writing them for servers, and \<open>enter\<close>, which leaves the kernel), the entry paths of
  \<open>arch/x64/syscall.rs\<close> and \<open>arch/x64/idt.rs\<close>, and the context types of \<open>ftl_api/src/thread.rs\<close>.

  The assembly sequences are lists of instructions with a small interpreter: \<open>cpu\<close> holds the
  registers that the sequences use and memory as 64-bit cells by address. Every access of the
  sequences is a whole cell. The offsets of the fields of \<open>CpuVar\<close> are chosen by the compiler and
  are arguments; the \<open>Thread\<close> structure is packed, so that field \<open>i\<close> is at offset \<open>8 * i\<close>.
\<close>

section \<open>Context data\<close>

datatype ContextKind = SyscallArgs | Sysret | InitRegs | Fsbase

text \<open>\<open>ContextData\<close> is a union of structures of 64-bit words; the longest has seven.\<close>

type_synonym ContextData = "u64 list"

record ArchThread =
  at_rip :: u64
  at_cs :: u64
  at_rflags :: u64
  at_rsp :: u64
  at_ss :: u64
  at_rax :: u64
  at_rbx :: u64
  at_rcx :: u64
  at_rdx :: u64
  at_rsi :: u64
  at_rdi :: u64
  at_rbp :: u64
  at_r8 :: u64
  at_r9 :: u64
  at_r10 :: u64
  at_r11 :: u64
  at_r12 :: u64
  at_r13 :: u64
  at_r14 :: u64
  at_r15 :: u64
  at_gsbase :: u64
  at_fsbase :: u64

definition GDT_KERNEL_CS :: u16 where "GDT_KERNEL_CS = 8"
definition GDT_USER_DS :: u16 where "GDT_USER_DS = (4 * 8) OR 3"
definition GDT_USER_CS :: u16 where "GDT_USER_CS = (5 * 8) OR 3"

definition arch_thread_new :: ArchThread where
  "arch_thread_new = \<lparr>at_rip = 0, at_cs = ucast GDT_USER_CS, at_rflags = 0x202, at_rsp = 0, at_ss = ucast GDT_USER_DS,
     at_rax = 0, at_rbx = 0, at_rcx = 0, at_rdx = 0, at_rsi = 0, at_rdi = 0, at_rbp = 0, at_r8 = 0, at_r9 = 0,
     at_r10 = 0, at_r11 = 0, at_r12 = 0, at_r13 = 0, at_r14 = 0, at_r15 = 0, at_gsbase = 0, at_fsbase = 0\<rparr>"

text \<open>Storing to a member of the union replaces its words and keeps the others.\<close>

definition set_member :: "u64 list \<Rightarrow> ContextData \<Rightarrow> ContextData" where
  "set_member ws regs = ws @ drop (length ws) regs"

definition syscall_args_zeroed :: "u64 list" where
  "syscall_args_zeroed = replicate 7 0"

definition sysret_zeroed :: "u64 list" where
  "sysret_zeroed = [0]"

fun arch_read_context :: "ArchThread \<Rightarrow> ContextKind \<Rightarrow> ContextData \<Rightarrow> ContextData" where
  "arch_read_context t SyscallArgs regs =
     set_member [at_rax t, at_rdi t, at_rsi t, at_rdx t, at_r10 t, at_r8 t, at_r9 t] regs"
| "arch_read_context t Sysret regs = set_member [at_rax t] regs"
| "arch_read_context t InitRegs regs = set_member [at_rip t, at_rsp t] regs"
| "arch_read_context t Fsbase regs = set_member [at_fsbase t] regs"

fun arch_write_context :: "ArchThread \<Rightarrow> ContextKind \<Rightarrow> ContextData \<Rightarrow> ArchThread" where
  "arch_write_context t SyscallArgs regs =
     t\<lparr>at_rax := regs ! 0, at_rdi := regs ! 1, at_rsi := regs ! 2, at_rdx := regs ! 3, at_r10 := regs ! 4,
       at_r8 := regs ! 5, at_r9 := regs ! 6\<rparr>"
| "arch_write_context t Sysret regs = t\<lparr>at_rax := regs ! 0\<rparr>"
| "arch_write_context t InitRegs regs = t\<lparr>at_rip := regs ! 0, at_rsp := regs ! 1\<rparr>"
| "arch_write_context t Fsbase regs = t\<lparr>at_fsbase := regs ! 0\<rparr>"

section \<open>The processor\<close>

datatype reg = RAX | RBX | RCX | RDX | RSI | RDI | RBP | RSP | R8 | R9 | R10 | R11 | R12 | R13 | R14 | R15

record cpu =
  c_reg :: "reg \<Rightarrow> u64"
  c_rip :: u64
  c_cs :: u64
  c_rflags :: u64
  c_ss :: u64
  c_gs :: u64
  c_kernel_gs :: u64
  c_fs :: u64
  c_mem :: "u64 \<Rightarrow> u64"

text \<open>Operands are given as \<open>[base + offset]\<close> or \<open>gs:[offset]\<close>.\<close>

datatype instr =
    MovReg reg reg
  | Load reg reg u64
  | Store reg u64 reg
  | LoadGs reg u64
  | StoreGs u64 reg
  | Push reg
  | PushImm u64
  | Pop reg
  | Swapgs
  | Wrgsbase reg
  | Wrfsbase reg
  | Cli
  | Cld
  | Iretq

fun step_instr :: "instr \<Rightarrow> cpu \<Rightarrow> cpu" where
  "step_instr (MovReg d s) c = c\<lparr>c_reg := (c_reg c)(d := c_reg c s)\<rparr>"
| "step_instr (Load d b off) c = c\<lparr>c_reg := (c_reg c)(d := c_mem c (c_reg c b + off))\<rparr>"
| "step_instr (Store b off s) c = c\<lparr>c_mem := (c_mem c)(c_reg c b + off := c_reg c s)\<rparr>"
| "step_instr (LoadGs d off) c = c\<lparr>c_reg := (c_reg c)(d := c_mem c (c_gs c + off))\<rparr>"
| "step_instr (StoreGs off s) c = c\<lparr>c_mem := (c_mem c)(c_gs c + off := c_reg c s)\<rparr>"
| "step_instr (Push s) c = c\<lparr>c_mem := (c_mem c)(c_reg c RSP - 8 := c_reg c s), c_reg := (c_reg c)(RSP := c_reg c RSP - 8)\<rparr>"
| "step_instr (PushImm i) c = c\<lparr>c_mem := (c_mem c)(c_reg c RSP - 8 := i), c_reg := (c_reg c)(RSP := c_reg c RSP - 8)\<rparr>"
| "step_instr (Pop d) c = c\<lparr>c_reg := (c_reg c)(RSP := c_reg c RSP + 8, d := c_mem c (c_reg c RSP))\<rparr>"
| "step_instr Swapgs c = c\<lparr>c_gs := c_kernel_gs c, c_kernel_gs := c_gs c\<rparr>"
| "step_instr (Wrgsbase s) c = c\<lparr>c_gs := c_reg c s\<rparr>"
| "step_instr (Wrfsbase s) c = c\<lparr>c_fs := c_reg c s\<rparr>"
| "step_instr Cli c = c\<lparr>c_rflags := c_rflags c AND NOT (push_bit 9 1)\<rparr>"
| "step_instr Cld c = c\<lparr>c_rflags := c_rflags c AND NOT (push_bit 10 1)\<rparr>"
| "step_instr Iretq c = (let f = c_reg c RSP; m = c_mem c in
     c\<lparr>c_rip := m f, c_cs := m (f + 8), c_rflags := m (f + 16), c_reg := (c_reg c)(RSP := m (f + 24)), c_ss := m (f + 32)\<rparr>)"

fun run_code :: "instr list \<Rightarrow> cpu \<Rightarrow> cpu" where
  "run_code [] c = c"
| "run_code (i # is) c = run_code is (step_instr i c)"

text \<open>
  What the processor does by itself on \<open>syscall\<close> (with the handler and the flag mask that \<open>init\<close>
  puts into the model specific registers) and when it delivers an interrupt through a gate with an
  interrupt stack: the frame goes to the stack \<open>ist\<close>, with an error code for some exceptions.
\<close>

definition syscall_instr :: "u64 \<Rightarrow> u64 \<Rightarrow> u64 \<Rightarrow> cpu \<Rightarrow> cpu" where
  "syscall_instr star lstar fmask c = c\<lparr>c_reg := (c_reg c)(RCX := c_rip c, R11 := c_rflags c), c_rip := lstar,
     c_rflags := c_rflags c AND NOT fmask, c_cs := drop_bit 32 star AND 0xfffc, c_ss := (drop_bit 32 star AND 0xffff) + 8\<rparr>"

definition deliver_interrupt :: "u64 \<Rightarrow> u64 \<Rightarrow> u64 option \<Rightarrow> cpu \<Rightarrow> cpu" where
  "deliver_interrupt ist handler error_code c =
     (let m = (c_mem c)(ist - 8 := c_ss c, ist - 16 := c_reg c RSP, ist - 24 := c_rflags c, ist - 32 := c_cs c, ist - 40 := c_rip c);
          c = c\<lparr>c_reg := (c_reg c)(RSP := ist - 40), c_mem := m, c_rip := handler,
            c_rflags := c_rflags c AND NOT (push_bit 9 1), c_cs := ucast GDT_KERNEL_CS, c_ss := 0\<rparr>
      in case error_code of None \<Rightarrow> c | Some e \<Rightarrow> step_instr (PushImm e) c)"

section \<open>The assembly sequences\<close>

text \<open>\<open>offset_of!\<close> for the packed \<open>Thread\<close>: fields of eight bytes, in order.\<close>

definition field_offset :: "nat \<Rightarrow> u64" where
  "field_offset i = of_nat (8 * i)"

definition enter_code :: "instr list" where
  "enter_code =
     [Swapgs,
      Load RAX RSP (field_offset 20), Wrgsbase RAX,
      Load RAX RSP (field_offset 21), Wrfsbase RAX,
      Load RAX RSP (field_offset 5), Load RBX RSP (field_offset 6), Load RCX RSP (field_offset 7),
      Load RDX RSP (field_offset 8), Load RSI RSP (field_offset 9), Load RDI RSP (field_offset 10),
      Load RBP RSP (field_offset 11), Load R8 RSP (field_offset 12), Load R9 RSP (field_offset 13),
      Load R10 RSP (field_offset 14), Load R11 RSP (field_offset 15), Load R12 RSP (field_offset 16),
      Load R13 RSP (field_offset 17), Load R14 RSP (field_offset 18), Load R15 RSP (field_offset 19),
      Iretq]"

text \<open>\<open>Thread::enter\<close>: the operand of the first \<open>mov\<close> is the pointer to the structure.\<close>

definition arch_enter :: "u64 \<Rightarrow> cpu \<Rightarrow> cpu" where
  "arch_enter thread c = run_code enter_code (c\<lparr>c_reg := (c_reg c)(RSP := thread)\<rparr>)"

text \<open>The part that both entry paths share: all registers but RAX and RSP go to the thread in RAX.\<close>

definition save_registers :: "instr list" where
  "save_registers =
     [Store RAX (field_offset 6) RBX, Store RAX (field_offset 7) RCX, Store RAX (field_offset 8) RDX,
      Store RAX (field_offset 10) RDI, Store RAX (field_offset 9) RSI, Store RAX (field_offset 11) RBP,
      Store RAX (field_offset 12) R8, Store RAX (field_offset 13) R9, Store RAX (field_offset 14) R10,
      Store RAX (field_offset 15) R11, Store RAX (field_offset 16) R12, Store RAX (field_offset 17) R13,
      Store RAX (field_offset 18) R14, Store RAX (field_offset 19) R15]"

definition syscall_handler :: "u64 \<Rightarrow> u64 \<Rightarrow> u64 \<Rightarrow> instr list" where
  "syscall_handler current_thread scratch kernel_rsp =
     [Cli, Swapgs, Cld,
      StoreGs scratch RAX,
      LoadGs RAX current_thread,
      Store RAX (field_offset 0) RCX, Store RAX (field_offset 2) R11] @
     save_registers @
     [Store RAX (field_offset 3) RSP,
      LoadGs RDI scratch, Store RAX (field_offset 5) RDI,
      LoadGs RSP kernel_rsp]"

text \<open>The stub of vector \<open>i\<close>: some exceptions come with an error code, the others get a zero.\<close>

definition has_error_code :: "nat \<Rightarrow> bool" where
  "has_error_code i \<longleftrightarrow> i = 8 \<or> 10 \<le> i \<and> i \<le> 14 \<or> i = 17"

definition idt_handler :: "nat \<Rightarrow> instr list" where
  "idt_handler i = (if has_error_code i then [Cli, PushImm (of_nat i)] else [Cli, PushImm 0, PushImm (of_nat i)])"

text \<open>The second half of \<open>interrupt_entry\<close>: the stack is taken apart, CS and SS are dropped.\<close>

definition pop_frame :: "instr list" where
  "pop_frame =
     [Pop RBX, Store RAX (field_offset 5) RBX,
      Pop RDI, Pop RSI,
      Pop RBX, Store RAX (field_offset 0) RBX,
      Pop RBX,
      Pop RBX, Store RAX (field_offset 2) RBX,
      Pop RBX, Store RAX (field_offset 3) RBX,
      Pop RBX]"

definition interrupt_entry :: "u64 \<Rightarrow> instr list" where
  "interrupt_entry current_thread =
     [Cli, Swapgs, Cld, Push RAX,
      LoadGs RAX current_thread] @
     save_registers @
     pop_frame"

section \<open>The saved context and the running one\<close>

text \<open>The structure at an address, and the registers of a processor, as contexts.\<close>

definition thread_load :: "(u64 \<Rightarrow> u64) \<Rightarrow> u64 \<Rightarrow> ArchThread" where
  "thread_load m a = (let f = (\<lambda>i. m (a + field_offset i)) in
     \<lparr>at_rip = f 0, at_cs = f 1, at_rflags = f 2, at_rsp = f 3, at_ss = f 4, at_rax = f 5, at_rbx = f 6, at_rcx = f 7,
      at_rdx = f 8, at_rsi = f 9, at_rdi = f 10, at_rbp = f 11, at_r8 = f 12, at_r9 = f 13, at_r10 = f 14, at_r11 = f 15,
      at_r12 = f 16, at_r13 = f 17, at_r14 = f 18, at_r15 = f 19, at_gsbase = f 20, at_fsbase = f 21\<rparr>)"

definition user_context :: "cpu \<Rightarrow> ArchThread" where
  "user_context c = (let r = c_reg c in
     \<lparr>at_rip = c_rip c, at_cs = c_cs c, at_rflags = c_rflags c, at_rsp = r RSP, at_ss = c_ss c, at_rax = r RAX, at_rbx = r RBX,
      at_rcx = r RCX, at_rdx = r RDX, at_rsi = r RSI, at_rdi = r RDI, at_rbp = r RBP, at_r8 = r R8, at_r9 = r R9,
      at_r10 = r R10, at_r11 = r R11, at_r12 = r R12, at_r13 = r R13, at_r14 = r R14, at_r15 = r R15, at_gsbase = c_gs c,
      at_fsbase = c_fs c\<rparr>)"

text \<open>The eight bytes at \<open>x\<close> lie outside the structure at \<open>a\<close>, and outside the eight bytes at \<open>y\<close>.\<close>

definition outside :: "u64 \<Rightarrow> u64 \<Rightarrow> bool" where
  "outside a x \<longleftrightarrow> 176 \<le> x - a \<and> x - a \<le> - 8"

definition apart :: "u64 \<Rightarrow> u64 \<Rightarrow> bool" where
  "apart x y \<longleftrightarrow> 8 \<le> x - y \<and> x - y \<le> - 8"

lemma field_offset_unat: "i < 22 \<Longrightarrow> unat (field_offset i) = 8 * i"
  unfolding field_offset_def unat_of_nat by simp

lemma outside_field:
  assumes "outside a x" and "i < 22"
  shows "x \<noteq> a + field_offset i" and "a + field_offset i \<noteq> x"
proof -
  have "field_offset i < 176" using assms(2) by (simp add: word_less_nat_alt field_offset_unat)
  then show "x \<noteq> a + field_offset i" using assms(1) by (auto simp: outside_def)
  then show "a + field_offset i \<noteq> x" by simp
qed

lemma field_offset_inj: "i < 22 \<Longrightarrow> j < 22 \<Longrightarrow> field_offset i = field_offset j \<longleftrightarrow> i = j"
  by (auto simp: word_unat_eq_iff field_offset_unat)

lemma apart_neq: "apart x y \<Longrightarrow> x \<noteq> y" "apart x y \<Longrightarrow> y \<noteq> x"
  by (auto simp: apart_def)

lemma run_code_append: "run_code (xs @ ys) c = run_code ys (run_code xs c)"
  by (induction xs arbitrary: c) simp_all

lemma enter_restores:
  "user_context (arch_enter a c) = thread_load (c_mem c) a"
  "c_kernel_gs (arch_enter a c) = c_gs c" "c_mem (arch_enter a c) = c_mem c"
  by (simp_all add: arch_enter_def enter_code_def user_context_def thread_load_def Let_def field_offset_def)

lemma save_registers_state:
  "c_reg (run_code save_registers c) = c_reg c" "c_gs (run_code save_registers c) = c_gs c"
  "c_kernel_gs (run_code save_registers c) = c_kernel_gs c" "c_fs (run_code save_registers c) = c_fs c"
  by (simp_all add: save_registers_def)

lemma save_registers_outside:
  assumes "outside (c_reg c RAX) x"
  shows "c_mem (run_code save_registers c) x = c_mem c x"
  using outside_field [OF assms] by (simp add: save_registers_def)

lemma save_registers_saves:
  "thread_load (c_mem (run_code save_registers c)) (c_reg c RAX) = (let r = c_reg c in (thread_load (c_mem c) (r RAX))
     \<lparr>at_rbx := r RBX, at_rcx := r RCX, at_rdx := r RDX, at_rsi := r RSI, at_rdi := r RDI, at_rbp := r RBP, at_r8 := r R8,
      at_r9 := r R9, at_r10 := r R10, at_r11 := r R11, at_r12 := r R12, at_r13 := r R13, at_r14 := r R14, at_r15 := r R15\<rparr>)"
  by (simp add: save_registers_def thread_load_def Let_def field_offset_inj)

lemma thread_load_field:
  "thread_load (m(a + field_offset 0 := v)) a = (thread_load m a)\<lparr>at_rip := v\<rparr>"
  "thread_load (m(a + field_offset 2 := v)) a = (thread_load m a)\<lparr>at_rflags := v\<rparr>"
  "thread_load (m(a + field_offset 3 := v)) a = (thread_load m a)\<lparr>at_rsp := v\<rparr>"
  "thread_load (m(a + field_offset 5 := v)) a = (thread_load m a)\<lparr>at_rax := v\<rparr>"
  by (simp_all add: thread_load_def Let_def field_offset_inj)

lemma thread_load_outside: "outside a x \<Longrightarrow> thread_load (m(x := v)) a = thread_load m a"
  using outside_field [of a x] by (simp add: thread_load_def Let_def)

text \<open>What an entry path leaves in the thread: everything but the segments and the segment bases.\<close>

definition saved_context :: "ArchThread \<Rightarrow> cpu \<Rightarrow> ArchThread" where
  "saved_context t c = (user_context c)\<lparr>at_cs := at_cs t, at_ss := at_ss t, at_gsbase := at_gsbase t, at_fsbase := at_fsbase t\<rparr>"

lemma syscall_saves:
  fixes c :: cpu and star lstar fmask g :: u64
  assumes g: "c_kernel_gs c = g" and a: "c_mem c (g + cur) = a"
    and out: "outside a (g + scratch)" "outside a (g + krsp)" and ap: "apart (g + scratch) (g + cur)" "apart (g + scratch) (g + krsp)"
  defines "c1 \<equiv> run_code (syscall_handler cur scratch krsp) (syscall_instr star lstar fmask c)"
  shows "thread_load (c_mem c1) a = (saved_context (thread_load (c_mem c) a) c)\<lparr>at_rcx := c_rip c, at_r11 := c_rflags c\<rparr>"
    and "c_gs c1 = g" and "c_kernel_gs c1 = c_gs c" and "c_reg c1 RSP = c_mem c (g + krsp)"
    and "outside a x \<Longrightarrow> apart x (g + scratch) \<Longrightarrow> c_mem c1 x = c_mem c x"
proof -
  define c0 where "c0 = run_code [Cli, Swapgs, Cld, StoreGs scratch RAX, LoadGs RAX cur, Store RAX (field_offset 0) RCX,
    Store RAX (field_offset 2) R11] (syscall_instr star lstar fmask c)"
  define c2 where "c2 = run_code save_registers c0"
  have ne: "g + scratch \<noteq> g + cur" "g + cur \<noteq> g + scratch" "g + krsp \<noteq> g + scratch"
    using apart_neq [OF ap(1)] apart_neq [OF ap(2)] by blast+
  have c0: "c_reg c0 = (c_reg c)(RCX := c_rip c, R11 := c_rflags c, RAX := a)" "c_gs c0 = g" "c_kernel_gs c0 = c_gs c"
    "c_mem c0 = (c_mem c)(g + scratch := c_reg c RAX, a + field_offset 0 := c_rip c, a + field_offset 2 := c_rflags c)"
    using g a ne by (simp_all add: c0_def syscall_instr_def)
  have c2: "c_reg c2 = c_reg c0" "c_gs c2 = g" "c_kernel_gs c2 = c_gs c" and rax: "c_reg c0 RAX = a"
    using c0 by (simp_all add: c2_def save_registers_state)
  have other: "c_mem c2 y = c_mem c0 y" if "outside a y" for y
    unfolding c2_def using that rax by (intro save_registers_outside) simp
  have sc: "c_mem c2 (g + scratch) = c_reg c RAX" "c_mem c2 (g + krsp) = c_mem c (g + krsp)"
    using other [OF out(1)] other [OF out(2)] c0(4) ne outside_field [OF out(1)] outside_field [OF out(2)] by simp_all
  have c1: "c1 = run_code [Store RAX (field_offset 3) RSP, LoadGs RDI scratch, Store RAX (field_offset 5) RDI, LoadGs RSP krsp] c2"
    unfolding c1_def c2_def c0_def syscall_handler_def run_code_append by simp
  have m1: "c_mem c1 = (c_mem c2)(a + field_offset 3 := c_reg c RSP, a + field_offset 5 := c_reg c RAX)"
    using c2 rax c0 sc outside_field [OF out(1)] by (simp add: c1)
  have "thread_load (c_mem c2) a = (let r = c_reg c0 in (thread_load (c_mem c0) a)
     \<lparr>at_rbx := r RBX, at_rcx := r RCX, at_rdx := r RDX, at_rsi := r RSI, at_rdi := r RDI, at_rbp := r RBP, at_r8 := r R8,
      at_r9 := r R9, at_r10 := r R10, at_r11 := r R11, at_r12 := r R12, at_r13 := r R13, at_r14 := r R14, at_r15 := r R15\<rparr>)"
    using save_registers_saves [of c0] rax by (simp add: c2_def)
  then show "thread_load (c_mem c1) a = (saved_context (thread_load (c_mem c) a) c)\<lparr>at_rcx := c_rip c, at_r11 := c_rflags c\<rparr>"
    by (simp add: m1 thread_load_field c0 thread_load_outside [OF out(1)] saved_context_def user_context_def Let_def)
  show "c_gs c1 = g" "c_kernel_gs c1 = c_gs c" "c_reg c1 RSP = c_mem c (g + krsp)"
    using c2 rax sc outside_field [OF out(2)] by (simp_all add: c1)
  show "c_mem c1 x = c_mem c x" if "outside a x" "apart x (g + scratch)"
    using apart_neq [OF that(2)] outside_field [OF that(1)] other [OF that(1)] by (simp add: m1 c0)
qed

text \<open>The cells of the interrupt stack that a frame uses.\<close>

definition frame_cells :: "u64 \<Rightarrow> u64 list" where
  "frame_cells ist = map (\<lambda>k. ist - 8 * of_nat k) [1..<9]"

lemma frame_cells_eq: "frame_cells ist = [ist - 8, ist - 16, ist - 24, ist - 32, ist - 40, ist - 48, ist - 56, ist - 64]"
  by (simp add: frame_cells_def upt_rec)

lemma interrupt_frame:
  fixes c :: cpu and ist handler :: u64
  assumes "ec \<noteq> None \<longleftrightarrow> has_error_code v"
  defines "cs \<equiv> run_code (idt_handler v) (deliver_interrupt ist handler ec c)"
  shows "c_reg cs = (c_reg c)(RSP := ist - 56)" and "c_gs cs = c_gs c" and "c_kernel_gs cs = c_kernel_gs c"
    and "c_mem cs = (c_mem c)(ist - 8 := c_ss c, ist - 16 := c_reg c RSP, ist - 24 := c_rflags c, ist - 32 := c_cs c,
      ist - 40 := c_rip c, ist - 48 := (case ec of None \<Rightarrow> 0 | Some e \<Rightarrow> e), ist - 56 := of_nat v)"
  using assms(1) by (cases ec; simp add: cs_def idt_handler_def deliver_interrupt_def)+

text \<open>Taking the frame of eight cells above the stack pointer apart, with the thread in RAX.\<close>

lemma pop_frame_stores:
  fixes c :: cpu and ist a :: u64
  assumes rax: "c_reg c RAX = a" and rsp: "c_reg c RSP = ist - 64" and out: "\<forall>x\<in>set (frame_cells ist). outside a x"
  defines "m \<equiv> c_mem c" and "c1 \<equiv> run_code pop_frame c"
  shows "c_mem c1 = m(a + field_offset 5 := m (ist - 64), a + field_offset 0 := m (ist - 40), a + field_offset 2 := m (ist - 24),
      a + field_offset 3 := m (ist - 16))"
    and "c_reg c1 RSP = ist" and "c_reg c1 RDI = m (ist - 56)" and "c_reg c1 RSI = m (ist - 48)"
    and "c_gs c1 = c_gs c" and "c_kernel_gs c1 = c_kernel_gs c"
proof -
  define c3 where "c3 = run_code [Pop RDI, Pop RSI] (run_code [Pop RBX, Store RAX (field_offset 5) RBX] c)"
  define c4 where "c4 = run_code [Pop RBX, Store RAX (field_offset 0) RBX] c3"
  define c5 where "c5 = run_code [Pop RBX, Pop RBX, Store RAX (field_offset 2) RBX] c4"
  have c1: "c1 = run_code [Pop RBX, Store RAX (field_offset 3) RBX, Pop RBX] c5"
    unfolding c1_def c5_def c4_def c3_def pop_frame_def by (simp only: run_code.simps)
  have o: "outside a (ist - 16)" "outside a (ist - 24)" "outside a (ist - 40)" "outside a (ist - 48)" "outside a (ist - 56)"
    using out by (simp_all add: frame_cells_eq)
  note fields = outside_field [OF o(1)] outside_field [OF o(2)] outside_field [OF o(3)] outside_field [OF o(4)] outside_field [OF o(5)]
  have c3: "c_reg c3 RSP = ist - 40" "c_reg c3 RAX = a" "c_reg c3 RDI = m (ist - 56)" "c_reg c3 RSI = m (ist - 48)"
     "c_mem c3 = m(a + field_offset 5 := m (ist - 64))" "c_gs c3 = c_gs c" "c_kernel_gs c3 = c_kernel_gs c"
    by (simp_all add: c3_def rax rsp m_def fields)
  have c4: "c_reg c4 RSP = ist - 32" "c_reg c4 RAX = a" "c_reg c4 RDI = m (ist - 56)" "c_reg c4 RSI = m (ist - 48)"
     "c_mem c4 = (c_mem c3)(a + field_offset 0 := m (ist - 40))" "c_gs c4 = c_gs c" "c_kernel_gs c4 = c_kernel_gs c"
    by (simp_all add: c4_def c3 fields)
  have c5: "c_reg c5 RSP = ist - 16" "c_reg c5 RAX = a" "c_reg c5 RDI = m (ist - 56)" "c_reg c5 RSI = m (ist - 48)"
     "c_mem c5 = (c_mem c4)(a + field_offset 2 := m (ist - 24))" "c_gs c5 = c_gs c" "c_kernel_gs c5 = c_kernel_gs c"
    by (simp_all add: c5_def c4 c3 fields)
  show "c_mem c1 = m(a + field_offset 5 := m (ist - 64), a + field_offset 0 := m (ist - 40), a + field_offset 2 := m (ist - 24),
      a + field_offset 3 := m (ist - 16))"
    by (simp add: c1 c5 c4 c3 fields)
  show "c_reg c1 RSP = ist" "c_reg c1 RDI = m (ist - 56)" "c_reg c1 RSI = m (ist - 48)" "c_gs c1 = c_gs c" "c_kernel_gs c1 = c_kernel_gs c"
    by (simp_all add: c1 c5)
qed

lemma interrupt_saves:
  fixes c :: cpu and ist handler g :: u64
  assumes g: "c_kernel_gs c = g" and a: "c_mem c (g + cur) = a"
    and out: "\<forall>x\<in>set (frame_cells ist). outside a x \<and> apart x (g + cur)"
    and ec: "ec \<noteq> None \<longleftrightarrow> has_error_code v"
  defines "c1 \<equiv> run_code (interrupt_entry cur) (run_code (idt_handler v) (deliver_interrupt ist handler ec c))"
  shows "thread_load (c_mem c1) a = saved_context (thread_load (c_mem c) a) c"
    and "c_gs c1 = g" and "c_kernel_gs c1 = c_gs c" and "c_reg c1 RSP = ist"
    and "c_reg c1 RDI = of_nat v" and "c_reg c1 RSI = (case ec of None \<Rightarrow> 0 | Some e \<Rightarrow> e)"
    and "outside a x \<Longrightarrow> (\<forall>y\<in>set (frame_cells ist). apart x y) \<Longrightarrow> c_mem c1 x = c_mem c x"
proof -
  define cs where "cs = run_code (idt_handler v) (deliver_interrupt ist handler ec c)"
  define c0 where "c0 = run_code [Cli, Swapgs, Cld, Push RAX, LoadGs RAX cur] cs"
  define c2 where "c2 = run_code save_registers c0"
  note frame = interrupt_frame [OF ec, of ist handler c, folded cs_def]
  have o: "\<forall>x\<in>set (frame_cells ist). outside a x" using out by blast
  have ne: "\<forall>x\<in>set (frame_cells ist). g + cur \<noteq> x" using out apart_neq by blast
  have c0: "c_reg c0 = (c_reg c)(RSP := ist - 64, RAX := a)" "c_gs c0 = g" "c_kernel_gs c0 = c_gs c"
    "c_mem c0 = (c_mem cs)(ist - 64 := c_reg c RAX)"
    using g a ne by (simp_all add: c0_def frame frame_cells_eq)
  have c2: "c_reg c2 RAX = a" "c_reg c2 RSP = ist - 64" "c_gs c2 = g" "c_kernel_gs c2 = c_gs c"
    using c0 by (simp_all add: c2_def save_registers_state)
  have other: "c_mem c2 y = c_mem c0 y" if "outside a y" for y
    unfolding c2_def using that c0(1) by (intro save_registers_outside) simp
  have st: "c_mem c2 (ist - 64) = c_reg c RAX" "c_mem c2 (ist - 56) = of_nat v" "c_mem c2 (ist - 48) = (case ec of None \<Rightarrow> 0 | Some e \<Rightarrow> e)"
    "c_mem c2 (ist - 40) = c_rip c" "c_mem c2 (ist - 24) = c_rflags c" "c_mem c2 (ist - 16) = c_reg c RSP"
    using o by (simp_all add: frame_cells_eq other c0 frame)
  have c1: "c1 = run_code pop_frame c2"
    unfolding c1_def c2_def c0_def cs_def interrupt_entry_def by (simp only: run_code_append run_code.simps)
  note pops = pop_frame_stores [OF c2(1,2) o, folded c1, unfolded st c2(3,4)]
  show "c_gs c1 = g" "c_kernel_gs c1 = c_gs c" "c_reg c1 RSP = ist" "c_reg c1 RDI = of_nat v"
    "c_reg c1 RSI = (case ec of None \<Rightarrow> 0 | Some e \<Rightarrow> e)"
    using pops(2-6) by simp_all
  have "c_reg c0 RAX = a" using c0(1) by simp
  note saves = save_registers_saves [of c0, unfolded this, folded c2_def]
  show "thread_load (c_mem c1) a = saved_context (thread_load (c_mem c) a) c"
    using o unfolding pops(1) thread_load_field saves c0(1,4) frame
    by (simp add: frame_cells_eq thread_load_outside saved_context_def user_context_def Let_def)
  show "c_mem c1 x = c_mem c x" if x: "outside a x" "\<forall>y\<in>set (frame_cells ist). apart x y"
  proof -
    have "\<forall>y\<in>set (frame_cells ist). x \<noteq> y" using x(2) apart_neq by blast
    then show ?thesis using outside_field [OF x(1)] other [OF x(1)] by (simp add: pops(1) c0 frame frame_cells_eq)
  qed
qed

section \<open>Properties\<close>

fun context_words :: "ContextKind \<Rightarrow> nat" where
  "context_words SyscallArgs = 7"
| "context_words Sysret = 1"
| "context_words InitRegs = 2"
| "context_words Fsbase = 1"

lemma length_7_conv: "length (xs :: 'a list) = 7 \<longleftrightarrow> (\<exists>a b c d e f g. xs = [a, b, c, d, e, f, g])"
  by (auto simp: numeral_eq_Suc length_Suc_conv)

text \<open>
  C34. Reading a part of a thread's context gives the words that were written to it last, and leaves
  the rest of the caller's union alone; writing back what was read changes nothing; and no write
  reaches the segment selectors or the flags, so that a context stays one of user mode.
\<close>

theorem context_roundtrip:
  assumes "length regs = 7" and "length buf = 7"
  shows "arch_read_context (arch_write_context t k regs) k buf = take (context_words k) regs @ drop (context_words k) buf
    \<and> arch_write_context t k (arch_read_context t k buf) = t
    \<and> at_cs (arch_write_context t k regs) = at_cs t \<and> at_ss (arch_write_context t k regs) = at_ss t
    \<and> at_rflags (arch_write_context t k regs) = at_rflags t"
  using assms unfolding length_7_conv by (cases k) (auto simp: set_member_def)

theorem context_roundtrip_witness:
  "arch_read_context (arch_write_context arch_thread_new InitRegs [0x401000, 0x7fff0000, 1, 2, 3, 4, 5]) InitRegs (replicate 7 9)
     = [0x401000, 0x7fff0000, 9, 9, 9, 9, 9]"
  using context_roundtrip [of "[0x401000, 0x7fff0000, 1, 2, 3, 4, 5]" "replicate 7 9" arch_thread_new InitRegs]
  by (simp add: numeral_eq_Suc)

text \<open>
  C32. An interrupt is transparent to the user thread it hits. The entry path stores all registers of
  the thread (its error code or zero and the vector go to the handler), writes nothing outside the
  thread and the interrupt stack, and when the kernel enters the thread again with the structure as
  the entry path left it, every register has its old value. The segment selectors and the FS and GS
  bases are not saved by the entry path: they come from the structure, whatever the thread has set
  them to in the meantime.
\<close>

theorem interrupt_transparent:
  fixes c c' :: cpu and ist handler g :: u64
  assumes "c_kernel_gs c = g" and "c_mem c (g + cur) = a"
    and "\<forall>x\<in>set (frame_cells ist). outside a x \<and> apart x (g + cur)"
    and "ec \<noteq> None \<longleftrightarrow> has_error_code v"
    and "c1 = run_code (interrupt_entry cur) (run_code (idt_handler v) (deliver_interrupt ist handler ec c))"
    and "thread_load (c_mem c') a = thread_load (c_mem c1) a"
  shows "c_reg c1 RDI = of_nat v \<and> c_reg c1 RSI = (case ec of None \<Rightarrow> 0 | Some e \<Rightarrow> e) \<and> c_reg c1 RSP = ist \<and> c_gs c1 = g
    \<and> (\<forall>x. outside a x \<longrightarrow> (\<forall>y\<in>set (frame_cells ist). apart x y) \<longrightarrow> c_mem c1 x = c_mem c x)
    \<and> user_context (arch_enter a c') = saved_context (thread_load (c_mem c) a) c
    \<and> at_fsbase (user_context (arch_enter a c')) = c_mem c (a + field_offset 21)
    \<and> c_kernel_gs (arch_enter a c') = c_gs c'"
proof -
  note saves = interrupt_saves [OF assms(1-4), where handler = handler, folded assms(5)]
  have "at_fsbase (saved_context (thread_load (c_mem c) a) c) = c_mem c (a + field_offset 21)"
    by (simp add: saved_context_def thread_load_def Let_def)
  then show ?thesis using saves enter_restores [where a = a and c = c'] assms(6) by simp
qed

text \<open>A thread at address 0x10000 is interrupted by the timer; its structure says FS base 0, and it had set 7.\<close>

definition example_cpu :: cpu where
  "example_cpu = \<lparr>c_reg = (\<lambda>r. if r = R12 then 12 else 1), c_rip = 0x401000, c_cs = 43, c_rflags = 0x202, c_ss = 35, c_gs = 0,
     c_kernel_gs = 0x20000, c_fs = 7, c_mem = (\<lambda>_. 0)(0x20000 := 0x10000)\<rparr>"

theorem interrupt_transparent_witness:
  "\<exists>c1. c1 = run_code (interrupt_entry 0) (run_code (idt_handler 32) (deliver_interrupt 0x30000 0x5000 None example_cpu))
    \<and> c_reg c1 RDI = 32 \<and> at_r12 (user_context (arch_enter 0x10000 c1)) = 12
    \<and> at_fsbase (user_context (arch_enter 0x10000 c1)) = 0"
proof -
  let ?c1 = "run_code (interrupt_entry 0) (run_code (idt_handler 32) (deliver_interrupt 0x30000 0x5000 None example_cpu))"
  have "\<forall>x\<in>set (frame_cells 0x30000). outside 0x10000 x \<and> apart x (0x20000 + 0)"
    by (simp add: frame_cells_eq outside_def apart_def)
  moreover have "c_kernel_gs example_cpu = 0x20000" "c_mem example_cpu (0x20000 + 0) = 0x10000"
    by (simp_all add: example_cpu_def)
  moreover have "(None :: u64 option) \<noteq> None \<longleftrightarrow> has_error_code 32" by (simp add: has_error_code_def)
  ultimately have r: "c_reg ?c1 RDI = of_nat 32"
    "user_context (arch_enter 0x10000 ?c1) = saved_context (thread_load (c_mem example_cpu) 0x10000) example_cpu"
    using interrupt_transparent [where c = example_cpu and c' = ?c1 and ?c1.0 = ?c1 and g = "0x20000" and cur = 0 and a = "0x10000"
      and ist = "0x30000" and handler = "0x5000" and ec = None and v = 32, OF _ _ _ _ refl refl] by simp_all
  have "at_r12 (saved_context t example_cpu) = 12" for t by (simp add: saved_context_def user_context_def example_cpu_def)
  moreover have "at_fsbase (saved_context (thread_load (c_mem example_cpu) 0x10000) example_cpu) = 0"
    by (simp add: saved_context_def thread_load_def Let_def example_cpu_def field_offset_def)
  ultimately show ?thesis using r by simp
qed

text \<open>
  C33. A system call is transparent too, but for the two registers that the \<open>syscall\<close> instruction
  itself overwrites: when the thread is entered again with its structure as the entry path left it,
  it continues after the instruction, on its stack, with all registers as before except RCX (the
  return address) and R11 (the flags). The kernel runs on its own stack in between.
\<close>

theorem syscall_transparent:
  fixes c c' :: cpu and star lstar fmask g :: u64
  assumes "c_kernel_gs c = g" and "c_mem c (g + cur) = a"
    and "outside a (g + scratch)" and "outside a (g + krsp)" and "apart (g + scratch) (g + cur)" and "apart (g + scratch) (g + krsp)"
    and "c1 = run_code (syscall_handler cur scratch krsp) (syscall_instr star lstar fmask c)"
    and "thread_load (c_mem c') a = thread_load (c_mem c1) a"
  shows "c_reg c1 RSP = c_mem c (g + krsp) \<and> c_gs c1 = g
    \<and> (\<forall>x. outside a x \<longrightarrow> apart x (g + scratch) \<longrightarrow> c_mem c1 x = c_mem c x)
    \<and> user_context (arch_enter a c') = (saved_context (thread_load (c_mem c) a) c)\<lparr>at_rcx := c_rip c, at_r11 := c_rflags c\<rparr>
    \<and> arch_read_context (thread_load (c_mem c1) a) SyscallArgs (replicate 7 0)
        = map (c_reg c) [RAX, RDI, RSI, RDX, R10, R8, R9]"
proof -
  note saves = syscall_saves [OF assms(1-6), where star = star and lstar = lstar and fmask = fmask, folded assms(7)]
  have "arch_read_context (thread_load (c_mem c1) a) SyscallArgs (replicate 7 0) = map (c_reg c) [RAX, RDI, RSI, RDX, R10, R8, R9]"
    by (simp add: saves(1) set_member_def saved_context_def user_context_def Let_def)
  then show ?thesis using saves enter_restores [where a = a and c = c'] assms(8) by simp
qed

theorem syscall_transparent_witness:
  "\<exists>c1. c1 = run_code (syscall_handler 0 8 16) (syscall_instr 0 0x5000 512 example_cpu)
    \<and> c_reg c1 RSP = 0 \<and> c_gs c1 = 0x20000 \<and> at_r12 (user_context (arch_enter 0x10000 c1)) = 12
    \<and> at_rip (user_context (arch_enter 0x10000 c1)) = 0x401000"
proof -
  let ?c1 = "run_code (syscall_handler 0 8 16) (syscall_instr 0 0x5000 512 example_cpu)"
  have "outside 0x10000 (0x20000 + 8)" "outside 0x10000 (0x20000 + 16)" "apart (0x20000 + 8) (0x20000 + 0)" "apart (0x20000 + 8) (0x20000 + 16)"
    by (simp_all add: outside_def apart_def)
  moreover have "c_kernel_gs example_cpu = 0x20000" "c_mem example_cpu (0x20000 + 0) = 0x10000" "c_mem example_cpu (0x20000 + 16) = 0"
    by (simp_all add: example_cpu_def)
  ultimately have r: "c_reg ?c1 RSP = 0" "c_gs ?c1 = 0x20000" "user_context (arch_enter 0x10000 ?c1)
      = (saved_context (thread_load (c_mem example_cpu) 0x10000) example_cpu)\<lparr>at_rcx := c_rip example_cpu, at_r11 := c_rflags example_cpu\<rparr>"
    using syscall_transparent [where c = example_cpu and c' = ?c1 and ?c1.0 = ?c1 and g = "0x20000" and cur = 0 and a = "0x10000"
      and scratch = 8 and krsp = 16 and star = 0 and lstar = "0x5000" and fmask = 512, OF _ _ _ _ _ _ refl refl] by simp_all
  have "at_r12 (saved_context t example_cpu) = 12" "at_rip (saved_context t example_cpu) = 0x401000" for t
    by (simp_all add: saved_context_def user_context_def example_cpu_def)
  then show ?thesis using r by simp
qed

end
