(* ===== verification/Thread.thy ===== *)
theory Thread
  imports SharedRef Context
begin

text \<open>
  The life of a thread, \<open>kernel/src/thread.rs\<close>: the state that its spin lock protects and the critical
  sections that \<open>handle_syscall\<close>, \<open>terminate\<close> and \<open>unblock\<close> run under it. Between the sections the
  kernel calls into servers, and other processors may run, so that sections of one thread interleave
  in any order. \<open>life_step\<close> is that interleaving: it also counts where references to the thread wait to
  run or run, the system call upcalls in flight, and the invocations of the final upcall.
\<close>

datatype State = Runnable | Blocked | Terminated

record Mutable =
  mt_state :: State
  mt_in_upcalls :: usize

datatype UpcallArg = UpSyscall | UpTerminated

record Thread =
  th_arch :: ArchThread
  th_upcall :: nat
  th_vmspace :: nat
  th_mutable :: Mutable

definition thread_value :: "nat \<Rightarrow> nat \<Rightarrow> Thread" where
  "thread_value vmspace upcall = \<lparr>th_arch = arch_thread_new, th_upcall = upcall, th_vmspace = vmspace,
     th_mutable = \<lparr>mt_state = Blocked, mt_in_upcalls = 0\<rparr>\<rparr>"

section \<open>Critical sections\<close>

text \<open>The first section of \<open>handle_syscall\<close>: whether the upcall is to be made.\<close>

definition syscall_begin :: "Mutable \<Rightarrow> (bool \<times> Mutable) exec" where
  "syscall_begin m =
     (if mt_state m = Terminated then Val (False, m)
      else assert_exec (mt_state m = Runnable)
        (exec_bind (usize_add (mt_in_upcalls m) 1) (\<lambda>n.
          Val (True, m\<lparr>mt_state := Blocked, mt_in_upcalls := n\<rparr>))))"

text \<open>Its second section: whether the thread is to be terminated now.\<close>

definition syscall_end :: "Mutable \<Rightarrow> (bool \<times> Mutable) exec" where
  "syscall_end m = assert_exec (0 < mt_in_upcalls m)
     (exec_bind (usize_sub (mt_in_upcalls m) 1) (\<lambda>n.
       let m = m\<lparr>mt_in_upcalls := n\<rparr> in Val (mt_in_upcalls m = 0 \<and> mt_state m = Terminated, m)))"

definition terminate_section :: "Mutable \<Rightarrow> (ErrorCode + bool) \<times> Mutable" where
  "terminate_section m =
     (if mt_state m = Terminated then (Inl INVALID_STATE, m)
      else let m = m\<lparr>mt_state := Terminated\<rparr> in (Inr (mt_in_upcalls m = 0), m))"

section \<open>Interleavings\<close>

record life =
  lf_mutable :: Mutable
  lf_queued :: nat
  lf_running :: nat
  lf_frames :: nat
  lf_pending :: nat
  lf_calls :: nat

definition life_new :: life where
  "life_new = \<lparr>lf_mutable = \<lparr>mt_state = Blocked, mt_in_upcalls = 0\<rparr>, lf_queued = 0, lf_running = 0,
     lf_frames = 0, lf_pending = 0, lf_calls = 0\<rparr>"

text \<open>
  \<open>unblock\<close> from a server, the scheduler's \<open>pick\<close> of a queued thread or its \<open>skip\<close> of one that is no longer
  runnable, an interrupt (\<open>preempt\<close>, \<open>leave\<close>), the two sections of a system call, \<open>terminate\<close> from a server,
  and the start of the final upcall, which happens outside the lock.
\<close>

inductive life_step :: "life \<Rightarrow> life \<Rightarrow> bool" where
  unblock: "mt_state (lf_mutable s) = Blocked \<Longrightarrow>
    life_step s (s\<lparr>lf_mutable := (lf_mutable s)\<lparr>mt_state := Runnable\<rparr>, lf_queued := lf_queued s + 1\<rparr>)"
| pick: "0 < lf_queued s \<Longrightarrow> mt_state (lf_mutable s) = Runnable \<Longrightarrow>
    life_step s (s\<lparr>lf_queued := lf_queued s - 1, lf_running := lf_running s + 1\<rparr>)"
| skip: "0 < lf_queued s \<Longrightarrow> mt_state (lf_mutable s) \<noteq> Runnable \<Longrightarrow> life_step s (s\<lparr>lf_queued := lf_queued s - 1\<rparr>)"
| preempt: "0 < lf_running s \<Longrightarrow> mt_state (lf_mutable s) = Runnable \<Longrightarrow>
    life_step s (s\<lparr>lf_running := lf_running s - 1, lf_queued := lf_queued s + 1\<rparr>)"
| leave: "0 < lf_running s \<Longrightarrow> mt_state (lf_mutable s) \<noteq> Runnable \<Longrightarrow> life_step s (s\<lparr>lf_running := lf_running s - 1\<rparr>)"
| syscall: "0 < lf_running s \<Longrightarrow> syscall_begin (lf_mutable s) = Val (go, m) \<Longrightarrow>
    life_step s (s\<lparr>lf_mutable := m, lf_running := lf_running s - 1, lf_frames := lf_frames s + (if go then 1 else 0)\<rparr>)"
| sysend: "0 < lf_frames s \<Longrightarrow> syscall_end (lf_mutable s) = Val (now, m) \<Longrightarrow>
    life_step s (s\<lparr>lf_mutable := m, lf_frames := lf_frames s - 1, lf_pending := lf_pending s + (if now then 1 else 0)\<rparr>)"
| terminate: "terminate_section (lf_mutable s) = (Inr now, m) \<Longrightarrow>
    life_step s (s\<lparr>lf_mutable := m, lf_pending := lf_pending s + (if now then 1 else 0)\<rparr>)"
| invoke: "0 < lf_pending s \<Longrightarrow> life_step s (s\<lparr>lf_pending := lf_pending s - 1, lf_calls := lf_calls s + 1\<rparr>)"

definition life_inv :: "life \<Rightarrow> bool" where
  "life_inv s \<longleftrightarrow> mt_in_upcalls (lf_mutable s) = lf_frames s
     \<and> (case mt_state (lf_mutable s) of
          Runnable \<Rightarrow> lf_queued s + lf_running s = 1
        | Blocked \<Rightarrow> lf_queued s + lf_running s = 0
        | Terminated \<Rightarrow> lf_queued s + lf_running s \<le> 1)
     \<and> lf_pending s + lf_calls s = (if mt_state (lf_mutable s) = Terminated \<and> lf_frames s = 0 then 1 else 0)"

lemma life_inv_step: "life_step s t \<Longrightarrow> life_inv s \<Longrightarrow> life_inv t"
  by (induction rule: life_step.induct)
     (auto simp: life_inv_def syscall_begin_def syscall_end_def terminate_section_def exec_iffs Let_def
       split: State.splits if_splits)

lemma life_inv_reachable: "life_step\<^sup>*\<^sup>* life_new s \<Longrightarrow> life_inv s"
proof (induction rule: rtranclp_induct)
  case base
  show ?case by (simp add: life_inv_def life_new_def)
qed (rule life_inv_step)

section \<open>Properties\<close>

text \<open>
  C35. The life of a thread under every interleaving of system calls, interrupts, scheduling and server
  requests: the thread waits or runs in at most one place, and in exactly one while it is runnable (no
  wake-up is lost); the assertions of the critical sections hold; the final upcall is due exactly when
  the thread is terminated and no system call upcall is in flight, it is made at most once, and once
  it is due no system call upcall ever starts again, so that freeing the user data there is safe.
\<close>

theorem thread_lifecycle:
  assumes "life_step\<^sup>*\<^sup>* life_new s"
  shows "lf_queued s + lf_running s \<le> 1 \<and> (mt_state (lf_mutable s) = Runnable \<longrightarrow> lf_queued s + lf_running s = 1)
    \<and> (0 < lf_running s \<longrightarrow> lf_frames s < USIZE_MAX \<longrightarrow> syscall_begin (lf_mutable s) \<noteq> Panic)
    \<and> (0 < lf_frames s \<longrightarrow> syscall_end (lf_mutable s) \<noteq> Panic)
    \<and> lf_pending s + lf_calls s = (if mt_state (lf_mutable s) = Terminated \<and> lf_frames s = 0 then 1 else 0)
    \<and> (\<forall>t. 0 < lf_pending s + lf_calls s \<longrightarrow> life_step\<^sup>*\<^sup>* s t \<longrightarrow> lf_frames t = 0 \<and> lf_calls t \<le> 1)"
proof -
  have inv: "life_inv s" by (rule life_inv_reachable [OF assms])
  have fin: "lf_frames t = 0 \<and> lf_calls t \<le> 1" if due: "0 < lf_pending s + lf_calls s" and run: "life_step\<^sup>*\<^sup>* s t" for t
  proof -
    have "0 < lf_pending t + lf_calls t" using run due
      by (induction rule: rtranclp_induct) (auto elim!: life_step.cases)
    moreover have "life_inv t" by (rule life_inv_reachable [OF rtranclp_trans [OF assms run]])
    ultimately show ?thesis by (auto simp: life_inv_def split: if_splits)
  qed
  then have "\<forall>t. 0 < lf_pending s + lf_calls s \<longrightarrow> life_step\<^sup>*\<^sup>* s t \<longrightarrow> lf_frames t = 0 \<and> lf_calls t \<le> 1" by blast
  moreover have "0 < lf_running s \<longrightarrow> lf_frames s < USIZE_MAX \<longrightarrow> syscall_begin (lf_mutable s) \<noteq> Panic"
    "0 < lf_frames s \<longrightarrow> syscall_end (lf_mutable s) \<noteq> Panic"
    using inv by (auto simp: life_inv_def syscall_begin_def syscall_end_def assert_exec_def usize_add_def usize_sub_def Let_def
      split: State.splits)
  moreover have "lf_queued s + lf_running s \<le> 1" "mt_state (lf_mutable s) = Runnable \<longrightarrow> lf_queued s + lf_running s = 1"
    "lf_pending s + lf_calls s = (if mt_state (lf_mutable s) = Terminated \<and> lf_frames s = 0 then 1 else 0)"
    using inv by (auto simp: life_inv_def split: State.splits)
  ultimately show ?thesis by blast
qed

text \<open>A thread that is terminated from its own system call handler: the final upcall waits for the handler to return.\<close>

theorem thread_lifecycle_witness:
  "\<exists>s. life_step\<^sup>*\<^sup>* life_new s \<and> mt_state (lf_mutable s) = Terminated \<and> lf_frames s = 1 \<and> lf_pending s + lf_calls s = 0"
proof -
  let ?s = "\<lambda>st n q r f. \<lparr>lf_mutable = \<lparr>mt_state = st, mt_in_upcalls = n\<rparr>, lf_queued = q, lf_running = r, lf_frames = f, lf_pending = 0, lf_calls = 0\<rparr>"
  have "life_step life_new (?s Runnable 0 1 0 0)"
    using life_step.unblock [of life_new] by (simp add: life_new_def)
  moreover have "life_step (?s Runnable 0 1 0 0) (?s Runnable 0 0 1 0)"
    using life_step.pick [of "?s Runnable 0 1 0 0"] by simp
  moreover have "life_step (?s Runnable 0 0 1 0) (?s Blocked 1 0 0 1)"
    using life_step.syscall [of "?s Runnable 0 0 1 0" True "\<lparr>mt_state = Blocked, mt_in_upcalls = 1\<rparr>"]
    by (simp add: syscall_begin_def assert_exec_def usize_add_def USIZE_MAX_def)
  moreover have "life_step (?s Blocked 1 0 0 1) (?s Terminated 1 0 0 1)"
    using life_step.terminate [of "?s Blocked 1 0 0 1" False "\<lparr>mt_state = Terminated, mt_in_upcalls = 1\<rparr>"]
    by (simp add: terminate_section_def Let_def)
  ultimately have run: "life_step\<^sup>*\<^sup>* life_new (?s Terminated 1 0 0 1)"
    by (meson rtranclp.rtrancl_into_rtrancl rtranclp.rtrancl_refl)
  from thread_lifecycle [OF this] have "lf_pending (?s Terminated 1 0 0 1) + lf_calls (?s Terminated 1 0 0 1) = 0" by simp
  with run show ?thesis by (intro exI [of _ "?s Terminated 1 0 0 1"]) simp
qed

end
