(* ===== verification/Devices.thy ===== *)
theory Devices
  imports Api Address Bytes
begin

text \<open>
  The devices that the x86-64 port drives: port I/O and model specific registers (\<open>arch/x64/ioport.rs\<close>,
  \<open>msr.rs\<close>), the serial console (\<open>console.rs\<close>), the legacy interrupt controller (\<open>pic.rs\<close>), the timer
  (\<open>timer.rs\<close>), the local and the I/O APIC (\<open>local_apic.rs\<close>, \<open>io_apic.rs\<close>) and the debug exit port
  (\<open>semihosting.rs\<close>). \<open>machine\<close> records what the devices have been told: writes to ports and to device
  memory are logged in order, a port answers its reads from a stream of bytes, and the I/O APIC has
  its two-register window onto a register file.
\<close>

record machine =
  mc_out :: "(u16 \<times> u32) list"
  mc_in :: "u16 \<Rightarrow> nat \<Rightarrow> u8"
  mc_reads :: nat
  mc_msr :: "u32 \<Rightarrow> u64"
  mc_mmio :: "(nat \<times> u32) list"
  mc_ioapic_base :: VAddr
  mc_ioregsel :: u32
  mc_ioapic :: "u32 \<Rightarrow> u32"
  mc_ticks :: u64

section \<open>Port I/O and model specific registers\<close>

definition out8 :: "u16 \<Rightarrow> u8 \<Rightarrow> machine \<Rightarrow> machine" where
  "out8 port v M = M\<lparr>mc_out := mc_out M @ [(port, ucast v)]\<rparr>"

definition out32 :: "u16 \<Rightarrow> u32 \<Rightarrow> machine \<Rightarrow> machine" where
  "out32 port v M = M\<lparr>mc_out := mc_out M @ [(port, v)]\<rparr>"

definition in8 :: "u16 \<Rightarrow> machine \<Rightarrow> u8 \<times> machine" where
  "in8 port M = (mc_in M port (mc_reads M), M\<lparr>mc_reads := mc_reads M + 1\<rparr>)"

text \<open>The instructions use EDX and EAX for the two halves of the register.\<close>

definition rdmsr :: "u32 \<Rightarrow> machine \<Rightarrow> u64" where
  "rdmsr msr M = (let low = ucast (mc_msr M msr) :: u32; high = ucast (drop_bit 32 (mc_msr M msr)) :: u32
     in push_bit 32 (ucast high) OR ucast low)"

definition wrmsr :: "u32 \<Rightarrow> u64 \<Rightarrow> machine \<Rightarrow> machine" where
  "wrmsr msr v M = (let eax = ucast v :: u32; edx = ucast (drop_bit 32 v) :: u32
     in M\<lparr>mc_msr := (mc_msr M)(msr := push_bit 32 (ucast edx) OR ucast eax)\<rparr>)"

text \<open>Volatile accesses to device memory: the window of the I/O APIC, or a write that is logged.\<close>

definition mmio_write :: "nat \<Rightarrow> u32 \<Rightarrow> machine \<Rightarrow> machine" where
  "mmio_write addr v M =
     (if addr = mc_ioapic_base M then M\<lparr>mc_ioregsel := v\<rparr>
      else if addr = mc_ioapic_base M + 0x10 then M\<lparr>mc_ioapic := (mc_ioapic M)(mc_ioregsel M := v)\<rparr>
      else M\<lparr>mc_mmio := mc_mmio M @ [(addr, v)]\<rparr>)"

definition mmio_read :: "nat \<Rightarrow> machine \<Rightarrow> u32" where
  "mmio_read addr M =
     (if addr = mc_ioapic_base M then mc_ioregsel M
      else if addr = mc_ioapic_base M + 0x10 then mc_ioapic M (mc_ioregsel M) else 0)"

section \<open>Console\<close>

definition COM1_DATA :: u16 where "COM1_DATA = 0x3f8"
definition COM1_IER :: u16 where "COM1_IER = COM1_DATA + 1"
definition COM1_FCR :: u16 where "COM1_FCR = COM1_DATA + 2"
definition COM1_LCR :: u16 where "COM1_LCR = COM1_DATA + 3"
definition COM1_MCR :: u16 where "COM1_MCR = COM1_DATA + 4"
definition COM1_LSR :: u16 where "COM1_LSR = COM1_DATA + 5"

text \<open>The loop waits for the line status register to show a free transmit buffer; none: forever.\<close>

partial_function (option) putchar :: "u8 \<Rightarrow> machine \<Rightarrow> machine option" where
  "putchar c M = (case in8 COM1_LSR M of (lsr, M) \<Rightarrow>
     if lsr AND 0x20 = 0 then putchar c M else Some (out8 COM1_DATA c M))"

fun console_write :: "u8 list \<Rightarrow> machine \<Rightarrow> machine option" where
  "console_write [] M = Some M"
| "console_write (b # bs) M =
     Option.bind (if b = 10 then putchar 13 M else Some M) (\<lambda>M.
     Option.bind (putchar b M) (console_write bs))"

definition console_init :: "machine \<Rightarrow> machine" where
  "console_init M =
     out8 COM1_MCR 0x03 (out8 COM1_FCR 0xc7 (out8 COM1_LCR 0x03 (out8 COM1_IER 0 (out8 COM1_DATA 1
       (out8 COM1_LCR (push_bit 7 1) (out8 COM1_IER 0x00 M))))))"

section \<open>Interrupt controller, timer, debug exit\<close>

definition pic_init :: "machine \<Rightarrow> machine" where
  "pic_init M = out8 0xa1 0xff (out8 0x21 0xff M)"

definition TIMER_IRQ :: u8 where "TIMER_IRQ = 0"
definition TIMER_HZ :: nat where "TIMER_HZ = 1000"
definition NANOS_PER_TICK :: nat where "NANOS_PER_TICK = 1000000000 div TIMER_HZ"
definition PIT_CH0_DATA :: u16 where "PIT_CH0_DATA = 0x40"
definition PIT_COMMAND :: u16 where "PIT_COMMAND = 0x43"
definition PIT_HZ :: nat where "PIT_HZ = 1193182"
definition DIVISOR :: u16 where "DIVISOR = of_nat (PIT_HZ div TIMER_HZ)"
definition TICKS_INIT :: u64 where "TICKS_INIT = 0xffffffffffff0000"

definition timer_init :: "machine \<Rightarrow> machine" where
  "timer_init M =
     (let cmd = push_bit 4 0b11 OR push_bit 1 0b010 :: u8 in
      out8 PIT_CH0_DATA (ucast (drop_bit 8 DIVISOR)) (out8 PIT_CH0_DATA (ucast (DIVISOR AND 0xff)) (out8 PIT_COMMAND cmd M)))"

definition ISA_DEBUG_EXIT_PORT :: u16 where "ISA_DEBUG_EXIT_PORT = 0x501"

text \<open>After the port has been written the function spins; the state is the one it spins in.\<close>

definition semihosting_exit :: "machine \<Rightarrow> machine" where
  "semihosting_exit M = out32 ISA_DEBUG_EXIT_PORT 35 M"

section \<open>Local APIC\<close>

datatype Reg = TaskPriority | EndOfInterrupt | SpuriousInterruptVector

fun reg_offset :: "Reg \<Rightarrow> usize" where
  "reg_offset TaskPriority = 0x80"
| "reg_offset EndOfInterrupt = 0xb0"
| "reg_offset SpuriousInterruptVector = 0xf0"

definition MSR_IA32_APIC_BASE :: u32 where "MSR_IA32_APIC_BASE = 0x1b"

definition lapic_write :: "VAddr \<Rightarrow> Reg \<Rightarrow> u32 \<Rightarrow> machine \<Rightarrow> machine" where
  "lapic_write base reg v M = mmio_write (base + reg_offset reg) v M"

record LocalApic =
  la_base :: VAddr

definition lapic_init :: "machine \<Rightarrow> LocalApic \<times> machine" where
  "lapic_init M =
     (let base_paddr = rdmsr MSR_IA32_APIC_BASE M AND 0xfffff000;
          base = paddr2vaddr (unat base_paddr)
      in (\<lparr>la_base = base\<rparr>, lapic_write base SpuriousInterruptVector (push_bit 8 1) (lapic_write base TaskPriority 0 M)))"

definition acknowledge_irq :: "LocalApic \<Rightarrow> machine \<Rightarrow> machine" where
  "acknowledge_irq L M = lapic_write (la_base L) EndOfInterrupt 0 M"

definition timer_handle_interrupt :: "LocalApic \<Rightarrow> machine \<Rightarrow> machine" where
  "timer_handle_interrupt L M = acknowledge_irq L (M\<lparr>mc_ticks := mc_ticks M + 1\<rparr>)"

section \<open>I/O APIC\<close>

definition REG_IOAPICVER :: u32 where "REG_IOAPICVER = 0x01"
definition REDIR_TABLE_BASE :: u32 where "REDIR_TABLE_BASE = 0x10"
definition IRQ_VECTOR_BASE :: nat where "IRQ_VECTOR_BASE = 32"

definition read_ioapic :: "VAddr \<Rightarrow> u32 \<Rightarrow> machine \<Rightarrow> u32 \<times> machine" where
  "read_ioapic base reg M = (let M = mmio_write base reg M in (mmio_read (base + 0x10) M, M))"

definition write_ioapic :: "VAddr \<Rightarrow> u32 \<Rightarrow> u32 \<Rightarrow> machine \<Rightarrow> machine" where
  "write_ioapic base reg v M = mmio_write (base + 0x10) v (mmio_write base reg M)"

definition redir_reg_low :: "u8 \<Rightarrow> u32" where
  "redir_reg_low irq = REDIR_TABLE_BASE + ucast irq * 2"

definition redir_reg_high :: "u8 \<Rightarrow> u32" where
  "redir_reg_high irq = redir_reg_low irq + 1"

record IoApic =
  ia_base :: VAddr
  ia_num_entries :: u8

definition ioapic_new :: "VAddr \<Rightarrow> machine \<Rightarrow> IoApic \<times> machine" where
  "ioapic_new base M = (case read_ioapic base REG_IOAPICVER M of (ver, M) \<Rightarrow>
     let num_entries = ucast (drop_bit 16 ver AND 0xff) in (\<lparr>ia_base = base, ia_num_entries = num_entries\<rparr>, M))"

text \<open>The vector is computed in eight bits: an interrupt number of 224 or more overflows.\<close>

definition enable_irq_at :: "IoApic \<Rightarrow> u8 \<Rightarrow> u8 \<Rightarrow> machine \<Rightarrow> ((ErrorCode + unit) \<times> machine) exec" where
  "enable_irq_at A redir_index irq M =
     (if ia_num_entries A \<le> redir_index then Val (Inl OUT_OF_BOUNDS, M)
      else if 256 \<le> IRQ_VECTOR_BASE + unat irq then Panic
      else let vector = of_nat (IRQ_VECTOR_BASE + unat irq) :: u8;
               M = write_ioapic (ia_base A) (redir_reg_low redir_index) (ucast vector) M;
               M = write_ioapic (ia_base A) (redir_reg_high redir_index) 0 M
           in Val (Inr (), M))"

definition enable_irq :: "IoApic \<Rightarrow> u8 \<Rightarrow> machine \<Rightarrow> ((ErrorCode + unit) \<times> machine) exec" where
  "enable_irq A irq M = enable_irq_at A irq irq M"

text \<open>The static \<open>IOAPIC\<close> is the first argument of the functions that use it.\<close>

definition ioapic_init :: "IoApic option \<Rightarrow> PAddr \<Rightarrow> machine \<Rightarrow> IoApic option \<times> machine" where
  "ioapic_init ioapic base M = (case ioapic of
     Some A \<Rightarrow> (ioapic, M)
   | None \<Rightarrow> (case ioapic_new (paddr2vaddr base) M of (A, M) \<Rightarrow> (Some A, M)))"

definition use_ioapic :: "IoApic option \<Rightarrow> (IoApic \<Rightarrow> machine \<Rightarrow> machine exec) \<Rightarrow> machine \<Rightarrow> machine exec" where
  "use_ioapic ioapic f M = (case ioapic of None \<Rightarrow> Panic | Some A \<Rightarrow> f A M)"

definition interrupt_acquire :: "IoApic option \<Rightarrow> u8 \<Rightarrow> machine \<Rightarrow> ((ErrorCode + unit) \<times> machine) exec" where
  "interrupt_acquire ioapic irq M = (case ioapic of None \<Rightarrow> Panic | Some A \<Rightarrow> enable_irq A irq M)"

definition interrupt_acknowledge :: "LocalApic \<Rightarrow> u8 \<Rightarrow> machine \<Rightarrow> machine" where
  "interrupt_acknowledge L irq M = acknowledge_irq L M"

section \<open>Facts\<close>

lemma split_u64: "push_bit 32 (ucast (ucast (drop_bit 32 v) :: u32)) OR ucast (ucast v :: u32) = (v :: u64)"
  by (rule bit_word_eqI) (auto simp: bit_simps)

lemma rdmsr_eq: "rdmsr msr M = mc_msr M msr"
  by (simp add: rdmsr_def split_u64)

lemma wrmsr_eq: "wrmsr msr v M = M\<lparr>mc_msr := (mc_msr M)(msr := v)\<rparr>"
  by (simp add: wrmsr_def split_u64)

lemma write_ioapic_eq:
  "base = mc_ioapic_base M \<Longrightarrow> write_ioapic base reg v M = M\<lparr>mc_ioregsel := reg, mc_ioapic := (mc_ioapic M)(reg := v)\<rparr>"
  by (simp add: write_ioapic_def mmio_write_def)

lemma read_ioapic_eq:
  "base = mc_ioapic_base M \<Longrightarrow> read_ioapic base reg M = (mc_ioapic M reg, M\<lparr>mc_ioregsel := reg\<rparr>)"
  by (simp add: read_ioapic_def mmio_write_def mmio_read_def)

text \<open>A character goes out once the line is free; \<open>n\<close> is the first read that says so.\<close>

lemma putchar_ready:
  assumes "mc_in M COM1_LSR n AND 0x20 \<noteq> 0" and "mc_reads M \<le> n"
  shows "\<exists>k. mc_reads M < k \<and> putchar c M = Some (M\<lparr>mc_reads := k, mc_out := mc_out M @ [(COM1_DATA, ucast c)]\<rparr>)"
  using assms
proof (induction "n - mc_reads M" arbitrary: M)
  case 0
  then have "mc_reads M = n" by simp
  then show ?case using "0.prems" by (subst putchar.simps) (auto simp: in8_def out8_def)
next
  case (Suc d)
  show ?case
  proof (cases "mc_in M COM1_LSR (mc_reads M) AND 0x20 = 0")
    case True
    let ?M = "M\<lparr>mc_reads := mc_reads M + 1\<rparr>"
    have "\<exists>k. mc_reads ?M < k \<and> putchar c ?M = Some (?M\<lparr>mc_reads := k, mc_out := mc_out ?M @ [(COM1_DATA, ucast c)]\<rparr>)"
      using Suc.hyps(2) Suc.prems by (intro Suc.hyps(1)) simp_all
    then obtain k where k: "mc_reads M + 1 < k" "putchar c ?M = Some (M\<lparr>mc_reads := k, mc_out := mc_out M @ [(COM1_DATA, ucast c)]\<rparr>)"
      by auto
    have "putchar c M = putchar c ?M" using True by (subst putchar.simps) (simp add: in8_def)
    then show ?thesis using k by (intro exI [of _ k]) simp
  next
    case False
    then show ?thesis by (subst putchar.simps) (auto simp: in8_def out8_def)
  qed
qed

text \<open>What the terminal gets for a text: carriage returns are added.\<close>

definition crlf :: "u8 list \<Rightarrow> u8 list" where
  "crlf bs = concat (map (\<lambda>b. if b = 10 then [13, 10] else [b]) bs)"

lemma ioapic_new_routing:
  assumes "mc_ioapic_base M = base" and "ioapic_new base M = (A, M')" and "last_pin = drop_bit 16 (mc_ioapic M REG_IOAPICVER) AND 0xff"
  shows "ucast (ia_num_entries A) = last_pin \<and> M' = M\<lparr>mc_ioregsel := REG_IOAPICVER\<rparr>
    \<and> enable_irq_at A pin irq M' = (if last_pin \<le> ucast pin then Val (Inl OUT_OF_BOUNDS, M')
        else if 224 \<le> unat irq then Panic
        else Val (Inr (), M\<lparr>mc_ioregsel := redir_reg_high pin,
          mc_ioapic := (mc_ioapic M)(redir_reg_low pin := 32 + ucast irq, redir_reg_high pin := 0)\<rparr>))"
proof -
  have A: "A = \<lparr>ia_base = base, ia_num_entries = ucast last_pin\<rparr>" "M' = M\<lparr>mc_ioregsel := REG_IOAPICVER\<rparr>"
    using assms by (simp_all add: ioapic_new_def read_ioapic_eq)
  have m8: "(0xff :: u32) = mask 8" by (simp add: mask_eq_exp_minus_1)
  have low: "ucast (ucast last_pin :: u8) = last_pin"
    unfolding assms(3) m8 by (rule bit_word_eqI) (auto simp only: bit_simps possible_bit_word, simp)
  have up: "unat (ucast (b :: u8) :: u32) = unat b" for b
    using unat_u8 [of b] by (simp add: unsigned_ucast_eq take_bit_nat_eq_self)
  have le: "ucast last_pin \<le> pin \<longleftrightarrow> last_pin \<le> ucast pin"
    using up [of "ucast last_pin"] up [of pin] low by (simp add: word_le_nat_alt)
  have vec: "ucast (of_nat (32 + unat irq) :: u8) = (32 + ucast irq :: u32)" if "unat irq < 224"
  proof -
    have "unat (of_nat (32 + unat irq) :: u8) = 32 + unat irq" using that unfolding unat_of_nat by simp
    then have "unat (ucast (of_nat (32 + unat irq) :: u8) :: u32) = 32 + unat irq" using up by simp
    moreover have "unat (32 + ucast irq :: u32) = 32 + unat irq"
      using that up [of irq] by (simp add: unat_word_ariths)
    ultimately show ?thesis by (simp only: word_unat_eq_iff)
  qed
  show ?thesis using A low le vec assms(1)
    by (auto simp: enable_irq_at_def IRQ_VECTOR_BASE_def write_ioapic_eq Let_def)
qed

section \<open>Properties\<close>

text \<open>
  C39. The console: as long as the serial line becomes ready again and again, writing any text returns,
  having sent exactly the bytes of the text to the data port, in order, each line feed preceded by a
  carriage return.
\<close>

theorem console_write_sends:
  assumes "\<forall>n. \<exists>k\<ge>n. mc_in M COM1_LSR k AND 0x20 \<noteq> 0"
  shows "\<exists>k. console_write bs M = Some (M\<lparr>mc_reads := k, mc_out := mc_out M @ map (\<lambda>b. (COM1_DATA, ucast b)) (crlf bs)\<rparr>)"
  using assms
proof (induction bs arbitrary: M)
  case Nil
  then show ?case by (intro exI [of _ "mc_reads M"]) (simp add: crlf_def)
next
  case (Cons b bs)
  have put: "\<exists>k. putchar c N = Some (N\<lparr>mc_reads := k, mc_out := mc_out N @ [(COM1_DATA, ucast c)]\<rparr>)"
    if "mc_in N = mc_in M" for c N
    using Cons.prems putchar_ready that by metis
  obtain j where j: "(if b = 10 then putchar 13 M else Some M)
      = Some (M\<lparr>mc_reads := j, mc_out := mc_out M @ (if b = 10 then [(COM1_DATA, ucast (13::u8))] else [])\<rparr>)"
    using put [of M 13] that by (cases "b = 10") (auto intro: that [of "mc_reads M"])
  let ?M = "M\<lparr>mc_reads := j, mc_out := mc_out M @ (if b = 10 then [(COM1_DATA, ucast (13::u8))] else [])\<rparr>"
  obtain k where k: "putchar b ?M = Some (?M\<lparr>mc_reads := k, mc_out := mc_out ?M @ [(COM1_DATA, ucast b)]\<rparr>)"
    using put [of ?M b] by auto
  show ?case
    using Cons.IH [of "?M\<lparr>mc_reads := k, mc_out := mc_out ?M @ [(COM1_DATA, ucast b)]\<rparr>"] Cons.prems j k
    by (auto simp: crlf_def)
qed

definition example_machine :: machine where
  "example_machine = \<lparr>mc_out = [], mc_in = (\<lambda>_ n. if even n then 0 else 0x60), mc_reads = 0, mc_msr = (\<lambda>_. 0), mc_mmio = [],
     mc_ioapic_base = paddr2vaddr 0xfec00000, mc_ioregsel = 0, mc_ioapic = (\<lambda>_. 0)(1 := 0x170011), mc_ticks = TICKS_INIT\<rparr>"

theorem console_write_sends_witness:
  "\<exists>M. console_write [0x68, 0x69, 10] example_machine = Some M
     \<and> mc_out M = [(0x3f8, 0x68), (0x3f8, 0x69), (0x3f8, 13), (0x3f8, 10)]"
proof -
  have "\<forall>n. \<exists>k\<ge>n. mc_in example_machine COM1_LSR k AND 0x20 \<noteq> 0"
  proof
    fix n :: nat
    show "\<exists>k\<ge>n. mc_in example_machine COM1_LSR k AND 0x20 \<noteq> 0"
      by (intro exI [of _ "2 * n + 1"]) (simp add: example_machine_def)
  qed
  from console_write_sends [OF this, of "[0x68, 0x69, 10]"] show ?thesis
    by (auto simp: example_machine_def crlf_def COM1_DATA_def)
qed

text \<open>
  C40. Routing an interrupt in the I/O APIC. \<open>IoApic::init\<close> only reads the version register: it selects that
  register and writes no redirection entry, so every entry keeps what the firmware left there. It takes
  the field of that register that holds the index of the last pin for the number of pins. Then
  \<open>enable_irq_at\<close> refuses the last pin and all above without touching the device, panics for an interrupt
  number of 224 or more, and otherwise gives the pin the vector of its interrupt number (32 above it),
  edge triggered, unmasked, for processor 0, and changes no other redirection entry.
\<close>

theorem ioapic_routing:
  assumes "mc_ioapic_base M = base" and "ioapic_new base M = (A, M')" and "last_pin = drop_bit 16 (mc_ioapic M REG_IOAPICVER) AND 0xff"
  shows "ucast (ia_num_entries A) = last_pin \<and> M' = M\<lparr>mc_ioregsel := REG_IOAPICVER\<rparr>
    \<and> enable_irq_at A pin irq M' = (if last_pin \<le> ucast pin then Val (Inl OUT_OF_BOUNDS, M')
        else if 224 \<le> unat irq then Panic
        else Val (Inr (), M\<lparr>mc_ioregsel := redir_reg_high pin,
          mc_ioapic := (mc_ioapic M)(redir_reg_low pin := 32 + ucast irq, redir_reg_high pin := 0)\<rparr>))"
  by (rule ioapic_new_routing [OF assms])

theorem ioapic_routing_witness:
  "\<exists>A M'. ioapic_new (paddr2vaddr 0xfec00000) example_machine = (A, M')
    \<and> enable_irq_at A 23 0 M' = Val (Inl OUT_OF_BOUNDS, M')
    \<and> (\<exists>M''. enable_irq_at A 2 0 M' = Val (Inr (), M'') \<and> mc_ioapic M'' 0x14 = 32 \<and> mc_ioapic M'' 0x15 = 0)"
proof -
  obtain A M' where A: "ioapic_new (paddr2vaddr 0xfec00000) example_machine = (A, M')" by fastforce
  have base: "mc_ioapic_base example_machine = paddr2vaddr 0xfec00000" by (simp add: example_machine_def)
  have last: "drop_bit 16 (mc_ioapic example_machine REG_IOAPICVER) AND 0xff = 23"
    by (simp add: example_machine_def REG_IOAPICVER_def)
  note r = ioapic_routing [OF base A last [symmetric]]
  show ?thesis
    using A r [of 23 0] r [of 2 0]
    by (intro exI [of _ A] exI [of _ M']) (auto simp: redir_reg_low_def redir_reg_high_def REDIR_TABLE_BASE_def)
qed

end
