(* ===== verification/MpTable.thy ===== *)
theory MpTable
  imports BootParse Elf Devices
begin

text \<open>
  \<open>kernel/src/arch/x64/mp_table.rs\<close>: finding the MultiProcessor tables in low memory, iterating over
  their entries, and routing the timer interrupt to its pin of the I/O APIC. The tables are read from
  physical memory through the direct map; a reference to a structure reads all its bytes.
\<close>

section \<open>Structures\<close>

record MpPointerTable =
  mp_signature :: "u8 list"
  mp_physical_addr_pointer :: nat
  mp_length :: nat
  mp_spec_rev :: nat
  mp_checksum :: nat
  mp_feature_bytes :: "u8 list"

record MpConfigTable =
  mc_signature :: "u8 list"
  mc_length :: nat
  mc_spec_rev :: nat
  mc_checksum :: nat
  mc_oem_id :: "u8 list"
  mc_product_id :: "u8 list"
  mc_oem_table_pointer :: nat
  mc_oem_table_size :: nat
  mc_entry_count :: nat
  mc_local_apic_pointer :: nat
  mc_extended_table_length :: nat
  mc_extended_table_checksum :: nat
  mc_reserved :: nat

record ProcessorEntry =
  pe_entry_type :: nat
  pe_local_apic_id :: nat
  pe_local_apic_version :: nat
  pe_cpu_flags :: nat
  pe_cpu_signature :: nat
  pe_feature_flags :: nat
  pe_reserved :: "u8 list"

record BusEntry =
  be_entry_type :: nat
  be_bus_id :: nat
  be_bus_string :: "u8 list"

record IoApicEntry =
  ae_entry_type :: nat
  ae_io_apic_id :: nat
  ae_io_apic_version :: nat
  ae_io_apic_flags :: nat
  ae_io_apic_address :: nat

record IoInterruptAssignmentEntry =
  ie_entry_type :: nat
  ie_interrupt_type :: nat
  ie_flag :: nat
  ie_source_bus_id :: nat
  ie_source_bus_irq :: nat
  ie_dest_io_apic_id :: nat
  ie_dest_io_apic_intin :: nat

definition ENTRY_TYPE_PROCESSOR :: nat where "ENTRY_TYPE_PROCESSOR = 0"
definition ENTRY_TYPE_BUS :: nat where "ENTRY_TYPE_BUS = 1"
definition ENTRY_TYPE_IO_APIC :: nat where "ENTRY_TYPE_IO_APIC = 2"
definition ENTRY_TYPE_IO_INT_ASSIGN :: nat where "ENTRY_TYPE_IO_INT_ASSIGN = 3"

text \<open>The structures are packed; \<open>bs\<close> are their bytes.\<close>

definition mp_pointer_table :: "u8 list \<Rightarrow> MpPointerTable" where
  "mp_pointer_table bs = \<lparr>mp_signature = take 4 bs, mp_physical_addr_pointer = field bs 4 4, mp_length = field bs 8 1,
     mp_spec_rev = field bs 9 1, mp_checksum = field bs 10 1, mp_feature_bytes = take 5 (drop 11 bs)\<rparr>"

definition mp_config_table :: "u8 list \<Rightarrow> MpConfigTable" where
  "mp_config_table bs = \<lparr>mc_signature = take 4 bs, mc_length = field bs 4 2, mc_spec_rev = field bs 6 1, mc_checksum = field bs 7 1,
     mc_oem_id = take 8 (drop 8 bs), mc_product_id = take 12 (drop 16 bs), mc_oem_table_pointer = field bs 28 4,
     mc_oem_table_size = field bs 32 2, mc_entry_count = field bs 34 2, mc_local_apic_pointer = field bs 36 4,
     mc_extended_table_length = field bs 40 2, mc_extended_table_checksum = field bs 42 1, mc_reserved = field bs 43 1\<rparr>"

definition processor_entry :: "u8 list \<Rightarrow> ProcessorEntry" where
  "processor_entry bs = \<lparr>pe_entry_type = field bs 0 1, pe_local_apic_id = field bs 1 1, pe_local_apic_version = field bs 2 1,
     pe_cpu_flags = field bs 3 1, pe_cpu_signature = field bs 4 4, pe_feature_flags = field bs 8 4, pe_reserved = take 8 (drop 12 bs)\<rparr>"

definition bus_entry :: "u8 list \<Rightarrow> BusEntry" where
  "bus_entry bs = \<lparr>be_entry_type = field bs 0 1, be_bus_id = field bs 1 1, be_bus_string = take 6 (drop 2 bs)\<rparr>"

definition io_apic_entry :: "u8 list \<Rightarrow> IoApicEntry" where
  "io_apic_entry bs = \<lparr>ae_entry_type = field bs 0 1, ae_io_apic_id = field bs 1 1, ae_io_apic_version = field bs 2 1,
     ae_io_apic_flags = field bs 3 1, ae_io_apic_address = field bs 4 4\<rparr>"

definition io_interrupt_assignment_entry :: "u8 list \<Rightarrow> IoInterruptAssignmentEntry" where
  "io_interrupt_assignment_entry bs = \<lparr>ie_entry_type = field bs 0 1, ie_interrupt_type = field bs 1 1, ie_flag = field bs 2 2,
     ie_source_bus_id = field bs 4 1, ie_source_bus_irq = field bs 5 1, ie_dest_io_apic_id = field bs 6 1,
     ie_dest_io_apic_intin = field bs 7 1\<rparr>"

section \<open>Search\<close>

definition MP_MAGIC :: "u8 list" where
  "MP_MAGIC = [0x5f, 0x4d, 0x50, 0x5f]"

definition SEARCH_LOCATIONS :: "(nat \<times> nat) list" where
  "SEARCH_LOCATIONS = [(0x80000, 0x81000), (0xf0000, 0x100000)]"

text \<open>\<open>range.step_by(n)\<close>.\<close>

definition step_by :: "nat \<Rightarrow> nat \<times> nat \<Rightarrow> nat list" where
  "step_by n r = map (\<lambda>i. fst r + n * i) [0..<(snd r - fst r + n - 1) div n]"

fun find_magic :: "memory \<Rightarrow> nat list \<Rightarrow> MpPointerTable option exec" where
  "find_magic m [] = Val None"
| "find_magic m (paddr # rest) =
     exec_bind (peek m paddr 4) (\<lambda>magic.
       if magic = MP_MAGIC then exec_bind (peek m paddr 16) (\<lambda>bs. Val (Some (mp_pointer_table bs)))
       else find_magic m rest)"

definition find_mpfp_table :: "memory \<Rightarrow> MpPointerTable option exec" where
  "find_mpfp_table m = find_magic m (concat (map (step_by 4) SEARCH_LOCATIONS))"

section \<open>Iteration\<close>

datatype MpTableEntry =
    Processor ProcessorEntry
  | Bus BusEntry
  | IoApicE IoApicEntry
  | IoInterruptAssignment IoInterruptAssignmentEntry
  | Unknown

record MpTableIter =
  it_mp_config :: MpConfigTable
  it_index :: nat
  it_entry_addr :: usize

definition mp_iter_new :: "memory \<Rightarrow> MpPointerTable \<Rightarrow> MpTableIter exec" where
  "mp_iter_new m mp_table =
     (let mp_config_addr = mp_physical_addr_pointer mp_table in
      exec_bind (peek m mp_config_addr 44) (\<lambda>bs.
        Val \<lparr>it_mp_config = mp_config_table bs, it_index = 0, it_entry_addr = mp_config_addr + 44\<rparr>))"

definition mp_entry_at :: "memory \<Rightarrow> nat \<Rightarrow> (MpTableEntry \<times> nat) exec" where
  "mp_entry_at m addr =
     exec_bind (peek_int m addr 1) (\<lambda>type_byte.
       if type_byte = ENTRY_TYPE_PROCESSOR then exec_bind (peek m addr 20) (\<lambda>bs. Val (Processor (processor_entry bs), 20))
       else if type_byte = ENTRY_TYPE_BUS then exec_bind (peek m addr 8) (\<lambda>bs. Val (Bus (bus_entry bs), 8))
       else if type_byte = ENTRY_TYPE_IO_APIC then exec_bind (peek m addr 8) (\<lambda>bs. Val (IoApicE (io_apic_entry bs), 8))
       else if type_byte = ENTRY_TYPE_IO_INT_ASSIGN
         then exec_bind (peek m addr 8) (\<lambda>bs. Val (IoInterruptAssignment (io_interrupt_assignment_entry bs), 8))
       else Val (Unknown, 8))"

definition mp_next :: "memory \<Rightarrow> MpTableIter \<Rightarrow> (MpTableEntry \<times> MpTableIter) option exec" where
  "mp_next m it =
     (if mc_entry_count (it_mp_config it) \<le> it_index it then Val None
      else exec_bind (mp_entry_at m (it_entry_addr it)) (\<lambda>(entry, entry_size).
           exec_bind (usize_add (it_entry_addr it) entry_size) (\<lambda>addr.
             Val (Some (entry, it\<lparr>it_index := it_index it + 1, it_entry_addr := addr\<rparr>)))))"

text \<open>A \<open>for\<close> loop over the iterator.\<close>

function mp_for :: "memory \<Rightarrow> (MpTableEntry \<Rightarrow> 's \<Rightarrow> 's exec) \<Rightarrow> MpTableIter \<Rightarrow> 's \<Rightarrow> 's exec" where
  "mp_for m f it s = (case mp_next m it of
     Panic \<Rightarrow> Panic
   | Undef \<Rightarrow> Undef
   | Val None \<Rightarrow> Val s
   | Val (Some (entry, it)) \<Rightarrow> (case f entry s of Panic \<Rightarrow> Panic | Undef \<Rightarrow> Undef | Val s \<Rightarrow> mp_for m f it s))"
  by pat_completeness auto

termination
  by (relation "measure (\<lambda>(m, f, it, s). mc_entry_count (it_mp_config it) - it_index it)")
     (auto simp: mp_next_def exec_iffs split: if_splits)

declare mp_for.simps [simp del]

section \<open>Initialisation\<close>

definition ISA_BUS :: "u8 list" where
  "ISA_BUS = [0x49, 0x53, 0x41, 0x20, 0x20, 0x20]"

definition find_isa_ioapic :: "MpTableEntry \<Rightarrow> BusEntry option \<times> IoApicEntry option \<Rightarrow> (BusEntry option \<times> IoApicEntry option) exec" where
  "find_isa_ioapic entry = (\<lambda>(isa_bus, ioapic). case entry of
     Bus b \<Rightarrow> if be_bus_string b = ISA_BUS then assert_exec (isa_bus = None) (Val (Some b, ioapic)) else Val (isa_bus, ioapic)
   | IoApicE a \<Rightarrow> assert_exec (ioapic = None) (Val (isa_bus, Some a))
   | _ \<Rightarrow> Val (isa_bus, ioapic))"

definition find_timer_mapping :: "BusEntry \<Rightarrow> MpTableEntry \<Rightarrow> IoInterruptAssignmentEntry option
    \<Rightarrow> IoInterruptAssignmentEntry option exec" where
  "find_timer_mapping isa_bus entry timer_int_mapping = (case entry of
     IoInterruptAssignment i \<Rightarrow>
       if ie_source_bus_id i = be_bus_id isa_bus \<and> ie_source_bus_irq i = 0
       then assert_exec (timer_int_mapping = None) (Val (Some i)) else Val timer_int_mapping
   | _ \<Rightarrow> Val timer_int_mapping)"

text \<open>The first loop of \<open>init\<close> only logs the processors; it still reads the table.\<close>

definition mp_init :: "memory \<Rightarrow> IoApic option \<Rightarrow> machine \<Rightarrow> (IoApic option \<times> machine) exec" where
  "mp_init m ioapic_static M =
     exec_bind (find_mpfp_table m) (\<lambda>table. case table of None \<Rightarrow> Panic | Some mp_table \<Rightarrow>
     exec_bind (mp_iter_new m mp_table) (\<lambda>iter.
     exec_bind (mp_for m (\<lambda>_ s. Val s) iter ()) (\<lambda>_.
     exec_bind (mp_for m find_isa_ioapic iter (None, None)) (\<lambda>(isa_bus, ioapic).
     case isa_bus of None \<Rightarrow> Panic | Some isa_bus \<Rightarrow>
     case ioapic of None \<Rightarrow> Panic | Some ioapic \<Rightarrow>
     exec_bind (mp_for m (find_timer_mapping isa_bus) iter None) (\<lambda>mapping.
     case mapping of None \<Rightarrow> Panic | Some timer_int_mapping \<Rightarrow>
     assert_exec (ie_dest_io_apic_id timer_int_mapping = ae_io_apic_id ioapic)
       (case ioapic_init ioapic_static (ae_io_apic_address ioapic) M of (ioapic_static, M) \<Rightarrow>
        exec_bind (use_ioapic ioapic_static (\<lambda>A M.
          exec_bind (enable_irq_at A (of_nat (ie_dest_io_apic_intin timer_int_mapping)) TIMER_IRQ M) (\<lambda>(r, M).
            case r of Inl _ \<Rightarrow> Panic | Inr _ \<Rightarrow> Val M)) M) (\<lambda>M. Val (ioapic_static, M))))))))"

section \<open>The table as a list of entries\<close>

text \<open>An entry of the table is a block of bytes: 20 for a processor, 8 for all others.\<close>

definition block_ok :: "u8 list \<Rightarrow> bool" where
  "block_ok b \<longleftrightarrow> b \<noteq> [] \<and> length b = (if hd b = 0 then 20 else 8)"

definition decode :: "u8 list \<Rightarrow> MpTableEntry" where
  "decode b = (if hd b = 0 then Processor (processor_entry b) else if hd b = 1 then Bus (bus_entry b)
     else if hd b = 2 then IoApicE (io_apic_entry b) else if hd b = 3 then IoInterruptAssignment (io_interrupt_assignment_entry b)
     else Unknown)"

lemma unat_byte_eq: "unat (b :: u8) = n \<longleftrightarrow> n < 256 \<and> b = of_nat n"
  using unat_u8 [of b] by (auto simp: unat_of_nat word_unat_eq_iff)

lemma mp_entry_at_block:
  assumes "holds m a b" and "block_ok b"
  shows "mp_entry_at m a = Val (decode b, length b)"
proof -
  obtain x xs where b: "b = x # xs" using assms(2) by (cases b) (auto simp: block_ok_def)
  have "holds m a [x]" using assms(1) holds_append [of m a "[x]" xs] by (simp add: b)
  then have t: "peek_int m a 1 = Val (unat x)" using peek_holds [of m a "[x]" 1] by (simp add: peek_int_def)
  have whole: "peek m a (length b) = Val b" using assms(1) by (rule peek_holds) simp
  have len: "length b = (if x = 0 then 20 else 8)" using assms(2) by (simp add: block_ok_def b)
  show ?thesis
    using t whole len unfolding mp_entry_at_def decode_def
    by (simp add: b ENTRY_TYPE_PROCESSOR_def ENTRY_TYPE_BUS_def ENTRY_TYPE_IO_APIC_def ENTRY_TYPE_IO_INT_ASSIGN_def
      unat_byte_eq split: if_splits)
qed

lemma mp_for_blocks:
  assumes "holds m (it_entry_addr it) (concat blocks)" and "\<forall>b\<in>set blocks. block_ok b"
    and "mc_entry_count (it_mp_config it) = it_index it + length blocks"
  shows "mp_for m f it s = exec_fold f (map decode blocks) s"
  using assms
proof (induction blocks arbitrary: it s)
  case Nil
  then show ?case by (simp add: mp_for.simps mp_next_def)
next
  case (Cons b blocks)
  let ?a = "it_entry_addr it" and ?it = "it\<lparr>it_index := it_index it + 1, it_entry_addr := it_entry_addr it + length b\<rparr>"
  have h: "holds m ?a b" "holds m (?a + length b) (concat blocks)" using Cons.prems(1) by (simp_all add: holds_append)
  have "?a + length b \<le> USIZE_MAX" using h(1) by (simp add: holds_def direct_map_bound USIZE_MAX_def)
  then have "mp_next m it = Val (Some (decode b, ?it))"
    using mp_entry_at_block [OF h(1)] Cons.prems(2,3) by (simp add: mp_next_def usize_add_def)
  moreover have "mp_for m f ?it t = exec_fold f (map decode blocks) t" for t
    using h(2) Cons.prems(2,3) by (intro Cons.IH) simp_all
  ultimately show ?case by (subst mp_for.simps) (cases "f (decode b) s"; simp)
qed

text \<open>The entries that the three searches of \<open>init\<close> are for.\<close>

definition isa_buses :: "MpTableEntry list \<Rightarrow> BusEntry list" where
  "isa_buses es = List.map_filter (\<lambda>e. case e of Bus b \<Rightarrow> if be_bus_string b = ISA_BUS then Some b else None | _ \<Rightarrow> None) es"

definition io_apics :: "MpTableEntry list \<Rightarrow> IoApicEntry list" where
  "io_apics es = List.map_filter (\<lambda>e. case e of IoApicE a \<Rightarrow> Some a | _ \<Rightarrow> None) es"

definition timer_mappings :: "BusEntry \<Rightarrow> MpTableEntry list \<Rightarrow> IoInterruptAssignmentEntry list" where
  "timer_mappings isa es = List.map_filter (\<lambda>e. case e of
     IoInterruptAssignment i \<Rightarrow> if ie_source_bus_id i = be_bus_id isa \<and> ie_source_bus_irq i = 0 then Some i else None | _ \<Rightarrow> None) es"

text \<open>A search that insists on at most one hit: the hit, if there is one.\<close>

definition at_most_one :: "'a option \<Rightarrow> 'a list \<Rightarrow> 'a option exec" where
  "at_most_one x xs = (case x of
     None \<Rightarrow> (case xs of [] \<Rightarrow> Val None | [y] \<Rightarrow> Val (Some y) | _ \<Rightarrow> Panic)
   | Some y \<Rightarrow> (if xs = [] then Val (Some y) else Panic))"

lemma at_most_one_Cons: "at_most_one x (y # ys) = (if x = None then at_most_one (Some y) ys else Panic)"
  by (cases x; cases ys) (simp_all add: at_most_one_def)

lemma at_most_one_Panic [simp]: "exec_bind (at_most_one x xs) (\<lambda>_. Panic) = Panic"
  by (cases x) (auto simp: at_most_one_def split: list.splits)

lemmas map_filter_simps = List.map_filter_simps

lemma find_isa_ioapic_fold:
  "exec_fold find_isa_ioapic es (x, y) =
     exec_bind (at_most_one x (isa_buses es)) (\<lambda>b. exec_bind (at_most_one y (io_apics es)) (\<lambda>a. Val (b, a)))"
proof (induction es arbitrary: x y)
  case Nil
  then show ?case by (cases x; cases y) (simp_all add: isa_buses_def io_apics_def map_filter_simps at_most_one_def)
next
  case (Cons e es)
  show ?case
  proof (cases e)
    case (Bus b)
    then show ?thesis
      using Cons.IH by (simp add: find_isa_ioapic_def isa_buses_def io_apics_def map_filter_simps at_most_one_Cons assert_exec_def)
  next
    case (IoApicE a)
    then show ?thesis
      using Cons.IH by (simp add: find_isa_ioapic_def isa_buses_def io_apics_def map_filter_simps at_most_one_Cons assert_exec_def)
  qed (use Cons.IH in \<open>simp_all add: find_isa_ioapic_def isa_buses_def io_apics_def map_filter_simps\<close>)
qed

lemma find_timer_mapping_fold:
  "exec_fold (find_timer_mapping isa) es x = at_most_one x (timer_mappings isa es)"
proof (induction es arbitrary: x)
  case Nil
  then show ?case by (cases x) (simp_all add: timer_mappings_def map_filter_simps at_most_one_def)
next
  case (Cons e es)
  then show ?case
    by (cases e) (simp_all add: find_timer_mapping_def timer_mappings_def map_filter_simps at_most_one_Cons assert_exec_def)
qed

lemma find_magic_first:
  assumes "\<forall>q\<in>set before. q + 4 \<le> DIRECT_MAP_END \<and> mem_read m q 4 \<noteq> MP_MAGIC" and "holds m p bs"
    and "length bs = 16" and "take 4 bs = MP_MAGIC"
  shows "find_magic m (before @ p # after) = Val (Some (mp_pointer_table bs))"
  using assms(1)
proof (induction before)
  case Nil
  have "holds m p (take 4 bs @ drop 4 bs)" using assms(2) by simp
  then have "holds m p MP_MAGIC" unfolding holds_append assms(4) by blast
  then have "peek m p 4 = Val MP_MAGIC" by (rule peek_holds) (simp add: MP_MAGIC_def)
  moreover have "peek m p 16 = Val bs" using assms(2,3) by (intro peek_holds) simp_all
  ultimately show ?case by simp
next
  case (Cons q qs)
  then show ?case by (simp add: peek_eq)
qed

text \<open>The end of \<open>init\<close>: the I/O APIC is set up and the timer's pin is routed.\<close>

lemma route_timer:
  fixes pin :: u8
  assumes "mc_ioapic_base M = paddr2vaddr addr"
  defines "last_pin \<equiv> drop_bit 16 (mc_ioapic M REG_IOAPICVER) AND 0xff"
  shows "(case ioapic_init None addr M of (st, M) \<Rightarrow> exec_bind (use_ioapic st (\<lambda>A M.
       exec_bind (enable_irq_at A pin TIMER_IRQ M) (\<lambda>(r, M). case r of Inl _ \<Rightarrow> Panic | Inr _ \<Rightarrow> Val M)) M) (\<lambda>M. Val (st, M)))
   = (if ucast pin < last_pin
      then Val (Some \<lparr>ia_base = mc_ioapic_base M, ia_num_entries = ucast last_pin\<rparr>,
        M\<lparr>mc_ioregsel := redir_reg_high pin, mc_ioapic := (mc_ioapic M)(redir_reg_low pin := 32, redir_reg_high pin := 0)\<rparr>)
      else Panic)"
proof -
  obtain A M' where A: "ioapic_new (mc_ioapic_base M) M = (A, M')" by fastforce
  then have "A = \<lparr>ia_base = mc_ioapic_base M, ia_num_entries = ucast last_pin\<rparr>"
    by (simp add: ioapic_new_def read_ioapic_eq last_pin_def)
  then show ?thesis
    using ioapic_new_routing [OF refl A last_pin_def [THEN meta_eq_to_obj_eq], of pin 0] A assms(1)
    by (auto simp: ioapic_init_def use_ioapic_def TIMER_IRQ_def)
qed

section \<open>Properties\<close>

text \<open>
  C38. Initialisation from the MultiProcessor tables, for a pointer structure that is the first with the
  magic in the searched ranges and a table that holds its entries. The timer's pin of the I/O APIC gets
  the timer's vector when there is exactly one ISA bus, exactly one I/O APIC and exactly one mapping of
  the timer interrupt of that bus, the mapping names that I/O APIC, and its pin is below the last pin of
  the device. In every other case the kernel panics: also when the ids of the mapping and the I/O APIC
  differ, and when the pin is the last one or above. All other redirection entries keep their values.
\<close>

theorem mp_init_routes_timer:
  assumes loc: "concat (map (step_by 4) SEARCH_LOCATIONS) = before @ p # after" "\<forall>q\<in>set before. mem_read m q 4 \<noteq> MP_MAGIC"
    and ptr: "holds m p bs" "length bs = 16" "take 4 bs = MP_MAGIC"
    and cfg: "holds m (field bs 4 4) (hdr @ concat blocks)" "length hdr = 44" "field hdr 34 2 = length blocks" "\<forall>b\<in>set blocks. block_ok b"
    and dev: "\<forall>a. io_apics (map decode blocks) = [a] \<longrightarrow> mc_ioapic_base M = paddr2vaddr (ae_io_apic_address a)"
  defines "es \<equiv> map decode blocks"
  shows "mp_init m None M = (case (isa_buses es, io_apics es) of
      ([b], [a]) \<Rightarrow> (case timer_mappings b es of
        [i] \<Rightarrow> (let pin = of_nat (ie_dest_io_apic_intin i) :: u8; last_pin = drop_bit 16 (mc_ioapic M REG_IOAPICVER) AND 0xff in
          if ie_dest_io_apic_id i = ae_io_apic_id a \<and> ucast pin < last_pin
          then Val (Some \<lparr>ia_base = mc_ioapic_base M, ia_num_entries = ucast last_pin\<rparr>,
            M\<lparr>mc_ioregsel := redir_reg_high pin, mc_ioapic := (mc_ioapic M)(redir_reg_low pin := 32, redir_reg_high pin := 0)\<rparr>)
          else Panic)
      | _ \<Rightarrow> Panic)
    | _ \<Rightarrow> Panic)"
proof -
  have "q + 4 \<le> DIRECT_MAP_END" if "q \<in> set before" for q
  proof -
    have "q \<in> set (concat (map (step_by 4) SEARCH_LOCATIONS))" using that loc(1) by simp
    then show ?thesis by (auto simp: SEARCH_LOCATIONS_def step_by_def direct_map_bound)
  qed
  then have found: "find_mpfp_table m = Val (Some (mp_pointer_table bs))"
    unfolding find_mpfp_table_def loc(1) using loc(2) ptr by (intro find_magic_first) auto
  have "holds m (field bs 4 4) hdr" and h: "holds m (field bs 4 4 + 44) (concat blocks)" using cfg(1,2) by (simp_all add: holds_append)
  then have "peek m (field bs 4 4) 44 = Val hdr" using cfg(2) by (intro peek_holds) simp_all
  then obtain it where it: "mp_iter_new m (mp_pointer_table bs) = Val it" "it_entry_addr it = field bs 4 4 + 44"
    "mc_entry_count (it_mp_config it) = it_index it + length blocks"
    using cfg(3) by (simp add: mp_iter_new_def mp_pointer_table_def mp_config_table_def)
  have loops: "mp_for m f it s = exec_fold f es s" for f :: "MpTableEntry \<Rightarrow> 's \<Rightarrow> 's exec" and s
    unfolding es_def using h it cfg(4) by (intro mp_for_blocks) simp_all
  have log: "exec_fold (\<lambda>_ s. Val s) xs () = Val ()" for xs :: "MpTableEntry list" by (induction xs) simp_all
  show ?thesis
    unfolding mp_init_def found it(1) exec_bind.simps option.case loops log find_isa_ioapic_fold find_timer_mapping_fold
    using dev route_timer [of M] unfolding es_def [symmetric]
    by (auto simp: at_most_one_def assert_exec_def Let_def split: list.splits)
qed

definition example_blocks :: "u8 list list" where
  "example_blocks = [[1, 0, 0x49, 0x53, 0x41, 0x20, 0x20, 0x20], [2, 0, 17, 1, 0, 0, 0xc0, 0xfe], [3, 0, 0, 0, 0, 0, 0, 2]]"

definition example_mp :: memory where
  "example_mp = mem_write (mem_write (\<lambda>_. 0) 0x80000 (MP_MAGIC @ nat_le 4 0x9000 @ replicate 8 0))
     0x9000 ((replicate 34 0 @ [3] @ replicate 9 0) @ concat example_blocks)"

lemma example_blocks_entries:
  "isa_buses (map decode example_blocks) = [bus_entry (example_blocks ! 0)]"
  "io_apics (map decode example_blocks) = [io_apic_entry (example_blocks ! Suc 0)]"
  "ae_io_apic_address (io_apic_entry (example_blocks ! Suc 0)) = 0xfec00000" "ae_io_apic_id (io_apic_entry (example_blocks ! Suc 0)) = 0"
  "timer_mappings (bus_entry (example_blocks ! 0)) (map decode example_blocks) = [io_interrupt_assignment_entry (example_blocks ! 2)]"
  "ie_dest_io_apic_intin (io_interrupt_assignment_entry (example_blocks ! 2)) = 2"
  "ie_dest_io_apic_id (io_interrupt_assignment_entry (example_blocks ! 2)) = 0"
  by (simp_all add: example_blocks_def decode_def isa_buses_def io_apics_def timer_mappings_def map_filter_simps bus_entry_def
    io_apic_entry_def io_interrupt_assignment_entry_def field_def ISA_BUS_def)

lemma step_by_first: "0 < n \<Longrightarrow> a < b \<Longrightarrow> \<exists>rest. step_by n (a, b) = a # rest"
proof -
  assume "0 < n" "a < b"
  then have "n \<le> b - a + n - 1" by simp
  then have "0 < (b - a + n - 1) div n" using \<open>0 < n\<close> by (simp add: div_greater_zero_iff)
  then show ?thesis unfolding step_by_def by (simp add: upt_conv_Cons)
qed

theorem mp_init_routes_timer_witness:
  "\<exists>A M'. mp_init example_mp None example_machine = Val (Some A, M') \<and> mc_ioapic M' 0x14 = 32 \<and> mc_ioapic M' 0x15 = 0"
proof -
  let ?ptr = "MP_MAGIC @ nat_le 4 0x9000 @ replicate 8 0" and ?hdr = "replicate 34 0 @ [3] @ replicate 9 (0::u8)"
  obtain rest where "step_by 4 (0x80000, 0x81000) = 0x80000 # rest" using step_by_first [of 4 "0x80000" "0x81000"] by auto
  then obtain after where loc: "concat (map (step_by 4) SEARCH_LOCATIONS) = [] @ 0x80000 # after"
    by (simp add: SEARCH_LOCATIONS_def)
  have len: "length ?ptr = 16" "length (?hdr @ concat example_blocks) = 68" by (simp_all add: MP_MAGIC_def example_blocks_def)
  have ptr: "holds example_mp 0x80000 ?ptr"
    unfolding example_mp_def using len by (intro holds_write_other holds_write) (simp_all add: direct_map_bound)
  have "holds example_mp 0x9000 (?hdr @ concat example_blocks)"
    unfolding example_mp_def append_assoc using len(2) by (intro holds_write) (simp add: direct_map_bound)
  moreover have "field ?ptr 4 4 = 0x9000" by (simp add: field_def MP_MAGIC_def le_nat_nat_le)
  ultimately have cfg: "holds example_mp (field ?ptr 4 4) (?hdr @ concat example_blocks)" by simp
  have "take 4 ?ptr = MP_MAGIC" by (simp add: MP_MAGIC_def)
  moreover have "field ?hdr 34 2 = length example_blocks" by (simp add: field_def example_blocks_def)
  moreover have "\<forall>b\<in>set example_blocks. block_ok b" by (simp add: example_blocks_def block_ok_def)
  moreover have "mc_ioapic_base example_machine = paddr2vaddr 0xfec00000" "mc_ioapic example_machine REG_IOAPICVER = 0x170011"
    by (simp_all add: example_machine_def REG_IOAPICVER_def)
  ultimately show ?thesis
    using mp_init_routes_timer [OF loc _ ptr len(1) _ cfg, of example_machine] len
    by (simp add: example_blocks_entries Let_def redir_reg_low_def redir_reg_high_def REDIR_TABLE_BASE_def)
qed

end
