(* ===== verification/Kernel.thy ===== *)
theory Kernel
  imports Thread VmSpace Devices
begin

text \<open>
  The kernel's objects and the scheduler: \<open>kernel/src/thread.rs\<close> (operations on threads, the current
  thread), \<open>scheduler.rs\<close>, \<open>syscall.rs\<close> and the dispatch of interrupts in \<open>arch/x64/idt.rs\<close>. The state holds
  the stores of the three kinds of reference-counted objects, the run queue, the pointer to the
  current thread (there is one processor: \<open>CpuVar::new\<close> is not implemented for others), CR3, physical
  memory, the local APIC and the devices. Every operation under a spin lock is atomic here, which the theory of the lock
  justifies. Servers run inside upcalls: \<open>up ctx arg\<close> is what the server behind an upcall does to the
  kernel and to its own state. \<open>off\<close> gives the offset of the value in each kind of object.
\<close>

record kernel =
  k_threads :: "Thread refs"
  k_spaces :: "VmSpace refs"
  k_areas :: "VmArea refs"
  k_runqueue :: "nat list"
  k_current :: "nat option"
  k_cr3 :: u64
  k_phys :: phys
  k_lapic :: LocalApic
  k_machine :: machine

type_synonym 's upcalls = "nat \<Rightarrow> UpcallArg \<Rightarrow> kernel \<times> 's \<Rightarrow> (kernel \<times> 's) exec"

section \<open>Destructors\<close>

text \<open>
  Dropping the last reference drops the fields of the object: a thread has a reference to its address
  space, an address space one to every mapped area. Pages and page tables have no destructor.
\<close>

definition drop_area :: "nat \<Rightarrow> kernel \<Rightarrow> kernel exec" where
  "drop_area p K = exec_bind (sr_drop p (k_areas K)) (\<lambda>(v, s). Val (K\<lparr>k_areas := s\<rparr>))"

definition drop_space :: "nat \<Rightarrow> kernel \<Rightarrow> kernel exec" where
  "drop_space p K = exec_bind (sr_drop p (k_spaces K)) (\<lambda>(v, s).
     let K = K\<lparr>k_spaces := s\<rparr> in case v of
       None \<Rightarrow> Val K
     | Some S \<Rightarrow> exec_fold (\<lambda>mp. drop_area (mp_area mp)) (vs_mappings S) K)"

definition drop_thread :: "nat \<Rightarrow> kernel \<Rightarrow> kernel exec" where
  "drop_thread p K = exec_bind (sr_drop p (k_threads K)) (\<lambda>(v, s).
     let K = K\<lparr>k_threads := s\<rparr> in case v of
       None \<Rightarrow> Val K
     | Some T \<Rightarrow> drop_space (th_vmspace T) K)"

definition clone_thread :: "nat \<Rightarrow> kernel \<Rightarrow> kernel exec" where
  "clone_thread p K = exec_bind (sr_clone p (k_threads K)) (\<lambda>s. Val (K\<lparr>k_threads := s\<rparr>))"

section \<open>Threads\<close>

text \<open>A value that is dropped on the way out of a failed \<open>SharedRef::new\<close> gives up its reference.\<close>

definition thread_new :: "nat option exec \<Rightarrow> nat \<Rightarrow> nat \<Rightarrow> kernel \<Rightarrow> ((ErrorCode + nat) \<times> kernel) exec" where
  "thread_new alloc vmspace upcall K =
     exec_bind (sr_new alloc (thread_value vmspace upcall) (k_threads K)) (\<lambda>(r, s). case r of
       Inl e \<Rightarrow> exec_bind (drop_space vmspace (K\<lparr>k_threads := s\<rparr>)) (\<lambda>K. Val (Inl e, K))
     | Inr p \<Rightarrow> Val (Inr p, K\<lparr>k_threads := s\<rparr>))"

definition get_thread :: "nat \<Rightarrow> kernel \<Rightarrow> Thread exec" where
  "get_thread p K = sr_deref p (k_threads K)"

definition set_value :: "nat \<Rightarrow> ('a \<Rightarrow> 'a) \<Rightarrow> 'a refs \<Rightarrow> 'a refs" where
  "set_value p f s = s(p := map_option (\<lambda>r. r\<lparr>rc_value := f (rc_value r)\<rparr>) (s p))"

definition set_mutable :: "nat \<Rightarrow> Mutable \<Rightarrow> kernel \<Rightarrow> kernel" where
  "set_mutable p m K = K\<lparr>k_threads := set_value p (\<lambda>T. T\<lparr>th_mutable := m\<rparr>) (k_threads K)\<rparr>"

definition is_runnable :: "nat \<Rightarrow> kernel \<Rightarrow> bool exec" where
  "is_runnable p K = exec_bind (get_thread p K) (\<lambda>T. Val (mt_state (th_mutable T) = Runnable))"

definition thread_vmspace :: "nat \<Rightarrow> kernel \<Rightarrow> nat exec" where
  "thread_vmspace p K = exec_bind (get_thread p K) (\<lambda>T. Val (th_vmspace T))"

definition thread_handle_syscall :: "'s upcalls \<Rightarrow> nat \<Rightarrow> kernel \<times> 's \<Rightarrow> (kernel \<times> 's) exec" where
  "thread_handle_syscall up p = (\<lambda>(K, \<sigma>).
     exec_bind (get_thread p K) (\<lambda>T.
     exec_bind (syscall_begin (th_mutable T)) (\<lambda>(go, m).
       let K = set_mutable p m K in
       if \<not> go then Val (K, \<sigma>)
       else exec_bind (up (th_upcall T) UpSyscall (K, \<sigma>)) (\<lambda>(K, \<sigma>).
         exec_bind (get_thread p K) (\<lambda>T.
         exec_bind (syscall_end (th_mutable T)) (\<lambda>(terminate_now, m).
           let K = set_mutable p m K in
           if terminate_now then up (th_upcall T) UpTerminated (K, \<sigma>) else Val (K, \<sigma>)))))))"

definition thread_terminate :: "'s upcalls \<Rightarrow> nat \<Rightarrow> kernel \<times> 's \<Rightarrow> ((ErrorCode + unit) \<times> kernel \<times> 's) exec" where
  "thread_terminate up p = (\<lambda>(K, \<sigma>).
     exec_bind (get_thread p K) (\<lambda>T. case terminate_section (th_mutable T) of
       (Inl e, m) \<Rightarrow> Val (Inl e, K, \<sigma>)
     | (Inr terminate_now, m) \<Rightarrow>
         let K = set_mutable p m K in
         if terminate_now then exec_bind (up (th_upcall T) UpTerminated (K, \<sigma>)) (\<lambda>w. Val (Inr (), w))
         else Val (Inr (), K, \<sigma>)))"

definition thread_read_context :: "nat \<Rightarrow> ContextKind \<Rightarrow> ContextData \<Rightarrow> kernel \<Rightarrow> (ErrorCode + ContextData) exec" where
  "thread_read_context p kind regs K = exec_bind (get_thread p K) (\<lambda>T.
     if mt_state (th_mutable T) \<noteq> Blocked then Val (Inl INVALID_STATE)
     else Val (Inr (arch_read_context (th_arch T) kind regs)))"

definition thread_write_context :: "nat \<Rightarrow> ContextKind \<Rightarrow> ContextData \<Rightarrow> kernel \<Rightarrow> ((ErrorCode + unit) \<times> kernel) exec" where
  "thread_write_context p kind regs K = exec_bind (get_thread p K) (\<lambda>T.
     if mt_state (th_mutable T) \<noteq> Blocked then Val (Inl INVALID_STATE, K)
     else Val (Inr (), K\<lparr>k_threads := set_value p (\<lambda>T. T\<lparr>th_arch := arch_write_context (th_arch T) kind regs\<rparr>) (k_threads K)\<rparr>))"

section \<open>Scheduler\<close>

text \<open>
  The outcome of \<open>VecDeque::try_reserve\<close> is the argument \<open>reserve\<close>: there is room, the capacity
  overflows, or the kernel's global allocator panics.
\<close>

definition scheduler_pop :: "kernel \<Rightarrow> nat option \<times> kernel" where
  "scheduler_pop K = (case k_runqueue K of [] \<Rightarrow> (None, K) | t # q \<Rightarrow> (Some t, K\<lparr>k_runqueue := q\<rparr>))"

definition push_back :: "bool exec \<Rightarrow> nat \<Rightarrow> kernel \<Rightarrow> ((ErrorCode + unit) \<times> kernel) exec" where
  "push_back reserve t K = exec_bind reserve (\<lambda>reserved.
     if \<not> reserved then exec_bind (drop_thread t K) (\<lambda>K. Val (Inl OUT_OF_MEMORY, K))
     else Val (Inr (), K\<lparr>k_runqueue := k_runqueue K @ [t]\<rparr>))"

definition push_front :: "bool exec \<Rightarrow> nat \<Rightarrow> kernel \<Rightarrow> ((ErrorCode + unit) \<times> kernel) exec" where
  "push_front reserve t K = exec_bind reserve (\<lambda>reserved.
     if \<not> reserved then exec_bind (drop_thread t K) (\<lambda>K. Val (Inl OUT_OF_MEMORY, K))
     else Val (Inr (), K\<lparr>k_runqueue := t # k_runqueue K\<rparr>))"

definition thread_unblock :: "bool exec \<Rightarrow> nat \<Rightarrow> kernel \<Rightarrow> ((ErrorCode + unit) \<times> kernel) exec" where
  "thread_unblock reserve p K = exec_bind (get_thread p K) (\<lambda>T.
     if mt_state (th_mutable T) \<noteq> Blocked then Val (Inl INVALID_STATE, K)
     else exec_bind (clone_thread p K) (\<lambda>K.
       exec_try (push_back reserve p K) (\<lambda>_ K.
         Val (Inr (), set_mutable p ((th_mutable T)\<lparr>mt_state := Runnable\<rparr>) K))))"

section \<open>The current thread\<close>

definition current_clear :: "nat \<Rightarrow> kernel \<Rightarrow> kernel exec" where
  "current_clear off K = (let old = k_current K; K = K\<lparr>k_current := None\<rparr> in
     case old of None \<Rightarrow> Val K | Some ptr \<Rightarrow> drop_thread (from_raw off ptr) K)"

definition current_thread :: "nat \<Rightarrow> kernel \<Rightarrow> (nat option \<times> kernel) exec" where
  "current_thread off K = (case k_current K of
     None \<Rightarrow> Val (None, K)
   | Some ptr \<Rightarrow> let temp = from_raw off ptr in exec_bind (clone_thread temp K) (\<lambda>K. Val (Some temp, K)))"

definition current_update :: "nat \<Rightarrow> nat \<Rightarrow> kernel \<Rightarrow> kernel exec" where
  "current_update off next_thread K = (let old = k_current K; K = K\<lparr>k_current := Some (into_raw off next_thread)\<rparr> in
     case old of None \<Rightarrow> Val K | Some ptr \<Rightarrow> drop_thread (from_raw off ptr) K)"

text \<open>Entering a thread leaves the kernel; the state is the one in which \<open>arch::Thread::enter\<close> is reached.\<close>

definition current_enter :: "nat \<Rightarrow> nat \<Rightarrow> kernel \<Rightarrow> kernel exec" where
  "current_enter off new_thread K =
     exec_bind (thread_vmspace new_thread K) (\<lambda>vs.
     exec_bind (sr_deref vs (k_spaces K)) (\<lambda>S.
     exec_bind (current_update off new_thread (K\<lparr>k_cr3 := fst (vmspace_switch S (k_cr3 K))\<rparr>)) (\<lambda>K.
       assert_exec (k_current K \<noteq> None) (Val K))))"

text \<open>\<open>arch::idle\<close> is not implemented: \<open>todo!()\<close>.\<close>

definition arch_idle :: "kernel \<Rightarrow> 'a exec" where
  "arch_idle K = Panic"

section \<open>Leaving the kernel\<close>

declare exec_bind_cong [fundef_cong]

lemma exec_fold_keeps:
  "exec_fold f xs s = Val t \<Longrightarrow> (\<And>x u v. f x u = Val v \<Longrightarrow> P v = P u) \<Longrightarrow> P t = P s"
  by (induction xs arbitrary: s) (auto simp: exec_bind_Val_iff)

lemma drop_area_keeps:
  assumes "drop_area p K = Val K'"
  shows "k_runqueue K' = k_runqueue K" and "k_current K' = k_current K" and "k_cr3 K' = k_cr3 K" and "k_phys K' = k_phys K"
    and "k_threads K' = k_threads K" and "k_spaces K' = k_spaces K"
  using assms by (auto simp: drop_area_def exec_bind_Val_iff)

lemma drop_areas_keep:
  assumes "exec_fold (\<lambda>mp. drop_area (mp_area mp)) mps K = Val K'"
  shows "k_runqueue K' = k_runqueue K" and "k_current K' = k_current K" and "k_cr3 K' = k_cr3 K" and "k_phys K' = k_phys K"
    and "k_threads K' = k_threads K" and "k_spaces K' = k_spaces K"
  using exec_fold_keeps [OF assms] drop_area_keeps by metis+

lemma drop_space_keeps:
  assumes "drop_space p K = Val K'"
  shows "k_runqueue K' = k_runqueue K" and "k_current K' = k_current K" and "k_cr3 K' = k_cr3 K" and "k_phys K' = k_phys K"
    and "k_threads K' = k_threads K"
  using assms drop_areas_keep by (fastforce simp: drop_space_def exec_bind_Val_iff Let_def split: option.splits)+

lemma drop_thread_keeps:
  assumes "drop_thread p K = Val K'"
  shows "k_runqueue K' = k_runqueue K" and "k_current K' = k_current K" and "k_cr3 K' = k_cr3 K" and "k_phys K' = k_phys K"
  using assms drop_space_keeps by (fastforce simp: drop_thread_def exec_bind_Val_iff Let_def split: option.splits)+

text \<open>The loop of \<open>return_to_user\<close>: the next thread that is still runnable.\<close>

function pick_next :: "nat \<Rightarrow> kernel \<Rightarrow> (nat \<times> kernel) exec" where
  "pick_next off K = (case scheduler_pop K of
     (None, K) \<Rightarrow> exec_bind (current_clear off K) arch_idle
   | (Some t, K) \<Rightarrow> exec_bind (is_runnable t K) (\<lambda>r.
       if r then Val (t, K) else exec_bind (drop_thread t K) (pick_next off)))"
  by pat_completeness auto

termination
  by (relation "measure (\<lambda>(off, K). length (k_runqueue K))")
     (auto simp: scheduler_pop_def drop_thread_keeps(1) split: list.splits)

declare pick_next.simps [simp del]

definition return_to_user :: "nat \<Rightarrow> bool exec \<Rightarrow> kernel \<Rightarrow> kernel exec" where
  "return_to_user off reserve K =
     exec_bind (current_thread off K) (\<lambda>(cur, K).
     exec_bind (case cur of
         None \<Rightarrow> Val K
       | Some t \<Rightarrow> exec_bind (is_runnable t K) (\<lambda>r.
           if r then exec_bind (push_front reserve t K) (\<lambda>(res, K). case res of Inl _ \<Rightarrow> Panic | Inr _ \<Rightarrow> Val K)
           else drop_thread t K)) (\<lambda>K.
     exec_bind (pick_next off K) (\<lambda>(next_thread, K). current_enter off next_thread K)))"

section \<open>Entering the kernel\<close>

text \<open>\<open>syscall::handle_syscall\<close>, reached from the entry path of the \<open>syscall\<close> instruction.\<close>

definition handle_syscall :: "nat \<Rightarrow> bool exec \<Rightarrow> 's upcalls \<Rightarrow> kernel \<times> 's \<Rightarrow> (kernel \<times> 's) exec" where
  "handle_syscall off reserve up = (\<lambda>(K, \<sigma>).
     exec_bind (current_thread off K) (\<lambda>(cur, K). case cur of
       None \<Rightarrow> Panic
     | Some t \<Rightarrow>
         exec_bind (current_clear off K) (\<lambda>K.
         exec_bind (thread_handle_syscall up t (K, \<sigma>)) (\<lambda>(K, \<sigma>).
         exec_bind (drop_thread t K) (\<lambda>K.
         exec_bind (return_to_user off reserve K) (\<lambda>K. Val (K, \<sigma>)))))))"

text \<open>
  \<open>idt::handle_interrupt\<close>, reached from \<open>interrupt_entry\<close>. Page faults and interrupts other than the
  timer are only logged.
\<close>

definition handle_interrupt :: "nat \<Rightarrow> bool exec \<Rightarrow> nat \<Rightarrow> kernel \<Rightarrow> kernel exec" where
  "handle_interrupt off reserve vector K =
     exec_bind
       (if vector = 14 then Val K
        else if IRQ_VECTOR_BASE \<le> vector then
          let irq = vector - IRQ_VECTOR_BASE in
          Val (if irq = unat TIMER_IRQ then K\<lparr>k_machine := timer_handle_interrupt (k_lapic K) (k_machine K)\<rparr> else K)
        else Panic)
       (return_to_user off reserve)"

section \<open>References\<close>

text \<open>The references that the objects of a store hold to objects of another kind.\<close>

definition held :: "('a \<Rightarrow> nat multiset) \<Rightarrow> (nat \<rightharpoonup> 'a) \<Rightarrow> nat multiset" where
  "held g obj = (\<Sum>p\<in>dom obj. g (the (obj p)))"

lemma held_remove: "finite (dom obj) \<Longrightarrow> obj p = Some v \<Longrightarrow> held g obj = g v + held g (obj(p := None))"
proof -
  assume f: "finite (dom obj)" and p: "obj p = Some v"
  have "held g obj = g (the (obj p)) + (\<Sum>q\<in>dom obj - {p}. g (the (obj q)))"
    unfolding held_def using f p by (intro sum.remove) auto
  also have "(\<Sum>q\<in>dom obj - {p}. g (the (obj q))) = held g (obj(p := None))"
    unfolding held_def by (intro sum.cong) auto
  finally show ?thesis using p by simp
qed

lemma held_update: "obj p = Some v \<Longrightarrow> g w = g v \<Longrightarrow> held g (obj(p \<mapsto> w)) = held g obj"
  unfolding held_def by (intro sum.cong) auto

lemma held_insert: "finite (dom obj) \<Longrightarrow> obj p = None \<Longrightarrow> held g (obj(p \<mapsto> v)) = g v + held g obj"
  using held_remove [of "obj(p \<mapsto> v)" p v g] by (simp add: fun_upd_idem)

definition current_refs :: "nat \<Rightarrow> kernel \<Rightarrow> nat multiset" where
  "current_refs off K = (case k_current K of None \<Rightarrow> {#} | Some ptr \<Rightarrow> {#from_raw off ptr#})"

abbreviation threads :: "kernel \<Rightarrow> nat \<rightharpoonup> Thread" where
  "threads K \<equiv> refs_object (k_threads K)"

abbreviation spaces :: "kernel \<Rightarrow> nat \<rightharpoonup> VmSpace" where
  "spaces K \<equiv> refs_object (k_spaces K)"

abbreviation space_areas :: "VmSpace \<Rightarrow> nat multiset" where
  "space_areas S \<equiv> mset (map mp_area (vs_mappings S))"

text \<open>
  Every reference is accounted for: the counters of the objects are exactly the references in the run
  queue, the current-thread pointer, other objects, and those that servers and running kernel code
  hold (\<open>Rt\<close>, \<open>Rs\<close>, \<open>Ra\<close>).
\<close>

definition refs_inv :: "nat \<Rightarrow> kernel \<Rightarrow> nat multiset \<Rightarrow> nat multiset \<Rightarrow> nat multiset \<Rightarrow> bool" where
  "refs_inv off K Rt Rs Ra \<longleftrightarrow>
     refs_owned (k_threads K) (mset (k_runqueue K) + current_refs off K + Rt)
     \<and> refs_owned (k_spaces K) (held (\<lambda>T. {#th_vmspace T#}) (threads K) + Rs)
     \<and> refs_owned (k_areas K) (held space_areas (spaces K) + Ra)"

lemma refs_owned_finite: "refs_owned s R \<Longrightarrow> finite (dom (refs_object s))"
  by (simp add: refs_owned_def refs_object_def dom_def)

lemma drop_area_owned:
  assumes "refs_inv off K Rt Rs (add_mset p Ra)"
  shows "\<exists>K'. drop_area p K = Val K' \<and> refs_inv off K' Rt Rs Ra"
proof -
  obtain v s where "sr_drop p (k_areas K) = Val (v, s)" "refs_owned s (held space_areas (spaces K) + Ra)"
    using assms refs.drop_law [of "k_areas K" p "held space_areas (spaces K) + Ra"] by (auto simp: refs_inv_def)
  then show ?thesis using assms by (simp add: drop_area_def refs_inv_def current_refs_def)
qed

lemma drop_areas_owned:
  "refs_inv off K Rt Rs (mset (map mp_area mps) + Ra) \<Longrightarrow>
     \<exists>K'. exec_fold (\<lambda>mp. drop_area (mp_area mp)) mps K = Val K' \<and> refs_inv off K' Rt Rs Ra"
proof (induction mps arbitrary: K)
  case Nil
  then show ?case by simp
next
  case (Cons mp mps)
  then obtain K1 where "drop_area (mp_area mp) K = Val K1" "refs_inv off K1 Rt Rs (mset (map mp_area mps) + Ra)"
    using drop_area_owned [of off K Rt Rs "mp_area mp" "mset (map mp_area mps) + Ra"] by auto
  with Cons.IH [of K1] show ?case by auto
qed

lemma drop_space_owned:
  assumes "refs_inv off K Rt (add_mset p Rs) Ra"
  shows "\<exists>K'. drop_space p K = Val K' \<and> refs_inv off K' Rt Rs Ra"
proof -
  let ?R = "held (\<lambda>T. {#th_vmspace T#}) (threads K) + Rs"
  have own: "refs_owned (k_spaces K) (add_mset p ?R)" using assms by (simp add: refs_inv_def)
  obtain s where s: "sr_drop p (k_spaces K) = Val (if p \<in># ?R then None else spaces K p, s)" "refs_owned s ?R"
    "refs_object s = (if p \<in># ?R then spaces K else (spaces K)(p := None))"
    using refs.drop_law [OF own] by blast
  show ?thesis
  proof (cases "p \<in># ?R")
    case True
    then show ?thesis using s assms by (simp add: drop_space_def refs_inv_def current_refs_def)
  next
    case False
    obtain S where S: "spaces K p = Some S" using refs.owned_object [OF own, of p] by auto
    have "held space_areas (spaces K) = space_areas S + held space_areas (refs_object s)"
      using held_remove [where g = space_areas, OF refs_owned_finite [OF own] S] s(3) False by simp
    then have "refs_inv off (K\<lparr>k_spaces := s\<rparr>) Rt Rs (space_areas S + Ra)"
      using s assms by (simp add: refs_inv_def current_refs_def ac_simps)
    from drop_areas_owned [OF this] show ?thesis using s(1) False S by (simp add: drop_space_def)
  qed
qed

lemma drop_thread_owned:
  assumes "refs_inv off K (add_mset p Rt) Rs Ra"
  shows "\<exists>K'. drop_thread p K = Val K' \<and> refs_inv off K' Rt Rs Ra
    \<and> (\<forall>q. threads K' q = (if q \<in># mset (k_runqueue K) + current_refs off K + Rt then threads K q else None))"
proof -
  let ?R = "mset (k_runqueue K) + current_refs off K + Rt"
  have own: "refs_owned (k_threads K) (add_mset p ?R)" using assms by (simp add: refs_inv_def)
  obtain s where s: "sr_drop p (k_threads K) = Val (if p \<in># ?R then None else threads K p, s)" "refs_owned s ?R"
    "refs_object s = (if p \<in># ?R then threads K else (threads K)(p := None))"
    using refs.drop_law [OF own] by blast
  have live: "refs_object s q = (if q \<in># ?R then threads K q else None)" for q
    using refs.owned_object [OF s(2), of q] s(3) by (auto split: if_splits)
  show ?thesis
  proof (cases "p \<in># ?R")
    case True
    then show ?thesis using s assms live by (simp add: drop_thread_def refs_inv_def current_refs_def)
  next
    case False
    obtain T where T: "threads K p = Some T" using refs.owned_object [OF own, of p] by auto
    have "held (\<lambda>T. {#th_vmspace T#}) (threads K) = {#th_vmspace T#} + held (\<lambda>T. {#th_vmspace T#}) (refs_object s)"
      using held_remove [where g = "\<lambda>T. {#th_vmspace T#}", OF refs_owned_finite [OF own] T] s(3) False by simp
    then have "refs_inv off (K\<lparr>k_threads := s\<rparr>) Rt (add_mset (th_vmspace T) Rs) Ra"
      using s assms by (simp add: refs_inv_def current_refs_def)
    from drop_space_owned [OF this] obtain K' where K': "drop_space (th_vmspace T) (K\<lparr>k_threads := s\<rparr>) = Val K'"
      "refs_inv off K' Rt Rs Ra" by blast
    then show ?thesis using s(1) False T live drop_space_keeps(5) [OF K'(1)] by (simp add: drop_thread_def)
  qed
qed

lemma clone_thread_owned:
  assumes "refs_inv off K Rt Rs Ra" and "p \<in># mset (k_runqueue K) + current_refs off K + Rt"
    and "size (mset (k_runqueue K) + current_refs off K + Rt) < USIZE_MAX"
  shows "\<exists>s. clone_thread p K = Val (K\<lparr>k_threads := s\<rparr>) \<and> refs_inv off (K\<lparr>k_threads := s\<rparr>) (add_mset p Rt) Rs Ra
    \<and> refs_object s = threads K"
proof -
  obtain s where "sr_clone p (k_threads K) = Val s" "refs_owned s (add_mset p (mset (k_runqueue K) + current_refs off K + Rt))"
    "refs_object s = threads K"
    using refs.clone_law assms unfolding refs_inv_def by metis
  then show ?thesis using assms(1) by (intro exI [of _ s]) (simp add: clone_thread_def refs_inv_def current_refs_def)
qed

section \<open>Scheduling\<close>

definition runnable :: "kernel \<Rightarrow> nat \<Rightarrow> bool" where
  "runnable K t \<longleftrightarrow> (\<exists>T. threads K t = Some T \<and> mt_state (th_mutable T) = Runnable)"

text \<open>In how many places a thread waits to run or runs, by its state.\<close>

fun places_ok :: "State \<Rightarrow> nat \<Rightarrow> bool" where
  "places_ok Runnable n \<longleftrightarrow> n = 1"
| "places_ok Blocked n \<longleftrightarrow> n = 0"
| "places_ok Terminated n \<longleftrightarrow> n \<le> 1"

definition sched_inv :: "nat \<Rightarrow> kernel \<Rightarrow> bool" where
  "sched_inv off K \<longleftrightarrow> (\<forall>t T. threads K t = Some T \<longrightarrow>
     places_ok (mt_state (th_mutable T)) (count (mset (k_runqueue K) + current_refs off K) t))"

lemma get_thread_eq: "get_thread p K = (case threads K p of None \<Rightarrow> Undef | Some T \<Rightarrow> Val T)"
  by (cases "k_threads K p") (simp_all add: get_thread_def sr_deref_def sr_inner_def refs_object_def)

lemma is_runnable_eq: "threads K t \<noteq> None \<Longrightarrow> is_runnable t K = Val (runnable K t)"
  by (auto simp: is_runnable_def get_thread_eq runnable_def)

lemma refs_inv_live:
  "refs_inv off K Rt Rs Ra \<Longrightarrow> threads K t \<noteq> None \<longleftrightarrow> t \<in># mset (k_runqueue K) + current_refs off K + Rt"
  unfolding refs_inv_def using refs.owned_object by blast

text \<open>Only what is still referenced is left of the threads.\<close>

definition keeps_threads :: "kernel \<Rightarrow> kernel \<Rightarrow> nat multiset \<Rightarrow> bool" where
  "keeps_threads K K' R \<longleftrightarrow> (\<forall>q. threads K' q = (if q \<in># R then threads K q else None))"

lemma keeps_threads_runnable: "keeps_threads K K' R \<Longrightarrow> t \<in># R \<Longrightarrow> runnable K' t = runnable K t"
  by (simp add: keeps_threads_def runnable_def)

lemma keeps_threads_trans: "keeps_threads K K1 R \<Longrightarrow> keeps_threads K1 K2 R' \<Longrightarrow> set_mset R' \<subseteq> set_mset R \<Longrightarrow> keeps_threads K K2 R'"
  by (auto simp: keeps_threads_def)

lemma keeps_threads_refl:
  "refs_inv off K' Rt Rs Ra \<Longrightarrow> threads K' = threads K \<Longrightarrow> keeps_threads K K' (mset (k_runqueue K') + current_refs off K' + Rt)"
  unfolding keeps_threads_def using refs_inv_live by metis

lemma pick_next_spec:
  assumes "refs_inv off K Rt Rs Ra" and "dropWhile (\<lambda>t. \<not> runnable K t) (k_runqueue K) = t # q"
  shows "\<exists>K'. pick_next off K = Val (t, K') \<and> refs_inv off K' (add_mset t Rt) Rs Ra \<and> k_runqueue K' = q
    \<and> k_current K' = k_current K \<and> k_cr3 K' = k_cr3 K \<and> keeps_threads K K' (mset q + current_refs off K + add_mset t Rt)"
  using assms
proof (induction "length (k_runqueue K)" arbitrary: K)
  case 0
  then show ?case by simp
next
  case (Suc n)
  obtain u us where rq: "k_runqueue K = u # us" using Suc.hyps(2) by (cases "k_runqueue K") auto
  let ?K = "K\<lparr>k_runqueue := us\<rparr>"
  have inv: "refs_inv off ?K (add_mset u Rt) Rs Ra" using Suc.prems(1) by (simp add: refs_inv_def current_refs_def rq)
  have live: "threads K u \<noteq> None" using refs_inv_live [OF Suc.prems(1)] rq by simp
  have run: "is_runnable u ?K = Val (runnable K u)" using is_runnable_eq [of ?K u] live by (simp add: runnable_def)
  show ?case
  proof (cases "runnable K u")
    case True
    then have t: "t = u" "q = us" using Suc.prems(2) rq by simp_all
    have "keeps_threads K ?K (mset us + current_refs off K + add_mset u Rt)"
      using keeps_threads_refl [OF inv, of K] by (simp add: current_refs_def)
    then show ?thesis using True run inv t by (subst pick_next.simps) (simp add: scheduler_pop_def rq)
  next
    case False
    obtain K1 where K1: "drop_thread u ?K = Val K1" "refs_inv off K1 Rt Rs Ra" "keeps_threads K K1 (mset us + current_refs off K + Rt)"
      using drop_thread_owned [OF inv] by (auto simp: keeps_threads_def current_refs_def)
    note keep = drop_thread_keeps [OF K1(1)]
    have same: "runnable K1 v = runnable K v" if "v \<in> set us" for v
      using keeps_threads_runnable [OF K1(3), of v] that by simp
    have dw: "dropWhile (\<lambda>t. \<not> runnable K1 t) us = t # q"
      using Suc.prems(2) False rq same by (simp cong: dropWhile_cong)
    obtain K' where K': "pick_next off K1 = Val (t, K')" "refs_inv off K' (add_mset t Rt) Rs Ra" "k_runqueue K' = q"
      "k_current K' = k_current K1" "k_cr3 K' = k_cr3 K1" "keeps_threads K1 K' (mset q + current_refs off K1 + add_mset t Rt)"
      using Suc.hyps(1) [of K1] Suc.hyps(2) K1(2) dw keep(1) rq by auto
    have "set us = set (takeWhile (\<lambda>t. \<not> runnable K1 t) us) \<union> set (t # q)" by (metis dw set_append takeWhile_dropWhile_id)
    then have "keeps_threads K K' (mset q + current_refs off K + add_mset t Rt)"
      using keep(2) by (intro keeps_threads_trans [OF K1(3)]) (use K'(6) in \<open>auto simp: current_refs_def\<close>)
    moreover have "pick_next off K = pick_next off K1"
      using run False K1(1) by (subst pick_next.simps) (simp add: scheduler_pop_def rq)
    ultimately show ?thesis using K' keep by simp
  qed
qed

lemma pick_next_idle:
  assumes "refs_inv off K Rt Rs Ra" and "\<forall>t\<in>set (k_runqueue K). \<not> runnable K t"
  shows "pick_next off K = Panic"
  using assms
proof (induction "length (k_runqueue K)" arbitrary: K)
  case 0
  then have rq: "k_runqueue K = []" by simp
  have "\<exists>K'. current_clear off K = Val K'"
  proof (cases "k_current K")
    case (Some ptr)
    have "refs_inv off (K\<lparr>k_current := None\<rparr>) (add_mset (from_raw off ptr) Rt) Rs Ra"
      using "0.prems"(1) Some by (simp add: refs_inv_def current_refs_def rq)
    then show ?thesis using drop_thread_owned Some by (fastforce simp: current_clear_def)
  qed (simp add: current_clear_def)
  then show ?case by (subst pick_next.simps) (auto simp: scheduler_pop_def rq arch_idle_def)
next
  case (Suc n)
  obtain u us where rq: "k_runqueue K = u # us" using Suc.hyps(2) by (cases "k_runqueue K") auto
  let ?K = "K\<lparr>k_runqueue := us\<rparr>"
  have inv: "refs_inv off ?K (add_mset u Rt) Rs Ra" using Suc.prems(1) by (simp add: refs_inv_def current_refs_def rq)
  have live: "threads K u \<noteq> None" using refs_inv_live [OF Suc.prems(1)] rq by simp
  have run: "is_runnable u ?K = Val False"
    using is_runnable_eq [of ?K u] live Suc.prems(2) rq by (simp add: runnable_def)
  obtain K1 where K1: "drop_thread u ?K = Val K1" "refs_inv off K1 Rt Rs Ra" "keeps_threads K K1 (mset us + current_refs off K + Rt)"
    using drop_thread_owned [OF inv] by (auto simp: keeps_threads_def current_refs_def)
  have "pick_next off K1 = Panic"
    using Suc.hyps Suc.prems(2) K1(2) keeps_threads_runnable [OF K1(3)] drop_thread_keeps(1) [OF K1(1)] rq
    by (intro Suc.hyps(1)) auto
  then show ?case using run K1(1) by (subst pick_next.simps) (simp add: scheduler_pop_def rq)
qed

lemma thread_space_live: "refs_inv off K Rt Rs Ra \<Longrightarrow> threads K t = Some T \<Longrightarrow> \<exists>S. spaces K (th_vmspace T) = Some S"
proof -
  assume inv: "refs_inv off K Rt Rs Ra" and T: "threads K t = Some T"
  have own: "refs_owned (k_threads K) (mset (k_runqueue K) + current_refs off K + Rt)"
    "refs_owned (k_spaces K) (held (\<lambda>T. {#th_vmspace T#}) (threads K) + Rs)" using inv by (simp_all add: refs_inv_def)
  have "th_vmspace T \<in># held (\<lambda>T. {#th_vmspace T#}) (threads K)"
    using held_remove [where g = "\<lambda>T. {#th_vmspace T#}", OF refs_owned_finite [OF own(1)] T] by simp
  then show ?thesis using refs.owned_object [OF own(2), of "th_vmspace T"] by auto
qed

lemma sr_drop_object: "sr_drop p s = Val (v, s') \<Longrightarrow> refs_object s' q = Some x \<Longrightarrow> refs_object s q = Some x"
  by (auto simp: sr_drop_def sr_inner_def exec_bind_Val_iff assert_exec_def refs_object_def Let_def split: if_splits option.splits)

lemma drop_thread_spaces: "drop_thread p K = Val K' \<Longrightarrow> spaces K' q = Some S \<Longrightarrow> spaces K q = Some S"
  using sr_drop_object drop_areas_keep(6)
  by (fastforce simp: drop_thread_def drop_space_def exec_bind_Val_iff Let_def split: option.splits)

lemma current_enter_spec:
  assumes "refs_inv off K (add_mset t Rt) Rs Ra" and T: "threads K t = Some T"
  shows "\<exists>S K'. spaces K' (th_vmspace T) = Some S \<and> current_enter off t K = Val K' \<and> refs_inv off K' Rt Rs Ra
    \<and> k_current K' = Some (into_raw off t) \<and> k_cr3 K' = avs_cr3 (vs_arch S) \<and> k_runqueue K' = k_runqueue K
    \<and> keeps_threads K K' (mset (k_runqueue K) + {#t#} + Rt)"
proof -
  obtain S where S: "spaces K (th_vmspace T) = Some S" using thread_space_live [OF assms] by blast
  let ?K = "K\<lparr>k_cr3 := avs_cr3 (vs_arch S), k_current := Some (into_raw off t)\<rparr>"
  let ?old = "current_refs off K"
  have sp: "sr_deref (th_vmspace T) (k_spaces K) = Val S"
    using S by (auto simp: sr_deref_def sr_inner_def refs_object_def)
  have cr3: "fst (vmspace_switch S c) = avs_cr3 (vs_arch S)" for c by (simp add: vmspace_switch_def arch_switch_def)
  have inv: "refs_inv off ?K (?old + Rt) Rs Ra"
    using assms(1) by (simp add: refs_inv_def current_refs_def ac_simps)
  have "\<exists>K'. (case k_current K of None \<Rightarrow> Val ?K | Some ptr \<Rightarrow> drop_thread (from_raw off ptr) ?K) = Val K'
      \<and> refs_inv off K' Rt Rs Ra \<and> keeps_threads K K' (mset (k_runqueue K) + {#t#} + Rt)
      \<and> k_current K' = k_current ?K \<and> k_cr3 K' = k_cr3 ?K \<and> k_runqueue K' = k_runqueue K
      \<and> (\<forall>q S. spaces K' q = Some S \<longrightarrow> spaces K q = Some S)"
  proof (cases "k_current K")
    case None
    then have i: "refs_inv off ?K Rt Rs Ra" using inv by (simp add: current_refs_def)
    show ?thesis using None i keeps_threads_refl [OF i, of K] by (simp add: current_refs_def)
  next
    case (Some ptr)
    then have "refs_inv off ?K (add_mset (from_raw off ptr) Rt) Rs Ra" using inv by (simp add: current_refs_def)
    from drop_thread_owned [OF this] obtain K' where K': "drop_thread (from_raw off ptr) ?K = Val K'" "refs_inv off K' Rt Rs Ra"
      "keeps_threads K K' (mset (k_runqueue K) + {#t#} + Rt)"
      by (auto simp: keeps_threads_def current_refs_def)
    then show ?thesis using drop_thread_keeps [OF K'(1)] drop_thread_spaces [OF K'(1)] Some by auto
  qed
  then obtain K' where K': "(case k_current K of None \<Rightarrow> Val ?K | Some ptr \<Rightarrow> drop_thread (from_raw off ptr) ?K) = Val K'"
    "refs_inv off K' Rt Rs Ra" "keeps_threads K K' (mset (k_runqueue K) + {#t#} + Rt)"
    "k_current K' = k_current ?K" "k_cr3 K' = k_cr3 ?K" "k_runqueue K' = k_runqueue K"
    "\<forall>q S. spaces K' q = Some S \<longrightarrow> spaces K q = Some S" by blast
  have "threads K' t = Some T" using K'(3) T by (simp add: keeps_threads_def)
  then have "spaces K' (th_vmspace T) = Some S" using thread_space_live [OF K'(2)] K'(7) S by fastforce
  moreover have "current_enter off t K = Val K'"
    using T sp K'(1,4) by (cases "k_current K") (simp_all add: current_enter_def thread_vmspace_def get_thread_eq current_update_def cr3
      assert_exec_def Let_def)
  ultimately show ?thesis using K' by (intro exI [of _ S] exI [of _ K']) simp
qed

text \<open>The threads that \<open>return_to_user\<close> considers, in order.\<close>

definition candidates :: "nat \<Rightarrow> kernel \<Rightarrow> nat list" where
  "candidates off K = (case k_current K of None \<Rightarrow> [] | Some ptr \<Rightarrow> [from_raw off ptr]) @ k_runqueue K"

text \<open>The first part of \<open>return_to_user\<close>: the current thread goes back to the front of the queue if it can run.\<close>

definition requeue_current :: "nat \<Rightarrow> bool exec \<Rightarrow> kernel \<Rightarrow> kernel exec" where
  "requeue_current off reserve K = exec_bind (current_thread off K) (\<lambda>(cur, K). case cur of
     None \<Rightarrow> Val K
   | Some t \<Rightarrow> exec_bind (is_runnable t K) (\<lambda>r.
       if r then exec_bind (push_front reserve t K) (\<lambda>(res, K). case res of Inl _ \<Rightarrow> Panic | Inr _ \<Rightarrow> Val K)
       else drop_thread t K))"

lemma return_to_user_eq:
  "return_to_user off reserve K = exec_bind (requeue_current off reserve K) (\<lambda>K.
     exec_bind (pick_next off K) (\<lambda>(t, K). current_enter off t K))"
  by (simp add: return_to_user_def requeue_current_def exec_bind_assoc split_def)

lemma requeue_current_spec:
  assumes "refs_inv off K Rt Rs Ra" and "size (mset (k_runqueue K) + current_refs off K + Rt) < USIZE_MAX"
  shows "\<exists>K'. requeue_current off (Val True) K = Val K' \<and> refs_inv off K' Rt Rs Ra \<and> k_current K' = k_current K
    \<and> threads K' = threads K
    \<and> k_runqueue K' = (case k_current K of None \<Rightarrow> [] | Some ptr \<Rightarrow> if runnable K (from_raw off ptr) then [from_raw off ptr] else [])
        @ k_runqueue K"
proof (cases "k_current K")
  case None
  then show ?thesis using assms(1) by (simp add: requeue_current_def current_thread_def)
next
  case (Some ptr)
  let ?t = "from_raw off ptr"
  have cur: "current_refs off K = {#?t#}" using Some by (simp add: current_refs_def)
  obtain s where s: "clone_thread ?t K = Val (K\<lparr>k_threads := s\<rparr>)" "refs_inv off (K\<lparr>k_threads := s\<rparr>) (add_mset ?t Rt) Rs Ra"
    "refs_object s = threads K" using clone_thread_owned [OF assms(1) _ assms(2), of ?t] cur by auto
  let ?K = "K\<lparr>k_threads := s\<rparr>"
  have live: "threads K ?t \<noteq> None" using refs_inv_live [OF assms(1), of ?t] cur by simp
  have run: "is_runnable ?t ?K = Val (runnable K ?t)" using is_runnable_eq [of ?K ?t] live s(3) by (simp add: runnable_def)
  show ?thesis
  proof (cases "runnable K ?t")
    case True
    have "refs_inv off (?K\<lparr>k_runqueue := ?t # k_runqueue K\<rparr>) Rt Rs Ra"
      using s(2) by (simp add: refs_inv_def current_refs_def)
    then show ?thesis using True run s Some
      by (simp add: requeue_current_def current_thread_def push_front_def)
  next
    case False
    obtain K' where K': "drop_thread ?t ?K = Val K'" "refs_inv off K' Rt Rs Ra"
      "\<forall>q. threads K' q = (if q \<in># mset (k_runqueue ?K) + current_refs off ?K + Rt then threads ?K q else None)"
      using drop_thread_owned [OF s(2)] by blast
    have "threads K' q = threads K q" for q
      using K'(3) s(3) refs_inv_live [OF assms(1), of q] by (auto simp: current_refs_def)
    then show ?thesis using False run s(1) Some K'(1,2) drop_thread_keeps [OF K'(1)]
      by (auto simp: requeue_current_def current_thread_def)
  qed
qed

lemma find_dropWhile: "List.find P xs = (case dropWhile (\<lambda>x. \<not> P x) xs of [] \<Rightarrow> None | x # _ \<Rightarrow> Some x)"
  by (induction xs) auto

text \<open>Taking the first thread that can run keeps the places of all threads right.\<close>

lemma places_mono: "places_ok st n \<Longrightarrow> m \<le> n \<Longrightarrow> st \<noteq> Runnable \<Longrightarrow> places_ok st m"
  by (cases st) auto

lemma sched_next:
  assumes sch: "sched_inv off K"
    and pre: "(case k_current K of None \<Rightarrow> [] | Some ptr \<Rightarrow> if runnable K (from_raw off ptr) then [from_raw off ptr] else [])
      @ k_runqueue K = pre @ t # q" "\<forall>u\<in>set pre. \<not> runnable K u" and T: "threads K u = Some T"
  shows "places_ok (mt_state (th_mutable T)) (count (add_mset t (mset q)) u)"
    and "mt_state (th_mutable T) = Runnable \<Longrightarrow> u \<in># add_mset t (mset q)"
proof -
  let ?cur = "case k_current K of None \<Rightarrow> [] | Some ptr \<Rightarrow> if runnable K (from_raw off ptr) then [from_raw off ptr] else []"
  let ?orig = "mset (k_runqueue K) + current_refs off K"
  have split: "mset ?cur + mset (k_runqueue K) = mset pre + add_mset t (mset q)" by (simp only: mset_append [symmetric] pre(1)) simp
  have cur: "mset ?cur \<subseteq># current_refs off K" by (simp add: current_refs_def split: option.splits)
  have le: "count (add_mset t (mset q)) u \<le> count ?orig u"
    using arg_cong [OF split, of "\<lambda>M. count M u"] mset_subset_eq_count [OF cur, of u] by (cases "t = u") simp_all
  have ok: "places_ok (mt_state (th_mutable T)) (count ?orig u)" using sch T by (simp add: sched_inv_def)
  have eq: "count (add_mset t (mset q)) u = count ?orig u" if r: "mt_state (th_mutable T) = Runnable"
  proof -
    have run: "runnable K u" using T r by (simp add: runnable_def)
    then have "u \<notin> set pre" using pre(2) by blast
    then have "count (mset pre) u = 0" by (simp add: count_eq_zero_iff)
    moreover have "count (mset ?cur) u = count (current_refs off K) u" using run by (auto simp: current_refs_def split: option.splits)
    ultimately show ?thesis using arg_cong [OF split, of "\<lambda>M. count M u"] unfolding count_union by linarith
  qed
  show "places_ok (mt_state (th_mutable T)) (count (add_mset t (mset q)) u)"
    using ok eq le places_mono by (cases "mt_state (th_mutable T) = Runnable") auto
  show "u \<in># add_mset t (mset q)" if r: "mt_state (th_mutable T) = Runnable"
    using eq [OF r] ok r by (metis One_nat_def count_greater_zero_iff places_ok.simps(1) zero_less_Suc)
qed

lemma return_to_user_spec:
  assumes inv: "refs_inv off K Rt Rs Ra" and sch: "sched_inv off K"
    and few: "size (mset (k_runqueue K) + current_refs off K + Rt) < USIZE_MAX"
  shows "case List.find (runnable K) (candidates off K) of
      None \<Rightarrow> return_to_user off (Val True) K = Panic
    | Some t \<Rightarrow> \<exists>K' T S. return_to_user off (Val True) K = Val K' \<and> refs_inv off K' Rt Rs Ra \<and> sched_inv off K'
        \<and> k_current K' = Some (into_raw off t) \<and> threads K' t = Some T \<and> threads K t = Some T \<and> spaces K' (th_vmspace T) = Some S
        \<and> k_cr3 K' = avs_cr3 (vs_arch S) \<and> (\<forall>u. runnable K' u = runnable K u)"
proof -
  let ?cur = "case k_current K of None \<Rightarrow> [] | Some ptr \<Rightarrow> if runnable K (from_raw off ptr) then [from_raw off ptr] else []"
  obtain K1 where K1: "requeue_current off (Val True) K = Val K1" "refs_inv off K1 Rt Rs Ra" "k_current K1 = k_current K" "threads K1 = threads K"
    "k_runqueue K1 = ?cur @ k_runqueue K" using requeue_current_spec [OF inv few] by blast
  have run1: "runnable K1 = runnable K" using K1(4) by (simp add: runnable_def fun_eq_iff)
  have fd: "List.find (runnable K) (candidates off K)
      = (case dropWhile (\<lambda>t. \<not> runnable K t) (k_runqueue K1) of [] \<Rightarrow> None | x # _ \<Rightarrow> Some x)"
    unfolding find_dropWhile [symmetric] by (auto simp: K1(5) candidates_def split: option.splits)
  show ?thesis
  proof (cases "dropWhile (\<lambda>t. \<not> runnable K t) (k_runqueue K1)")
    case Nil
    then have "\<forall>t\<in>set (k_runqueue K1). \<not> runnable K1 t" by (simp add: dropWhile_eq_Nil_conv run1)
    then have "return_to_user off (Val True) K = Panic" using K1(1) pick_next_idle [OF K1(2)] by (simp add: return_to_user_eq)
    then show ?thesis unfolding fd Nil by simp
  next
    case (Cons t q)
    then obtain K2 where K2: "pick_next off K1 = Val (t, K2)" "refs_inv off K2 (add_mset t Rt) Rs Ra" "k_runqueue K2 = q"
      "k_current K2 = k_current K1" "keeps_threads K1 K2 (mset q + current_refs off K1 + add_mset t Rt)"
      using pick_next_spec [OF K1(2), of t q] run1 by auto
    have rt: "runnable K t" using Cons by (metis dropWhile_eq_Cons_conv)
    then obtain T where T: "threads K t = Some T" "mt_state (th_mutable T) = Runnable" by (auto simp: runnable_def)
    then have T2: "threads K2 t = Some T" using K2(5) K1(4) by (simp add: keeps_threads_def)
    obtain S K' where K': "spaces K' (th_vmspace T) = Some S" "current_enter off t K2 = Val K'" "refs_inv off K' Rt Rs Ra"
      "k_current K' = Some (into_raw off t)" "k_cr3 K' = avs_cr3 (vs_arch S)" "k_runqueue K' = q"
      "keeps_threads K2 K' (mset q + {#t#} + Rt)"
      using current_enter_spec [OF K2(2) T2] K2(3) by auto
    have "keeps_threads K1 K' (mset q + {#t#} + Rt)" by (rule keeps_threads_trans [OF K2(5) K'(7)]) auto
    then have keep: "keeps_threads K K' (mset q + {#t#} + Rt)" by (simp add: keeps_threads_def K1(4))
    obtain pre where pre: "k_runqueue K1 = pre @ t # q" "\<forall>u\<in>set pre. \<not> runnable K u"
      using Cons by (metis takeWhile_dropWhile_id set_takeWhileD)
    note next_ok = sched_next [OF sch pre(1) [unfolded K1(5)] pre(2)]
    have sub: "threads K' u = Some U \<Longrightarrow> threads K u = Some U" for u U using keep by (auto simp: keeps_threads_def split: if_splits)
    have "sched_inv off K'" using next_ok(1) sub K'(4,6) by (simp add: sched_inv_def current_refs_def)
    moreover have "runnable K' u = runnable K u" for u
      using next_ok(2) [of u] keep sub by (fastforce simp: runnable_def keeps_threads_def)
    moreover have "return_to_user off (Val True) K = Val K'" using K1(1) K2(1) K'(2) by (simp add: return_to_user_eq)
    moreover have "threads K' t = Some T" using keep T(1) by (simp add: keeps_threads_def)
    ultimately show ?thesis unfolding fd Cons using K' T(1) by simp
  qed
qed

section \<open>System calls\<close>

text \<open>The references, the places of the threads, and counters that are far from overflowing.\<close>

definition kernel_inv :: "nat \<Rightarrow> kernel \<Rightarrow> nat multiset \<Rightarrow> nat multiset \<Rightarrow> nat multiset \<Rightarrow> bool" where
  "kernel_inv off K Rt Rs Ra \<longleftrightarrow> refs_inv off K Rt Rs Ra \<and> sched_inv off K
     \<and> size (mset (k_runqueue K) + current_refs off K + Rt) < USIZE_MAX"

lemma set_value_object: "refs_object s p = Some v \<Longrightarrow> refs_object (set_value p f s) = (refs_object s)(p \<mapsto> f v)"
  by (auto simp: refs_object_def set_value_def)

lemma set_value_owned: "refs_owned s R \<Longrightarrow> refs_owned (set_value p f s) R"
  by (cases "s p") (auto simp: refs_owned_def set_value_def)

lemma set_mutable_threads: "threads K p = Some T \<Longrightarrow> threads (set_mutable p m K) = (threads K)(p \<mapsto> T\<lparr>th_mutable := m\<rparr>)"
  by (simp add: set_mutable_def set_value_object)

lemma set_mutable_inv:
  assumes "refs_inv off K Rt Rs Ra" and T: "threads K p = Some T"
  shows "refs_inv off (set_mutable p m K) Rt Rs Ra"
proof -
  have "held (\<lambda>T. {#th_vmspace T#}) (threads (set_mutable p m K)) = held (\<lambda>T. {#th_vmspace T#}) (threads K)"
    unfolding set_mutable_threads [OF T]
    by (rule held_update [where g = "\<lambda>T. {#th_vmspace T#}" and obj = "threads K" and p = p and v = T, OF T]) simp
  then show ?thesis using assms(1) set_value_owned
    by (auto simp: refs_inv_def set_mutable_def current_refs_def)
qed

lemma set_mutable_fields [simp]:
  "k_runqueue (set_mutable p m K) = k_runqueue K" "k_current (set_mutable p m K) = k_current K"
  "current_refs off (set_mutable p m K) = current_refs off K"
  by (simp_all add: set_mutable_def current_refs_def)

text \<open>A critical section that changes the state of a thread keeps the invariant if the new state fits its places.\<close>

lemma set_mutable_kernel_inv:
  assumes "refs_inv off K Rt Rs Ra" and T: "threads K p = Some T" and "size (mset (k_runqueue K) + current_refs off K + Rt) < USIZE_MAX"
    and "places_ok (mt_state m) (count (mset (k_runqueue K) + current_refs off K) p)"
    and "\<And>q Q. q \<noteq> p \<Longrightarrow> threads K q = Some Q \<Longrightarrow> places_ok (mt_state (th_mutable Q)) (count (mset (k_runqueue K) + current_refs off K) q)"
  shows "kernel_inv off (set_mutable p m K) Rt Rs Ra"
  using assms(3,4,5) set_mutable_inv [OF assms(1) T]
  by (auto simp: kernel_inv_def sched_inv_def set_mutable_threads [OF T])

text \<open>
  The entry of a system call: the kernel takes its own reference to the thread and clears the current
  one, so that no counter changes.
\<close>

lemma take_current:
  assumes inv: "kernel_inv off K Rt Rs Ra" and cur: "k_current K = Some ptr"
  shows "\<exists>K1. current_thread off K = Val (Some (from_raw off ptr), K1) \<and> current_clear off K1 = Val (K\<lparr>k_current := None\<rparr>)"
    and "refs_inv off (K\<lparr>k_current := None\<rparr>) (add_mset (from_raw off ptr) Rt) Rs Ra"
proof -
  let ?t = "from_raw off ptr" and ?R = "mset (k_runqueue K) + current_refs off K + Rt"
  have cr: "current_refs off K = {#?t#}" using cur by (simp add: current_refs_def)
  have ri: "refs_inv off K Rt Rs Ra" using inv by (simp add: kernel_inv_def)
  have "?t \<in># ?R" using cr by simp
  moreover have own: "refs_owned (k_threads K) ?R" using ri by (simp add: refs_inv_def)
  ultimately obtain r where r: "k_threads K ?t = Some r" "unat (rc_counter r) = count ?R ?t" unfolding refs_owned_def by blast
  have "0 < count ?R ?t" "count ?R ?t < USIZE_MAX"
    using \<open>?t \<in># ?R\<close> inv count_le_size [of ?R ?t] by (simp_all add: kernel_inv_def)
  then have u: "0 < unat (rc_counter r)" "unat (rc_counter r) + 1 < 2 ^ 64" using r(2) by (simp_all add: USIZE_MAX_def)
  have "unat (rc_counter r + 1) = unat (rc_counter r) + 1" using u(2) by (subst unat_add_lem [THEN iffD1]) simp_all
  then have n: "0 < rc_counter r" "rc_counter r + 1 \<noteq> 0" "rc_counter r \<noteq> 0"
    using u(1) by (auto simp: word_gt_0)
  then have "0 < rc_counter r + 1" by (simp add: word_gt_0)
  moreover have "K\<lparr>k_current := None, k_threads := (k_threads K)(?t \<mapsto> r)\<rparr> = K\<lparr>k_current := None\<rparr>"
    using r(1) by (simp add: fun_upd_idem)
  ultimately show "\<exists>K1. current_thread off K = Val (Some ?t, K1) \<and> current_clear off K1 = Val (K\<lparr>k_current := None\<rparr>)"
    using cur r(1) n by (simp add: current_thread_def current_clear_def clone_thread_def sr_clone_def sr_inner_def assert_exec_def
        drop_thread_def sr_drop_def Let_def)
  show "refs_inv off (K\<lparr>k_current := None\<rparr>) (add_mset ?t Rt) Rs Ra"
    using ri cur by (simp add: refs_inv_def current_refs_def)
qed

lemma drop_thread_kernel_inv:
  assumes "kernel_inv off K (add_mset t Rt) Rs Ra"
  shows "\<exists>K'. drop_thread t K = Val K' \<and> kernel_inv off K' Rt Rs Ra \<and> k_current K' = k_current K \<and> k_runqueue K' = k_runqueue K
    \<and> (\<forall>q\<in>set (k_runqueue K). threads K' q = threads K q)"
proof -
  obtain K' where K': "drop_thread t K = Val K'" "refs_inv off K' Rt Rs Ra"
    "\<forall>q. threads K' q = (if q \<in># mset (k_runqueue K) + current_refs off K + Rt then threads K q else None)"
    using assms drop_thread_owned [of off K t Rt Rs Ra] unfolding kernel_inv_def by blast
  then show ?thesis using assms drop_thread_keeps [OF K'(1)]
    by (auto simp: kernel_inv_def sched_inv_def current_refs_def runnable_def split: if_splits)
qed

text \<open>
  The upcalls of one system call, at the states in which they are made. \<open>upcall_returns\<close>: the server
  returns from this upcall, the invariant holds for the references \<open>Rt\<close>, \<open>Rs\<close> and \<open>Ra\<close> that the servers
  have then next to the kernel's own one to \<open>t\<close>, and neither the current-thread pointer nor the count of
  upcalls in flight of \<open>t\<close> has changed.
\<close>

definition upcall_returns :: "nat \<Rightarrow> 's upcalls \<Rightarrow> nat \<Rightarrow> UpcallArg \<Rightarrow> kernel \<times> 's \<Rightarrow> kernel \<times> 's
    \<Rightarrow> nat multiset \<Rightarrow> nat multiset \<Rightarrow> nat multiset \<Rightarrow> bool" where
  "upcall_returns off up t arg w w' Rt Rs Ra \<longleftrightarrow> (\<exists>T T'. threads (fst w) t = Some T \<and> up (th_upcall T) arg w = Val w'
     \<and> kernel_inv off (fst w') (add_mset t Rt) Rs Ra \<and> k_current (fst w') = None
     \<and> threads (fst w') t = Some T' \<and> mt_in_upcalls (th_mutable T') = mt_in_upcalls (th_mutable T))"

definition upcall_begun :: "nat \<Rightarrow> Thread \<Rightarrow> kernel \<Rightarrow> kernel" where
  "upcall_begun t T = set_mutable t ((th_mutable T)\<lparr>mt_state := Blocked, mt_in_upcalls := mt_in_upcalls (th_mutable T) + 1\<rparr>)"

definition upcall_ended :: "nat \<Rightarrow> Thread \<Rightarrow> kernel \<Rightarrow> kernel" where
  "upcall_ended t T = set_mutable t ((th_mutable T)\<lparr>mt_in_upcalls := mt_in_upcalls (th_mutable T) - 1\<rparr>)"

text \<open>
  What a system call of the thread \<open>t\<close> comes to: nothing for a thread that is terminated; otherwise the
  system call upcall, and the terminated upcall after it when the thread was terminated meanwhile and no
  other upcall of it is in flight.
\<close>

inductive syscall_served :: "nat \<Rightarrow> 's upcalls \<Rightarrow> nat \<Rightarrow> kernel \<times> 's \<Rightarrow> kernel \<times> 's \<Rightarrow> nat multiset \<Rightarrow> nat multiset \<Rightarrow> nat multiset \<Rightarrow> bool"
  for off up t where
  served_gone: "threads K t = Some T \<Longrightarrow> mt_state (th_mutable T) = Terminated \<Longrightarrow> kernel_inv off K (add_mset t Rt) Rs Ra
    \<Longrightarrow> k_current K = None \<Longrightarrow> syscall_served off up t (K, \<sigma>) (K, \<sigma>) Rt Rs Ra"
| served_call: "threads K t = Some T \<Longrightarrow> mt_state (th_mutable T) = Runnable
    \<Longrightarrow> upcall_returns off up t UpSyscall (upcall_begun t T K, \<sigma>) (K', \<sigma>') Rt Rs Ra
    \<Longrightarrow> threads K' t = Some T' \<Longrightarrow> mt_in_upcalls (th_mutable T) \<noteq> 0 \<or> mt_state (th_mutable T') \<noteq> Terminated
    \<Longrightarrow> syscall_served off up t (K, \<sigma>) (upcall_ended t T' K', \<sigma>') Rt Rs Ra"
| served_exit: "threads K t = Some T \<Longrightarrow> mt_state (th_mutable T) = Runnable
    \<Longrightarrow> upcall_returns off up t UpSyscall (upcall_begun t T K, \<sigma>) (K', \<sigma>') Rt' Rs' Ra'
    \<Longrightarrow> threads K' t = Some T' \<Longrightarrow> mt_in_upcalls (th_mutable T) = 0 \<Longrightarrow> mt_state (th_mutable T') = Terminated
    \<Longrightarrow> upcall_returns off up t UpTerminated (upcall_ended t T' K', \<sigma>') w Rt Rs Ra
    \<Longrightarrow> syscall_served off up t (K, \<sigma>) w Rt Rs Ra"

inductive_cases syscall_servedE: "syscall_served off up t (K, \<sigma>) w Rt Rs Ra"

lemma set_mutable_same: "threads K t = Some T \<Longrightarrow> set_mutable t (th_mutable T) K = K"
  by (auto simp: set_mutable_def set_value_def refs_object_def fun_upd_idem)

lemma upcall_ended_inv:
  assumes "kernel_inv off K (add_mset t Rt) Rs Ra" and "threads K t = Some T"
  shows "kernel_inv off (upcall_ended t T K) (add_mset t Rt) Rs Ra"
  using assms unfolding upcall_ended_def by (intro set_mutable_kernel_inv) (auto simp: kernel_inv_def sched_inv_def)

text \<open>The code does what the relation says, and the invariant holds at its end.\<close>

lemma thread_handle_syscall_served:
  assumes "syscall_served off up t (K, \<sigma>) (K', \<sigma>') Rt Rs Ra" and few: "\<And>T. threads K t = Some T \<Longrightarrow> mt_in_upcalls (th_mutable T) < USIZE_MAX"
  shows "thread_handle_syscall up t (K, \<sigma>) = Val (K', \<sigma>')" and "kernel_inv off K' (add_mset t Rt) Rs Ra" and "k_current K' = None"
proof -
  have start: "syscall_begin (th_mutable T) = Val (True, (th_mutable T)\<lparr>mt_state := Blocked, mt_in_upcalls := mt_in_upcalls (th_mutable T) + 1\<rparr>)"
    if "threads K t = Some T" "mt_state (th_mutable T) = Runnable" for T
    using that few [of T] by (simp add: syscall_begin_def assert_exec_def usize_add_def)
  have called: "thread_handle_syscall up t (K, \<sigma>) =
      (if mt_in_upcalls (th_mutable T) = 0 \<and> mt_state (th_mutable T') = Terminated
       then up (th_upcall T') UpTerminated (upcall_ended t T' L, \<tau>) else Val (upcall_ended t T' L, \<tau>))"
    if T: "threads K t = Some T" "mt_state (th_mutable T) = Runnable" and T': "threads L t = Some T'"
      and u: "upcall_returns off up t UpSyscall (upcall_begun t T K, \<sigma>) (L, \<tau>) Rt' Rs' Ra'" for T T' L \<tau> Rt' Rs' Ra'
  proof -
    have "up (th_upcall T) UpSyscall (upcall_begun t T K, \<sigma>) = Val (L, \<tau>)" "mt_in_upcalls (th_mutable T') = mt_in_upcalls (th_mutable T) + 1"
      using u T(1) T' by (auto simp: upcall_returns_def upcall_begun_def set_mutable_threads [OF T(1)])
    then show ?thesis using T T' start [OF T]
      by (auto simp: thread_handle_syscall_def get_thread_eq upcall_begun_def upcall_ended_def syscall_end_def assert_exec_def usize_sub_def Let_def)
  qed
  from assms(1) consider
    (gone) T where "threads K t = Some T" "mt_state (th_mutable T) = Terminated" "K' = K" "\<sigma>' = \<sigma>"
  | (call) T L T' where "threads K t = Some T" "mt_state (th_mutable T) = Runnable" "threads L t = Some T'"
      "upcall_returns off up t UpSyscall (upcall_begun t T K, \<sigma>) (L, \<sigma>') Rt Rs Ra"
      "mt_in_upcalls (th_mutable T) \<noteq> 0 \<or> mt_state (th_mutable T') \<noteq> Terminated" "K' = upcall_ended t T' L"
  | (exit) T L \<tau> Rt1 Rs1 Ra1 T' where "threads K t = Some T" "mt_state (th_mutable T) = Runnable" "threads L t = Some T'"
      "upcall_returns off up t UpSyscall (upcall_begun t T K, \<sigma>) (L, \<tau>) Rt1 Rs1 Ra1"
      "mt_in_upcalls (th_mutable T) = 0" "mt_state (th_mutable T') = Terminated"
      "upcall_returns off up t UpTerminated (upcall_ended t T' L, \<tau>) (K', \<sigma>') Rt Rs Ra"
    by (elim syscall_servedE) blast+
  then show "thread_handle_syscall up t (K, \<sigma>) = Val (K', \<sigma>')"
  proof cases
    case gone
    then show ?thesis by (auto simp: thread_handle_syscall_def get_thread_eq syscall_begin_def set_mutable_same)
  next
    case call
    then show ?thesis using called [OF call(1-4)] by auto
  next
    case exit
    then show ?thesis using called [OF exit(1-4)] by (auto simp: upcall_returns_def upcall_ended_def set_mutable_threads)
  qed
  show "kernel_inv off K' (add_mset t Rt) Rs Ra" "k_current K' = None"
    using assms(1)
    by (auto elim!: syscall_servedE simp: upcall_returns_def upcall_ended_inv) (simp_all add: upcall_ended_def)
qed

lemma find_cong_set: "(\<And>x. x \<in> set xs \<Longrightarrow> P x = Q x) \<Longrightarrow> List.find P xs = List.find Q xs"
  by (induction xs) auto

lemma handle_syscall_enters:
  assumes inv: "kernel_inv off K Rt Rs Ra" and cur: "k_current K = Some ptr"
  shows "handle_syscall off reserve up (K, \<sigma>) =
    exec_bind (thread_handle_syscall up (from_raw off ptr) (K\<lparr>k_current := None\<rparr>, \<sigma>)) (\<lambda>(K, \<sigma>).
    exec_bind (drop_thread (from_raw off ptr) K) (\<lambda>K. exec_bind (return_to_user off reserve K) (\<lambda>K. Val (K, \<sigma>))))"
  using take_current(1) [OF assms] by (auto simp: handle_syscall_def)

lemma handle_syscall_spec:
  assumes inv: "kernel_inv off K Rt Rs Ra" and cur: "k_current K = Some ptr"
    and few: "\<And>T. threads K (from_raw off ptr) = Some T \<Longrightarrow> mt_in_upcalls (th_mutable T) < USIZE_MAX"
    and served: "syscall_served off up (from_raw off ptr) (K\<lparr>k_current := None\<rparr>, \<sigma>) (K1, \<sigma>1) Rt' Rs' Ra'"
  shows "case List.find (runnable K1) (k_runqueue K1) of
         None \<Rightarrow> handle_syscall off (Val True) up (K, \<sigma>) = Panic
       | Some u \<Rightarrow> \<exists>K' T S. handle_syscall off (Val True) up (K, \<sigma>) = Val (K', \<sigma>1) \<and> k_current K' = Some (into_raw off u)
           \<and> threads K1 u = Some T \<and> threads K' u = Some T \<and> runnable K' u \<and> spaces K' (th_vmspace T) = Some S \<and> k_cr3 K' = avs_cr3 (vs_arch S)
           \<and> refs_inv off K' Rt' Rs' Ra' \<and> sched_inv off K'"
proof -
  let ?t = "from_raw off ptr"
  have h: "thread_handle_syscall up ?t (K\<lparr>k_current := None\<rparr>, \<sigma>) = Val (K1, \<sigma>1)" "kernel_inv off K1 (add_mset ?t Rt') Rs' Ra'" "k_current K1 = None"
    using thread_handle_syscall_served [OF served] few by simp_all
  obtain K4 where d: "drop_thread ?t K1 = Val K4" "kernel_inv off K4 Rt' Rs' Ra'" "k_current K4 = None" "k_runqueue K4 = k_runqueue K1"
    "\<forall>q\<in>set (k_runqueue K1). threads K4 q = threads K1 q"
    using drop_thread_kernel_inv [OF h(2)] h(3) by auto
  have same: "\<forall>q\<in>set (k_runqueue K1). runnable K4 q = runnable K1 q" using d(5) by (simp add: runnable_def)
  have f: "List.find (runnable K4) (candidates off K4) = List.find (runnable K1) (k_runqueue K1)"
    using d(3,4) same find_cong_set [of "k_runqueue K1" "runnable K4" "runnable K1"] by (simp add: candidates_def current_refs_def)
  have hs: "handle_syscall off (Val True) up (K, \<sigma>) = exec_bind (return_to_user off (Val True) K4) (\<lambda>K. Val (K, \<sigma>1))"
    using handle_syscall_enters [OF inv cur, of "Val True" up \<sigma>] h(1) d(1) by simp
  have sp: "case List.find (runnable K1) (k_runqueue K1) of
      None \<Rightarrow> return_to_user off (Val True) K4 = Panic
    | Some u \<Rightarrow> \<exists>K' T S. return_to_user off (Val True) K4 = Val K' \<and> refs_inv off K' Rt' Rs' Ra' \<and> sched_inv off K'
        \<and> k_current K' = Some (into_raw off u) \<and> threads K' u = Some T \<and> threads K4 u = Some T \<and> spaces K' (th_vmspace T) = Some S
        \<and> k_cr3 K' = avs_cr3 (vs_arch S) \<and> (\<forall>v. runnable K' v = runnable K4 v)"
    using return_to_user_spec [of off K4 Rt' Rs' Ra'] d(2) unfolding kernel_inv_def f by blast
  show ?thesis
  proof (cases "List.find (runnable K1) (k_runqueue K1)")
    case None
    then show ?thesis using sp hs by simp
  next
    case (Some u)
    then have "u \<in> set (k_runqueue K1)" "runnable K1 u" by (auto simp: find_Some_iff)
    then have "runnable K4 u" "threads K4 u = threads K1 u" using d(5) same by simp_all
    then show ?thesis using sp hs Some by auto
  qed
qed

section \<open>Properties\<close>

text \<open>Two threads in one address space: the first one runs, the second one waits.\<close>

definition example_thread :: Thread where
  "example_thread = (thread_value 0x2000 0x5000)\<lparr>th_mutable := \<lparr>mt_state = Runnable, mt_in_upcalls = 0\<rparr>\<rparr>"

definition example_kernel :: kernel where
  "example_kernel = \<lparr>k_threads = [0x1000 \<mapsto> refcounted_new example_thread, 0x1800 \<mapsto> refcounted_new example_thread],
     k_spaces = [0x2000 \<mapsto> \<lparr>rc_counter = 2, rc_value = \<lparr>vs_arch = \<lparr>avs_pml4 = 0x7000, avs_cr3 = 0x7000\<rparr>, vs_mappings = []\<rparr>\<rparr>],
     k_areas = Map.empty, k_runqueue = [0x1800], k_current = Some 0x1008, k_cr3 = 0x7000, k_phys = \<lparr>ph_mem = (\<lambda>_. 0), ph_regions = page_allocator_new\<rparr>,
     k_lapic = \<lparr>la_base = 0\<rparr>, k_machine = example_machine\<rparr>"

lemma example_threads: "threads example_kernel = [0x1000 \<mapsto> example_thread, 0x1800 \<mapsto> example_thread]"
  by (auto simp: example_kernel_def refs_object_def refcounted_new_def)

lemma example_kernel_inv: "kernel_inv 8 example_kernel {#} {#} {#}"
proof -
  have "held (\<lambda>T. {#th_vmspace T#}) (threads example_kernel) = {#0x2000, 0x2000#}"
    unfolding example_threads held_def by (simp add: example_thread_def thread_value_def)
  moreover have "held space_areas (spaces example_kernel) = {#}"
    by (auto simp: held_def example_kernel_def refs_object_def intro!: sum.neutral split: if_splits)
  ultimately show ?thesis
    unfolding kernel_inv_def refs_inv_def sched_inv_def example_threads
    by (auto simp: refs_owned_def example_kernel_def refcounted_new_def current_refs_def from_raw_def USIZE_MAX_def
        example_thread_def split: if_splits)
qed

text \<open>
  C36. \<open>return_to_user\<close> continues the current thread if it can run and otherwise the first runnable
  thread of the run queue: it becomes the current thread, CR3 is its address space's, every reference
  counter is exact again (the references of queue entries that can no longer run are given up, with
  the objects they were the last to keep), every runnable thread is still in exactly one place, and no
  thread changes state. Without a runnable thread the kernel panics, because idling is not implemented.
\<close>

theorem return_to_user_contract:
  assumes "refs_inv off K Rt Rs Ra" and "sched_inv off K" and "size (mset (k_runqueue K) + current_refs off K + Rt) < USIZE_MAX"
  shows "case List.find (runnable K) (candidates off K) of
      None \<Rightarrow> return_to_user off (Val True) K = Panic
    | Some t \<Rightarrow> \<exists>K' T S. return_to_user off (Val True) K = Val K' \<and> refs_inv off K' Rt Rs Ra \<and> sched_inv off K'
        \<and> k_current K' = Some (into_raw off t) \<and> threads K' t = Some T \<and> threads K t = Some T \<and> spaces K' (th_vmspace T) = Some S
        \<and> k_cr3 K' = avs_cr3 (vs_arch S) \<and> (\<forall>u. runnable K' u = runnable K u)"
  by (rule return_to_user_spec [OF assms])

theorem return_to_user_contract_witness:
  "\<exists>K'. return_to_user 8 (Val True) example_kernel = Val K' \<and> k_current K' = Some 0x1008 \<and> sched_inv 8 K' \<and> runnable K' 0x1800"
proof -
  have "candidates 8 example_kernel = [0x1000, 0x1800]"
    by (simp add: candidates_def example_kernel_def from_raw_def)
  moreover have "runnable example_kernel 0x1000" "runnable example_kernel 0x1800"
    by (simp_all add: runnable_def example_threads example_thread_def)
  ultimately show ?thesis
    using return_to_user_contract [of 8 example_kernel "{#}" "{#}" "{#}"] example_kernel_inv
    by (auto simp: kernel_inv_def into_raw_def as_ptr_def)
qed

end
