(* ===== verification/AddressSpaces.thy ===== *)
theory AddressSpaces
  imports Kernel
begin

text \<open>
  The memory of all programs together: the areas and the page tables of every address space are in place and
  apart from each other. Each operation on memory keeps this invariant and, apart from the area it writes
  to, the contents of every area.
\<close>

section \<open>Memory\<close>

abbreviation space_tables :: "VmSpace \<Rightarrow> memory \<Rightarrow> nat set" where
  "space_tables S m \<equiv> tables_mem m (avs_root (vs_arch S))"

text \<open>The areas and address spaces of all programs: every space is well-formed, and no two share a page table.\<close>

definition mem_inv :: "(nat \<rightharpoonup> VmSpace) \<Rightarrow> areas \<Rightarrow> phys \<Rightarrow> bool" where
  "mem_inv ss as ph \<longleftrightarrow> phys_wf ph \<and> areas_wf as ph \<and> (\<forall>s S. ss s = Some S \<longrightarrow> space_wf S as ph)
     \<and> (\<forall>s t S T. s \<noteq> t \<longrightarrow> ss s = Some S \<longrightarrow> ss t = Some T \<longrightarrow> space_tables S (ph_mem ph) \<inter> space_tables T (ph_mem ph) = {})"

lemma mem_invD:
  assumes "mem_inv ss as ph"
  shows "phys_wf ph" and "areas_wf as ph" and "\<And>s S. ss s = Some S \<Longrightarrow> space_wf S as ph"
    and "\<And>s t S T. s \<noteq> t \<Longrightarrow> ss s = Some S \<Longrightarrow> ss t = Some T \<Longrightarrow> space_tables S (ph_mem ph) \<inter> space_tables T (ph_mem ph) = {}"
  using assms unfolding mem_inv_def by blast+

text \<open>An area whose pages are only added to.\<close>

definition area_kept :: "VmArea \<Rightarrow> VmArea \<Rightarrow> bool" where
  "area_kept A A' \<longleftrightarrow> va_len A' = va_len A \<and> length (va_pages A') = length (va_pages A)
     \<and> (\<forall>j p. j < length (va_pages A) \<longrightarrow> va_pages A ! j = Some p \<longrightarrow> va_pages A' ! j = Some p)"

lemma area_kept_refl [simp]: "area_kept A A"
  by (simp add: area_kept_def)

lemma area_kept_trans: "area_kept A B \<Longrightarrow> area_kept B C \<Longrightarrow> area_kept A C"
  by (auto simp: area_kept_def)

text \<open>
  A step that leaves the page tables of an address space alone and keeps the areas that are mapped
  there keeps the address space.
\<close>

lemma mapping_frame:
  assumes mp: "mapping_ok vs as ph mp" and "\<And>x. x \<in> tables_mem (ph_mem ph) (avs_root vs) \<Longrightarrow> ph_mem ph' x = ph_mem ph x"
    and "\<And>A. as (mp_area mp) = Some A \<Longrightarrow> 4096 * length (va_pages A) = va_len A \<and> (\<exists>A'. as' (mp_area mp) = Some A' \<and> area_kept A A')"
  shows "mapping_ok vs as' ph' mp"
proof -
  obtain A where A: "as (mp_area mp) = Some A" "mp_end mp = mp_start mp + va_len A" "4096 dvd mp_start mp" "mp_end mp \<le> 2 ^ 47"
    "mp_attrs mp < 8" "range_mapped vs ph A (mp_attrs mp) 0 (length (va_pages A)) (mp_start mp)"
    using mp unfolding mapping_ok_def by blast
  obtain A' where A': "as' (mp_area mp) = Some A'" "area_kept A A'" and len: "4096 * length (va_pages A) = va_len A" using assms(3) [OF A(1)] by blast
  have "range_mapped vs ph' A' (mp_attrs mp) 0 (length (va_pages A')) (mp_start mp)"
    unfolding range_mapped_def
  proof (intro allI impI)
    fix j assume "j < length (va_pages A')"
    then have j: "j < length (va_pages A)" using A'(2) by (simp add: area_kept_def)
    then obtain p where p: "va_pages A ! j = Some p"
      "user_pte (ph_mem ph) (avs_root vs) (mp_start mp + 4096 * j) = Some (page_pte p (mp_attrs mp))"
      using A(6) by (auto simp: range_mapped_def)
    have "mp_start mp + 4096 * j < 2 ^ 47" using A(2,4) len j by simp
    then have "user_pte (ph_mem ph') (avs_root vs) (mp_start mp + 4096 * j) = user_pte (ph_mem ph) (avs_root vs) (mp_start mp + 4096 * j)"
      using user_pte_frame [of "ph_mem ph" "avs_root vs" "ph_mem ph'"] assms(2) by blast
    then show "\<exists>p. va_pages A' ! (0 + j) = Some p
        \<and> user_pte (ph_mem ph') (avs_root vs) (mp_start mp + 4096 * j) = Some (page_pte p (mp_attrs mp))"
      using A'(2) p j by (simp add: area_kept_def)
  qed
  then show ?thesis using A A' by (auto simp: mapping_ok_def area_kept_def)
qed

lemma space_frame:
  assumes wf: "space_wf T as ph" and "phys_wf ph'" and "areas_wf as' ph'" and av: "page_avail ph' \<subseteq> page_avail ph"
    and same: "\<And>x. x \<in> space_tables T (ph_mem ph) \<Longrightarrow> ph_mem ph' x = ph_mem ph x"
    and apart: "\<And>a A. as' a = Some A \<Longrightarrow> area_mem A \<inter> space_tables T (ph_mem ph) = {}"
    and kept: "\<And>mp A. mp \<in> set (vs_mappings T) \<Longrightarrow> as (mp_area mp) = Some A \<Longrightarrow> \<exists>A'. as' (mp_area mp) = Some A' \<and> area_kept A A'"
  shows "space_wf T as' ph'" and "space_tables T (ph_mem ph') = space_tables T (ph_mem ph)"
proof -
  note W = space_wfD [OF wf]
  have pt: "pt_wf (ph_mem ph) (avs_root (vs_arch T)) (page_avail ph)" using W(2) by (simp add: arch_vs_wf_def)
  note fr = pt_wf_frame [OF pt same av]
  show t: "space_tables T (ph_mem ph') = space_tables T (ph_mem ph)" by (rule fr(2))
  have "mapping_ok (vs_arch T) as' ph' mp" if "mp \<in> set (vs_mappings T)" for mp
    using mapping_frame [OF W(6) [OF that] same] W(7) kept [OF that] by (simp add: area_wf_def MIN_PAGE_SIZE_def)
  then show "space_wf T as' ph'"
    unfolding space_wf_def t using assms(2,3) fr(1) W(2,5) apart by (simp add: arch_vs_wf_def)
qed

lemma mem_inv_step:
  assumes inv: "mem_inv ss as ph" and "phys_wf ph'" and "areas_wf as' ph'" and av: "page_avail ph' \<subseteq> page_avail ph"
    and sub: "\<And>s S. ss' s = Some S \<Longrightarrow> ss s = Some S"
    and same: "\<And>s S x. ss' s = Some S \<Longrightarrow> x \<in> space_tables S (ph_mem ph) \<Longrightarrow> ph_mem ph' x = ph_mem ph x"
    and apart: "\<And>s S a A. ss' s = Some S \<Longrightarrow> as' a = Some A \<Longrightarrow> area_mem A \<inter> space_tables S (ph_mem ph) = {}"
    and kept: "\<And>s S mp A. ss' s = Some S \<Longrightarrow> mp \<in> set (vs_mappings S) \<Longrightarrow> as (mp_area mp) = Some A \<Longrightarrow> \<exists>A'. as' (mp_area mp) = Some A' \<and> area_kept A A'"
  shows "mem_inv ss' as' ph'"
proof -
  note M = mem_invD [OF inv]
  have S: "space_wf S as' ph'" "space_tables S (ph_mem ph') = space_tables S (ph_mem ph)" if s: "ss' s = Some S" for s S
  proof -
    note W = M(3) [OF sub [OF s]]
    show "space_wf S as' ph'" by (rule space_frame(1) [OF W assms(2,3) av]) (use same apart kept s in blast)+
    show "space_tables S (ph_mem ph') = space_tables S (ph_mem ph)" by (rule space_frame(2) [OF W assms(2,3) av]) (use same apart kept s in blast)+
  qed
  show ?thesis unfolding mem_inv_def using assms(2,3) S sub M(4) by metis
qed

lemma mem_inv_add:
  assumes "mem_inv (ss(s := None)) as ph" and "space_wf S as ph"
    and "\<And>t T. t \<noteq> s \<Longrightarrow> ss t = Some T \<Longrightarrow> space_tables T (ph_mem ph) \<inter> space_tables S (ph_mem ph) = {}"
  shows "mem_inv (ss(s \<mapsto> S)) as ph"
proof -
  have "space_tables T (ph_mem ph) \<inter> space_tables U (ph_mem ph) = {}"
    if "t \<noteq> u" "(ss(s \<mapsto> S)) t = Some T" "(ss(s \<mapsto> S)) u = Some U" for t u T U
    using that assms(3) [of t T] assms(3) [of u U] mem_invD(4) [OF assms(1), of t u T U]
    by (cases "t = s"; cases "u = s") (simp_all add: Int_commute)
  moreover have "space_wf T as ph" if "(ss(s \<mapsto> S)) t = Some T" for t T
    using mem_invD(3) [OF assms(1), of t T] assms(2) that by (auto split: if_splits)
  ultimately show ?thesis using mem_invD(1,2) [OF assms(1)] unfolding mem_inv_def by blast
qed

text \<open>Pages that leave the page allocator.\<close>

lemma mem_inv_shrink:
  assumes "mem_inv ss as ph" and "phys_wf ph'" and "page_avail ph' \<subseteq> page_avail ph"
    and "\<And>x. x \<notin> page_avail ph \<Longrightarrow> ph_mem ph' x = ph_mem ph x"
  shows "mem_inv ss as ph'"
proof (rule mem_inv_step [OF assms(1-2) _ assms(3)])
  note M = mem_invD [OF assms(1)]
  show "areas_wf as ph'" using M(2) area_wf_shrink_avail [OF _ assms(3)] unfolding areas_wf_def by blast
  show "ph_mem ph' x = ph_mem ph x" if "ss s = Some S" "x \<in> space_tables S (ph_mem ph)" for s S x
    using assms(4) that tables_not_avail [OF space_wfD(2) [OF M(3) [OF that(1)]]] by blast
  show "area_mem A \<inter> space_tables S (ph_mem ph) = {}" if "ss s = Some S" "as a = Some A" for s S a A
    using space_wfD(4) [OF M(3) [OF that(1)] that(2)] .
qed auto

text \<open>Objects that go: what is left of the address spaces still has its areas.\<close>

lemma mem_inv_sub:
  assumes "mem_inv ss as ph" and "\<And>s S. ss' s = Some S \<Longrightarrow> ss s = Some S" and "\<And>a A. as' a = Some A \<Longrightarrow> as a = Some A"
    and "\<And>s S mp. ss' s = Some S \<Longrightarrow> mp \<in> set (vs_mappings S) \<Longrightarrow> as' (mp_area mp) \<noteq> None"
  shows "mem_inv ss' as' ph"
proof (rule mem_inv_step [OF assms(1)])
  note M = mem_invD [OF assms(1)]
  show "areas_wf as' ph" using M(2) assms(3) unfolding areas_wf_def by metis
  show "area_mem A \<inter> space_tables S (ph_mem ph) = {}" if "ss' s = Some S" "as' a = Some A" for s S a A
    using space_wfD(4) [OF M(3) [OF assms(2) [OF that(1)]] assms(3) [OF that(2)]] .
  show "\<exists>A'. as' (mp_area mp) = Some A' \<and> area_kept A A'"
    if "ss' s = Some S" "mp \<in> set (vs_mappings S)" "as (mp_area mp) = Some A" for s S mp A
    using assms(3,4) that by (metis area_kept_refl not_None_eq option.inject)
qed (use mem_invD(1) [OF assms(1)] assms(2) in auto)

lemma mem_inv_new_area:
  assumes "mem_inv ss as ph" and "as a = None" and "area_wf A ph" and "0 < va_len A" and "area_mem A = {}"
  shows "mem_inv ss (as(a \<mapsto> A)) ph"
proof (rule mem_inv_step [OF assms(1)])
  note M = mem_invD [OF assms(1)]
  show "areas_wf (as(a \<mapsto> A)) ph" using M(2) assms(2-) unfolding areas_wf_def by auto
  show "area_mem B \<inter> space_tables S (ph_mem ph) = {}" if "ss s = Some S" "(as(a \<mapsto> A)) b = Some B" for s S b B
    using space_wfD(4) [OF M(3) [OF that(1)], of b B] that(2) assms(5) by (auto split: if_splits)
  show "\<exists>A'. (as(a \<mapsto> A)) (mp_area mp) = Some A' \<and> area_kept B A'" if "as (mp_area mp) = Some B" for mp B
    using that assms(2) by auto
qed (use mem_invD(1) [OF assms(1)] in auto)

lemma mem_inv_new_space:
  assumes inv: "mem_inv ss as ph" and inv': "mem_inv ss as ph'" and p: "ss p = None" and av: "page_avail ph' \<subseteq> page_avail ph"
    and same: "\<And>x. x \<notin> page_avail ph \<Longrightarrow> ph_mem ph' x = ph_mem ph x"
    and vs: "arch_vs_wf vs ph'" "tables_mem (ph_mem ph') (avs_root vs) \<subseteq> page_avail ph - page_avail ph'"
  shows "mem_inv (ss(p \<mapsto> \<lparr>vs_arch = vs, vs_mappings = []\<rparr>)) as ph'"
proof -
  let ?S = "\<lparr>vs_arch = vs, vs_mappings = []\<rparr>"
  have apart: "area_mem A \<inter> tables_mem (ph_mem ph') (avs_root vs) = {}" if "as a = Some A" for a A
    using mem_invD(2) [OF inv] that vs(2) area_wf_avail [of A ph] unfolding areas_wf_def by blast
  have wf: "space_wf ?S as ph'"
    using mem_invD(1,2) [OF inv'] vs(1) apart by (simp add: space_wf_def mappings_sorted_def)
  have tabs: "space_tables T (ph_mem ph') \<inter> space_tables ?S (ph_mem ph') = {}" if "ss t = Some T" for t T
  proof -
    note T = space_wfD(2) [OF mem_invD(3) [OF inv that]]
    have "space_tables T (ph_mem ph') = space_tables T (ph_mem ph)"
      using tables_not_avail [OF T] T same by (intro pt_wf_frame(2) [OF _ _ av]) (auto simp: arch_vs_wf_def)
    then show ?thesis using tables_not_avail [OF T] vs(2) by auto
  qed
  show ?thesis using inv' p tabs wf by (intro mem_inv_add) (simp_all add: fun_upd_idem)
qed

text \<open>A write to an area.\<close>

lemma mem_inv_area:
  assumes inv: "mem_inv ss as ph" and a: "as a = Some A" and st: "area_step A ph A' ph'" and kept: "area_kept A A'"
  shows "mem_inv ss (as(a \<mapsto> A')) ph'" and "\<And>b B. b \<noteq> a \<Longrightarrow> as b = Some B \<Longrightarrow> area_bytes B (ph_mem ph') = area_bytes B (ph_mem ph)"
proof -
  note M = mem_invD [OF inv]
  have D: "phys_wf ph'" "area_wf A' ph'" "va_len A' = va_len A" "page_avail ph' \<subseteq> page_avail ph"
    "area_mem A' \<subseteq> area_mem A \<union> (page_avail ph - page_avail ph')"
    "\<And>x. x \<notin> area_mem A \<Longrightarrow> x \<notin> page_avail ph \<Longrightarrow> ph_mem ph' x = ph_mem ph x"
    using st unfolding area_step_def by blast+
  have B: "area_wf B ph" "0 < va_len B" "area_mem B \<inter> page_avail ph = {}" if "as b = Some B" for b B
    using M(2) that area_wf_avail [of B ph] unfolding areas_wf_def by blast+
  have apart: "area_mem B \<inter> area_mem A = {}" if "b \<noteq> a" "as b = Some B" for b B
    using M(2) that a unfolding areas_wf_def by blast
  then show bytes: "area_bytes B (ph_mem ph') = area_bytes B (ph_mem ph)" if "b \<noteq> a" "as b = Some B" for b B
    using that B [OF that(2)] by (intro area_bytes_frame [OF B(1) [OF that(2)]] D(6)) blast+
  have new: "area_mem B \<inter> area_mem A' = {}" if "b \<noteq> a" "as b = Some B" for b B using apart [OF that] B(3) [OF that(2)] D(5) by blast
  have areas: "areas_wf (as(a \<mapsto> A')) ph'"
    unfolding areas_wf_def
  proof (intro conjI allI impI)
    fix b C assume "(as(a \<mapsto> A')) b = Some C"
    then show "area_wf C ph'" "0 < va_len C"
      using D(2,3) B [OF a] B [of b C] area_wf_shrink_avail [OF _ D(4), of C] by (auto split: if_splits)
  next
    fix b c C C' assume "b \<noteq> c" "(as(a \<mapsto> A')) b = Some C" "(as(a \<mapsto> A')) c = Some C'"
    moreover have "area_mem C \<inter> area_mem C' = {}" if "b \<noteq> c" "as b = Some C" "as c = Some C'"
      using M(2) that unfolding areas_wf_def by blast
    ultimately show "area_mem C \<inter> area_mem C' = {}"
      using new [of b C] new [of c C'] by (cases "b = a"; cases "c = a") (auto simp: Int_commute)
  qed
  show "mem_inv ss (as(a \<mapsto> A')) ph'"
  proof (rule mem_inv_step [OF inv D(1) areas D(4)])
    fix s S assume s: "ss s = Some S"
    note W = space_wfD [OF M(3) [OF s]]
    have t: "space_tables S (ph_mem ph) \<inter> page_avail ph = {}" "area_mem A \<inter> space_tables S (ph_mem ph) = {}"
      using tables_not_avail [OF W(2)] W(4) [OF a] by blast+
    show "ph_mem ph' x = ph_mem ph x" if "x \<in> space_tables S (ph_mem ph)" for x using that t by (intro D(6)) blast+
    show "area_mem B \<inter> space_tables S (ph_mem ph) = {}" if "(as(a \<mapsto> A')) b = Some B" for b B
      using that W(4) [of b B] D(5) t by (cases "b = a") auto
    show "\<exists>B'. (as(a \<mapsto> A')) (mp_area mp) = Some B' \<and> area_kept B B'" if "as (mp_area mp) = Some B" for mp B
      using that a kept by auto
  qed
qed

lemma mset_vec_insert: "mset (vec_insert i x xs) = add_mset x (mset xs)"
  using mset_append [of "take i xs" "drop i xs"] by (simp add: vec_insert_def)

text \<open>Mapping an area: the page tables of one address space and the pages of one area grow, their contents stay.\<close>

lemma mem_inv_map:
  assumes inv: "mem_inv ss as ph" and s: "ss s = Some S" and a: "as a = Some A" and fit: "uaddr + va_len A \<le> 2 ^ 47" and at: "attrs < 8"
  shows "\<exists>r S' A' ph'. vmspace_map (Val ok) S as ph a uaddr attrs = Val (r, S', as(a \<mapsto> A'), ph') \<and> mem_inv (ss(s \<mapsto> S')) (as(a \<mapsto> A')) ph'
    \<and> (\<forall>b B. as b = Some B \<longrightarrow> (\<exists>B'. (as(a \<mapsto> A')) b = Some B' \<and> va_len B' = va_len B \<and> area_bytes B' (ph_mem ph') = area_bytes B (ph_mem ph)))
    \<and> set (vs_mappings S) \<subseteq> set (vs_mappings S')
    \<and> (case r of Inl _ \<Rightarrow> S' = S | Inr _ \<Rightarrow> space_areas S' = add_mset a (space_areas S))"
proof (cases "map_refusal ok S A uaddr")
  case (Some e)
  have "vmspace_map (Val ok) S as ph a uaddr attrs = Val (Inl e, S, as(a \<mapsto> A), ph)"
    using vmspace_map_refused [where as = as and a = a, OF a Some] a by (simp add: fun_upd_idem)
  then show ?thesis using inv s a by (intro exI [of _ "Inl e"] exI [of _ S] exI [of _ A] exI [of _ ph]) (simp add: fun_upd_idem)
next
  case None
  note M = mem_invD [OF inv] and W = space_wfD [OF mem_invD(3) [OF inv s]]
  let ?i = "partition_point (\<lambda>mp. mp_start mp < uaddr) (vs_mappings S)"
  let ?mp = "\<lparr>mp_start = uaddr, mp_end = uaddr + va_len A, mp_area = a, mp_attrs = attrs\<rparr>"
  obtain r S' A' ph' where run: "vmspace_map (Val ok) S as ph a uaddr attrs = Val (r, S', as(a \<mapsto> A'), ph')"
    and wf': "space_wf S' (as(a \<mapsto> A')) ph'" and st: "space_step (vs_arch S) A ph A' ph'"
    and res: "case r of Inl e \<Rightarrow> S' = S \<and> (e = OUT_OF_MEMORY
          \<or> e = ALREADY_EXISTS \<and> range_used (vs_arch S) ph (length (va_pages A)) uaddr)
        | Inr _ \<Rightarrow> S' = S\<lparr>vs_mappings := vec_insert ?i ?mp (vs_mappings S)\<rparr>"
    using vmspace_map_spec [where as = as and a = a, OF M(3) [OF s] a fit at None] by blast
  note T = space_stepD [OF st]
  have arch: "vs_arch S' = vs_arch S" using res by (cases r) auto
  have areas: "areas_wf (as(a \<mapsto> A')) ph'" "\<And>b B. b \<noteq> a \<Longrightarrow> as b = Some B \<Longrightarrow> area_bytes B (ph_mem ph') = area_bytes B (ph_mem ph)"
    using space_step_areas [where as = as and a = a, OF st a M(2)] W(4) by blast+
  have kept: "area_kept A A'" using T(4,10) area_wf_pages [OF W(7) [OF a] T(2,4)] by (simp add: area_kept_def)
  have other: "space_tables R (ph_mem ph) \<inter> page_avail ph = {}" "space_tables R (ph_mem ph) \<inter> space_tables S (ph_mem ph) = {}"
    "area_mem A \<inter> space_tables R (ph_mem ph) = {}" if "t \<noteq> s" "ss t = Some R" for t R
    using tables_not_avail [OF space_wfD(2) [OF M(3) [OF that(2)]]] M(4) [OF that s] space_wfD(4) [OF M(3) [OF that(2)] a] by blast+
  have same: "ph_mem ph' x = ph_mem ph x" if "t \<noteq> s" "ss t = Some R" "x \<in> space_tables R (ph_mem ph)" for t R x
    using other [OF that(1,2)] that(3) by (intro T(12)) blast+
  have rest: "mem_inv (ss(s := None)) (as(a \<mapsto> A')) ph'"
  proof (rule mem_inv_step [OF inv T(1) areas(1) T(5)])
    fix t R assume "(ss(s := None)) t = Some R"
    then have t: "t \<noteq> s" "ss t = Some R" by (auto split: if_splits)
    show "ss t = Some R" by (rule t(2))
    show "ph_mem ph' x = ph_mem ph x" if "x \<in> space_tables R (ph_mem ph)" for x by (rule same [OF t that])
    show "area_mem B \<inter> space_tables R (ph_mem ph) = {}" if "(as(a \<mapsto> A')) b = Some B" for b B
      using that space_wfD(4) [OF M(3) [OF t(2)], of b B] T(6) other [OF t] by (cases "b = a") auto
    show "\<exists>B'. (as(a \<mapsto> A')) (mp_area mp) = Some B' \<and> area_kept B B'" if "as (mp_area mp) = Some B" for mp B
      using that a kept by auto
  qed
  have apart: "space_tables R (ph_mem ph') \<inter> space_tables S' (ph_mem ph') = {}" if t: "t \<noteq> s" "ss t = Some R" for t R
  proof -
    have "pt_wf (ph_mem ph) (avs_root (vs_arch R)) (page_avail ph)" using space_wfD(2) [OF M(3) [OF t(2)]] by (simp add: arch_vs_wf_def)
    from pt_wf_frame(2) [OF this same [OF t] T(5)] show ?thesis using other [OF t] T(7) arch by auto
  qed
  have bytes: "\<exists>B'. (as(a \<mapsto> A')) b = Some B' \<and> va_len B' = va_len B \<and> area_bytes B' (ph_mem ph') = area_bytes B (ph_mem ph)"
    if "as b = Some B" for b B
    using areas(2) [of b B] that a T(4,9) by (cases "b = a") auto
  have "space_areas S' = add_mset a (space_areas S)" if "r = Inr ()"
    using res that by (simp add: mset_vec_insert)
  then show ?thesis
    using run mem_inv_add [OF rest wf' apart] bytes res
    by (intro exI [of _ r] exI [of _ S'] exI [of _ A'] exI [of _ ph']) (auto simp: set_vec_insert split: sum.splits)
qed

text \<open>Reading through an address space finds all pages in place and changes nothing.\<close>

lemma read_mappings_total:
  assumes "space_wf S as ph" and "set mps \<subseteq> set (vs_mappings S)" and "uaddr + length buf \<le> USIZE_MAX"
  shows "\<exists>r out. read_mappings as ph uaddr filled buf mps = Val (r, out, as, ph)"
  using assms(2,3)
proof (induction mps arbitrary: uaddr filled buf)
  case Nil
  then show ?case by simp
next
  case (Cons mp mps)
  show ?case
  proof (cases "buf \<noteq> [] \<and> mp_start mp \<le> uaddr \<and> uaddr < mp_end mp")
    case True
    let ?c = "min (length buf) (mp_end mp - uaddr)"
    have "uaddr + ?c + length (drop ?c buf) \<le> USIZE_MAX" using Cons.prems(2) by simp
    then show ?thesis
      using read_mappings_step [OF assms(1), of mp uaddr buf filled mps] True Cons.prems(1) Cons.IH [of "uaddr + ?c" "drop ?c buf"] by auto
  next
    case False
    then show ?thesis by auto
  qed
qed

lemma read_bytes_total:
  assumes "space_wf S as ph"
  shows "\<exists>r out. read_bytes S as ph uaddr buf = Val (r, out, as, ph)"
  using read_mappings_total [OF assms set_drop_subset]
  by (auto simp: read_bytes_def uaddr_add_def checked_add_def split: option.splits)

text \<open>A write only adds pages to its area.\<close>

lemma get_or_fill_kept: "get_or_fill A ph i = Val (r, A', ph') \<Longrightarrow> area_kept A A'"
  by (auto simp: get_or_fill_def area_kept_def exec_bind_Val_iff nth_list_update split: option.splits sum.splits if_splits)

lemma write_loop_kept: "write_loop A ph offset data = Val (r, A', ph') \<Longrightarrow> area_kept A A'"
proof (induction A ph offset data rule: write_loop.induct)
  case (1 A ph offset data)
  show ?case
  proof (cases "data = []")
    case True
    then show ?thesis using "1.prems" by (simp add: write_loop.simps)
  next
    case False
    let ?n = "min (length data) (MIN_PAGE_SIZE - offset mod MIN_PAGE_SIZE)"
    obtain q B ph1 where g: "get_or_fill A ph (offset div MIN_PAGE_SIZE) = Val (q, B, ph1)"
      using "1.prems" False by (cases "get_or_fill A ph (offset div MIN_PAGE_SIZE)") (auto simp: write_loop.simps Let_def)
    note AB = get_or_fill_kept [OF g]
    show ?thesis
    proof (cases q)
      case (Inl e)
      then show ?thesis using "1.prems" g False AB by (simp add: write_loop.simps Let_def)
    next
      case (Inr p)
      then obtain offset' ph2 where "write_loop B ph2 offset' (drop ?n data) = Val (r, A', ph')"
        "usize_add offset ?n = Val offset'" "ph2 = ph1\<lparr>ph_mem := mem_write (ph_mem ph1) (vaddr2paddr (paddr2vaddr p) + offset mod MIN_PAGE_SIZE) (take ?n data)\<rparr>"
        using "1.prems" g False by (auto simp: write_loop.simps [of A] Let_def exec_bind_Val_iff)
      then show ?thesis using "1.IH" [OF False refl refl refl] AB area_kept_trans by blast
    qed
  qed
qed

lemma area_write_kept: "area_write A ph offset data = Val (r, A', ph') \<Longrightarrow> area_kept A A'"
  using write_loop_kept by (auto simp: area_write_def split: option.splits if_splits)

end
