(* ===== verification/Supercalls.thy ===== *)
theory Supercalls
  imports Kernel GlobalAlloc
begin

text \<open>
  \<open>kernel/src/server.rs\<close>: the supercalls, the calls of the servers into the kernel, as the functions of
  \<open>START_INFO\<close>, and the thin wrappers of \<open>ftl_api\<close> around them. Kernel objects are named by handles. The
  environment \<open>E\<close> holds what the source leaves to the compiler, the linker and the kernel heap: the
  offset of the value in each kind of reference-counted object, the address of \<open>BOOT_PDPT\<close>, where a new
  object is placed, and whether a vector can grow (by one element, or to a given number of page slots).
  In each of the last three the kernel's global allocator may panic, as it does when it is out of memory.
\<close>

record env =
  en_off :: "obj_type \<Rightarrow> nat"
  en_pdpt :: VAddr
  en_alloc :: "obj_type \<Rightarrow> kernel \<Rightarrow> nat option exec"
  en_reserve :: "kernel \<Rightarrow> bool exec"
  en_reserve_exact :: "kernel \<Rightarrow> usize \<Rightarrow> bool exec"

text \<open>An environment whose heap has room for one object of each kind and for 8192 slots.\<close>

definition example_env :: env where
  "example_env = \<lparr>en_off = (\<lambda>_. 8), en_pdpt = paddr2vaddr 0x3000,
     en_alloc = (\<lambda>T K. if (case T of ThreadT \<Rightarrow> k_threads K 0x9000 = None | VmSpaceT \<Rightarrow> k_spaces K 0x9000 = None
       | VmAreaT \<Rightarrow> k_areas K 0x9000 = None) then Val (Some 0x9000) else Panic),
     en_reserve = (\<lambda>_. Val True), en_reserve_exact = (\<lambda>_ n. if n \<le> 8192 then Val True else Panic)\<rparr>"

section \<open>Handles\<close>

definition borrow_thread :: "env \<Rightarrow> Handle \<Rightarrow> HandleRight \<Rightarrow> kernel \<Rightarrow> ((ErrorCode + nat) \<times> kernel) exec" where
  "borrow_thread E h action K = exec_bind (from_borrowed_handle ThreadT (en_off E ThreadT) h action (k_threads K))
     (\<lambda>(r, s). Val (r, K\<lparr>k_threads := s\<rparr>))"

definition borrow_space :: "env \<Rightarrow> Handle \<Rightarrow> HandleRight \<Rightarrow> kernel \<Rightarrow> ((ErrorCode + nat) \<times> kernel) exec" where
  "borrow_space E h action K = exec_bind (from_borrowed_handle VmSpaceT (en_off E VmSpaceT) h action (k_spaces K))
     (\<lambda>(r, s). Val (r, K\<lparr>k_spaces := s\<rparr>))"

definition borrow_area :: "env \<Rightarrow> Handle \<Rightarrow> HandleRight \<Rightarrow> kernel \<Rightarrow> ((ErrorCode + nat) \<times> kernel) exec" where
  "borrow_area E h action K = exec_bind (from_borrowed_handle VmAreaT (en_off E VmAreaT) h action (k_areas K))
     (\<lambda>(r, s). Val (r, K\<lparr>k_areas := s\<rparr>))"

text \<open>Areas are changed in place: their values go back into the store, the counters stay.\<close>

definition put_areas :: "areas \<Rightarrow> VmArea refs \<Rightarrow> VmArea refs" where
  "put_areas as s p = (case s p of None \<Rightarrow> None | Some r \<Rightarrow> Some (case as p of None \<Rightarrow> r | Some A \<Rightarrow> r\<lparr>rc_value := A\<rparr>))"

definition set_space :: "nat \<Rightarrow> VmSpace \<Rightarrow> kernel \<Rightarrow> kernel" where
  "set_space p S K = K\<lparr>k_spaces := set_value p (\<lambda>_. S) (k_spaces K)\<rparr>"

abbreviation areas_of :: "kernel \<Rightarrow> areas" where
  "areas_of K \<equiv> refs_object (k_areas K)"

definition put_memory :: "areas \<Rightarrow> phys \<Rightarrow> kernel \<Rightarrow> kernel" where
  "put_memory as ph K = K\<lparr>k_areas := put_areas as (k_areas K), k_phys := ph\<rparr>"

section \<open>The functions of START\_INFO\<close>

definition sc_malloc :: "usize \<Rightarrow> kernel \<Rightarrow> ((ErrorCode + nat) \<times> kernel) exec" where
  "sc_malloc sz K = exec_bind (supercall_malloc (k_phys K) sz) (\<lambda>(r, ph). Val (r, K\<lparr>k_phys := ph\<rparr>))"

text \<open>The outcome is none when the serial port never becomes ready.\<close>

definition sc_print :: "u8 list \<Rightarrow> kernel \<Rightarrow> kernel option" where
  "sc_print bytes K = map_option (\<lambda>M. K\<lparr>k_machine := M\<rparr>) (console_write bytes (k_machine K))"

definition sc_panic :: "kernel \<Rightarrow> 'a exec" where
  "sc_panic K = Panic"

definition sc_vmspace_create :: "env \<Rightarrow> kernel \<Rightarrow> ((ErrorCode + Handle) \<times> kernel) exec" where
  "sc_vmspace_create E K = exec_bind (vmspace_new (en_pdpt E) (k_phys K)) (\<lambda>(r, ph).
     let K = K\<lparr>k_phys := ph\<rparr> in case r of
       Inl e \<Rightarrow> Val (Inl e, K)
     | Inr S \<Rightarrow> exec_bind (sr_new (en_alloc E VmSpaceT K) S (k_spaces K)) (\<lambda>(r, s). case r of
         Inl e \<Rightarrow> Val (Inl e, K\<lparr>k_spaces := s\<rparr>)
       | Inr p \<Rightarrow> Val (Inr (into_handle VmSpaceT (en_off E VmSpaceT) p), K\<lparr>k_spaces := s\<rparr>)))"

definition sc_vmarea_allocate :: "env \<Rightarrow> usize \<Rightarrow> kernel \<Rightarrow> ((ErrorCode + Handle) \<times> kernel) exec" where
  "sc_vmarea_allocate E len K = exec_bind (new_anonymous (en_reserve_exact E K) len) (\<lambda>r. case r of
       Inl e \<Rightarrow> Val (Inl e, K)
     | Inr A \<Rightarrow> exec_bind (sr_new (en_alloc E VmAreaT K) A (k_areas K)) (\<lambda>(r, s). case r of
         Inl e \<Rightarrow> Val (Inl e, K\<lparr>k_areas := s\<rparr>)
       | Inr p \<Rightarrow> Val (Inr (into_handle VmAreaT (en_off E VmAreaT) p), K\<lparr>k_areas := s\<rparr>)))"

definition sc_vmarea_write :: "env \<Rightarrow> Handle \<Rightarrow> usize \<Rightarrow> u8 list \<Rightarrow> kernel \<Rightarrow> ((ErrorCode + unit) \<times> kernel) exec" where
  "sc_vmarea_write E vmarea offset data K =
     exec_try (borrow_area E vmarea RIGHT_WRITE K) (\<lambda>a K.
     exec_bind (sr_deref a (k_areas K)) (\<lambda>A.
     exec_bind (area_write A (k_phys K) offset data) (\<lambda>(r, A, ph).
     exec_bind (drop_area a (put_memory [a \<mapsto> A] ph K)) (\<lambda>K. Val (r, K)))))"

text \<open>\<open>map\<close> takes its reference to the area over: a failure drops it, a success keeps it in the mapping.\<close>

definition sc_vmspace_map :: "env \<Rightarrow> Handle \<Rightarrow> Handle \<Rightarrow> usize \<Rightarrow> PageAttrs \<Rightarrow> kernel \<Rightarrow> ((ErrorCode + unit) \<times> kernel) exec" where
  "sc_vmspace_map E vmspace vmarea uaddr attrs K =
     exec_try (borrow_space E vmspace RIGHT_MAP K) (\<lambda>s K.
     exec_bind
       (exec_try (borrow_area E vmarea RIGHT_MAP K) (\<lambda>a K.
        exec_bind (sr_deref s (k_spaces K)) (\<lambda>S.
        exec_bind (vmspace_map (en_reserve E K) S (areas_of K) (k_phys K) a uaddr attrs) (\<lambda>(r, S, as, ph).
          let K = set_space s S (put_memory as ph K) in case r of
            Inl e \<Rightarrow> exec_bind (drop_area a K) (\<lambda>K. Val (Inl e, K))
          | Inr _ \<Rightarrow> Val (Inr (), K)))))
       (\<lambda>(r, K). exec_bind (drop_space s K) (\<lambda>K. Val (r, K))))"

definition sc_vmspace_read :: "env \<Rightarrow> Handle \<Rightarrow> usize \<Rightarrow> u8 list \<Rightarrow> kernel \<Rightarrow> ((ErrorCode + unit) \<times> u8 list \<times> kernel) exec" where
  "sc_vmspace_read E vmspace uaddr buf K =
     exec_bind (borrow_space E vmspace RIGHT_READ K) (\<lambda>(r, K). case r of
       Inl e \<Rightarrow> Val (Inl e, buf, K)
     | Inr s \<Rightarrow>
         exec_bind (sr_deref s (k_spaces K)) (\<lambda>S.
         exec_bind (read_bytes S (areas_of K) (k_phys K) uaddr buf) (\<lambda>(r, buf, as, ph).
         exec_bind (drop_space s (put_memory as ph K)) (\<lambda>K. Val (r, buf, K)))))"

definition sc_thread_create :: "env \<Rightarrow> Handle \<Rightarrow> nat \<Rightarrow> kernel \<Rightarrow> ((ErrorCode + Handle) \<times> kernel) exec" where
  "sc_thread_create E vmspace upcall K =
     exec_try (borrow_space E vmspace RIGHT_MAP K) (\<lambda>s K.
     exec_try (thread_new (en_alloc E ThreadT K) s upcall K) (\<lambda>p K.
       Val (Inr (into_handle ThreadT (en_off E ThreadT) p), K)))"

definition sc_thread_get_context :: "env \<Rightarrow> Handle \<Rightarrow> ContextKind \<Rightarrow> ContextData \<Rightarrow> kernel \<Rightarrow> ((ErrorCode + ContextData) \<times> kernel) exec" where
  "sc_thread_get_context E thread kind regs K =
     exec_try (borrow_thread E thread RIGHT_READ K) (\<lambda>t K.
     exec_bind (thread_read_context t kind regs K) (\<lambda>r.
     exec_bind (drop_thread t K) (\<lambda>K. Val (r, K))))"

definition sc_thread_set_context :: "env \<Rightarrow> Handle \<Rightarrow> ContextKind \<Rightarrow> ContextData \<Rightarrow> kernel \<Rightarrow> ((ErrorCode + unit) \<times> kernel) exec" where
  "sc_thread_set_context E thread kind regs K =
     exec_try (borrow_thread E thread RIGHT_WRITE K) (\<lambda>t K.
     exec_bind (thread_write_context t kind regs K) (\<lambda>(r, K).
     exec_bind (drop_thread t K) (\<lambda>K. Val (r, K))))"

definition sc_thread_unblock :: "env \<Rightarrow> Handle \<Rightarrow> kernel \<Rightarrow> ((ErrorCode + unit) \<times> kernel) exec" where
  "sc_thread_unblock E thread K =
     exec_try (borrow_thread E thread RIGHT_WRITE K) (\<lambda>t K.
     exec_bind (thread_unblock (en_reserve E K) t K) (\<lambda>(r, K).
     exec_bind (drop_thread t K) (\<lambda>K. Val (r, K))))"

definition sc_thread_terminate :: "env \<Rightarrow> 's upcalls \<Rightarrow> Handle \<Rightarrow> kernel \<times> 's \<Rightarrow> ((ErrorCode + unit) \<times> kernel \<times> 's) exec" where
  "sc_thread_terminate E up thread = (\<lambda>(K, \<sigma>).
     exec_bind (borrow_thread E thread RIGHT_WRITE K) (\<lambda>(r, K). case r of
       Inl e \<Rightarrow> Val (Inl e, K, \<sigma>)
     | Inr t \<Rightarrow>
         exec_bind (thread_terminate up t (K, \<sigma>)) (\<lambda>(r, K, \<sigma>).
         exec_bind (drop_thread t K) (\<lambda>K. Val (r, K, \<sigma>)))))"

definition sc_thread_destroy :: "env \<Rightarrow> Handle \<Rightarrow> kernel \<Rightarrow> ((ErrorCode + unit) \<times> kernel) exec" where
  "sc_thread_destroy E thread K = (case from_moved_handle ThreadT (en_off E ThreadT) thread of
     Inl e \<Rightarrow> Val (Inl e, K)
   | Inr t \<Rightarrow> exec_bind (drop_thread t K) (\<lambda>K. Val (Inr (), K)))"

section \<open>The wrappers of ftl\_api\<close>

text \<open>
  \<open>VmSpace\<close> and \<open>VmArea\<close> of the servers' library hold a handle; they have no destructor yet, so that their
  kernel objects live on. A \<open>Thread\<close> destroys its kernel object when it is dropped; that \<open>thread_destroy\<close>
  fails is only logged.
\<close>

record ApiVmSpace =
  avm_handle :: Handle

record ApiVmArea =
  ava_handle :: Handle

record ApiThread =
  ath_handle :: Handle

definition api_vmspace_create :: "env \<Rightarrow> kernel \<Rightarrow> ((ErrorCode + ApiVmSpace) \<times> kernel) exec" where
  "api_vmspace_create E K = exec_try (sc_vmspace_create E K) (\<lambda>h K. Val (Inr \<lparr>avm_handle = h\<rparr>, K))"

definition api_vmspace_map :: "env \<Rightarrow> ApiVmSpace \<Rightarrow> ApiVmArea \<Rightarrow> usize \<Rightarrow> PageAttrs \<Rightarrow> kernel \<Rightarrow> ((ErrorCode + unit) \<times> kernel) exec" where
  "api_vmspace_map E vmspace vmarea uaddr attrs K = sc_vmspace_map E (avm_handle vmspace) (ava_handle vmarea) uaddr attrs K"

definition api_read_bytes :: "env \<Rightarrow> ApiVmSpace \<Rightarrow> usize \<Rightarrow> u8 list \<Rightarrow> kernel \<Rightarrow> ((ErrorCode + unit) \<times> u8 list \<times> kernel) exec" where
  "api_read_bytes E vmspace uaddr buf K = sc_vmspace_read E (avm_handle vmspace) uaddr buf K"

definition api_vmarea_allocate :: "env \<Rightarrow> usize \<Rightarrow> kernel \<Rightarrow> ((ErrorCode + ApiVmArea) \<times> kernel) exec" where
  "api_vmarea_allocate E len K = exec_try (sc_vmarea_allocate E len K) (\<lambda>h K. Val (Inr \<lparr>ava_handle = h\<rparr>, K))"

definition api_vmarea_write :: "env \<Rightarrow> ApiVmArea \<Rightarrow> usize \<Rightarrow> u8 list \<Rightarrow> kernel \<Rightarrow> ((ErrorCode + unit) \<times> kernel) exec" where
  "api_vmarea_write E vmarea offset data K = sc_vmarea_write E (ava_handle vmarea) offset data K"

definition api_get_context :: "env \<Rightarrow> ApiThread \<Rightarrow> ContextKind \<Rightarrow> ContextData \<Rightarrow> kernel \<Rightarrow> ((ErrorCode + ContextData) \<times> kernel) exec" where
  "api_get_context E thread kind regs K = sc_thread_get_context E (ath_handle thread) kind regs K"

definition api_set_context :: "env \<Rightarrow> ApiThread \<Rightarrow> ContextKind \<Rightarrow> ContextData \<Rightarrow> kernel \<Rightarrow> ((ErrorCode + unit) \<times> kernel) exec" where
  "api_set_context E thread kind regs K = sc_thread_set_context E (ath_handle thread) kind regs K"

definition api_unblock :: "env \<Rightarrow> ApiThread \<Rightarrow> kernel \<Rightarrow> ((ErrorCode + unit) \<times> kernel) exec" where
  "api_unblock E thread K = sc_thread_unblock E (ath_handle thread) K"

definition api_terminate :: "env \<Rightarrow> 's upcalls \<Rightarrow> ApiThread \<Rightarrow> kernel \<times> 's \<Rightarrow> ((ErrorCode + unit) \<times> kernel \<times> 's) exec" where
  "api_terminate E up thread w = sc_thread_terminate E up (ath_handle thread) w"

definition api_thread_drop :: "env \<Rightarrow> ApiThread \<Rightarrow> kernel \<Rightarrow> kernel exec" where
  "api_thread_drop E thread K = exec_bind (sc_thread_destroy E (ath_handle thread) K) (\<lambda>(r, K). Val K)"

section \<open>Calls on a live thread\<close>

text \<open>An object with references, few enough to take two more.\<close>

definition alive :: "'a refs \<Rightarrow> nat \<Rightarrow> 'a RefCounted \<Rightarrow> bool" where
  "alive s p r \<longleftrightarrow> s p = Some r \<and> 0 < rc_counter r \<and> unat (rc_counter r) + 2 \<le> USIZE_MAX"

abbreviation thread_handle :: "env \<Rightarrow> nat \<Rightarrow> Handle" where
  "thread_handle E t \<equiv> into_handle ThreadT (en_off E ThreadT) t"

lemma aliveD: "alive s p r \<Longrightarrow> s p = Some r" "alive s p r \<Longrightarrow> 0 < rc_counter r"
  by (simp_all add: alive_def)

lemma live_counter:
  assumes "alive s p r"
  shows "0 < rc_counter r + 1" and "rc_counter r + 1 \<noteq> 1" and "0 < rc_counter r + 2" and "rc_counter r + 2 \<noteq> 1"
proof -
  have c: "0 < unat (rc_counter r)" using assms by (simp add: alive_def word_gt_0_no word_neq_0_conv unat_gt_0)
  have "unat (rc_counter r + 1) = unat (rc_counter r) + 1"
    using assms by (simp add: alive_def u64_inc)
  moreover have "unat (rc_counter r + 1 + 1) = unat (rc_counter r) + 2"
    using assms calculation by (subst u64_inc) (simp_all add: alive_def)
  ultimately have u: "unat (rc_counter r + 1) = unat (rc_counter r) + 1" "unat (rc_counter r + 2) = unat (rc_counter r) + 2"
    by (simp_all add: add.assoc)
  show "0 < rc_counter r + 1" "0 < rc_counter r + 2" using u by (simp_all add: word_less_nat_alt)
  show "rc_counter r + 1 \<noteq> 1" "rc_counter r + 2 \<noteq> 1" using u c by (auto simp: word_unat_eq_iff)
qed

lemma sr_clone_live: "alive s p r \<Longrightarrow> sr_clone p s = Val (s(p \<mapsto> r\<lparr>rc_counter := rc_counter r + 1\<rparr>))"
  by (simp add: alive_def sr_clone_def sr_inner_def assert_exec_def)

lemma sr_drop_shared:
  "s p = Some r \<Longrightarrow> 0 < rc_counter r \<Longrightarrow> rc_counter r \<noteq> 1 \<Longrightarrow> sr_drop p s = Val (None, s(p \<mapsto> r\<lparr>rc_counter := rc_counter r - 1\<rparr>))"
  by (simp add: sr_drop_def sr_inner_def assert_exec_def Let_def)

lemma borrow_thread_live:
  assumes "alive (k_threads K) t r" and "right_contains (default_right ThreadT) action"
  shows "borrow_thread E (thread_handle E t) action K =
    Val (Inr t, K\<lparr>k_threads := (k_threads K)(t \<mapsto> r\<lparr>rc_counter := rc_counter r + 1\<rparr>)\<rparr>)"
  using assms sr_clone_live [OF assms(1)] by (simp add: borrow_thread_def from_borrowed_handle_def clone_from_raw_def Let_def)

lemma drop_thread_shared:
  "k_threads K t = Some r \<Longrightarrow> 0 < rc_counter r \<Longrightarrow> rc_counter r \<noteq> 1 \<Longrightarrow>
     drop_thread t K = Val (K\<lparr>k_threads := (k_threads K)(t \<mapsto> r\<lparr>rc_counter := rc_counter r - 1\<rparr>)\<rparr>)"
  by (simp add: drop_thread_def sr_drop_shared)

lemma thread_rights: "right_contains (default_right ThreadT) RIGHT_READ" "right_contains (default_right ThreadT) RIGHT_WRITE"
  by (simp_all add: right_contains_def right_or_def RIGHT_READ_def RIGHT_WRITE_def)

lemma kernel_threads_same: "k_threads K t = Some r \<Longrightarrow> K\<lparr>k_threads := (k_threads K)(t \<mapsto> r)\<rparr> = K"
  by (simp add: fun_upd_idem)

lemma get_context_live:
  assumes l: "alive (k_threads K) t r"
  shows "sc_thread_get_context E (thread_handle E t) kind regs K =
    Val (if mt_state (th_mutable (rc_value r)) = Blocked then Inr (arch_read_context (th_arch (rc_value r)) kind regs) else Inl INVALID_STATE, K)"
  using live_counter [OF l] aliveD [OF l]
  by (simp add: sc_thread_get_context_def borrow_thread_live [OF l thread_rights(1)] thread_read_context_def get_thread_def sr_deref_def
      sr_inner_def drop_thread_shared fun_upd_idem)

lemma set_context_live:
  assumes l: "alive (k_threads K) t r" and "mt_state (th_mutable (rc_value r)) = Blocked"
  shows "sc_thread_set_context E (thread_handle E t) kind regs K =
    Val (Inr (), K\<lparr>k_threads := (k_threads K)(t \<mapsto> r\<lparr>rc_value := (rc_value r)\<lparr>th_arch := arch_write_context (th_arch (rc_value r)) kind regs\<rparr>\<rparr>)\<rparr>)"
  using live_counter [OF l] aliveD [OF l] assms(2)
  by (simp add: sc_thread_set_context_def borrow_thread_live [OF l thread_rights(2)] thread_write_context_def get_thread_def sr_deref_def
      sr_inner_def drop_thread_shared set_value_def)

lemma unblock_live:
  assumes l: "alive (k_threads K) t r" and "mt_state (th_mutable (rc_value r)) = Blocked" and "\<And>K. en_reserve E K = Val True"
  shows "sc_thread_unblock E (thread_handle E t) K =
    Val (Inr (), K\<lparr>k_threads := (k_threads K)(t \<mapsto> r\<lparr>rc_counter := rc_counter r + 1,
        rc_value := (rc_value r)\<lparr>th_mutable := (th_mutable (rc_value r))\<lparr>mt_state := Runnable\<rparr>\<rparr>\<rparr>),
      k_runqueue := k_runqueue K @ [t]\<rparr>)"
  using live_counter [OF l] aliveD [OF l] assms(2,3)
  by (simp add: sc_thread_unblock_def borrow_thread_live [OF l thread_rights(2)] thread_unblock_def get_thread_def sr_deref_def
      sr_inner_def drop_thread_shared set_mutable_def set_value_def clone_thread_def sr_clone_def assert_exec_def push_back_def add.assoc)
     (cases K; cases r; simp add: add.commute)

lemma terminate_live:
  assumes l: "alive (k_threads K) t r" and "mt_state (th_mutable (rc_value r)) \<noteq> Terminated" and "0 < mt_in_upcalls (th_mutable (rc_value r))"
  shows "sc_thread_terminate E up (thread_handle E t) (K, \<sigma>) =
    Val (Inr (), K\<lparr>k_threads := (k_threads K)(t \<mapsto> r\<lparr>rc_value := (rc_value r)\<lparr>th_mutable := (th_mutable (rc_value r))\<lparr>mt_state := Terminated\<rparr>\<rparr>\<rparr>)\<rparr>, \<sigma>)"
  using live_counter [OF l] aliveD [OF l] assms(2,3)
  by (simp add: sc_thread_terminate_def borrow_thread_live [OF l thread_rights(2)] thread_terminate_def get_thread_def sr_deref_def
      sr_inner_def drop_thread_shared set_mutable_def set_value_def terminate_section_def)

text \<open>A read that leaves memory as it was also leaves the kernel as it was.\<close>

abbreviation space_handle :: "env \<Rightarrow> nat \<Rightarrow> Handle" where
  "space_handle E s \<equiv> into_handle VmSpaceT (en_off E VmSpaceT) s"

lemma put_areas_same [simp]: "put_areas (refs_object s) s = s"
  by (rule ext) (simp add: put_areas_def refs_object_def split: option.splits)

lemma put_memory_same [simp]: "put_memory (areas_of K) (k_phys K) K = K"
  by (simp add: put_memory_def)

lemma vmspace_read_live:
  assumes l: "alive (k_spaces K) s r" and "read_bytes (rc_value r) (areas_of K) (k_phys K) uaddr buf = Val (res, out, areas_of K, k_phys K)"
  shows "sc_vmspace_read E (space_handle E s) uaddr buf K = Val (res, out, K)"
proof -
  let ?s = "(k_spaces K)(s \<mapsto> r\<lparr>rc_counter := rc_counter r + 1\<rparr>)"
  let ?K = "K\<lparr>k_spaces := ?s\<rparr>"
  have right: "right_contains (default_right VmSpaceT) RIGHT_READ"
    by (simp add: right_contains_def right_or_def RIGHT_READ_def RIGHT_WRITE_def RIGHT_MAP_def)
  have b: "borrow_space E (space_handle E s) RIGHT_READ K = Val (Inr s, ?K)"
    using sr_clone_live [OF l] right by (simp add: borrow_space_def from_borrowed_handle_def clone_from_raw_def Let_def del: default_right.simps)
  have d: "drop_space s ?K = Val K"
    using live_counter [OF l] aliveD [OF l]
    by (simp add: drop_space_def sr_drop_shared [where r = "r\<lparr>rc_counter := rc_counter r + 1\<rparr>"] fun_upd_idem)
  have "put_memory (areas_of K) (k_phys K) ?K = ?K" using put_memory_same [of ?K] by simp
  then show ?thesis using b d assms(2) by (simp add: sc_vmspace_read_def sr_deref_def sr_inner_def)
qed

end
