(* ===== verification/Protection.thy ===== *)
theory Protection
  imports Supercalls AddressSpaces
begin

text \<open>
  The supercalls together: what a server can do to the kernel and to other programs with the handles it
  has. The invariant is that of the references and the scheduler and that of the memory of all address
  spaces. Every call of a server on handles it holds returns, keeps the invariant, and changes no byte that
  user code sees but those of the area it writes to; only a kernel heap that is out of memory makes it panic.
\<close>

section \<open>The calls of a server\<close>

text \<open>The functions of \<open>StartInfo\<close>, with their arguments, and what they return.\<close>

datatype call =
    Malloc usize
  | Print "u8 list"
  | ServerPanic
  | VmSpaceCreate
  | VmAreaAllocate usize
  | VmAreaWrite Handle usize "u8 list"
  | VmSpaceMap Handle Handle usize PageAttrs
  | VmSpaceRead Handle usize "u8 list"
  | ThreadCreate Handle nat
  | ThreadGetContext Handle ContextKind ContextData
  | ThreadSetContext Handle ContextKind ContextData
  | ThreadUnblock Handle
  | ThreadTerminate Handle
  | ThreadDestroy Handle

datatype reply = Failed ErrorCode | Success | Pointer nat | Object Handle | Buffer "ErrorCode + unit" "u8 list" | Registers ContextData

abbreviation replying :: "('a \<Rightarrow> reply) \<Rightarrow> 's \<Rightarrow> ((ErrorCode + 'a) \<times> kernel) exec \<Rightarrow> (reply \<times> kernel \<times> 's) exec" where
  "replying f \<sigma> m \<equiv> exec_bind m (\<lambda>(r, K). Val (case r of Inl e \<Rightarrow> Failed e | Inr v \<Rightarrow> f v, K, \<sigma>))"

text \<open>The result is none when the serial port never becomes ready for the bytes to print.\<close>

fun supercall :: "env \<Rightarrow> 's upcalls \<Rightarrow> call \<Rightarrow> kernel \<times> 's \<Rightarrow> (reply \<times> kernel \<times> 's) exec option" where
  "supercall E up (Malloc sz) (K, \<sigma>) = Some (replying Pointer \<sigma> (sc_malloc sz K))"
| "supercall E up (Print bytes) (K, \<sigma>) = map_option (\<lambda>K. Val (Success, K, \<sigma>)) (sc_print bytes K)"
| "supercall E up ServerPanic (K, \<sigma>) = Some (sc_panic K)"
| "supercall E up VmSpaceCreate (K, \<sigma>) = Some (replying Object \<sigma> (sc_vmspace_create E K))"
| "supercall E up (VmAreaAllocate len) (K, \<sigma>) = Some (replying Object \<sigma> (sc_vmarea_allocate E len K))"
| "supercall E up (VmAreaWrite vmarea offset data) (K, \<sigma>) = Some (replying (\<lambda>_. Success) \<sigma> (sc_vmarea_write E vmarea offset data K))"
| "supercall E up (VmSpaceMap vmspace vmarea uaddr attrs) (K, \<sigma>) =
     Some (replying (\<lambda>_. Success) \<sigma> (sc_vmspace_map E vmspace vmarea uaddr attrs K))"
| "supercall E up (VmSpaceRead vmspace uaddr buf) (K, \<sigma>) =
     Some (exec_bind (sc_vmspace_read E vmspace uaddr buf K) (\<lambda>(r, buf, K). Val (Buffer r buf, K, \<sigma>)))"
| "supercall E up (ThreadCreate vmspace upcall) (K, \<sigma>) = Some (replying Object \<sigma> (sc_thread_create E vmspace upcall K))"
| "supercall E up (ThreadGetContext thread kind regs) (K, \<sigma>) = Some (replying Registers \<sigma> (sc_thread_get_context E thread kind regs K))"
| "supercall E up (ThreadSetContext thread kind regs) (K, \<sigma>) = Some (replying (\<lambda>_. Success) \<sigma> (sc_thread_set_context E thread kind regs K))"
| "supercall E up (ThreadUnblock thread) (K, \<sigma>) = Some (replying (\<lambda>_. Success) \<sigma> (sc_thread_unblock E thread K))"
| "supercall E up (ThreadTerminate thread) (K, \<sigma>) = Some (exec_bind (sc_thread_terminate E up thread (K, \<sigma>)) (\<lambda>(r, K, \<sigma>).
     Val (case r of Inl e \<Rightarrow> Failed e | Inr _ \<Rightarrow> Success, K, \<sigma>)))"
| "supercall E up (ThreadDestroy thread) (K, \<sigma>) = Some (replying (\<lambda>_. Success) \<sigma> (sc_thread_destroy E thread K))"

text \<open>The global allocator panics on a request that the call makes in the state \<open>K\<close>.\<close>

fun heap_panics :: "env \<Rightarrow> call \<Rightarrow> kernel \<Rightarrow> bool" where
  "heap_panics E VmSpaceCreate K \<longleftrightarrow> en_alloc E VmSpaceT K = Panic"
| "heap_panics E (VmAreaAllocate len) K \<longleftrightarrow> en_reserve_exact E K (len div MIN_PAGE_SIZE) = Panic \<or> en_alloc E VmAreaT K = Panic"
| "heap_panics E (VmSpaceMap _ _ _ _) K \<longleftrightarrow> en_reserve E K = Panic"
| "heap_panics E (ThreadCreate _ _) K \<longleftrightarrow> en_alloc E ThreadT K = Panic"
| "heap_panics E (ThreadUnblock _) K \<longleftrightarrow> en_reserve E K = Panic"
| "heap_panics E _ K \<longleftrightarrow> False"

text \<open>
  The handles that servers hold change with the calls: new objects come with a handle, and \<open>thread_destroy\<close>
  takes one back.
\<close>

definition handles_after :: "call \<Rightarrow> reply \<Rightarrow> Handle multiset \<Rightarrow> Handle multiset" where
  "handles_after c r H = (case r of Object h \<Rightarrow> add_mset h H
     | Success \<Rightarrow> (case c of ThreadDestroy h \<Rightarrow> H - {#h#} | _ \<Rightarrow> H)
     | _ \<Rightarrow> H)"

abbreviation obj_of :: "env \<Rightarrow> obj_type \<Rightarrow> Handle \<Rightarrow> nat" where
  "obj_of E T h \<equiv> from_raw (en_off E T) (hd_raw h)"

text \<open>The area whose contents a call changes.\<close>

definition written :: "env \<Rightarrow> call \<Rightarrow> nat set" where
  "written E c = (case c of VmAreaWrite h _ _ \<Rightarrow> if is_type h VmAreaT then {obj_of E VmAreaT h} else {} | _ \<Rightarrow> {})"

text \<open>
  What a caller owes: it holds the handles it names (of whatever kind and rights), asks \<open>malloc\<close> for whole
  pages, prints while the serial port gets ready, does not ask for a panic, maps below the end of the user
  half, and terminates a thread only while its upcall is in progress, as an exit does.
\<close>

fun call_ok :: "env \<Rightarrow> kernel \<Rightarrow> Handle multiset \<Rightarrow> call \<Rightarrow> bool" where
  "call_ok E K H (Malloc sz) \<longleftrightarrow> 0 < sz \<and> MIN_PAGE_SIZE dvd sz"
| "call_ok E K H (Print bytes) \<longleftrightarrow> console_write bytes (k_machine K) \<noteq> None"
| "call_ok E K H ServerPanic \<longleftrightarrow> False"
| "call_ok E K H VmSpaceCreate \<longleftrightarrow> True"
| "call_ok E K H (VmAreaAllocate len) \<longleftrightarrow> len \<le> USIZE_MAX"
| "call_ok E K H (VmAreaWrite vmarea offset data) \<longleftrightarrow> vmarea \<in># H"
| "call_ok E K H (VmSpaceMap vmspace vmarea uaddr attrs) \<longleftrightarrow> vmspace \<in># H \<and> vmarea \<in># H \<and> attrs < 8
     \<and> (\<forall>A. is_type vmarea VmAreaT \<longrightarrow> areas_of K (obj_of E VmAreaT vmarea) = Some A \<longrightarrow> uaddr + va_len A \<le> 2 ^ 47)"
| "call_ok E K H (VmSpaceRead vmspace uaddr buf) \<longleftrightarrow> vmspace \<in># H"
| "call_ok E K H (ThreadCreate vmspace upcall) \<longleftrightarrow> vmspace \<in># H"
| "call_ok E K H (ThreadGetContext thread kind regs) \<longleftrightarrow> thread \<in># H"
| "call_ok E K H (ThreadSetContext thread kind regs) \<longleftrightarrow> thread \<in># H"
| "call_ok E K H (ThreadUnblock thread) \<longleftrightarrow> thread \<in># H"
| "call_ok E K H (ThreadTerminate thread) \<longleftrightarrow> thread \<in># H
     \<and> (\<forall>T. is_type thread ThreadT \<longrightarrow> threads K (obj_of E ThreadT thread) = Some T \<longrightarrow>
          mt_state (th_mutable T) = Terminated \<or> 0 < mt_in_upcalls (th_mutable T))"
| "call_ok E K H (ThreadDestroy thread) \<longleftrightarrow> thread \<in># H"

section \<open>The invariant\<close>

definition world_inv :: "env \<Rightarrow> nat multiset \<Rightarrow> nat multiset \<Rightarrow> nat multiset \<Rightarrow> kernel \<Rightarrow> bool" where
  "world_inv E Rt Rs Ra K \<longleftrightarrow> kernel_inv (en_off E ThreadT) K Rt Rs Ra \<and> mem_inv (spaces K) (areas_of K) (k_phys K)"

lemma world_invD:
  assumes "world_inv E Rt Rs Ra K"
  shows "kernel_inv (en_off E ThreadT) K Rt Rs Ra" and "refs_inv (en_off E ThreadT) K Rt Rs Ra" and "sched_inv (en_off E ThreadT) K"
    and "mem_inv (spaces K) (areas_of K) (k_phys K)"
    and "size (mset (k_runqueue K) + current_refs (en_off E ThreadT) K + Rt) < USIZE_MAX"
  using assms by (simp_all add: world_inv_def kernel_inv_def)

text \<open>Room for \<open>n\<close> more references to each kind of object before a counter could overflow.\<close>

definition room :: "env \<Rightarrow> nat \<Rightarrow> nat multiset \<Rightarrow> nat multiset \<Rightarrow> nat multiset \<Rightarrow> kernel \<Rightarrow> bool" where
  "room E n Rt Rs Ra K \<longleftrightarrow> size (mset (k_runqueue K) + current_refs (en_off E ThreadT) K + Rt) + n < USIZE_MAX
     \<and> size (held (\<lambda>T. {#th_vmspace T#}) (threads K) + Rs) + n < USIZE_MAX \<and> size (held space_areas (spaces K) + Ra) + n < USIZE_MAX"

text \<open>Objects are only freed.\<close>

definition shrinks :: "kernel \<Rightarrow> kernel \<Rightarrow> bool" where
  "shrinks K K' \<longleftrightarrow> (\<forall>t T. threads K' t = Some T \<longrightarrow> threads K t = Some T) \<and> (\<forall>s S. spaces K' s = Some S \<longrightarrow> spaces K s = Some S)
     \<and> (\<forall>a A. areas_of K' a = Some A \<longrightarrow> areas_of K a = Some A)
     \<and> k_phys K' = k_phys K \<and> k_runqueue K' = k_runqueue K \<and> k_current K' = k_current K"

lemma shrinks_refl [simp]: "shrinks K K"
  by (simp add: shrinks_def)

lemma shrinks_trans: "shrinks K K1 \<Longrightarrow> shrinks K1 K2 \<Longrightarrow> shrinks K K2"
  by (simp add: shrinks_def)

text \<open>Outside of the areas \<open>W\<close>, mapped memory keeps its contents.\<close>

definition bytes_kept :: "nat set \<Rightarrow> kernel \<Rightarrow> kernel \<Rightarrow> bool" where
  "bytes_kept W K K' \<longleftrightarrow>
     (\<forall>s S S'. spaces K s = Some S \<longrightarrow> spaces K' s = Some S' \<longrightarrow> set (vs_mappings S) \<subseteq> set (vs_mappings S'))
     \<and> (\<forall>a A A'. a \<notin> W \<longrightarrow> areas_of K a = Some A \<longrightarrow> areas_of K' a = Some A' \<longrightarrow>
          va_len A' = va_len A \<and> area_bytes A' (ph_mem (k_phys K')) = area_bytes A (ph_mem (k_phys K)))"

lemma bytes_kept_shrinks: "bytes_kept W K K1 \<Longrightarrow> shrinks K1 K2 \<Longrightarrow> bytes_kept W K K2"
  unfolding bytes_kept_def shrinks_def by (intro conjI allI impI; elim conjE) (simp only:; blast)+

lemma bytes_kept_refl [simp]: "bytes_kept W K K"
  by (simp add: bytes_kept_def)

text \<open>The area that user code sees at an address.\<close>

definition mapped_area :: "VmSpace \<Rightarrow> usize \<Rightarrow> nat option" where
  "mapped_area S va = map_option mp_area (find (\<lambda>mp. mp_start mp \<le> va \<and> va < mp_end mp) (vs_mappings S))"

lemma visible_kept:
  assumes inv: "mem_inv (spaces K) (areas_of K) (k_phys K)" "mem_inv (spaces K') (areas_of K') (k_phys K')" and kept: "bytes_kept W K K'"
    and S: "spaces K s = Some S" "spaces K' s = Some S'" and b: "space_byte S (areas_of K) (ph_mem (k_phys K)) va = Some b"
    and W: "mapped_area S va \<notin> Some ` W"
  shows "space_byte S' (areas_of K') (ph_mem (k_phys K')) va = Some b"
proof -
  obtain mp A where f: "find (\<lambda>mp. mp_start mp \<le> va \<and> va < mp_end mp) (vs_mappings S) = Some mp" "areas_of K (mp_area mp) = Some A"
    "b = area_byte A (ph_mem (k_phys K)) (va - mp_start mp)"
    using b by (auto simp: space_byte_def split: option.splits)
  have mp: "mp \<in> set (vs_mappings S)" "mp_start mp \<le> va" "va < mp_end mp" using f(1) by (auto simp: find_Some_iff)
  have nW: "mp_area mp \<notin> W" using W f(1) by (auto simp: mapped_area_def)
  note wf = mem_invD(3) [OF inv(1) S(1)] and wf' = mem_invD(3) [OF inv(2) S(2)]
  have mp': "mp \<in> set (vs_mappings S')" using kept S mp(1) by (auto simp: bytes_kept_def)
  obtain A' where A': "areas_of K' (mp_area mp) = Some A'" using space_wfD(6) [OF wf' mp'] by (auto simp: mapping_ok_def)
  have e: "va_len A' = va_len A" "area_bytes A' (ph_mem (k_phys K')) = area_bytes A (ph_mem (k_phys K))"
    using kept nW f(2) A' unfolding bytes_kept_def by blast+
  have "va - mp_start mp < va_len A" using space_wfD(6) [OF wf mp(1)] f(2) mp(2,3) by (auto simp: mapping_ok_def)
  then have "area_byte A' (ph_mem (k_phys K')) (va - mp_start mp) = b"
    using area_bytes_byte [OF e(2,1)] f(3) by simp
  then show ?thesis using space_byte_mapping [where as = "areas_of K'", OF space_wfD(5) [OF wf'] mp' mp(2,3) A'] by simp
qed

section \<open>Dropping references\<close>

lemma mapped_alive:
  assumes "refs_inv off K Rt Rs Ra" and "spaces K s = Some S" and "mp \<in> set (vs_mappings S)"
  shows "areas_of K (mp_area mp) \<noteq> None"
proof -
  have own: "refs_owned (k_spaces K) (held (\<lambda>T. {#th_vmspace T#}) (threads K) + Rs)" "refs_owned (k_areas K) (held space_areas (spaces K) + Ra)"
    using assms(1) by (simp_all add: refs_inv_def)
  have "mp_area mp \<in># held space_areas (spaces K)"
    using held_remove [where g = space_areas, OF refs_owned_finite [OF own(1)] assms(2)] assms(3) by simp
  then show ?thesis using refs.owned_object [OF own(2)] by simp
qed

lemma shrinks_world:
  assumes inv: "world_inv E Rt Rs Ra K" and sh: "shrinks K K'" and ref: "refs_inv (en_off E ThreadT) K' Rt' Rs' Ra'" and "size Rt' \<le> size Rt"
  shows "world_inv E Rt' Rs' Ra' K'"
proof -
  have c: "current_refs (en_off E ThreadT) K' = current_refs (en_off E ThreadT) K" "k_runqueue K' = k_runqueue K"
    using sh by (simp_all add: shrinks_def current_refs_def)
  have "mem_inv (spaces K') (areas_of K') (k_phys K)"
    using mem_inv_sub [OF world_invD(4) [OF inv], of "spaces K'" "areas_of K'"] sh mapped_alive [OF ref] unfolding shrinks_def by blast
  moreover have "sched_inv (en_off E ThreadT) K'" using world_invD(3) [OF inv] sh c by (simp add: sched_inv_def shrinks_def)
  ultimately show ?thesis using world_invD(5) [OF inv] ref sh assms(4) c by (simp add: world_inv_def kernel_inv_def shrinks_def)
qed

lemma drop_area_shrinks: "drop_area p K = Val K' \<Longrightarrow> shrinks K K'"
  unfolding drop_area_def exec_bind_Val_iff by (clarsimp simp: shrinks_def sr_drop_object)

lemma drop_areas_shrinks: "exec_fold (\<lambda>mp. drop_area (mp_area mp)) mps K = Val K' \<Longrightarrow> shrinks K K'"
proof (induction mps arbitrary: K)
  case (Cons mp mps)
  then show ?case using drop_area_shrinks shrinks_trans by (auto simp: exec_bind_Val_iff) blast
qed simp

lemma shrinks_store:
  "sr_drop p (k_spaces K) = Val (v, s) \<Longrightarrow> shrinks K (K\<lparr>k_spaces := s\<rparr>)" "sr_drop p (k_threads K) = Val (v', s') \<Longrightarrow> shrinks K (K\<lparr>k_threads := s'\<rparr>)"
  using sr_drop_object by (auto simp: shrinks_def)

lemma drop_space_shrinks:
  assumes "drop_space p K = Val K'"
  shows "shrinks K K'"
proof -
  obtain v s where "sr_drop p (k_spaces K) = Val (v, s)"
    "(case v of None \<Rightarrow> Val (K\<lparr>k_spaces := s\<rparr>) | Some S \<Rightarrow> exec_fold (\<lambda>mp. drop_area (mp_area mp)) (vs_mappings S) (K\<lparr>k_spaces := s\<rparr>)) = Val K'"
    using assms by (auto simp: drop_space_def exec_bind_Val_iff Let_def)
  then show ?thesis using shrinks_store(1) drop_areas_shrinks shrinks_trans by (cases v) (simp_all, blast+)
qed

lemma drop_thread_shrinks:
  assumes "drop_thread p K = Val K'"
  shows "shrinks K K'"
proof -
  obtain v s where "sr_drop p (k_threads K) = Val (v, s)"
    "(case v of None \<Rightarrow> Val (K\<lparr>k_threads := s\<rparr>) | Some T \<Rightarrow> drop_space (th_vmspace T) (K\<lparr>k_threads := s\<rparr>)) = Val K'"
    using assms by (auto simp: drop_thread_def exec_bind_Val_iff Let_def)
  then show ?thesis using shrinks_store(2) drop_space_shrinks shrinks_trans by (cases v) (simp_all, blast+)
qed

lemma drop_thread_world:
  assumes "world_inv E (add_mset t Rt) Rs Ra K"
  shows "\<exists>K'. drop_thread t K = Val K' \<and> world_inv E Rt Rs Ra K' \<and> shrinks K K'"
proof -
  obtain K' where K': "drop_thread t K = Val K'" "refs_inv (en_off E ThreadT) K' Rt Rs Ra"
    using drop_thread_owned [OF world_invD(2) [OF assms]] by blast
  note sh = drop_thread_shrinks [OF K'(1)]
  show ?thesis using shrinks_world [OF assms sh K'(2)] K'(1) sh by simp
qed

lemma drop_space_world:
  assumes "world_inv E Rt (add_mset s Rs) Ra K"
  shows "\<exists>K'. drop_space s K = Val K' \<and> world_inv E Rt Rs Ra K' \<and> shrinks K K'"
proof -
  obtain K' where K': "drop_space s K = Val K'" "refs_inv (en_off E ThreadT) K' Rt Rs Ra"
    using drop_space_owned [OF world_invD(2) [OF assms]] by blast
  note sh = drop_space_shrinks [OF K'(1)]
  show ?thesis using shrinks_world [OF assms sh K'(2)] K'(1) sh by simp
qed

lemma drop_area_world:
  assumes "world_inv E Rt Rs (add_mset a Ra) K"
  shows "\<exists>K'. drop_area a K = Val K' \<and> world_inv E Rt Rs Ra K' \<and> shrinks K K'"
proof -
  obtain K' where K': "drop_area a K = Val K'" "refs_inv (en_off E ThreadT) K' Rt Rs Ra"
    using drop_area_owned [OF world_invD(2) [OF assms]] by blast
  note sh = drop_area_shrinks [OF K'(1)]
  show ?thesis using shrinks_world [OF assms sh K'(2)] K'(1) sh by simp
qed

section \<open>Borrowing handles\<close>

lemma world_threads:
  assumes "world_inv E Rt Rs Ra K" and "refs_owned s (mset (k_runqueue K) + current_refs (en_off E ThreadT) K + Rt')" and "refs_object s = threads K"
    and "size (mset (k_runqueue K) + current_refs (en_off E ThreadT) K + Rt') < USIZE_MAX"
  shows "world_inv E Rt' Rs Ra (K\<lparr>k_threads := s\<rparr>)"
  using assms by (simp add: world_inv_def kernel_inv_def refs_inv_def sched_inv_def current_refs_def)

lemma world_spaces:
  assumes "world_inv E Rt Rs Ra K" and "refs_owned s (held (\<lambda>T. {#th_vmspace T#}) (threads K) + Rs')" and "refs_object s = spaces K"
  shows "world_inv E Rt Rs' Ra (K\<lparr>k_spaces := s\<rparr>)"
  using assms by (simp add: world_inv_def kernel_inv_def refs_inv_def sched_inv_def current_refs_def)

lemma world_areas:
  assumes "world_inv E Rt Rs Ra K" and "refs_owned s (held space_areas (spaces K) + Ra')" and "refs_object s = areas_of K"
  shows "world_inv E Rt Rs Ra' (K\<lparr>k_areas := s\<rparr>)"
  using assms by (simp add: world_inv_def kernel_inv_def refs_inv_def sched_inv_def current_refs_def)

lemma borrow_refused:
  assumes "\<not> (is_type h T \<and> authorize h action)"
  shows "\<exists>e. from_borrowed_handle T off h action s = Val (Inl e, s)"
  using assms by (auto simp: from_borrowed_handle_def)

lemma borrow_thread_world:
  assumes inv: "world_inv E Rt Rs Ra K" and h: "is_type h ThreadT \<longrightarrow> obj_of E ThreadT h \<in># Rt" and rm: "room E 1 Rt Rs Ra K"
  obtains (refused) e where "borrow_thread E h action K = Val (Inl e, K)"
    | (taken) s where "borrow_thread E h action K = Val (Inr (obj_of E ThreadT h), K\<lparr>k_threads := s\<rparr>)" "obj_of E ThreadT h \<in># Rt"
      "refs_object s = threads K" "world_inv E (add_mset (obj_of E ThreadT h) Rt) Rs Ra (K\<lparr>k_threads := s\<rparr>)"
proof (cases "is_type h ThreadT \<and> authorize h action")
  case False
  obtain e where "from_borrowed_handle ThreadT (en_off E ThreadT) h action (k_threads K) = Val (Inl e, k_threads K)"
    using borrow_refused [OF False] by blast
  then show thesis by (intro refused [of e]) (simp add: borrow_thread_def)
next
  case True
  let ?R = "mset (k_runqueue K) + current_refs (en_off E ThreadT) K + Rt" and ?t = "obj_of E ThreadT h"
  have "refs_owned (k_threads K) ?R" "?t \<in># ?R" "size ?R + 1 < USIZE_MAX"
    using world_invD(2) [OF inv] h True rm by (auto simp: refs_inv_def room_def)
  then obtain s where s: "from_borrowed_handle ThreadT (en_off E ThreadT) h action (k_threads K) = Val (Inr ?t, s)"
    "refs_owned s (add_mset ?t ?R)" "refs_object s = threads K"
    using from_borrowed_handle_owned [of "k_threads K" ?R "en_off E ThreadT" h ThreadT action] True by auto
  have "world_inv E (add_mset ?t Rt) Rs Ra (K\<lparr>k_threads := s\<rparr>)"
    using s \<open>size ?R + 1 < USIZE_MAX\<close> by (intro world_threads [OF inv]) simp_all
  then show thesis using s h True by (intro taken) (simp_all add: borrow_thread_def)
qed

lemma borrow_space_world:
  assumes inv: "world_inv E Rt Rs Ra K" and h: "is_type h VmSpaceT \<longrightarrow> obj_of E VmSpaceT h \<in># Rs" and rm: "room E 1 Rt Rs Ra K"
  obtains (refused) e where "borrow_space E h action K = Val (Inl e, K)"
    | (taken) s where "borrow_space E h action K = Val (Inr (obj_of E VmSpaceT h), K\<lparr>k_spaces := s\<rparr>)" "obj_of E VmSpaceT h \<in># Rs"
      "refs_object s = spaces K" "world_inv E Rt (add_mset (obj_of E VmSpaceT h) Rs) Ra (K\<lparr>k_spaces := s\<rparr>)"
proof (cases "is_type h VmSpaceT \<and> authorize h action")
  case False
  obtain e where "from_borrowed_handle VmSpaceT (en_off E VmSpaceT) h action (k_spaces K) = Val (Inl e, k_spaces K)"
    using borrow_refused [OF False] by blast
  then show thesis by (intro refused [of e]) (simp add: borrow_space_def)
next
  case True
  let ?R = "held (\<lambda>T. {#th_vmspace T#}) (threads K) + Rs" and ?t = "obj_of E VmSpaceT h"
  have "refs_owned (k_spaces K) ?R" "?t \<in># ?R" "size ?R + 1 < USIZE_MAX"
    using world_invD(2) [OF inv] h True rm by (auto simp: refs_inv_def room_def)
  then obtain s where s: "from_borrowed_handle VmSpaceT (en_off E VmSpaceT) h action (k_spaces K) = Val (Inr ?t, s)"
    "refs_owned s (add_mset ?t ?R)" "refs_object s = spaces K"
    using from_borrowed_handle_owned [of "k_spaces K" ?R "en_off E VmSpaceT" h VmSpaceT action] True by auto
  have "world_inv E Rt (add_mset ?t Rs) Ra (K\<lparr>k_spaces := s\<rparr>)" using s by (intro world_spaces [OF inv]) simp_all
  then show thesis using s h True by (intro taken) (simp_all add: borrow_space_def)
qed

lemma borrow_area_world:
  assumes inv: "world_inv E Rt Rs Ra K" and h: "is_type h VmAreaT \<longrightarrow> obj_of E VmAreaT h \<in># Ra" and rm: "room E 1 Rt Rs Ra K"
  obtains (refused) e where "borrow_area E h action K = Val (Inl e, K)"
    | (taken) s where "borrow_area E h action K = Val (Inr (obj_of E VmAreaT h), K\<lparr>k_areas := s\<rparr>)" "obj_of E VmAreaT h \<in># Ra" "is_type h VmAreaT"
      "refs_object s = areas_of K" "world_inv E Rt Rs (add_mset (obj_of E VmAreaT h) Ra) (K\<lparr>k_areas := s\<rparr>)"
proof (cases "is_type h VmAreaT \<and> authorize h action")
  case False
  obtain e where "from_borrowed_handle VmAreaT (en_off E VmAreaT) h action (k_areas K) = Val (Inl e, k_areas K)"
    using borrow_refused [OF False] by blast
  then show thesis by (intro refused [of e]) (simp add: borrow_area_def)
next
  case True
  let ?R = "held space_areas (spaces K) + Ra" and ?t = "obj_of E VmAreaT h"
  have "refs_owned (k_areas K) ?R" "?t \<in># ?R" "size ?R + 1 < USIZE_MAX"
    using world_invD(2) [OF inv] h True rm by (auto simp: refs_inv_def room_def)
  then obtain s where s: "from_borrowed_handle VmAreaT (en_off E VmAreaT) h action (k_areas K) = Val (Inr ?t, s)"
    "refs_owned s (add_mset ?t ?R)" "refs_object s = areas_of K"
    using from_borrowed_handle_owned [of "k_areas K" ?R "en_off E VmAreaT" h VmAreaT action] True by auto
  have "world_inv E Rt Rs (add_mset ?t Ra) (K\<lparr>k_areas := s\<rparr>)" using s by (intro world_areas [OF inv]) simp_all
  then show thesis using s h True by (intro taken) (simp_all add: borrow_area_def)
qed

lemma room_less: "room E n Rt Rs Ra K \<Longrightarrow> m \<le> n \<Longrightarrow> room E m Rt Rs Ra K"
  by (auto simp: room_def)

lemma room_borrowed: "room E (Suc n) Rt Rs Ra K \<Longrightarrow> refs_object s = spaces K \<Longrightarrow> room E n Rt (add_mset x Rs) Ra (K\<lparr>k_spaces := s\<rparr>)"
  by (auto simp: room_def current_refs_def)

lemma world_alive:
  assumes "world_inv E Rt Rs Ra K"
  shows "t \<in># Rt \<Longrightarrow> \<exists>T. threads K t = Some T" and "s \<in># Rs \<Longrightarrow> \<exists>S. spaces K s = Some S" and "a \<in># Ra \<Longrightarrow> \<exists>A. areas_of K a = Some A"
  using world_invD(2) [OF assms] refs.owned_object [of "k_threads K"] refs.owned_object [of "k_spaces K"] refs.owned_object [of "k_areas K"]
  unfolding refs_inv_def by (metis not_None_eq union_iff)+

lemma deref_object: "refs_object s p = Some v \<Longrightarrow> sr_deref p s = Val v"
  by (auto simp: refs_object_def sr_deref_def sr_inner_def)

section \<open>Calls on memory\<close>

lemma put_area_object: "areas_of K a = Some B \<Longrightarrow> areas_of (put_memory [a \<mapsto> A] ph K) = (areas_of K)(a \<mapsto> A)"
  by (auto simp: put_memory_def put_areas_def refs_object_def fun_eq_iff split: option.splits)

lemma put_areas_object:
  assumes "dom as = dom (areas_of K)"
  shows "areas_of (put_memory as ph K) = as"
proof
  fix p
  have "p \<in> dom as \<longleftrightarrow> p \<in> dom (areas_of K)" using assms by simp
  then have "as p = None \<longleftrightarrow> k_areas K p = None" by (auto simp: refs_object_def)
  then show "areas_of (put_memory as ph K) p = as p" by (auto simp: put_memory_def put_areas_def refs_object_def split: option.splits)
qed

lemma put_areas_owned: "refs_owned s R \<Longrightarrow> refs_owned (put_areas as s) R"
  by (auto simp: refs_owned_def put_areas_def dom_def split: option.splits)

lemma put_memory_fields [simp]:
  "k_threads (put_memory as ph K) = k_threads K" "k_spaces (put_memory as ph K) = k_spaces K" "k_phys (put_memory as ph K) = ph"
  "k_runqueue (put_memory as ph K) = k_runqueue K" "k_current (put_memory as ph K) = k_current K"
  by (simp_all add: put_memory_def)

lemma put_memory_world:
  assumes "world_inv E Rt Rs Ra K" and "mem_inv (spaces K) (areas_of (put_memory as ph K)) ph"
  shows "world_inv E Rt Rs Ra (put_memory as ph K)"
  using assms put_areas_owned
  by (auto simp: world_inv_def kernel_inv_def refs_inv_def sched_inv_def current_refs_def put_memory_def)

lemma phys_world:
  assumes "world_inv E Rt Rs Ra K" and "phys_wf ph" and "page_avail ph \<subseteq> page_avail (k_phys K)"
    and "\<And>x. x \<notin> page_avail (k_phys K) \<Longrightarrow> ph_mem ph x = ph_mem (k_phys K) x"
  shows "world_inv E Rt Rs Ra (K\<lparr>k_phys := ph\<rparr>)" and "bytes_kept W K (K\<lparr>k_phys := ph\<rparr>)"
proof -
  note M = world_invD(4) [OF assms(1)]
  show "world_inv E Rt Rs Ra (K\<lparr>k_phys := ph\<rparr>)"
    using mem_inv_shrink [OF M assms(2-4)] assms(1) by (simp add: world_inv_def kernel_inv_def refs_inv_def sched_inv_def current_refs_def)
  have "area_bytes A (ph_mem ph) = area_bytes A (ph_mem (k_phys K))" if "areas_of K a = Some A" for a A
  proof (rule area_bytes_frame)
    show A: "area_wf A (k_phys K)" using mem_invD(2) [OF M] that by (auto simp: areas_wf_def)
    show "ph_mem ph x = ph_mem (k_phys K) x" if "x \<in> area_mem A" for x using area_wf_avail [OF A] that by (intro assms(4)) blast
  qed
  then show "bytes_kept W K (K\<lparr>k_phys := ph\<rparr>)" by (simp add: bytes_kept_def)
qed

lemma malloc_world:
  assumes inv: "world_inv E Rt Rs Ra K" and "0 < sz" and "MIN_PAGE_SIZE dvd sz"
  shows "\<exists>r K'. sc_malloc sz K = Val (r, K') \<and> world_inv E Rt Rs Ra K' \<and> bytes_kept {} K K'"
proof -
  note ph = mem_invD(1) [OF world_invD(4) [OF inv]]
  obtain r ph' where r: "page_alloc Dirty (k_phys K) sz = Val (r, ph')" "phys_wf ph'" using page_alloc_total [OF ph assms(2,3)] by blast
  have s: "page_avail ph' \<subseteq> page_avail (k_phys K)" "ph_mem ph' = ph_mem (k_phys K)"
  proof -
    show "page_avail ph' \<subseteq> page_avail (k_phys K)"
    proof (cases r)
      case None
      then show ?thesis using page_alloc_None(1) [OF ph assms(2,3)] r(1) by simp
    next
      case (Some a)
      then show ?thesis using page_alloc_Some(2) [OF ph assms(2,3)] r(1) by blast
    qed
    show "ph_mem ph' = ph_mem (k_phys K)"
    proof (cases r)
      case None
      then show ?thesis using page_alloc_None(2) [OF ph assms(2,3)] r(1) by simp
    next
      case (Some a)
      then show ?thesis using page_alloc_Some(5) [OF ph assms(2,3)] r(1) by fastforce
    qed
  qed
  have "\<exists>q. sc_malloc sz K = Val (q, K\<lparr>k_phys := ph'\<rparr>)"
    using r(1) by (cases r) (simp_all add: sc_malloc_def supercall_malloc_def)
  moreover have "world_inv E Rt Rs Ra (K\<lparr>k_phys := ph'\<rparr>)" "bytes_kept {} K (K\<lparr>k_phys := ph'\<rparr>)"
    using phys_world [OF inv r(2) s(1)] s(2) by simp_all
  ultimately show ?thesis by blast
qed

section \<open>New objects\<close>

text \<open>
  The heap places a new object where none is, or gives null, or panics, and \<open>BOOT_PDPT\<close> is a page.
\<close>

definition env_ok :: "env \<Rightarrow> bool" where
  "env_ok E \<longleftrightarrow> 4096 dvd vaddr2paddr (en_pdpt E)
     \<and> (\<forall>K p. (en_alloc E ThreadT K = Val (Some p) \<longrightarrow> k_threads K p = None) \<and> (en_alloc E VmSpaceT K = Val (Some p) \<longrightarrow> k_spaces K p = None)
          \<and> (en_alloc E VmAreaT K = Val (Some p) \<longrightarrow> k_areas K p = None))
     \<and> (\<forall>K T n. en_alloc E T K \<noteq> Undef \<and> en_reserve E K \<noteq> Undef \<and> en_reserve_exact E K n \<noteq> Undef)"

text \<open>The states in which a call asks the heap have the objects and the run queue of the state in which it started.\<close>

definition same_objects :: "kernel \<Rightarrow> kernel \<Rightarrow> bool" where
  "same_objects K K' \<longleftrightarrow> threads K' = threads K \<and> spaces K' = spaces K \<and> areas_of K' = areas_of K \<and> k_runqueue K' = k_runqueue K"

abbreviation heap_out :: "env \<Rightarrow> call \<Rightarrow> kernel \<Rightarrow> 'a exec \<Rightarrow> bool" where
  "heap_out E c K m \<equiv> m = Panic \<and> (\<exists>K1. same_objects K K1 \<and> heap_panics E c K1)"

lemma new_owned:
  assumes "refs_owned s R" and "s p = None"
  shows "refs_owned (s(p \<mapsto> refcounted_new v)) (add_mset p R)" and "refs_object (s(p \<mapsto> refcounted_new v)) = (refs_object s)(p \<mapsto> v)"
    and "refs_object s p = None" and "p \<notin># R"
proof -
  show p: "p \<notin># R" using assms by (metis domIff refs_owned_def)
  then show "refs_owned (s(p \<mapsto> refcounted_new v)) (add_mset p R)"
    using assms(1) by (auto simp: refs_owned_def refcounted_new_def not_in_iff)
  show "refs_object (s(p \<mapsto> refcounted_new v)) = (refs_object s)(p \<mapsto> v)" "refs_object s p = None"
    using assms(2) by (auto simp: refs_object_def refcounted_new_def)
qed

lemma vmarea_allocate_world:
  assumes inv: "world_inv E Rt Rs Ra K" and env: "env_ok E" and len: "len \<le> USIZE_MAX"
  shows "heap_out E (VmAreaAllocate len) K (sc_vmarea_allocate E len K) \<or> (\<exists>r K'. sc_vmarea_allocate E len K = Val (r, K') \<and> bytes_kept {} K K'
    \<and> (case r of Inl _ \<Rightarrow> world_inv E Rt Rs Ra K' | Inr h \<Rightarrow> \<exists>p. h = into_handle VmAreaT (en_off E VmAreaT) p \<and> world_inv E Rt Rs (add_mset p Ra) K'))"
proof (cases "0 < len \<and> MIN_PAGE_SIZE dvd len \<and> en_reserve_exact E K (len div MIN_PAGE_SIZE) = Val True \<and> (\<exists>p. en_alloc E VmAreaT K = Val (Some p))")
  case False
  have "en_alloc E VmAreaT K \<noteq> Undef" "en_reserve_exact E K (len div MIN_PAGE_SIZE) \<noteq> Undef" using env by (simp_all add: env_ok_def)
  then have "sc_vmarea_allocate E len K = Panic \<and> heap_panics E (VmAreaAllocate len) K \<or> (\<exists>e. sc_vmarea_allocate E len K = Val (Inl e, K))"
    using False
    by (cases "en_reserve_exact E K (len div MIN_PAGE_SIZE)"; cases "en_alloc E VmAreaT K")
      (auto simp: sc_vmarea_allocate_def new_anonymous_def is_aligned_page sr_new_def Let_def split: option.splits)
  then show ?thesis using inv by (auto simp: same_objects_def)
next
  case True
  then obtain p where p: "en_alloc E VmAreaT K = Val (Some p)" by auto
  let ?A = "\<lparr>va_pages = replicate (len div MIN_PAGE_SIZE) None, va_len = len\<rparr>"
  let ?s = "(k_areas K)(p \<mapsto> refcounted_new ?A)"
  have own: "refs_owned (k_areas K) (held space_areas (spaces K) + Ra)" using world_invD(2) [OF inv] by (simp add: refs_inv_def)
  have free: "k_areas K p = None" using env p by (auto simp: env_ok_def)
  note new = new_owned(1,2) [OF own free, of ?A] new_owned(3) [OF own free]
  have "mem_inv (spaces K) ((areas_of K)(p \<mapsto> ?A)) (k_phys K)"
    using True len new(3)
    by (intro mem_inv_new_area [OF world_invD(4) [OF inv]]) (auto simp: area_wf_def area_mem_def)
  then have "world_inv E Rt Rs (add_mset p Ra) (K\<lparr>k_areas := ?s\<rparr>)"
    using inv new(1,2) by (simp add: world_inv_def kernel_inv_def refs_inv_def sched_inv_def current_refs_def)
  moreover have "sc_vmarea_allocate E len K = Val (Inr (into_handle VmAreaT (en_off E VmAreaT) p), K\<lparr>k_areas := ?s\<rparr>)"
    using True p by (simp add: sc_vmarea_allocate_def new_anonymous_def is_aligned_page sr_new_def Let_def)
  moreover have "bytes_kept {} K (K\<lparr>k_areas := ?s\<rparr>)" using new(2,3) by (auto simp: bytes_kept_def split: if_splits)
  ultimately show ?thesis by auto
qed

lemma vmspace_create_world:
  assumes inv: "world_inv E Rt Rs Ra K" and env: "env_ok E"
  shows "heap_out E VmSpaceCreate K (sc_vmspace_create E K) \<or> (\<exists>r K'. sc_vmspace_create E K = Val (r, K') \<and> bytes_kept {} K K'
    \<and> (case r of Inl _ \<Rightarrow> world_inv E Rt Rs Ra K' | Inr h \<Rightarrow> \<exists>p. h = into_handle VmSpaceT (en_off E VmSpaceT) p \<and> world_inv E Rt (add_mset p Rs) Ra K'))"
proof -
  have pd: "4096 dvd vaddr2paddr (en_pdpt E)" using env by (simp add: env_ok_def)
  note ph = mem_invD(1) [OF world_invD(4) [OF inv]]
  obtain r ph' where N: "arch_vmspace_new (en_pdpt E) (k_phys K) = Val (r, ph')" "phys_wf ph'" "page_avail ph' \<subseteq> page_avail (k_phys K)"
    "\<And>x. x \<notin> page_avail (k_phys K) \<Longrightarrow> ph_mem ph' x = ph_mem (k_phys K) x"
    "\<And>vs. r = Inr vs \<Longrightarrow> arch_vs_wf vs ph' \<and> tables_mem (ph_mem ph') (avs_root vs) \<subseteq> page_avail (k_phys K) - page_avail ph'"
    using arch_vmspace_new_spec [OF ph pd] by fastforce
  let ?K = "K\<lparr>k_phys := ph'\<rparr>"
  note W = phys_world [OF inv N(2-4)]
  show ?thesis
  proof (cases "\<exists>vs p. r = Inr vs \<and> en_alloc E VmSpaceT ?K = Val (Some p)")
    case False
    have "en_alloc E VmSpaceT ?K \<noteq> Undef" using env by (simp add: env_ok_def)
    with False have "sc_vmspace_create E K = Panic \<and> heap_panics E VmSpaceCreate ?K \<or> (\<exists>e. sc_vmspace_create E K = Val (Inl e, ?K))"
      using N(1) by (cases r; cases "en_alloc E VmSpaceT ?K")
        (auto simp: sc_vmspace_create_def vmspace_new_def sr_new_def Let_def split: option.splits)
    moreover have "same_objects K ?K" by (simp add: same_objects_def)
    ultimately show ?thesis using W by auto
  next
    case True
    then obtain vs p where r: "r = Inr vs" "en_alloc E VmSpaceT ?K = Val (Some p)" by blast
    let ?S = "\<lparr>vs_arch = vs, vs_mappings = []\<rparr>"
    let ?s = "(k_spaces K)(p \<mapsto> refcounted_new ?S)"
    have own: "refs_owned (k_spaces K) (held (\<lambda>T. {#th_vmspace T#}) (threads K) + Rs)" using world_invD(2) [OF inv] by (simp add: refs_inv_def)
    have free: "k_spaces K p = None" using env r(2) by (fastforce simp: env_ok_def)
    note new = new_owned(1,2) [OF own free, of ?S] new_owned(3) [OF own free]
    note M = world_invD(4) [OF W(1)] and M0 = world_invD(4) [OF inv]
    have "mem_inv ((spaces K)(p \<mapsto> ?S)) (areas_of K) ph'"
      using mem_inv_new_space [OF M0 _ new(3) N(3,4)] M N(5) [OF r(1)] by simp
    moreover have "held space_areas ((spaces K)(p \<mapsto> ?S)) = held space_areas (spaces K)"
      using held_insert [where g = space_areas, OF refs_owned_finite [OF own] new(3), of ?S] by simp
    ultimately have "world_inv E Rt (add_mset p Rs) Ra (?K\<lparr>k_spaces := ?s\<rparr>)"
      using inv new(1,2) by (simp add: world_inv_def kernel_inv_def refs_inv_def sched_inv_def current_refs_def)
    moreover have "sc_vmspace_create E K = Val (Inr (into_handle VmSpaceT (en_off E VmSpaceT) p), ?K\<lparr>k_spaces := ?s\<rparr>)"
      using N(1) r by (simp add: sc_vmspace_create_def vmspace_new_def sr_new_def Let_def)
    moreover have "bytes_kept {} K (?K\<lparr>k_spaces := ?s\<rparr>)" using W(2) [of "{}"] new(2,3) by (auto simp: bytes_kept_def split: if_splits)
    ultimately show ?thesis by auto
  qed
qed

section \<open>Calls on address spaces and areas\<close>

lemma vmarea_write_world:
  assumes inv: "world_inv E Rt Rs Ra K" and h: "is_type h VmAreaT \<longrightarrow> obj_of E VmAreaT h \<in># Ra" and rm: "room E 1 Rt Rs Ra K"
  shows "\<exists>r K'. sc_vmarea_write E h offset data K = Val (r, K') \<and> world_inv E Rt Rs Ra K' \<and> bytes_kept (if is_type h VmAreaT then {obj_of E VmAreaT h} else {}) K K'"
proof (cases rule: borrow_area_world [OF inv h rm, of RIGHT_WRITE, case_names refused taken])
  case (refused e)
  then show ?thesis using inv by (simp add: sc_vmarea_write_def)
next
  case (taken s)
  let ?a = "obj_of E VmAreaT h" and ?K = "K\<lparr>k_areas := s\<rparr>"
  obtain A where A: "areas_of K ?a = Some A" using world_alive(3) [OF inv taken(2)] by blast
  note M = world_invD(4) [OF taken(5), simplified, unfolded taken(4)]
  have wf: "area_wf A (k_phys K)" using mem_invD(2) [OF M] A by (auto simp: areas_wf_def)
  obtain r A' ph' where w: "area_write A (k_phys K) offset data = Val (r, A', ph')" "area_step A (k_phys K) A' ph'"
    using area_write_spec [OF mem_invD(1) [OF M] wf] by blast
  note M' = mem_inv_area [where as = "areas_of K", OF M A w(2) area_write_kept [OF w(1)]]
  let ?K2 = "put_memory [?a \<mapsto> A'] ph' ?K"
  have obj: "areas_of ?K2 = (areas_of K)(?a \<mapsto> A')" using put_area_object [of ?K ?a A A' ph'] A taken(4) by simp
  have "world_inv E Rt Rs (add_mset ?a Ra) ?K2" using M'(1) obj by (intro put_memory_world [OF taken(5)]) simp
  from drop_area_world [OF this] obtain K' where K': "drop_area ?a ?K2 = Val K'" "world_inv E Rt Rs Ra K'" "shrinks ?K2 K'" by blast
  have "bytes_kept {?a} K ?K2" using M'(2) obj by (auto simp: bytes_kept_def)
  then have "bytes_kept {?a} K K'" using K'(3) by (rule bytes_kept_shrinks)
  moreover have "sc_vmarea_write E h offset data K = Val (r, K')"
    using taken(1) A taken(4) w(1) K'(1) by (simp add: sc_vmarea_write_def deref_object)
  ultimately show ?thesis using K'(2) taken(3) by simp
qed

lemma held_change:
  assumes "finite (dom obj)" and "obj p = Some v"
  shows "held g (obj(p \<mapsto> w)) + g v = held g obj + g w"
proof -
  have "held g (obj(p \<mapsto> w)) = g w + held g (obj(p := None))"
    using held_remove [of "obj(p \<mapsto> w)" p w g] assms(1) by simp
  then show ?thesis using held_remove [OF assms, of g] by (simp add: ac_simps)
qed

lemma set_space_fields [simp]:
  "k_threads (set_space s S K) = k_threads K" "k_areas (set_space s S K) = k_areas K" "k_phys (set_space s S K) = k_phys K"
  "k_runqueue (set_space s S K) = k_runqueue K" "k_current (set_space s S K) = k_current K"
  by (simp_all add: set_space_def)

lemma map_objects:
  assumes "spaces K s = Some S" and "areas_of K a = Some A"
  shows "spaces (set_space s S' (put_memory ((areas_of K)(a \<mapsto> A')) ph' K)) = (spaces K)(s \<mapsto> S')"
    and "areas_of (put_memory ((areas_of K)(a \<mapsto> A')) ph' K) = (areas_of K)(a \<mapsto> A')"
proof -
  show "spaces (set_space s S' (put_memory ((areas_of K)(a \<mapsto> A')) ph' K)) = (spaces K)(s \<mapsto> S')"
    using assms(1) by (simp add: set_space_def set_value_object)
  show "areas_of (put_memory ((areas_of K)(a \<mapsto> A')) ph' K) = (areas_of K)(a \<mapsto> A')"
    using assms(2) by (intro put_areas_object) auto
qed

lemma map_world:
  assumes inv: "world_inv E Rt Rs Ra K" and s: "spaces K s = Some S" and a: "areas_of K a = Some A"
    and mem: "mem_inv ((spaces K)(s \<mapsto> S')) ((areas_of K)(a \<mapsto> A')) ph'" and bal: "space_areas S' + Ra' = space_areas S + Ra"
  shows "world_inv E Rt Rs Ra' (set_space s S' (put_memory ((areas_of K)(a \<mapsto> A')) ph' K))"
proof -
  let ?K = "set_space s S' (put_memory ((areas_of K)(a \<mapsto> A')) ph' K)"
  note R = world_invD(2) [OF inv] and obj = map_objects [OF s a]
  have "finite (dom (spaces K))" using R refs_owned_finite unfolding refs_inv_def by blast
  from held_change [where g = space_areas, OF this s, of S']
  have "held space_areas ((spaces K)(s \<mapsto> S')) + space_areas S + Ra' = held space_areas (spaces K) + (space_areas S' + Ra')"
    by (simp only: ac_simps)
  also have "\<dots> = held space_areas (spaces K) + Ra + space_areas S" unfolding bal by (simp only: ac_simps)
  finally have "held space_areas ((spaces K)(s \<mapsto> S')) + Ra' + space_areas S = held space_areas (spaces K) + Ra + space_areas S"
    by (simp only: ac_simps)
  then have "held space_areas ((spaces K)(s \<mapsto> S')) + Ra' = held space_areas (spaces K) + Ra" by (simp only: add_right_cancel)
  then have own: "refs_owned (k_areas ?K) (held space_areas (spaces ?K) + Ra')"
    using R put_areas_owned unfolding obj(1) by (auto simp: put_memory_def refs_inv_def)
  moreover have "refs_owned (k_spaces ?K) (held (\<lambda>T. {#th_vmspace T#}) (threads K) + Rs)"
    using R set_value_owned by (auto simp: set_space_def refs_inv_def)
  ultimately show ?thesis
    using inv mem obj by (simp add: world_inv_def kernel_inv_def refs_inv_def sched_inv_def current_refs_def)
qed

lemma map_bytes:
  assumes "spaces K s = Some S" and "set (vs_mappings S) \<subseteq> set (vs_mappings S')" and "spaces K' = (spaces K)(s \<mapsto> S')"
    and "\<forall>b B. areas_of K b = Some B \<longrightarrow> (\<exists>B'. areas_of K' b = Some B' \<and> va_len B' = va_len B \<and> area_bytes B' (ph_mem (k_phys K')) = area_bytes B (ph_mem (k_phys K)))"
  shows "bytes_kept W K K'"
  unfolding bytes_kept_def
proof (intro conjI allI impI)
  fix t T T' assume "spaces K t = Some T" "spaces K' t = Some T'"
  then show "set (vs_mappings T) \<subseteq> set (vs_mappings T')" using assms(1-3) by (cases "t = s") auto
next
  fix a A A' assume "areas_of K a = Some A" "areas_of K' a = Some A'"
  then show "va_len A' = va_len A" "area_bytes A' (ph_mem (k_phys K')) = area_bytes A (ph_mem (k_phys K))" using assms(4) by force+
qed

lemma vmspace_map_taken:
  assumes inv: "world_inv E Rt Rs (add_mset a Ra) K" and s: "spaces K s = Some S" and a: "areas_of K a = Some A"
    and fit: "uaddr + va_len A \<le> 2 ^ 47" and at: "attrs < 8"
  shows "\<exists>r K'. exec_bind (sr_deref s (k_spaces K)) (\<lambda>S.
        exec_bind (vmspace_map (Val ok) S (areas_of K) (k_phys K) a uaddr attrs) (\<lambda>(r, S, as, ph).
          let K = set_space s S (put_memory as ph K) in case r of
            Inl e \<Rightarrow> exec_bind (drop_area a K) (\<lambda>K. Val (Inl e, K))
          | Inr _ \<Rightarrow> Val (Inr (), K))) = Val (r, K') \<and> world_inv E Rt Rs Ra K' \<and> bytes_kept {} K K'"
proof -
  obtain r S' A' ph' where m: "vmspace_map (Val ok) S (areas_of K) (k_phys K) a uaddr attrs = Val (r, S', (areas_of K)(a \<mapsto> A'), ph')"
    "mem_inv ((spaces K)(s \<mapsto> S')) ((areas_of K)(a \<mapsto> A')) ph'"
    "\<forall>b B. areas_of K b = Some B \<longrightarrow> (\<exists>B'. ((areas_of K)(a \<mapsto> A')) b = Some B' \<and> va_len B' = va_len B \<and> area_bytes B' (ph_mem ph') = area_bytes B (ph_mem (k_phys K)))"
    "set (vs_mappings S) \<subseteq> set (vs_mappings S')" "case r of Inl _ \<Rightarrow> S' = S | Inr _ \<Rightarrow> space_areas S' = add_mset a (space_areas S)"
    using mem_inv_map [where as = "areas_of K" and a = a, OF world_invD(4) [OF inv] s a fit at] by blast
  let ?K = "set_space s S' (put_memory ((areas_of K)(a \<mapsto> A')) ph' K)"
  note W = map_world [OF inv s a m(2)]
  have b: "bytes_kept {} K ?K"
    by (rule map_bytes [OF s m(4)]) (use map_objects [OF s a] m(3) in \<open>simp_all\<close>)
  show ?thesis
  proof (cases r)
    case (Inl e)
    then have "world_inv E Rt Rs (add_mset a Ra) ?K" using m(5) by (intro W) simp
    from drop_area_world [OF this] obtain K' where K': "drop_area a ?K = Val K'" "world_inv E Rt Rs Ra K'" "shrinks ?K K'" by blast
    then show ?thesis using Inl m(1) deref_object [OF s] bytes_kept_shrinks [OF b K'(3)] by simp
  next
    case (Inr u)
    then have "world_inv E Rt Rs Ra ?K" using m(5) by (intro W) simp
    then show ?thesis using Inr m(1) deref_object [OF s] b by simp
  qed
qed

lemma vmspace_map_world:
  assumes inv: "world_inv E Rt Rs Ra K" and h: "is_type h VmSpaceT \<longrightarrow> obj_of E VmSpaceT h \<in># Rs"
    and g: "is_type g VmAreaT \<longrightarrow> obj_of E VmAreaT g \<in># Ra" and rm: "room E 2 Rt Rs Ra K" and at: "attrs < 8"
    and fit: "\<And>A. is_type g VmAreaT \<Longrightarrow> areas_of K (obj_of E VmAreaT g) = Some A \<Longrightarrow> uaddr + va_len A \<le> 2 ^ 47"
    and env: "env_ok E"
  shows "heap_out E (VmSpaceMap h g uaddr attrs) K (sc_vmspace_map E h g uaddr attrs K)
    \<or> (\<exists>r K'. sc_vmspace_map E h g uaddr attrs K = Val (r, K') \<and> world_inv E Rt Rs Ra K' \<and> bytes_kept {} K K')"
proof (cases rule: borrow_space_world [OF inv h room_less [OF rm one_le_numeral], of RIGHT_MAP, case_names refused taken])
  case (refused e)
  then show ?thesis using inv by (simp add: sc_vmspace_map_def)
next
  case (taken s)
  let ?s = "obj_of E VmSpaceT h" and ?K = "K\<lparr>k_spaces := s\<rparr>"
  have rm1: "room E 1 Rt (add_mset ?s Rs) Ra ?K" using room_borrowed [OF rm [unfolded numeral_2_eq_2] taken(3)] by simp
  obtain S where S: "spaces ?K ?s = Some S" using world_alive(2) [OF taken(4), of ?s] by auto
  have fin: ?thesis if run: "exec_try (borrow_area E g RIGHT_MAP ?K) (\<lambda>a K.
        exec_bind (sr_deref ?s (k_spaces K)) (\<lambda>S.
        exec_bind (vmspace_map (en_reserve E K) S (areas_of K) (k_phys K) a uaddr attrs) (\<lambda>(r, S, as, ph).
          let K = set_space ?s S (put_memory as ph K) in case r of
            Inl e \<Rightarrow> exec_bind (drop_area a K) (\<lambda>K. Val (Inl e, K))
          | Inr _ \<Rightarrow> Val (Inr (), K)))) = Val (r, K2)"
    and w: "world_inv E Rt (add_mset ?s Rs) Ra K2" and b: "bytes_kept {} K K2" for r K2
  proof -
    obtain K' where "drop_space ?s K2 = Val K'" "world_inv E Rt Rs Ra K'" "shrinks K2 K'" using drop_space_world [OF w] by blast
    then show ?thesis using run taken(1) bytes_kept_shrinks [OF b] by (simp add: sc_vmspace_map_def)
  qed
  show ?thesis
  proof (cases rule: borrow_area_world [OF taken(4) g rm1, of RIGHT_MAP, case_names no yes])
    case (no e)
    then show ?thesis using taken(3,4) by (intro fin [of "Inl e" ?K]) (simp_all add: bytes_kept_def)
  next
    case (yes s')
    let ?a = "obj_of E VmAreaT g" and ?K2 = "?K\<lparr>k_areas := s'\<rparr>"
    obtain A where A: "areas_of ?K2 ?a = Some A" using world_alive(3) [OF yes(5), of ?a] by auto
    have "uaddr + va_len A \<le> 2 ^ 47" using fit [OF yes(3)] A yes(4) by simp
    note fit' = this
    have obj: "same_objects K ?K2" using taken(3) yes(4) by (simp add: same_objects_def)
    show ?thesis
    proof (cases "en_reserve E ?K2")
      case (Val ok)
      from vmspace_map_taken [OF yes(5) _ A fit' at, of ?s S ok] S
      obtain r K3 where r: "exec_bind (sr_deref ?s (k_spaces ?K2)) (\<lambda>S.
          exec_bind (vmspace_map (en_reserve E ?K2) S (areas_of ?K2) (k_phys ?K2) ?a uaddr attrs) (\<lambda>(r, S, as, ph).
            let K = set_space ?s S (put_memory as ph ?K2) in case r of
              Inl e \<Rightarrow> exec_bind (drop_area ?a K) (\<lambda>K. Val (Inl e, K))
            | Inr _ \<Rightarrow> Val (Inr (), K))) = Val (r, K3)" "world_inv E Rt (add_mset ?s Rs) Ra K3" "bytes_kept {} ?K2 K3" using Val by auto
      have "bytes_kept {} K K3" using r(3) taken(3) yes(4) by (simp add: bytes_kept_def)
      then show ?thesis using r(1,2) yes(1) by (intro fin [of r K3]) simp_all
    next
      case Panic
      show ?thesis
      proof (cases "map_refusal True S A uaddr")
        case None
        then have "sc_vmspace_map E h g uaddr attrs K = Panic"
          using taken(1) yes(1) S deref_object [OF S] Panic
            vmspace_map_reserve [where as = "areas_of ?K2" and a = ?a, OF A, of S "k_phys ?K2" uaddr attrs]
          by (simp add: sc_vmspace_map_def)
        then show ?thesis using obj Panic by auto
      next
        case (Some e)
        then have "vmspace_map Panic S (areas_of ?K2) (k_phys ?K2) ?a uaddr attrs = vmspace_map (Val True) S (areas_of ?K2) (k_phys ?K2) ?a uaddr attrs"
          using vmspace_map_reserve [where as = "areas_of ?K2" and a = ?a, OF A, of S "k_phys ?K2" uaddr attrs]
            vmspace_map_refused [where as = "areas_of ?K2" and a = ?a, OF A Some] by simp
        with vmspace_map_taken [OF yes(5) _ A fit' at, of ?s S True] S deref_object [OF S]
        obtain r K3 where r: "exec_bind (sr_deref ?s (k_spaces ?K2)) (\<lambda>S.
          exec_bind (vmspace_map (en_reserve E ?K2) S (areas_of ?K2) (k_phys ?K2) ?a uaddr attrs) (\<lambda>(r, S, as, ph).
            let K = set_space ?s S (put_memory as ph ?K2) in case r of
              Inl e \<Rightarrow> exec_bind (drop_area ?a K) (\<lambda>K. Val (Inl e, K))
            | Inr _ \<Rightarrow> Val (Inr (), K))) = Val (r, K3)" "world_inv E Rt (add_mset ?s Rs) Ra K3" "bytes_kept {} ?K2 K3" using Panic by auto
        have "bytes_kept {} K K3" using r(3) taken(3) yes(4) by (simp add: bytes_kept_def)
        then show ?thesis using r(1,2) yes(1) by (intro fin [of r K3]) simp_all
      qed
    next
      case Undef
      then show ?thesis using env by (auto simp: env_ok_def)
    qed
  qed
qed

lemma vmspace_read_world:
  assumes inv: "world_inv E Rt Rs Ra K" and h: "is_type h VmSpaceT \<longrightarrow> obj_of E VmSpaceT h \<in># Rs" and rm: "room E 1 Rt Rs Ra K"
  shows "\<exists>r out K'. sc_vmspace_read E h uaddr buf K = Val (r, out, K') \<and> world_inv E Rt Rs Ra K' \<and> bytes_kept {} K K'"
proof (cases rule: borrow_space_world [OF inv h rm, of RIGHT_READ, case_names refused taken])
  case (refused e)
  then show ?thesis using inv by (simp add: sc_vmspace_read_def)
next
  case (taken s)
  let ?s = "obj_of E VmSpaceT h" and ?K = "K\<lparr>k_spaces := s\<rparr>"
  obtain S where S: "spaces ?K ?s = Some S" using world_alive(2) [OF taken(4), of ?s] by auto
  obtain r out where r: "read_bytes S (areas_of ?K) (k_phys ?K) uaddr buf = Val (r, out, areas_of ?K, k_phys ?K)"
    using read_bytes_total [OF mem_invD(3) [OF world_invD(4) [OF taken(4)] S]] by blast
  obtain K' where K': "drop_space ?s ?K = Val K'" "world_inv E Rt Rs Ra K'" "shrinks ?K K'" using drop_space_world [OF taken(4)] by blast
  have "bytes_kept {} K ?K" using taken(3) by (simp add: bytes_kept_def)
  then have "bytes_kept {} K K'" using K'(3) by (rule bytes_kept_shrinks)
  moreover have "sc_vmspace_read E h uaddr buf K = Val (r, out, K')"
    using taken(1) deref_object [OF S] r K'(1) put_memory_same [of ?K] by (simp add: sc_vmspace_read_def)
  ultimately show ?thesis using K'(2) by blast
qed

section \<open>Calls on threads\<close>

lemma bytes_same: "spaces K' = spaces K \<Longrightarrow> k_areas K' = k_areas K \<Longrightarrow> k_phys K' = k_phys K \<Longrightarrow> bytes_kept W K K'"
  by (simp add: bytes_kept_def)

text \<open>A change of one thread that keeps its address space and fits its place in the scheduler.\<close>

lemma thread_update_world:
  assumes inv: "world_inv E Rt Rs Ra K" and T: "threads K t = Some T" and vs: "th_vmspace (f T) = th_vmspace T"
    and pl: "places_ok (mt_state (th_mutable (f T))) (count (mset (k_runqueue K) + current_refs (en_off E ThreadT) K) t)"
  shows "world_inv E Rt Rs Ra (K\<lparr>k_threads := set_value t f (k_threads K)\<rparr>)"
proof -
  have obj: "refs_object (set_value t f (k_threads K)) = (threads K)(t \<mapsto> f T)" by (rule set_value_object [OF T])
  have "held (\<lambda>T. {#th_vmspace T#}) ((threads K)(t \<mapsto> f T)) = held (\<lambda>T. {#th_vmspace T#}) (threads K)"
    using vs by (intro held_update [where g = "\<lambda>T. {#th_vmspace T#}" and obj = "threads K" and p = t and v = T, OF T]) simp
  then have "refs_inv (en_off E ThreadT) (K\<lparr>k_threads := set_value t f (k_threads K)\<rparr>) Rt Rs Ra"
    using world_invD(2) [OF inv] set_value_owned by (auto simp: refs_inv_def current_refs_def obj)
  moreover have "sched_inv (en_off E ThreadT) (K\<lparr>k_threads := set_value t f (k_threads K)\<rparr>)"
    using world_invD(3) [OF inv] pl by (auto simp: sched_inv_def obj current_refs_def)
  ultimately show ?thesis using world_invD(4,5) [OF inv] by (simp add: world_inv_def kernel_inv_def current_refs_def)
qed

text \<open>Every call on a thread borrows it, works on it and drops the reference.\<close>

lemma borrowed_drop:
  assumes "world_inv E (add_mset t Rt) Rs Ra K1" and "bytes_kept W K K1"
  shows "\<exists>K'. drop_thread t K1 = Val K' \<and> world_inv E Rt Rs Ra K' \<and> bytes_kept W K K'"
  using drop_thread_world [OF assms(1)] bytes_kept_shrinks [OF assms(2)] by blast

lemma places_terminated: "places_ok st n \<Longrightarrow> places_ok Terminated n"
  by (cases st) simp_all

lemma thread_place:
  assumes "world_inv E Rt Rs Ra K" and "threads K t = Some T"
  shows "places_ok (mt_state (th_mutable T)) (count (mset (k_runqueue K) + current_refs (en_off E ThreadT) K) t)"
    and "places_ok Terminated (count (mset (k_runqueue K) + current_refs (en_off E ThreadT) K) t)"
proof -
  show p: "places_ok (mt_state (th_mutable T)) (count (mset (k_runqueue K) + current_refs (en_off E ThreadT) K) t)"
    using world_invD(3) [OF assms(1)] assms(2) by (simp add: sched_inv_def)
  then show "places_ok Terminated (count (mset (k_runqueue K) + current_refs (en_off E ThreadT) K) t)"
    using places_terminated by blast
qed

lemma get_context_world:
  assumes inv: "world_inv E Rt Rs Ra K" and h: "is_type h ThreadT \<longrightarrow> obj_of E ThreadT h \<in># Rt" and rm: "room E 1 Rt Rs Ra K"
  shows "\<exists>r K'. sc_thread_get_context E h kind regs K = Val (r, K') \<and> world_inv E Rt Rs Ra K' \<and> bytes_kept {} K K'"
proof (cases rule: borrow_thread_world [OF inv h rm, of RIGHT_READ, case_names refused taken])
  case (refused e)
  then show ?thesis using inv by (simp add: sc_thread_get_context_def)
next
  case (taken s)
  let ?K = "K\<lparr>k_threads := s\<rparr>"
  obtain T where T: "threads ?K (obj_of E ThreadT h) = Some T" using world_alive(1) [OF taken(4), of "obj_of E ThreadT h"] by auto
  have "\<exists>r. thread_read_context (obj_of E ThreadT h) kind regs ?K = Val r"
    using T by (simp add: thread_read_context_def get_thread_eq)
  then show ?thesis using borrowed_drop [OF taken(4) bytes_same, of K "{}"] taken(1) by (auto simp: sc_thread_get_context_def)
qed

lemma set_context_world:
  assumes inv: "world_inv E Rt Rs Ra K" and h: "is_type h ThreadT \<longrightarrow> obj_of E ThreadT h \<in># Rt" and rm: "room E 1 Rt Rs Ra K"
  shows "\<exists>r K'. sc_thread_set_context E h kind regs K = Val (r, K') \<and> world_inv E Rt Rs Ra K' \<and> bytes_kept {} K K'"
proof (cases rule: borrow_thread_world [OF inv h rm, of RIGHT_WRITE, case_names refused taken])
  case (refused e)
  then show ?thesis using inv by (simp add: sc_thread_set_context_def)
next
  case (taken s)
  let ?K = "K\<lparr>k_threads := s\<rparr>" and ?t = "obj_of E ThreadT h"
  let ?f = "\<lambda>T. T\<lparr>th_arch := arch_write_context (th_arch T) kind regs\<rparr>"
  let ?K1 = "?K\<lparr>k_threads := set_value ?t ?f (k_threads ?K)\<rparr>"
  obtain T where T: "threads ?K ?t = Some T" using world_alive(1) [OF taken(4), of ?t] by auto
  have w: "world_inv E (add_mset ?t Rt) Rs Ra ?K1"
    by (rule thread_update_world [OF taken(4) T]) (use thread_place(1) [OF taken(4) T] in simp_all)
  have "(\<exists>r. thread_write_context ?t kind regs ?K = Val (r, ?K1)) \<or> (\<exists>r. thread_write_context ?t kind regs ?K = Val (r, ?K))"
    using T by (simp add: thread_write_context_def get_thread_eq)
  then show ?thesis
    using borrowed_drop [OF taken(4) bytes_same, of K "{}"] borrowed_drop [OF w bytes_same, of K "{}"] taken(1)
    by (auto simp: sc_thread_set_context_def)
qed

lemma terminate_world:
  assumes inv: "world_inv E Rt Rs Ra K" and h: "is_type h ThreadT \<longrightarrow> obj_of E ThreadT h \<in># Rt" and rm: "room E 1 Rt Rs Ra K"
    and up: "\<And>T. is_type h ThreadT \<Longrightarrow> threads K (obj_of E ThreadT h) = Some T \<Longrightarrow> mt_state (th_mutable T) = Terminated \<or> 0 < mt_in_upcalls (th_mutable T)"
  shows "\<exists>r K'. sc_thread_terminate E upc h (K, \<sigma>) = Val (r, K', \<sigma>) \<and> world_inv E Rt Rs Ra K' \<and> bytes_kept {} K K'"
proof (cases rule: borrow_thread_world [OF inv h rm, of RIGHT_WRITE, case_names refused taken])
  case (refused e)
  then show ?thesis using inv by (simp add: sc_thread_terminate_def)
next
  case (taken s)
  let ?K = "K\<lparr>k_threads := s\<rparr>" and ?t = "obj_of E ThreadT h"
  obtain T where T: "threads ?K ?t = Some T" using world_alive(1) [OF taken(4), of ?t] by auto
  let ?m = "(th_mutable T)\<lparr>mt_state := Terminated\<rparr>"
  have "world_inv E (add_mset ?t Rt) Rs Ra (set_mutable ?t ?m ?K)"
    unfolding set_mutable_def by (rule thread_update_world [OF taken(4) T]) (use thread_place(2) [OF taken(4) T] in simp_all)
  note d = borrowed_drop [OF this bytes_same, of K "{}"] borrowed_drop [OF taken(4) bytes_same, of K "{}"]
  have ty: "is_type h ThreadT" using taken(1) by (auto simp: borrow_thread_def from_borrowed_handle_def split: if_splits)
  have "mt_state (th_mutable T) = Terminated \<or> 0 < mt_in_upcalls (th_mutable T)" using up [OF ty] T taken(3) by simp
  then have "(\<exists>r. thread_terminate upc ?t (?K, \<sigma>) = Val (r, set_mutable ?t ?m ?K, \<sigma>)) \<or> (\<exists>r. thread_terminate upc ?t (?K, \<sigma>) = Val (r, ?K, \<sigma>))"
    using T by (auto simp: thread_terminate_def get_thread_eq terminate_section_def)
  then show ?thesis using d taken(1,3) by (auto simp: sc_thread_terminate_def set_mutable_def)
qed

lemma destroy_world:
  assumes inv: "world_inv E Rt Rs Ra K" and h: "is_type h ThreadT \<longrightarrow> obj_of E ThreadT h \<in># Rt"
  shows "\<exists>r K'. sc_thread_destroy E h K = Val (r, K') \<and> bytes_kept {} K K'
    \<and> (case r of Inl _ \<Rightarrow> K' = K | Inr _ \<Rightarrow> is_type h ThreadT \<and> world_inv E (Rt - {#obj_of E ThreadT h#}) Rs Ra K')"
proof (cases "is_type h ThreadT")
  case True
  then have "world_inv E (add_mset (obj_of E ThreadT h) (Rt - {#obj_of E ThreadT h#})) Rs Ra K" using inv h by simp
  from borrowed_drop [OF this bytes_kept_refl, of "{}"] True show ?thesis by (auto simp: sc_thread_destroy_def from_moved_handle_def)
next
  case False
  then show ?thesis by (simp add: sc_thread_destroy_def from_moved_handle_def)
qed

text \<open>The reference that \<open>unblock\<close> clones goes to the run queue, or is dropped when the queue cannot grow.\<close>

lemma thread_unblock_world:
  assumes inv: "world_inv E Rt Rs Ra K" and t: "t \<in># Rt" and rm: "size (mset (k_runqueue K) + current_refs (en_off E ThreadT) K + Rt) + 1 < USIZE_MAX"
  shows "\<exists>r K'. thread_unblock (Val ok) t K = Val (r, K') \<and> world_inv E Rt Rs Ra K' \<and> bytes_kept {} K K'"
proof -
  obtain T where T: "threads K t = Some T" using world_alive(1) [OF inv t] by blast
  show ?thesis
  proof (cases "mt_state (th_mutable T) = Blocked")
    case False
    then show ?thesis using T inv by (simp add: thread_unblock_def get_thread_eq)
  next
    case True
    obtain s where s: "clone_thread t K = Val (K\<lparr>k_threads := s\<rparr>)" "refs_inv (en_off E ThreadT) (K\<lparr>k_threads := s\<rparr>) (add_mset t Rt) Rs Ra"
      "refs_object s = threads K"
      using clone_thread_owned [OF world_invD(2) [OF inv], of t] t rm by auto
    let ?K = "K\<lparr>k_threads := s\<rparr>"
    show ?thesis
    proof (cases ok)
      case False
      have w: "world_inv E (add_mset t Rt) Rs Ra ?K"
        using world_threads [OF inv, of s "add_mset t Rt"] s(2,3) rm by (simp add: refs_inv_def current_refs_def)
      from borrowed_drop [OF w bytes_same, of K "{}"] show ?thesis
        using False True T s(1,3) by (auto simp: thread_unblock_def get_thread_eq push_back_def)
    next
      case ok: True
      let ?K1 = "?K\<lparr>k_runqueue := k_runqueue K @ [t]\<rparr>"
      let ?K2 = "set_mutable t ((th_mutable T)\<lparr>mt_state := Runnable\<rparr>) ?K1"
      have r1: "refs_inv (en_off E ThreadT) ?K1 Rt Rs Ra" using s(2) by (simp add: refs_inv_def current_refs_def)
      have T1: "threads ?K1 t = Some T" using T s(3) by simp
      note pl = thread_place(1) [OF inv]
      have "kernel_inv (en_off E ThreadT) ?K2 Rt Rs Ra"
      proof (rule set_mutable_kernel_inv [OF r1 T1])
        show "size (mset (k_runqueue ?K1) + current_refs (en_off E ThreadT) ?K1 + Rt) < USIZE_MAX" using rm by (simp add: current_refs_def)
        show "places_ok (mt_state ((th_mutable T)\<lparr>mt_state := Runnable\<rparr>)) (count (mset (k_runqueue ?K1) + current_refs (en_off E ThreadT) ?K1) t)"
          using pl [OF T] True by (simp add: current_refs_def not_in_iff)
        show "places_ok (mt_state (th_mutable Q)) (count (mset (k_runqueue ?K1) + current_refs (en_off E ThreadT) ?K1) q)"
          if "q \<noteq> t" "threads ?K1 q = Some Q" for q Q
          using pl [of q Q] that s(3) by (simp add: current_refs_def)
      qed
      moreover have "mem_inv (spaces ?K2) (areas_of ?K2) (k_phys ?K2)" using world_invD(4) [OF inv] by (simp add: set_mutable_def)
      moreover have "thread_unblock (Val ok) t K = Val (Inr (), ?K2)" using ok True T s(1) by (simp add: thread_unblock_def get_thread_eq push_back_def)
      ultimately show ?thesis using bytes_same [of ?K2 K "{}"] by (auto simp: world_inv_def set_mutable_def)
    qed
  qed
qed

lemma thread_unblock_reserve:
  assumes "threads K t = Some T" and "t \<in># Rt" and "world_inv E Rt Rs Ra K"
  shows "thread_unblock Panic t K = (if mt_state (th_mutable T) = Blocked then Panic else thread_unblock (Val True) t K)"
proof -
  have "\<exists>K1. clone_thread t K = Val K1"
    using clone_thread_owned [OF world_invD(2) [OF assms(3)], of t] world_invD(5) [OF assms(3)] assms(2) by auto
  then show ?thesis using assms(1) by (auto simp: thread_unblock_def get_thread_eq push_back_def)
qed

lemma unblock_world:
  assumes inv: "world_inv E Rt Rs Ra K" and h: "is_type h ThreadT \<longrightarrow> obj_of E ThreadT h \<in># Rt" and rm: "room E 2 Rt Rs Ra K" and env: "env_ok E"
  shows "heap_out E (ThreadUnblock h) K (sc_thread_unblock E h K)
    \<or> (\<exists>r K'. sc_thread_unblock E h K = Val (r, K') \<and> world_inv E Rt Rs Ra K' \<and> bytes_kept {} K K')"
proof (cases rule: borrow_thread_world [OF inv h room_less [OF rm one_le_numeral], of RIGHT_WRITE, case_names refused taken])
  case (refused e)
  then show ?thesis using inv by (simp add: sc_thread_unblock_def)
next
  case (taken s)
  let ?K = "K\<lparr>k_threads := s\<rparr>" and ?t = "obj_of E ThreadT h"
  have few: "size (mset (k_runqueue ?K) + current_refs (en_off E ThreadT) ?K + add_mset ?t Rt) + 1 < USIZE_MAX"
    using rm by (simp add: room_def current_refs_def)
  have fin: ?thesis if eq: "thread_unblock (en_reserve E ?K) ?t ?K = thread_unblock (Val ok) ?t ?K" for ok
  proof -
    from thread_unblock_world [OF taken(4) _ few, of ?t ok]
    obtain r K1 where u: "thread_unblock (en_reserve E ?K) ?t ?K = Val (r, K1)" "world_inv E (add_mset ?t Rt) Rs Ra K1" "bytes_kept {} ?K K1"
      using eq by auto
    have "bytes_kept {} K K1" using u(3) by (simp add: bytes_kept_def)
    from borrowed_drop [OF u(2) this] show ?thesis using taken(1) u(1) by (auto simp: sc_thread_unblock_def)
  qed
  obtain T where T: "threads ?K ?t = Some T" using world_alive(1) [OF taken(4), of ?t] by auto
  show ?thesis
  proof (cases "en_reserve E ?K")
    case (Val ok)
    then show ?thesis by (intro fin [of ok]) simp
  next
    case Panic
    note p = thread_unblock_reserve [OF T _ taken(4)]
    show ?thesis
    proof (cases "mt_state (th_mutable T) = Blocked")
      case True
      then have "sc_thread_unblock E h K = Panic" using p taken(1) Panic by (simp add: sc_thread_unblock_def)
      moreover have "same_objects K ?K" using taken(3) by (simp add: same_objects_def)
      ultimately show ?thesis using Panic by auto
    next
      case False
      then show ?thesis using p Panic by (intro fin [of True]) simp
    qed
  next
    case Undef
    then show ?thesis using env by (auto simp: env_ok_def)
  qed
qed

lemma thread_new_world:
  assumes inv: "world_inv E Rt (add_mset s Rs) Ra K" and env: "env_ok E"
    and rm: "size (mset (k_runqueue K) + current_refs (en_off E ThreadT) K + Rt) + 1 < USIZE_MAX"
    and alloc: "en_alloc E ThreadT K = Val ptr"
  shows "\<exists>r K'. thread_new (en_alloc E ThreadT K) s upcall K = Val (r, K') \<and> bytes_kept {} K K'
    \<and> (case r of Inl _ \<Rightarrow> world_inv E Rt Rs Ra K' | Inr p \<Rightarrow> world_inv E (add_mset p Rt) Rs Ra K')"
proof (cases ptr)
  case None
  from drop_space_world [OF inv] obtain K' where "drop_space s K = Val K'" "world_inv E Rt Rs Ra K'" "shrinks K K'" by blast
  then show ?thesis using None alloc bytes_kept_shrinks [OF bytes_kept_refl] by (simp add: thread_new_def sr_new_def)
next
  case (Some p)
  let ?T = "thread_value s upcall"
  let ?K = "K\<lparr>k_threads := (k_threads K)(p \<mapsto> refcounted_new ?T)\<rparr>"
  note R = world_invD(2) [OF inv, unfolded refs_inv_def]
  have own: "refs_owned (k_threads K) (mset (k_runqueue K) + current_refs (en_off E ThreadT) K + Rt)" using R by simp
  have free: "k_threads K p = None" using env Some alloc by (auto simp: env_ok_def)
  note new = new_owned(1,2) [OF own free, of ?T] new_owned(3,4) [OF own free]
  have "held (\<lambda>T. {#th_vmspace T#}) ((threads K)(p \<mapsto> ?T)) = add_mset s (held (\<lambda>T. {#th_vmspace T#}) (threads K))"
    using held_insert [where g = "\<lambda>T. {#th_vmspace T#}" and obj = "threads K" and p = p and v = ?T, OF refs_owned_finite [OF own] new(3)]
    by (simp add: thread_value_def)
  then have "refs_inv (en_off E ThreadT) ?K (add_mset p Rt) Rs Ra" using R new(1,2) by (simp add: refs_inv_def current_refs_def)
  moreover have "sched_inv (en_off E ThreadT) ?K"
    using world_invD(3) [OF inv] new(2,4) by (auto simp: sched_inv_def current_refs_def thread_value_def not_in_iff)
  ultimately have "world_inv E (add_mset p Rt) Rs Ra ?K"
    using rm world_invD(4) [OF inv] by (simp add: world_inv_def kernel_inv_def current_refs_def)
  then show ?thesis using Some alloc bytes_same [of ?K K "{}"] by (simp add: thread_new_def sr_new_def)
qed

lemma thread_create_world:
  assumes inv: "world_inv E Rt Rs Ra K" and env: "env_ok E" and h: "is_type h VmSpaceT \<longrightarrow> obj_of E VmSpaceT h \<in># Rs" and rm: "room E 1 Rt Rs Ra K"
  shows "heap_out E (ThreadCreate h upcall) K (sc_thread_create E h upcall K) \<or> (\<exists>r K'. sc_thread_create E h upcall K = Val (r, K') \<and> bytes_kept {} K K'
    \<and> (case r of Inl _ \<Rightarrow> world_inv E Rt Rs Ra K' | Inr g \<Rightarrow> \<exists>p. g = thread_handle E p \<and> world_inv E (add_mset p Rt) Rs Ra K'))"
proof (cases rule: borrow_space_world [OF inv h rm, of RIGHT_MAP, case_names refused taken])
  case (refused e)
  then show ?thesis using inv by (simp add: sc_thread_create_def)
next
  case (taken s)
  let ?K = "K\<lparr>k_spaces := s\<rparr>"
  have "size (mset (k_runqueue ?K) + current_refs (en_off E ThreadT) ?K + Rt) + 1 < USIZE_MAX" using rm by (simp add: room_def current_refs_def)
  note few = this
  show ?thesis
  proof (cases "en_alloc E ThreadT ?K")
    case (Val ptr)
    from thread_new_world [OF taken(4) env few Val, of upcall]
    obtain r K' where r: "thread_new (en_alloc E ThreadT ?K) (obj_of E VmSpaceT h) upcall ?K = Val (r, K')" "bytes_kept {} ?K K'"
      "case r of Inl _ \<Rightarrow> world_inv E Rt Rs Ra K' | Inr p \<Rightarrow> world_inv E (add_mset p Rt) Rs Ra K'" by blast
    have "bytes_kept {} K K'" using r(2) taken(3) by (simp add: bytes_kept_def)
    then show ?thesis using r(1,3) taken(1) by (cases r) (auto simp: sc_thread_create_def)
  next
    case Panic
    then have "sc_thread_create E h upcall K = Panic" using taken(1) by (simp add: sc_thread_create_def thread_new_def sr_new_def)
    moreover have "same_objects K ?K" using taken(3) by (simp add: same_objects_def)
    ultimately show ?thesis using Panic by auto
  next
    case Undef
    then show ?thesis using env by (auto simp: env_ok_def)
  qed
qed

section \<open>Sequences of calls\<close>

definition refs_of :: "env \<Rightarrow> obj_type \<Rightarrow> Handle multiset \<Rightarrow> nat multiset" where
  "refs_of E T H = image_mset (obj_of E T) (filter_mset (\<lambda>h. is_type h T) H)"

text \<open>\<open>H\<close> are the handles of the servers, \<open>X\<close> the threads to which running kernel code has a reference.\<close>

definition servers_inv :: "env \<Rightarrow> nat multiset \<Rightarrow> Handle multiset \<Rightarrow> kernel \<Rightarrow> bool" where
  "servers_inv E X H K \<longleftrightarrow> world_inv E (X + refs_of E ThreadT H) (refs_of E VmSpaceT H) (refs_of E VmAreaT H) K"

definition few_refs :: "env \<Rightarrow> nat multiset \<Rightarrow> Handle multiset \<Rightarrow> kernel \<Rightarrow> bool" where
  "few_refs E X H K \<longleftrightarrow> room E 2 (X + refs_of E ThreadT H) (refs_of E VmSpaceT H) (refs_of E VmAreaT H) K"

inductive serves :: "env \<Rightarrow> 's upcalls \<Rightarrow> nat multiset \<Rightarrow> kernel \<times> 's \<times> Handle multiset \<Rightarrow> kernel \<times> 's \<times> Handle multiset \<Rightarrow> bool"
  for E up X where
  serves_refl: "serves E up X w w"
| serves_call: "serves E up X w (K, \<sigma>, H) \<Longrightarrow> few_refs E X H K \<Longrightarrow> call_ok E K H c \<Longrightarrow> supercall E up c (K, \<sigma>) = Some (Val (r, K', \<sigma>')) \<Longrightarrow>
    serves E up X w (K', \<sigma>', handles_after c r H)"

lemma refs_of_add [simp]: "refs_of E T (add_mset h H) = (if is_type h T then add_mset (obj_of E T h) (refs_of E T H) else refs_of E T H)"
  by (simp add: refs_of_def)

lemma refs_of_held: "h \<in># H \<Longrightarrow> is_type h T \<longrightarrow> obj_of E T h \<in># refs_of E T H"
  by (auto simp: refs_of_def)

lemma refs_of_remove:
  assumes "h \<in># H"
  shows "refs_of E T (H - {#h#}) = (if is_type h T then refs_of E T H - {#obj_of E T h#} else refs_of E T H)"
proof -
  obtain G where "H = add_mset h G" using multi_member_split [OF assms] by blast
  then show ?thesis by simp
qed

text \<open>Calls that leave the handles alone, and calls that return a new one.\<close>

abbreviation call_panics :: "env \<Rightarrow> call \<Rightarrow> kernel \<Rightarrow> 'a exec option \<Rightarrow> bool" where
  "call_panics E c K m \<equiv> m = Some Panic \<and> (\<exists>K1. same_objects K K1 \<and> heap_panics E c K1)"

lemma reply_same:
  assumes "heap_out E c K m \<or> (\<exists>r K'. m = Val (r, K') \<and> world_inv E (X + refs_of E ThreadT H) (refs_of E VmSpaceT H) (refs_of E VmAreaT H) K'
      \<and> bytes_kept (written E c) K K')"
    and "supercall E up c (K, \<sigma>) = Some (replying f \<sigma> m)" and "\<And>r. handles_after c (case r of Inl e \<Rightarrow> Failed e | Inr v \<Rightarrow> f v) H = H"
  shows "call_panics E c K (supercall E up c (K, \<sigma>))
    \<or> (\<exists>r K'. supercall E up c (K, \<sigma>) = Some (Val (r, K', \<sigma>)) \<and> servers_inv E X (handles_after c r H) K' \<and> bytes_kept (written E c) K K')"
proof (cases "heap_out E c K m")
  case True
  then show ?thesis using assms(2) by simp
next
  case False
  then obtain r K' where "m = Val (r, K')" "servers_inv E X H K'" "bytes_kept (written E c) K K'"
    using assms(1) by (auto simp: servers_inv_def)
  then show ?thesis using assms(2,3) by simp
qed

lemma reply_new:
  assumes "heap_out E c K m \<or> (\<exists>r K'. m = Val (r, K') \<and> bytes_kept {} K K' \<and> (case r of Inl _ \<Rightarrow> P K' | Inr h \<Rightarrow> \<exists>p. h = into_handle T (en_off E T) p \<and> Q p K'))"
    and "\<And>K'. P K' \<Longrightarrow> servers_inv E X H K'" and "\<And>p K'. Q p K' \<Longrightarrow> servers_inv E X (add_mset (into_handle T (en_off E T) p) H) K'"
    and "supercall E up c (K, \<sigma>) = Some (replying Object \<sigma> m)" and "written E c = {}"
  shows "call_panics E c K (supercall E up c (K, \<sigma>))
    \<or> (\<exists>r K'. supercall E up c (K, \<sigma>) = Some (Val (r, K', \<sigma>)) \<and> servers_inv E X (handles_after c r H) K' \<and> bytes_kept (written E c) K K')"
proof (cases "heap_out E c K m")
  case True
  then show ?thesis using assms(4) by simp
next
  case False
  then obtain r K' where r: "m = Val (r, K')" "bytes_kept {} K K'" "case r of Inl _ \<Rightarrow> P K' | Inr h \<Rightarrow> \<exists>p. h = into_handle T (en_off E T) p \<and> Q p K'"
    using assms(1) by blast
  then show ?thesis using assms(2-) by (cases r) (auto simp: handles_after_def)
qed

lemma supercall_memory_step:
  assumes env: "env_ok E" and inv: "servers_inv E X H K" and few: "few_refs E X H K" and ok: "call_ok E K H c"
    and mem: "case c of Malloc _ \<Rightarrow> True | Print _ \<Rightarrow> True | ServerPanic \<Rightarrow> True | VmSpaceCreate \<Rightarrow> True | VmAreaAllocate _ \<Rightarrow> True
      | VmAreaWrite _ _ _ \<Rightarrow> True | VmSpaceMap _ _ _ _ \<Rightarrow> True | VmSpaceRead _ _ _ \<Rightarrow> True | _ \<Rightarrow> False"
  shows "call_panics E c K (supercall E up c (K, \<sigma>))
    \<or> (\<exists>r K'. supercall E up c (K, \<sigma>) = Some (Val (r, K', \<sigma>)) \<and> servers_inv E X (handles_after c r H) K' \<and> bytes_kept (written E c) K K')"
proof -
  note W = inv [unfolded servers_inv_def] and rm2 = few [unfolded few_refs_def] and held = refs_of_held [of _ H]
  note rm = room_less [OF rm2 one_le_numeral]
  show ?thesis
  proof (cases c)
    case (Malloc sz)
    with malloc_world [OF W] ok show ?thesis by (intro reply_same) (auto simp: written_def handles_after_def split: sum.splits)
  next
    case (Print bytes)
    then obtain M where "console_write bytes (k_machine K) = Some M" using ok by auto
    moreover have "world_inv E Rt Rs Ra (K\<lparr>k_machine := M\<rparr>) = world_inv E Rt Rs Ra K" for Rt Rs Ra
      by (simp add: world_inv_def kernel_inv_def refs_inv_def sched_inv_def current_refs_def)
    ultimately show ?thesis using Print inv by (auto simp: sc_print_def servers_inv_def handles_after_def written_def bytes_kept_def)
  next
    case ServerPanic
    then show ?thesis using ok by simp
  next
    case VmSpaceCreate
    show ?thesis unfolding VmSpaceCreate
      by (rule reply_new [OF vmspace_create_world [OF W env]]) (simp_all add: servers_inv_def written_def)
  next
    case (VmAreaAllocate len)
    then have len: "len \<le> USIZE_MAX" using ok by simp
    show ?thesis unfolding VmAreaAllocate
      by (rule reply_new [OF vmarea_allocate_world [OF W env len]]) (simp_all add: servers_inv_def written_def)
  next
    case (VmAreaWrite h offset data)
    with vmarea_write_world [OF W held rm, of h offset data] ok show ?thesis
      by (intro reply_same) (auto simp: written_def handles_after_def split: sum.splits)
  next
    case (VmSpaceMap h g uaddr attrs)
    have "heap_out E c K (sc_vmspace_map E h g uaddr attrs K) \<or> (\<exists>r K'. sc_vmspace_map E h g uaddr attrs K = Val (r, K')
        \<and> world_inv E (X + refs_of E ThreadT H) (refs_of E VmSpaceT H) (refs_of E VmAreaT H) K' \<and> bytes_kept (written E c) K K')"
      using ok unfolding VmSpaceMap written_def call.case by (intro vmspace_map_world [OF W held held rm2 _ _ env]) auto
    then show ?thesis
      by (rule reply_same [where f = "\<lambda>_. Success"]) (simp_all add: VmSpaceMap handles_after_def split: sum.splits)
  next
    case (VmSpaceRead h uaddr buf)
    with vmspace_read_world [OF W held rm, of h uaddr buf] ok show ?thesis
      by (auto simp: servers_inv_def written_def handles_after_def)
  qed (use mem in simp_all)
qed

lemma supercall_thread_step:
  assumes env: "env_ok E" and inv: "servers_inv E X H K" and few: "few_refs E X H K" and ok: "call_ok E K H c"
    and mem: "case c of ThreadCreate _ _ \<Rightarrow> True | ThreadGetContext _ _ _ \<Rightarrow> True | ThreadSetContext _ _ _ \<Rightarrow> True
      | ThreadUnblock _ \<Rightarrow> True | ThreadTerminate _ \<Rightarrow> True | ThreadDestroy _ \<Rightarrow> True | _ \<Rightarrow> False"
  shows "call_panics E c K (supercall E up c (K, \<sigma>))
    \<or> (\<exists>r K'. supercall E up c (K, \<sigma>) = Some (Val (r, K', \<sigma>)) \<and> servers_inv E X (handles_after c r H) K' \<and> bytes_kept (written E c) K K')"
proof -
  note W = inv [unfolded servers_inv_def] and rm2 = few [unfolded few_refs_def]
  note rm = room_less [OF rm2 one_le_numeral]
  have held: "is_type h ThreadT \<longrightarrow> obj_of E ThreadT h \<in># X + refs_of E ThreadT H" if "h \<in># H" for h using refs_of_held [OF that] by simp
  show ?thesis
  proof (cases c)
    case (ThreadCreate h upcall)
    then have h: "h \<in># H" using ok by simp
    show ?thesis unfolding ThreadCreate
      by (rule reply_new [OF thread_create_world [OF W env refs_of_held [OF h] rm, of upcall]]) (simp_all add: servers_inv_def written_def)
  next
    case (ThreadGetContext h kind regs)
    with get_context_world [OF W held rm, of h kind regs] ok show ?thesis
      by (intro reply_same) (auto simp: written_def handles_after_def split: sum.splits)
  next
    case (ThreadSetContext h kind regs)
    with set_context_world [OF W held rm, of h kind regs] ok show ?thesis
      by (intro reply_same) (auto simp: written_def handles_after_def split: sum.splits)
  next
    case (ThreadUnblock h)
    then have h: "h \<in># H" using ok by simp
    have "heap_out E c K (sc_thread_unblock E h K) \<or> (\<exists>r K'. sc_thread_unblock E h K = Val (r, K')
        \<and> world_inv E (X + refs_of E ThreadT H) (refs_of E VmSpaceT H) (refs_of E VmAreaT H) K' \<and> bytes_kept (written E c) K K')"
      unfolding ThreadUnblock written_def call.case by (rule unblock_world [OF W held [OF h] rm2 env])
    then show ?thesis
      by (rule reply_same [where f = "\<lambda>_. Success"]) (simp_all add: ThreadUnblock handles_after_def split: sum.splits)
  next
    case (ThreadTerminate h)
    with terminate_world [OF W held rm, of h up \<sigma>] ok show ?thesis
      by (auto simp: servers_inv_def written_def handles_after_def split: sum.splits)
  next
    case (ThreadDestroy h)
    then have h: "h \<in># H" using ok by simp
    obtain r K' where r: "sc_thread_destroy E h K = Val (r, K')" "bytes_kept {} K K'"
      "case r of Inl _ \<Rightarrow> K' = K | Inr _ \<Rightarrow> is_type h ThreadT \<and> world_inv E (X + refs_of E ThreadT H - {#obj_of E ThreadT h#}) (refs_of E VmSpaceT H) (refs_of E VmAreaT H) K'"
      using destroy_world [OF W held [OF h]] by blast
    have "servers_inv E X (H - {#h#}) K'" if "r = Inr ()"
      using r(3) that refs_of_remove [OF h] refs_of_held [OF h, of ThreadT E] by (simp add: servers_inv_def is_type_def)
    then show ?thesis using r inv ThreadDestroy by (cases r) (auto simp: written_def handles_after_def)
  qed (use mem in simp_all)
qed

lemma supercall_step:
  assumes "env_ok E" and "servers_inv E X H K" and "few_refs E X H K" and "call_ok E K H c"
  shows "call_panics E c K (supercall E up c (K, \<sigma>))
    \<or> (\<exists>r K'. supercall E up c (K, \<sigma>) = Some (Val (r, K', \<sigma>)) \<and> servers_inv E X (handles_after c r H) K' \<and> bytes_kept (written E c) K K')"
  using supercall_memory_step [OF assms, of up \<sigma>] supercall_thread_step [OF assms, of up \<sigma>] by (cases c) simp_all

lemma serves_inv:
  "serves E up X w w' \<Longrightarrow> env_ok E \<Longrightarrow> servers_inv E X (snd (snd w)) (fst w) \<Longrightarrow> servers_inv E X (snd (snd w')) (fst w')"
proof (induction rule: serves.induct)
  case (serves_call w K \<sigma> H c r K' \<sigma>')
  then show ?case using supercall_step [of E X H K c up \<sigma>] by auto
qed simp

section \<open>Properties\<close>

text \<open>
  C2. Supercalls are safe and isolated. Take any sequence of calls that servers make, from a state in which
  every reference is accounted for and the memory of all address spaces is in order, with fewer references
  than a counter can count. The caller holds the handles it names; it asks \<open>malloc\<close> for whole pages, maps
  below \<open>2 ^ 47\<close>, terminates a thread only during its upcall, prints while the serial port gets ready and
  does not call \<open>panic\<close>. Then every further such call returns, or the kernel panics because its own heap is
  out of memory for an object or a vector of this call. It never touches a freed object. A call that
  returns leaves all references accounted for, the objects of all handles alive, the scheduler's queue and
  all page tables and areas in order. In every address space each byte that user code could read before is
  still there, and the processor translates its address to it, unless the call was a write to the very
  area that is mapped there.
\<close>

theorem supercalls_safe:
  assumes "env_ok E" and "servers_inv E X H0 K0" and "serves E up X (K0, \<sigma>0, H0) (K, \<sigma>, H)" and "few_refs E X H K" and "call_ok E K H c"
  shows "supercall E up c (K, \<sigma>) = Some Panic \<and> (\<exists>K1. same_objects K K1 \<and> heap_panics E c K1)
    \<or> (\<exists>r K'. supercall E up c (K, \<sigma>) = Some (Val (r, K', \<sigma>)) \<and> servers_inv E X (handles_after c r H) K'
      \<and> (\<forall>s S S' va b. spaces K s = Some S \<longrightarrow> spaces K' s = Some S' \<longrightarrow> space_byte S (areas_of K) (ph_mem (k_phys K)) va = Some b \<longrightarrow>
        mapped_area S va \<notin> Some ` written E c \<longrightarrow> space_byte S' (areas_of K') (ph_mem (k_phys K')) va = Some b
        \<and> (\<exists>p w. mmu (ph_mem (k_phys K')) (avs_root (vs_arch S')) va = Some (p, w, True) \<and> ph_mem (k_phys K') p = b)))"
proof (cases "call_panics E c K (supercall E up c (K, \<sigma>))")
  case True
  then show ?thesis by blast
next
  case False
  have inv: "servers_inv E X H K" using serves_inv [OF assms(3,1)] assms(2) by simp
  obtain r K' where r: "supercall E up c (K, \<sigma>) = Some (Val (r, K', \<sigma>))" "servers_inv E X (handles_after c r H) K'" "bytes_kept (written E c) K K'"
    using supercall_step [where up = up and \<sigma> = \<sigma>, OF assms(1) inv assms(4,5)] False by blast
  note M = world_invD(4) [OF inv [unfolded servers_inv_def]] and M' = world_invD(4) [OF r(2) [unfolded servers_inv_def]]
  have "space_byte S' (areas_of K') (ph_mem (k_phys K')) va = Some b
      \<and> (\<exists>p w. mmu (ph_mem (k_phys K')) (avs_root (vs_arch S')) va = Some (p, w, True) \<and> ph_mem (k_phys K') p = b)"
    if "spaces K s = Some S" "spaces K' s = Some S'" "space_byte S (areas_of K) (ph_mem (k_phys K)) va = Some b" "mapped_area S va \<notin> Some ` written E c"
    for s S S' va b
    using visible_kept [OF M M' r(3) that] mapped_byte [OF mem_invD(3) [OF M' that(2)]] by blast
  with r(1,2) show ?thesis by blast
qed

text \<open>A server holds handles to an address space and to the area that is mapped there.\<close>

definition example_world :: kernel where
  "example_world = example_kernel\<lparr>k_threads := Map.empty, k_spaces := [0x2000 \<mapsto> refcounted_new example_space1],
     k_areas := [7 \<mapsto> \<lparr>rc_counter = 2, rc_value = \<lparr>va_pages = [Some 0x304000], va_len = 4096\<rparr>\<rparr>],
     k_runqueue := [], k_current := None, k_phys := example_phys1\<rparr>"

abbreviation example_handles :: "Handle multiset" where
  "example_handles \<equiv> {#into_handle VmSpaceT 8 0x2000, into_handle VmAreaT 8 7#}"

lemma example_objects: "threads example_world = Map.empty" "spaces example_world = [0x2000 \<mapsto> example_space1]" "areas_of example_world = example_areas1"
  by (auto simp: example_world_def example_areas1_def refs_object_def refcounted_new_def)

lemma example_off [simp]: "en_off example_env T = 8"
  by (simp add: example_env_def)

lemma example_world_inv: "servers_inv example_env {#} example_handles example_world"
proof -
  have "mem_inv [0x2000 \<mapsto> example_space1] example_areas1 example_phys1"
    using example_space1_wf space_wfD(1,3) [OF example_space1_wf] by (auto simp: mem_inv_def)
  then show ?thesis
    by (auto simp: servers_inv_def world_inv_def kernel_inv_def refs_inv_def sched_inv_def example_objects refs_of_def held_def current_refs_def)
      (auto simp: example_world_def refs_owned_def refcounted_new_def example_space1_def USIZE_MAX_def)
qed

lemma example_env_ok: "env_ok example_env"
  by (auto simp: env_ok_def example_env_def split: if_splits)

theorem supercalls_safe_witness:
  "\<exists>r K' S'. supercall example_env (\<lambda>ctx arg w. Val w) (VmSpaceMap (into_handle VmSpaceT 8 0x2000) (into_handle VmAreaT 8 7) 0x5000 ATTR_WRITE) (example_world, ()) = Some (Val (r, K', ()))
     \<and> spaces K' 0x2000 = Some S' \<and> space_byte S' (areas_of K') (ph_mem (k_phys K')) 0x1000 = Some 0"
proof -
  let ?c = "VmSpaceMap (into_handle VmSpaceT 8 0x2000) (into_handle VmAreaT 8 7) 0x5000 ATTR_WRITE"
  have few: "few_refs example_env {#} example_handles example_world"
    by (simp add: few_refs_def room_def example_objects refs_of_def held_def current_refs_def) (simp add: example_world_def example_space1_def USIZE_MAX_def)
  have ok: "call_ok example_env example_world example_handles ?c" by (simp add: example_objects example_areas1_def ATTR_WRITE_def)
  have calm: "\<not> heap_panics example_env ?c K" for K by (simp add: example_env_def)
  obtain r K' where r: "supercall example_env (\<lambda>ctx arg w. Val w) ?c (example_world, ()) = Some (Val (r, K', ()))"
    "servers_inv example_env {#} (handles_after ?c r example_handles) K'"
    "\<forall>s S S' va b. spaces example_world s = Some S \<longrightarrow> spaces K' s = Some S' \<longrightarrow> space_byte S (areas_of example_world) (ph_mem (k_phys example_world)) va = Some b \<longrightarrow>
        mapped_area S va \<notin> Some ` written example_env ?c \<longrightarrow> space_byte S' (areas_of K') (ph_mem (k_phys K')) va = Some b"
    using supercalls_safe [OF example_env_ok example_world_inv serves_refl few ok, of "\<lambda>ctx arg w. Val w" "()"] calm by blast
  have "0x2000 \<in># refs_of example_env VmSpaceT (handles_after ?c r example_handles)"
    by (simp add: handles_after_def split: reply.splits)
  then obtain S' where S': "spaces K' 0x2000 = Some S'" using world_alive(2) [OF r(2) [unfolded servers_inv_def]] by blast
  have "spaces example_world 0x2000 = Some example_space1" "mapped_area example_space1 0x1000 \<notin> Some ` written example_env ?c"
    by (simp_all add: example_objects written_def)
  moreover have "space_byte example_space1 (areas_of example_world) (ph_mem (k_phys example_world)) 0x1000 = Some 0"
    using example_byte [of "0x1000"] by (simp add: example_objects) (simp add: example_world_def example_phys1_def)
  ultimately have "space_byte S' (areas_of K') (ph_mem (k_phys K')) 0x1000 = Some 0" using r(3) S' by blast
  with r(1) S' show ?thesis by blast
qed

end
