(* ===== verification/Utf8.thy ===== *)
theory Utf8
  imports Prelude
begin

text \<open>What the kernel and the servers use of the standard library's strings: validation of UTF-8 and trimming.\<close>

text \<open>
  \<open>core::str::from_utf8\<close>: one to four bytes per character, without overlong forms, surrogates and
  values above U+10FFFF.
\<close>

definition cont :: "u8 \<Rightarrow> bool" where
  "cont b \<longleftrightarrow> 0x80 \<le> b \<and> b \<le> 0xbf"

fun utf8_valid :: "u8 list \<Rightarrow> bool" where
  "utf8_valid [] \<longleftrightarrow> True"
| "utf8_valid (a # bs) \<longleftrightarrow>
     (if a < 0x80 then utf8_valid bs
      else case bs of [] \<Rightarrow> False
        | b # cs \<Rightarrow>
          if 0xc2 \<le> a \<and> a \<le> 0xdf then cont b \<and> utf8_valid cs
          else (case cs of [] \<Rightarrow> False
            | c # ds \<Rightarrow>
              if 0xe0 \<le> a \<and> a \<le> 0xef then
                cont b \<and> (a = 0xe0 \<longrightarrow> 0xa0 \<le> b) \<and> (a = 0xed \<longrightarrow> b \<le> 0x9f) \<and> cont c \<and> utf8_valid ds
              else (case ds of [] \<Rightarrow> False
                | d # es \<Rightarrow>
                  0xf0 \<le> a \<and> a \<le> 0xf4 \<and> cont b \<and> (a = 0xf0 \<longrightarrow> 0x90 \<le> b) \<and> (a = 0xf4 \<longrightarrow> b \<le> 0x8f) \<and> cont c \<and> cont d
                  \<and> utf8_valid es)))"

text \<open>\<open>u8::is_ascii_whitespace\<close> and \<open>str::trim_ascii_end\<close>.\<close>

definition is_ascii_whitespace :: "u8 \<Rightarrow> bool" where
  "is_ascii_whitespace b \<longleftrightarrow> b \<in> {0x20, 9, 10, 12, 13}"

definition trim_ascii_end :: "u8 list \<Rightarrow> u8 list" where
  "trim_ascii_end s = rev (dropWhile is_ascii_whitespace (rev s))"

declare utf8_valid.simps(2) [simp del]

lemma utf8_valid_ascii: "\<forall>b\<in>set bs. b < 0x80 \<Longrightarrow> utf8_valid bs"
  by (induction bs) (simp_all add: utf8_valid.simps(2))

lemma trim_ascii_end_prefix: "\<exists>ws. s = trim_ascii_end s @ ws \<and> (\<forall>b\<in>set ws. is_ascii_whitespace b)"
proof -
  have "s = rev (dropWhile is_ascii_whitespace (rev s)) @ rev (takeWhile is_ascii_whitespace (rev s))"
    by (metis rev_append rev_rev_ident takeWhile_dropWhile_id)
  then show ?thesis unfolding trim_ascii_end_def by (metis set_rev set_takeWhileD)
qed

lemma trim_ascii_end_last: "trim_ascii_end s \<noteq> [] \<Longrightarrow> \<not> is_ascii_whitespace (last (trim_ascii_end s))"
  unfolding trim_ascii_end_def using hd_dropWhile [of is_ascii_whitespace "rev s"] by (simp add: last_rev)

text \<open>A valid string is a sequence of characters of one to four bytes.\<close>

definition utf8_char :: "u8 list \<Rightarrow> bool" where
  "utf8_char c \<longleftrightarrow> (case c of
     [a] \<Rightarrow> a < 0x80
   | [a, b] \<Rightarrow> 0xc2 \<le> a \<and> a \<le> 0xdf \<and> cont b
   | [a, b, c] \<Rightarrow> 0xe0 \<le> a \<and> a \<le> 0xef \<and> cont b \<and> (a = 0xe0 \<longrightarrow> 0xa0 \<le> b) \<and> (a = 0xed \<longrightarrow> b \<le> 0x9f) \<and> cont c
   | [a, b, c, d] \<Rightarrow> 0xf0 \<le> a \<and> a \<le> 0xf4 \<and> cont b \<and> (a = 0xf0 \<longrightarrow> 0x90 \<le> b) \<and> (a = 0xf4 \<longrightarrow> b \<le> 0x8f) \<and> cont c \<and> cont d
   | _ \<Rightarrow> False)"

lemma utf8_valid_char:
  assumes "utf8_valid bs" and "bs \<noteq> []"
  shows "\<exists>c rest. bs = c @ rest \<and> c \<noteq> [] \<and> utf8_char c \<and> utf8_valid rest"
proof -
  obtain a bs' where bs: "bs = a # bs'" using assms(2) by (cases bs) auto
  consider "a < 0x80" | "\<not> a < 0x80" "0xc2 \<le> a \<and> a \<le> 0xdf" | "\<not> a < 0x80" "\<not> (0xc2 \<le> a \<and> a \<le> 0xdf)" "0xe0 \<le> a \<and> a \<le> 0xef"
    | "\<not> a < 0x80" "\<not> (0xc2 \<le> a \<and> a \<le> 0xdf)" "\<not> (0xe0 \<le> a \<and> a \<le> 0xef)" by blast
  then show ?thesis
  proof cases
    case 1
    then show ?thesis using assms(1) bs by (intro exI [of _ "[a]"] exI [of _ bs']) (simp add: utf8_char_def utf8_valid.simps(2) [of a])
  next
    case 2
    then obtain b cs where "bs' = b # cs" "cont b" "utf8_valid cs" using assms(1) bs by (cases bs') (auto simp: utf8_valid.simps(2) [of a])
    then show ?thesis using bs 2 by (intro exI [of _ "[a, b]"] exI [of _ cs]) (simp add: utf8_char_def utf8_valid.simps(2) [of a])
  next
    case 3
    then obtain b cs where "bs' = b # cs" using assms(1) bs by (cases bs') (auto simp: utf8_valid.simps(2) [of a])
    moreover from this obtain c ds where "cs = c # ds" using assms(1) bs 3 by (cases cs) (auto simp: utf8_valid.simps(2) [of a])
    ultimately show ?thesis using assms(1) bs 3 by (intro exI [of _ "[a, b, c]"] exI [of _ ds]) (simp add: utf8_char_def utf8_valid.simps(2) [of a])
  next
    case 4
    then obtain b cs where "bs' = b # cs" using assms(1) bs by (cases bs') (auto simp: utf8_valid.simps(2) [of a])
    moreover from this obtain c ds where "cs = c # ds" using assms(1) bs 4 by (cases cs) (auto simp: utf8_valid.simps(2) [of a])
    moreover from calculation obtain d es where "ds = d # es" using assms(1) bs 4 by (cases ds) (auto simp: utf8_valid.simps(2) [of a])
    ultimately show ?thesis using assms(1) bs 4 by (intro exI [of _ "[a, b, c, d]"] exI [of _ es]) (simp add: utf8_char_def utf8_valid.simps(2) [of a])
  qed
qed

lemma utf8_char_valid:
  assumes "utf8_char c"
  shows "utf8_valid (c @ rest) \<longleftrightarrow> utf8_valid rest"
proof -
  consider a where "c = [a]" | a b where "c = [a, b]" | a b d where "c = [a, b, d]" | a b d e where "c = [a, b, d, e]"
    using assms by (auto simp: utf8_char_def split: list.splits)
  then show ?thesis
  proof cases
    case 1
    then show ?thesis using assms by (simp add: utf8_char_def utf8_valid.simps(2) [of a])
  next
    case (2 a b)
    then have "\<not> a < 0x80" using assms by (simp add: utf8_char_def word_less_nat_alt word_le_nat_alt)
    then show ?thesis using 2 assms by (simp add: utf8_char_def utf8_valid.simps(2) [of a])
  next
    case (3 a b d)
    then have "\<not> a < 0x80" "\<not> (0xc2 \<le> a \<and> a \<le> 0xdf)" using assms by (auto simp: utf8_char_def word_less_nat_alt word_le_nat_alt)
    then show ?thesis using 3 assms by (auto simp: utf8_char_def utf8_valid.simps(2) [of a])
  next
    case (4 a b d e)
    then have "\<not> a < 0x80" "\<not> (0xc2 \<le> a \<and> a \<le> 0xdf)" "\<not> (0xe0 \<le> a \<and> a \<le> 0xef)"
      using assms by (auto simp: utf8_char_def word_less_nat_alt word_le_nat_alt)
    then show ?thesis using 4 assms by (auto simp: utf8_char_def utf8_valid.simps(2) [of a])
  qed
qed

lemma utf8_valid_append: "utf8_valid xs \<Longrightarrow> utf8_valid ys \<Longrightarrow> utf8_valid (xs @ ys)"
proof (induction "length xs" arbitrary: xs rule: less_induct)
  case less
  show ?case
  proof (cases "xs = []")
    case True
    then show ?thesis using less.prems(2) by simp
  next
    case False
    then obtain c rest where c: "xs = c @ rest" "c \<noteq> []" "utf8_char c" "utf8_valid rest" using utf8_valid_char [OF less.prems(1)] by blast
    then have "utf8_valid (rest @ ys)" using less.hyps [of rest] less.prems(2) by simp
    then show ?thesis using utf8_char_valid [OF c(3)] c(1) by simp
  qed
qed

text \<open>A valid string followed by a single byte that is not ASCII is not valid.\<close>

lemma utf8_invalid_tail: "utf8_valid xs \<Longrightarrow> 0x80 \<le> b \<Longrightarrow> \<not> utf8_valid (xs @ [b])"
proof (induction "length xs" arbitrary: xs rule: less_induct)
  case less
  show ?case
  proof (cases "xs = []")
    case True
    then show ?thesis using less.prems(2) by (simp add: utf8_valid.simps(2) not_less)
  next
    case False
    then obtain c rest where c: "xs = c @ rest" "c \<noteq> []" "utf8_char c" "utf8_valid rest" using utf8_valid_char [OF less.prems(1)] by blast
    then have "\<not> utf8_valid (rest @ [b])" using less.hyps [of rest] less.prems(2) by simp
    then show ?thesis using utf8_char_valid [OF c(3)] c(1) by simp
  qed
qed

end
