(* ===== verification/Text.thy ===== *)
theory Text
  imports ArrayVec Utf8
begin

text \<open>
  Strings: the \<open>str\<close> view of \<open>ftl_arrayvec/src/array_string.rs\<close>, with the invariant that makes it sound,
  and the byte sizes of \<open>ftl_utils/src/formatter.rs\<close>.
\<close>

section \<open>ArrayString as str\<close>

text \<open>\<open>from_utf8_unchecked\<close>: bytes that are not valid UTF-8 are undefined behaviour.\<close>

definition as_str :: "u8 ArrayVec \<Rightarrow> u8 list exec" where
  "as_str s = exec_bind (av_as_slice s) (\<lambda>bs. if utf8_valid bs then Val bs else Undef)"

definition as_is_empty :: "u8 ArrayVec \<Rightarrow> bool" where
  "as_is_empty s = av_is_empty s"

definition as_clone :: "u8 ArrayVec \<Rightarrow> u8 ArrayVec" where
  "as_clone s = av_clone s"

datatype Ordering = Less | Equal | Greater

fun bytes_cmp :: "u8 list \<Rightarrow> u8 list \<Rightarrow> Ordering" where
  "bytes_cmp [] [] = Equal"
| "bytes_cmp [] (b # bs) = Less"
| "bytes_cmp (a # as) [] = Greater"
| "bytes_cmp (a # as) (b # bs) = (if a < b then Less else if b < a then Greater else bytes_cmp as bs)"

definition as_cmp :: "u8 ArrayVec \<Rightarrow> u8 ArrayVec \<Rightarrow> Ordering exec" where
  "as_cmp a b = exec_bind (as_str a) (\<lambda>x. exec_bind (as_str b) (\<lambda>y. Val (bytes_cmp x y)))"

lemma bytes_cmp_equal: "bytes_cmp xs ys = Equal \<longleftrightarrow> xs = ys"
  by (induction xs ys rule: bytes_cmp.induct) auto

lemma bytes_cmp_swap: "bytes_cmp xs ys = Less \<longleftrightarrow> bytes_cmp ys xs = Greater"
  by (induction xs ys rule: bytes_cmp.induct) auto

text \<open>The strings that the safe operations build; a \<open>&str\<close> argument is valid UTF-8.\<close>

inductive built :: "nat \<Rightarrow> u8 ArrayVec \<Rightarrow> bool" for N where
  built_new: "built N (as_new N)"
| built_static: "utf8_valid str \<Longrightarrow> as_from_static N str = Val s \<Longrightarrow> built N s"
| built_ascii: "as_from_ascii_str N bytes = Val (Inr s) \<Longrightarrow> built N s"
| built_try_from: "utf8_valid str \<Longrightarrow> as_try_from N str = Val (Inr s) \<Longrightarrow> built N s"
| built_push_str: "built N s \<Longrightarrow> utf8_valid str \<Longrightarrow> as_push_str s str = Val (r, s') \<Longrightarrow> built N s'"
| built_push: "built N s \<Longrightarrow> is_ascii byte \<Longrightarrow> as_push s byte = Val (r, s') \<Longrightarrow> built N s'"
| built_clone: "built N s \<Longrightarrow> built N (as_clone s)"

definition string_ok :: "nat \<Rightarrow> u8 ArrayVec \<Rightarrow> bool" where
  "string_ok N s \<longleftrightarrow> av_inv s \<and> av_cap s = N \<and> utf8_valid (av_list s)"

lemma string_ok_new: "N \<le> USIZE_MAX \<Longrightarrow> string_ok N (as_new N)"
  using av_new_inv [of N] by (simp add: string_ok_def as_new_def)

lemma string_ok_push_str:
  assumes "string_ok N s" and "utf8_valid str" and "as_push_str s str = Val (r, s')"
  shows "string_ok N s'"
proof (cases "length (av_list s) + length str \<le> av_cap s")
  case True
  then show ?thesis using try_extend_room [of s str] assms utf8_valid_append by (auto simp: string_ok_def as_push_str_def)
next
  case False
  then show ?thesis using assms try_extend_overflow [of s str]
    by (cases "av_len s + length str \<le> USIZE_MAX") (auto simp: string_ok_def as_push_str_def try_extend_from_slice_def usize_add_def)
qed

lemma string_ok_push:
  assumes "string_ok N s" and "utf8_valid [byte]" and "as_push s byte = Val (r, s')"
  shows "string_ok N s'"
proof (cases "length (av_list s) < av_cap s")
  case True
  then show ?thesis using av_try_push_room [of s byte] assms utf8_valid_append by (auto simp: string_ok_def as_push_def)
next
  case False
  then show ?thesis using assms av_try_push_full [of s byte] av_len_le_cap [of s] by (auto simp: string_ok_def as_push_def)
qed

lemma string_ok_try_from:
  assumes "N \<le> USIZE_MAX" and "utf8_valid str" and "as_try_from N str = Val (Inr s)"
  shows "string_ok N s"
proof -
  obtain r s1 where "as_push_str (as_new N) str = Val (r, s1)" using assms(3) by (auto simp: as_try_from_def exec_bind_Val_iff)
  then show ?thesis using assms string_ok_push_str [OF string_ok_new [OF assms(1)] assms(2)] by (auto simp: as_try_from_def split: sum.splits)
qed

lemma built_ok: "built N s \<Longrightarrow> N \<le> USIZE_MAX \<Longrightarrow> string_ok N s"
proof (induction rule: built.induct)
  case built_new
  then show ?case by (rule string_ok_new)
next
  case (built_static str s)
  let ?v = "as_new N"
  have len: "length str \<le> N" using built_static(2) by (auto simp: as_from_static_def split: if_splits)
  then obtain s' where s': "try_extend_from_slice ?v str = Val (Inr (), s')" "av_inv s'" "av_list s' = str" "av_cap s' = N"
    using try_extend_room [of ?v str] av_new_inv [OF built_static(3)] by (metis append_Nil as_new_def av_cap_new av_list_new list.size(3) add_0)
  have "try_extend_from_slice ?v str = exec_bind (extend_from_slice_unchecked ?v str) (\<lambda>v. Val (Inr (), v))"
    using len built_static(3) by (simp add: try_extend_from_slice_def as_new_def av_new_def usize_add_def)
  then have "extend_from_slice_unchecked ?v str = Val s'" using s'(1) by (cases "extend_from_slice_unchecked ?v str") simp_all
  then have "s = s'" using built_static(2) len by (simp add: as_from_static_def)
  then show ?case using s'(2-4) built_static(1) by (simp add: string_ok_def)
next
  case (built_ascii bytes s)
  have none: "first_non_ascii bytes = None" using built_ascii(1) by (cases "first_non_ascii bytes") (simp_all add: as_from_ascii_str_def)
  obtain r where r: "as_try_from N bytes = Val r" using built_ascii(1) none by (cases "as_try_from N bytes") (simp_all add: as_from_ascii_str_def)
  then have "as_try_from N bytes = Val (Inr s)" using built_ascii(1) none by (cases r) (simp_all add: as_from_ascii_str_def)
  then show ?case using none built_ascii(2) utf8_valid_ascii [of bytes]
      string_ok_try_from [of N bytes s] by (simp add: first_non_ascii_None is_ascii_def)
next
  case (built_try_from str s)
  then show ?case using string_ok_try_from by blast
next
  case (built_push_str s str r s')
  then show ?case using string_ok_push_str by blast
next
  case (built_push s byte r s')
  have "utf8_valid [byte]" using built_push(2) utf8_valid_ascii [of "[byte]"] by (simp add: is_ascii_def)
  then show ?case using string_ok_push [OF built_push.IH] built_push by blast
next
  case (built_clone s)
  then show ?case by (simp add: as_clone_def av_clone_def string_ok_def av_inv_def av_cap_def av_list_def)
qed

section \<open>Byte sizes\<close>

definition UNITS :: "string list" where
  "UNITS = [''B'', ''KiB'', ''MiB'', ''GiB'', ''TiB'']"

function byte_size_loop :: "usize \<Rightarrow> nat \<Rightarrow> usize \<times> nat" where
  "byte_size_loop val i = (if 1024 \<le> val \<and> i + 1 < length UNITS then byte_size_loop (val div 1024) (i + 1) else (val, i))"
  by pat_completeness auto

termination
  by (relation "measure fst") auto

declare byte_size_loop.simps [simp del]

fun digits :: "nat \<Rightarrow> string" where
  "digits n = (if n < 10 then [''0123456789'' ! n] else digits (n div 10) @ [''0123456789'' ! (n mod 10)])"

declare digits.simps [simp del]

definition byte_size_fmt :: "usize \<Rightarrow> string" where
  "byte_size_fmt n = (let (val, i) = byte_size_loop n 0 in digits val @ '' '' @ UNITS ! i)"

lemma byte_size_loop_unit:
  assumes "byte_size_loop val i = (v, j)" and "i < length UNITS"
  shows "j < length UNITS \<and> i \<le> j \<and> v = val div 1024 ^ (j - i) \<and> (v < 1024 \<or> j + 1 = length UNITS) \<and> (i < j \<longrightarrow> 1 \<le> v)"
  using assms
proof (induction val i arbitrary: v j rule: byte_size_loop.induct)
  case (1 val i)
  show ?case
  proof (cases "1024 \<le> val \<and> i + 1 < length UNITS")
    case True
    then have "byte_size_loop (val div 1024) (i + 1) = (v, j)" using "1.prems"(1) by (simp add: byte_size_loop.simps [of val])
    note X = "1.IH" [OF True this conjunct2 [OF True]]
    have IH: "j < length UNITS" "i + 1 \<le> j" "v = val div 1024 div 1024 ^ (j - (i + 1))"
      "v < 1024 \<or> j + 1 = length UNITS" "i + 1 < j \<longrightarrow> 1 \<le> v"
      using X by blast+
    have "j - i = Suc (j - (i + 1))" using IH(2) by simp
    then have "v = val div 1024 ^ (j - i)" using IH(3) by (simp add: div_mult2_eq)
    moreover have "1 \<le> v" using IH(2,3,5) True by (cases "i + 1 = j") (auto simp: Suc_le_eq div_greater_zero_iff)
    ultimately show ?thesis using IH by simp
  next
    case False
    then show ?thesis using "1.prems" by (auto simp: byte_size_loop.simps [of val])
  qed
qed

lemma byte_size_fmt_examples:
  "byte_size_fmt 128 = ''128 B''" "byte_size_fmt 1024 = ''1 KiB''" "byte_size_fmt (16 * 1024 * 1024) = ''16 MiB''"
  by (simp_all add: byte_size_fmt_def byte_size_loop.simps digits.simps UNITS_def)

section \<open>Properties\<close>

text \<open>
  C12. Every string that the operations of \<open>ArrayString\<close> build, pushing ASCII bytes only, is well-formed: its
  slots are initialised, its capacity is \<open>N\<close> and its bytes are valid UTF-8, so that \<open>as_str\<close> is defined
  and returns them. Every single byte of 128 or more, which \<open>push\<close> accepts too, after such a string makes
  \<open>as_str\<close> undefined behaviour although no unsafe function was called.
\<close>

theorem array_string_type:
  assumes "built N s" and "N \<le> USIZE_MAX"
  shows "av_inv s \<and> av_cap s = N \<and> as_str s = Val (av_list s)
    \<and> (\<forall>b. 0x80 \<le> b \<and> length (av_list s) < N \<longrightarrow> (\<exists>s'. as_push s b = Val (Inr (), s') \<and> as_str s' = Undef))"
proof -
  have ok: "av_inv s" "av_cap s = N" "utf8_valid (av_list s)" using built_ok [OF assms] by (simp_all add: string_ok_def)
  have "\<exists>s'. as_push s b = Val (Inr (), s') \<and> as_str s' = Undef" if b: "0x80 \<le> b" and room: "length (av_list s) < N" for b
  proof -
    obtain s' where s': "av_try_push s b = Val (Inr (), s')" "av_inv s'" "av_list s' = av_list s @ [b]"
      using av_try_push_room [OF ok(1), of b] room ok(2) by auto
    then show ?thesis using utf8_invalid_tail [OF ok(3) b] by (simp add: as_push_def as_str_def av_as_slice_list)
  qed
  then show ?thesis using ok by (simp add: as_str_def av_as_slice_list)
qed

text \<open>The two bytes of U+00E9, then \<open>push\<close>.\<close>

theorem array_string_type_witness:
  "\<exists>s s'. as_try_from 4 [0xc3, 0xa9] = Val (Inr s) \<and> as_str s = Val [0xc3, 0xa9]
     \<and> as_push s 0xc3 = Val (Inr (), s') \<and> as_str s' = Undef"
proof -
  obtain s where s: "as_try_from 4 [0xc3, 0xa9] = Val (Inr s)" "av_list s = [0xc3, 0xa9]"
    using as_try_from_room [of 4 "[0xc3, 0xa9]"] by (auto simp: USIZE_MAX_def)
  have "built 4 s" using s(1) by (intro built_try_from [of "[0xc3, 0xa9]"]) (simp_all add: cont_def utf8_valid.simps(2))
  then have "as_str s = Val [0xc3, 0xa9]" "\<exists>s'. as_push s 0xc3 = Val (Inr (), s') \<and> as_str s' = Undef"
    using array_string_type [of 4 s] s by (simp_all add: USIZE_MAX_def)
  then show ?thesis using s(1) by blast
qed

end
