(* ===== verification/LxStack.thy ===== *)
theory LxStack
  imports Supercalls Elf
begin

text \<open>
  \<open>servers/lx/src/elf.rs\<close>: the initial stack of a Linux program. The writer fills a buffer from the stack
  pointer upwards; \<open>estimate_stack_size\<close> computes beforehand where everything will lie, and the pointers
  written into the stack rest on that estimate. The lemmas give the buffer in closed form and show that
  the estimate is the layout that is written.
\<close>

definition PAGE_SIZE :: usize where "PAGE_SIZE = 4096"
definition STACK_BASE :: usize where "STACK_BASE = 0x700000000000"
definition STACK_SIZE :: usize where "STACK_SIZE = 64 * 1024"

definition AT_NULL :: usize where "AT_NULL = 0"
definition AT_PHDR :: usize where "AT_PHDR = 3"
definition AT_PHENT :: usize where "AT_PHENT = 4"
definition AT_PHNUM :: usize where "AT_PHNUM = 5"
definition AT_PAGESZ :: usize where "AT_PAGESZ = 6"
definition AT_ENTRY :: usize where "AT_ENTRY = 9"
definition AT_RANDOM :: usize where "AT_RANDOM = 25"
definition AT_EXECFN :: usize where "AT_EXECFN = 31"

datatype StackError = StackTooSmall | UnalignedWrite | NotNulTerminated | VmAreaWrite ErrorCode

section \<open>Writer\<close>

record StackWriter =
  sw_buf :: "u8 list"
  sw_remaining :: usize

definition sw_new :: "usize \<Rightarrow> StackWriter" where
  "sw_new max_size = \<lparr>sw_buf = [], sw_remaining = max_size\<rparr>"

definition sw_offset :: "StackWriter \<Rightarrow> usize" where
  "sw_offset w = length (sw_buf w)"

definition write_bytes :: "u8 list \<Rightarrow> StackWriter \<Rightarrow> ((StackError + unit) \<times> StackWriter) exec" where
  "write_bytes bytes w =
     (if sw_remaining w < length bytes then Val (Inl StackTooSmall, w)
      else exec_bind (usize_sub (sw_remaining w) (length bytes)) (\<lambda>rest.
        Val (Inr (), w\<lparr>sw_buf := sw_buf w @ bytes, sw_remaining := rest\<rparr>)))"

definition write_usize :: "usize \<Rightarrow> StackWriter \<Rightarrow> ((StackError + unit) \<times> StackWriter) exec" where
  "write_usize value w = exec_bind (is_aligned (sw_offset w) 8) (\<lambda>aligned.
     if \<not> aligned then Val (Inl UnalignedWrite, w) else write_bytes (nat_le 8 value) w)"

definition sw_align :: "usize \<Rightarrow> StackWriter \<Rightarrow> ((StackError + unit) \<times> StackWriter) exec" where
  "sw_align align w = exec_bind (align_up (sw_offset w) align) (\<lambda>up.
     exec_bind (usize_sub up (sw_offset w)) (\<lambda>padding_len.
       if sw_remaining w < padding_len then Val (Inl StackTooSmall, w)
       else exec_bind (usize_sub (sw_remaining w) padding_len) (\<lambda>rest.
         Val (Inr (), w\<lparr>sw_buf := sw_buf w @ replicate padding_len 0, sw_remaining := rest\<rparr>))))"

definition sw_finish :: "env \<Rightarrow> ApiVmArea \<Rightarrow> StackWriter \<Rightarrow> kernel \<Rightarrow> ((StackError + unit) \<times> kernel) exec" where
  "sw_finish E vmarea w K = exec_bind (api_vmarea_write E vmarea (sw_remaining w) (sw_buf w) K) (\<lambda>(r, K).
     Val (map_sum VmAreaWrite (\<lambda>_. ()) r, K))"

section \<open>Layout\<close>

record Layout =
  ly_sp :: usize
  ly_argv_base :: usize
  ly_env_base :: usize
  ly_random_uaddr :: usize

text \<open>The loops over the strings: each must end with a NUL byte; their lengths add up.\<close>

fun add_strings :: "u8 list list \<Rightarrow> usize \<Rightarrow> (StackError + usize) exec" where
  "add_strings [] offset = Val (Inr offset)"
| "add_strings (s # ss) offset =
     (if s = [] \<or> last s \<noteq> 0 then Val (Inl NotNulTerminated)
      else exec_bind (usize_add offset (length s)) (add_strings ss))"

definition vectors_end :: "u8 list list \<Rightarrow> u8 list list \<Rightarrow> usize \<Rightarrow> usize exec" where
  "vectors_end argv envs auxv_count =
     exec_bind (usize_add 0 8) (\<lambda>offset.
     exec_bind (usize_mul 8 (length argv)) (\<lambda>n. exec_bind (usize_add offset n) (\<lambda>offset.
     exec_bind (usize_add offset 8) (\<lambda>offset.
     exec_bind (usize_mul 8 (length envs)) (\<lambda>n. exec_bind (usize_add offset n) (\<lambda>offset.
     exec_bind (usize_add offset 8) (\<lambda>offset.
     exec_bind (usize_mul 8 auxv_count) (\<lambda>n. exec_bind (usize_mul n 2) (\<lambda>n. usize_add offset n)))))))))"

definition estimate_stack_size :: "u8 list list \<Rightarrow> u8 list list \<Rightarrow> usize \<Rightarrow> usize \<Rightarrow> (StackError + Layout) exec" where
  "estimate_stack_size argv envs random_len auxv_count =
     exec_bind (vectors_end argv envs auxv_count) (\<lambda>argv_offset.
     exec_bind (add_strings argv argv_offset) (\<lambda>r. case r of Inl e \<Rightarrow> Val (Inl e) | Inr env_offset \<Rightarrow>
     exec_bind (add_strings envs env_offset) (\<lambda>r. case r of Inl e \<Rightarrow> Val (Inl e) | Inr random_offset \<Rightarrow>
     exec_bind (usize_add random_offset random_len) (\<lambda>offset.
     exec_bind (align_up offset 16) (\<lambda>up. exec_bind (usize_sub up offset) (\<lambda>pad. exec_bind (usize_add offset pad) (\<lambda>whole.
       if STACK_SIZE < whole then Val (Inl StackTooSmall)
       else exec_bind (usize_add STACK_BASE STACK_SIZE) (\<lambda>top. exec_bind (usize_sub top whole) (\<lambda>sp.
         exec_bind (usize_add sp argv_offset) (\<lambda>a. exec_bind (usize_add sp env_offset) (\<lambda>e. exec_bind (usize_add sp random_offset) (\<lambda>r.
           Val (Inr \<lparr>ly_sp = sp, ly_argv_base = a, ly_env_base = e, ly_random_uaddr = r\<rparr>)))))))))))))"

section \<open>The initial stack\<close>

fun write_pointers :: "usize \<Rightarrow> u8 list list \<Rightarrow> StackWriter \<Rightarrow> ((StackError + unit) \<times> StackWriter) exec" where
  "write_pointers uaddr [] w = Val (Inr (), w)"
| "write_pointers uaddr (s # ss) w = exec_try (write_usize uaddr w) (\<lambda>_ w.
     exec_bind (usize_add uaddr (length s)) (\<lambda>uaddr. write_pointers uaddr ss w))"

fun write_auxv :: "(usize \<times> usize) list \<Rightarrow> StackWriter \<Rightarrow> ((StackError + unit) \<times> StackWriter) exec" where
  "write_auxv [] w = Val (Inr (), w)"
| "write_auxv ((tag, val) # auxv) w = exec_try (write_usize tag w) (\<lambda>_ w. exec_try (write_usize val w) (\<lambda>_ w. write_auxv auxv w))"

fun write_strings :: "u8 list list \<Rightarrow> StackWriter \<Rightarrow> ((StackError + unit) \<times> StackWriter) exec" where
  "write_strings [] w = Val (Inr (), w)"
| "write_strings (s # ss) w = exec_try (write_bytes s w) (\<lambda>_ w. write_strings ss w)"

definition stack_auxv :: "Elf \<Rightarrow> nat option \<Rightarrow> Layout \<Rightarrow> (usize \<times> usize) list" where
  "stack_auxv elf phdr_uaddr layout =
     [(AT_RANDOM, ly_random_uaddr layout), (AT_EXECFN, ly_argv_base layout),
      (AT_PHDR, case phdr_uaddr of None \<Rightarrow> 0 | Some a \<Rightarrow> a), (AT_PHENT, e_phentsize (elf_ehdr elf)),
      (AT_PHNUM, e_phnum (elf_ehdr elf)), (AT_PAGESZ, PAGE_SIZE), (AT_ENTRY, e_entry (elf_ehdr elf)), (AT_NULL, 0)]"

definition AUXV_COUNT :: usize where "AUXV_COUNT = 8"

text \<open>Everything that goes into the buffer, before it is copied into the area.\<close>

definition fill_stack :: "Layout \<Rightarrow> Elf \<Rightarrow> u8 list list \<Rightarrow> u8 list list \<Rightarrow> nat option \<Rightarrow> u8 list
    \<Rightarrow> StackWriter \<Rightarrow> ((StackError + unit) \<times> StackWriter) exec" where
  "fill_stack layout elf argv envs phdr_uaddr random w =
     exec_try (write_usize (length argv) w) (\<lambda>_ w.
     exec_try (write_pointers (ly_argv_base layout) argv w) (\<lambda>_ w.
     exec_try (write_usize 0 w) (\<lambda>_ w.
     exec_try (write_pointers (ly_env_base layout) envs w) (\<lambda>_ w.
     exec_try (write_usize 0 w) (\<lambda>_ w.
     exec_try (write_auxv (stack_auxv elf phdr_uaddr layout) w) (\<lambda>_ w.
     exec_try (write_strings argv w) (\<lambda>_ w.
     exec_try (write_strings envs w) (\<lambda>_ w.
     exec_try (write_bytes random w) (\<lambda>_ w. sw_align 16 w)))))))))"

definition build_initial_stack :: "env \<Rightarrow> ApiVmArea \<Rightarrow> Elf \<Rightarrow> u8 list list \<Rightarrow> u8 list list \<Rightarrow> nat option \<Rightarrow> u8 list
    \<Rightarrow> kernel \<Rightarrow> ((StackError + usize) \<times> kernel) exec" where
  "build_initial_stack E stack elf argv envs phdr_uaddr random K =
     exec_bind (estimate_stack_size argv envs (length random) AUXV_COUNT) (\<lambda>r. case r of
       Inl e \<Rightarrow> Val (Inl e, K)
     | Inr layout \<Rightarrow>
         exec_bind (fill_stack layout elf argv envs phdr_uaddr random (sw_new STACK_SIZE)) (\<lambda>(r, w). case r of
           Inl e \<Rightarrow> Val (Inl e, K)
         | Inr _ \<Rightarrow> exec_try (sw_finish E stack w K) (\<lambda>_ K. Val (Inr (ly_sp layout), K))))"

section \<open>What is written\<close>

abbreviation total_length :: "u8 list list \<Rightarrow> nat" where
  "total_length ss \<equiv> sum_list (map length ss)"

definition words :: "usize list \<Rightarrow> u8 list" where
  "words vs = concat (map (nat_le 8) vs)"

fun pointers :: "usize \<Rightarrow> u8 list list \<Rightarrow> usize list" where
  "pointers uaddr [] = []"
| "pointers uaddr (s # ss) = uaddr # pointers (uaddr + length s) ss"

lemma words_simps [simp]: "words [] = []" "words (v # vs) = nat_le 8 v @ words vs" "words (vs @ ws) = words vs @ words ws"
  by (simp_all add: words_def)

lemma length_words [simp]: "length (words vs) = 8 * length vs"
  by (induction vs) simp_all

lemma length_pointers [simp]: "length (pointers uaddr ss) = length ss"
  by (induction ss arbitrary: uaddr) simp_all

lemma pointers_nth: "i < length ss \<Longrightarrow> pointers uaddr ss ! i = uaddr + total_length (take i ss)"
  by (induction ss arbitrary: uaddr i) (auto simp: nth_Cons' take_Cons')

lemma words_nth: "i < length vs \<Longrightarrow> take 8 (drop (8 * i) (words vs)) = nat_le 8 (vs ! i)"
proof (induction vs arbitrary: i)
  case Nil
  then show ?case by simp
next
  case (Cons v vs)
  then show ?case by (cases i) simp_all
qed

lemma concat_nth: "i < length ss \<Longrightarrow> take (length (ss ! i)) (drop (total_length (take i ss)) (concat ss)) = ss ! i"
proof (induction ss arbitrary: i)
  case Nil
  then show ?case by simp
next
  case (Cons s ss)
  then show ?case by (cases i) simp_all
qed

text \<open>A writer that has come as far as the bytes \<open>b\<close>.\<close>

definition sw :: "u8 list \<Rightarrow> StackWriter" where
  "sw b = \<lparr>sw_buf = b, sw_remaining = STACK_SIZE - length b\<rparr>"

lemma sw_new_eq: "sw_new STACK_SIZE = sw []"
  by (simp add: sw_new_def sw_def)

lemma write_bytes_sw: "length b + length xs \<le> STACK_SIZE \<Longrightarrow> write_bytes xs (sw b) = Val (Inr (), sw (b @ xs))"
  by (simp add: write_bytes_def sw_def usize_sub_def)

lemma write_usize_sw: "8 dvd length b \<Longrightarrow> length b + 8 \<le> STACK_SIZE \<Longrightarrow> write_usize v (sw b) = Val (Inr (), sw (b @ nat_le 8 v))"
  using write_bytes_sw [of b "nat_le 8 v"] is_power_of_two_pow [of 3]
  by (simp add: write_usize_def is_aligned_eq sw_offset_def) (simp add: sw_def)

lemma write_pointers_sw:
  "8 dvd length b \<Longrightarrow> length b + 8 * length ss \<le> STACK_SIZE \<Longrightarrow> uaddr + total_length ss \<le> USIZE_MAX \<Longrightarrow>
     write_pointers uaddr ss (sw b) = Val (Inr (), sw (b @ words (pointers uaddr ss)))"
  by (induction ss arbitrary: b uaddr) (simp_all add: write_usize_sw usize_add_def)

lemma write_auxv_sw:
  "8 dvd length b \<Longrightarrow> length b + 16 * length auxv \<le> STACK_SIZE \<Longrightarrow>
     write_auxv auxv (sw b) = Val (Inr (), sw (b @ words (concat (map (\<lambda>(t, v). [t, v]) auxv))))"
  by (induction auxv arbitrary: b) (auto simp: write_usize_sw)

lemma write_strings_sw:
  "length b + total_length ss \<le> STACK_SIZE \<Longrightarrow> write_strings ss (sw b) = Val (Inr (), sw (b @ concat ss))"
  by (induction ss arbitrary: b) (simp_all add: write_bytes_sw)

lemma sw_align_sw:
  assumes "round_up (length b) 16 \<le> STACK_SIZE"
  shows "sw_align 16 (sw b) = Val (Inr (), sw (b @ replicate (round_up (length b) 16 - length b) 0))"
proof -
  have le: "length b \<le> round_up (length b) 16" by (rule round_up_ge) simp
  have "align_up (length b) 16 = Val (round_up (length b) 16)"
    using assms le is_power_of_two_pow [of 4] by (intro align_up_round) (simp_all add: STACK_SIZE_def USIZE_MAX_def)
  then show ?thesis using assms le by (simp add: sw_align_def sw_def sw_offset_def usize_sub_def)
qed

definition nul_terminated :: "u8 list \<Rightarrow> bool" where
  "nul_terminated s \<longleftrightarrow> s \<noteq> [] \<and> last s = 0"

lemma add_strings_ok:
  "\<forall>s\<in>set ss. nul_terminated s \<Longrightarrow> offset + total_length ss \<le> USIZE_MAX \<Longrightarrow>
     add_strings ss offset = Val (Inr (offset + total_length ss))"
  by (induction ss arbitrary: offset) (auto simp: nul_terminated_def usize_add_def)

lemma add_strings_error:
  "\<exists>s\<in>set ss. \<not> nul_terminated s \<Longrightarrow> offset + total_length ss \<le> USIZE_MAX \<Longrightarrow> add_strings ss offset = Val (Inl NotNulTerminated)"
proof (induction ss arbitrary: offset)
  case (Cons s ss)
  show ?case
  proof (cases "nul_terminated s")
    case True
    then have "add_strings ss (offset + length s) = Val (Inl NotNulTerminated)" using Cons by simp
    then show ?thesis using True Cons.prems(2) by (simp add: nul_terminated_def usize_add_def)
  qed (simp add: nul_terminated_def)
qed simp

text \<open>The offsets of the parts.\<close>

definition vectors_size :: "u8 list list \<Rightarrow> u8 list list \<Rightarrow> nat" where
  "vectors_size argv envs = 8 * (length argv + length envs + 3) + 16 * AUXV_COUNT"

definition contents_size :: "u8 list list \<Rightarrow> u8 list list \<Rightarrow> nat" where
  "contents_size argv envs = vectors_size argv envs + total_length argv + total_length envs + 16"

definition stack_layout :: "u8 list list \<Rightarrow> u8 list list \<Rightarrow> Layout" where
  "stack_layout argv envs = (let sp = STACK_BASE + STACK_SIZE - round_up (contents_size argv envs) 16; a = sp + vectors_size argv envs in
     \<lparr>ly_sp = sp, ly_argv_base = a, ly_env_base = a + total_length argv, ly_random_uaddr = a + total_length argv + total_length envs\<rparr>)"

lemma estimate_stack_size_eq:
  assumes "\<forall>s\<in>set argv \<union> set envs. nul_terminated s" and "contents_size argv envs + 16 \<le> USIZE_MAX"
  shows "estimate_stack_size argv envs 16 AUXV_COUNT =
    Val (if STACK_SIZE < round_up (contents_size argv envs) 16 then Inl StackTooSmall else Inr (stack_layout argv envs))"
proof -
  let ?v = "vectors_size argv envs" and ?c = "contents_size argv envs"
  have le: "?c \<le> round_up ?c 16" by (rule round_up_ge) simp
  have up: "align_up ?c 16 = Val (round_up ?c 16)" using assms(2) is_power_of_two_pow [of 4] by (intro align_up_round) simp_all
  have max: "round_up ?c 16 \<le> USIZE_MAX" using assms(2) round_up_le [of ?c 16] by simp
  have v: "vectors_end argv envs AUXV_COUNT = Val ?v"
    using assms(2) by (simp add: vectors_end_def usize_add_def usize_mul_def contents_size_def vectors_size_def AUXV_COUNT_def)
  have a: "add_strings argv ?v = Val (Inr (?v + total_length argv))"
    using assms by (intro add_strings_ok) (simp_all add: contents_size_def)
  have b: "add_strings envs (?v + total_length argv) = Val (Inr (?v + total_length argv + total_length envs))"
    using assms by (intro add_strings_ok) (simp_all add: contents_size_def)
  have c: "usize_add (?v + total_length argv + total_length envs) 16 = Val ?c"
    using assms(2) by (simp add: usize_add_def contents_size_def)
  have top: "usize_add STACK_BASE STACK_SIZE = Val (STACK_BASE + STACK_SIZE)"
    by (simp add: usize_add_def STACK_BASE_def STACK_SIZE_def USIZE_MAX_def)
  have base: "usize_add (STACK_BASE + STACK_SIZE - round_up ?c 16) n = Val (STACK_BASE + STACK_SIZE - round_up ?c 16 + n)"
    if "round_up ?c 16 \<le> STACK_SIZE" "n \<le> ?c" for n
    using that le by (simp add: usize_add_def STACK_BASE_def STACK_SIZE_def USIZE_MAX_def)
  show ?thesis
  proof (cases "STACK_SIZE < round_up ?c 16")
    case True
    then show ?thesis using v a b c up le max by (simp add: estimate_stack_size_def usize_add_def usize_sub_def)
  next
    case False
    have n: "usize_sub (round_up ?c 16) ?c = Val (round_up ?c 16 - ?c)" "usize_add ?c (round_up ?c 16 - ?c) = Val (round_up ?c 16)"
      "usize_sub (STACK_BASE + STACK_SIZE) (round_up ?c 16) = Val (STACK_BASE + STACK_SIZE - round_up ?c 16)"
      using le max False by (simp_all add: usize_add_def usize_sub_def)
    have offs: "?v \<le> ?c" "?v + total_length argv \<le> ?c" "?v + total_length argv + total_length envs \<le> ?c"
      by (simp_all add: contents_size_def)
    show ?thesis using False v a b c up top n offs [THEN base [OF leI [OF False]]]
      by (simp add: estimate_stack_size_def stack_layout_def Let_def add.assoc)
  qed
qed

section \<open>The buffer in closed form\<close>

definition stack_vector :: "Layout \<Rightarrow> Elf \<Rightarrow> u8 list list \<Rightarrow> u8 list list \<Rightarrow> nat option \<Rightarrow> usize list" where
  "stack_vector layout elf argv envs phdr_uaddr = length argv # pointers (ly_argv_base layout) argv @ 0 #
     pointers (ly_env_base layout) envs @ 0 # concat (map (\<lambda>(t, v). [t, v]) (stack_auxv elf phdr_uaddr layout))"

definition stack_bytes :: "Layout \<Rightarrow> Elf \<Rightarrow> u8 list list \<Rightarrow> u8 list list \<Rightarrow> nat option \<Rightarrow> u8 list \<Rightarrow> u8 list" where
  "stack_bytes layout elf argv envs phdr_uaddr random =
     (let b = words (stack_vector layout elf argv envs phdr_uaddr) @ concat argv @ concat envs @ random in
      b @ replicate (round_up (length b) 16 - length b) 0)"

lemma length_stack_vector: "8 * length (stack_vector layout elf argv envs phdr_uaddr) = vectors_size argv envs"
  by (simp add: stack_vector_def stack_auxv_def vectors_size_def AUXV_COUNT_def)

lemma length_stack_bytes:
  "length random = 16 \<Longrightarrow> length (stack_bytes layout elf argv envs phdr_uaddr random) = round_up (contents_size argv envs) 16"
  using round_up_ge [of 16 "contents_size argv envs"]
  by (simp add: stack_bytes_def length_stack_vector length_concat contents_size_def Let_def add.assoc)

lemma fill_stack_eq:
  assumes r: "length random = 16" and fits: "round_up (contents_size argv envs) 16 \<le> STACK_SIZE"
    and a: "ly_argv_base layout + total_length argv \<le> USIZE_MAX" "ly_env_base layout + total_length envs \<le> USIZE_MAX"
  shows "fill_stack layout elf argv envs phdr_uaddr random (sw []) = Val (Inr (), sw (stack_bytes layout elf argv envs phdr_uaddr random))"
proof -
  have c: "contents_size argv envs \<le> STACK_SIZE" using fits round_up_ge [of 16 "contents_size argv envs"] by simp
  then have fit: "8 * length argv + 8 * length envs + 24 + 128 + total_length argv + total_length envs + 16 \<le> STACK_SIZE"
    by (simp add: contents_size_def vectors_size_def AUXV_COUNT_def)
  let ?aux = "stack_auxv elf phdr_uaddr layout"
  let ?b1 = "nat_le 8 (length argv)"
  let ?b2 = "?b1 @ words (pointers (ly_argv_base layout) argv)"
  let ?b3 = "?b2 @ nat_le 8 0"
  let ?b4 = "?b3 @ words (pointers (ly_env_base layout) envs)"
  let ?b5 = "?b4 @ nat_le 8 0"
  let ?b6 = "?b5 @ words (concat (map (\<lambda>(t, v). [t, v]) ?aux))"
  let ?b9 = "((?b6 @ concat argv) @ concat envs) @ random"
  have "length ?aux = 8" by (simp add: stack_auxv_def)
  moreover have l6: "length (words (concat (map (\<lambda>(t, v). [t, v]) ?aux))) = 128" by (simp add: stack_auxv_def)
  moreover have l9: "length ?b9 = contents_size argv envs"
    using r l6 by (simp add: contents_size_def vectors_size_def AUXV_COUNT_def length_concat)
  moreover have "write_usize (length argv) (sw []) = Val (Inr (), sw ?b1)" using fit write_usize_sw [of "[]"] by simp
  moreover have "write_pointers (ly_argv_base layout) argv (sw ?b1) = Val (Inr (), sw ?b2)" using fit a by (intro write_pointers_sw) simp_all
  moreover have "write_usize 0 (sw ?b2) = Val (Inr (), sw ?b3)" using fit by (intro write_usize_sw) simp_all
  moreover have "write_pointers (ly_env_base layout) envs (sw ?b3) = Val (Inr (), sw ?b4)" using fit a by (intro write_pointers_sw) simp_all
  moreover have "write_usize 0 (sw ?b4) = Val (Inr (), sw ?b5)" using fit by (intro write_usize_sw) simp_all
  moreover have "write_auxv ?aux (sw ?b5) = Val (Inr (), sw ?b6)" using fit \<open>length ?aux = 8\<close> by (intro write_auxv_sw) simp_all
  moreover have "write_strings argv (sw ?b6) = Val (Inr (), sw (?b6 @ concat argv))" using fit l6 by (intro write_strings_sw) simp
  moreover have "write_strings envs (sw (?b6 @ concat argv)) = Val (Inr (), sw ((?b6 @ concat argv) @ concat envs))"
    using fit l6 by (intro write_strings_sw) (simp add: length_concat)
  moreover have "write_bytes random (sw ((?b6 @ concat argv) @ concat envs)) = Val (Inr (), sw ?b9)"
    using fit l6 r by (intro write_bytes_sw) (simp add: length_concat)
  moreover have "sw_align 16 (sw ?b9) = Val (Inr (), sw (?b9 @ replicate (round_up (length ?b9) 16 - length ?b9) 0))"
    using fits l9 by (intro sw_align_sw) simp
  moreover have "stack_bytes layout elf argv envs phdr_uaddr random = ?b9 @ replicate (round_up (length ?b9) 16 - length ?b9) 0"
    by (simp add: stack_bytes_def stack_vector_def Let_def)
  ultimately show ?thesis by (simp only: fill_stack_def exec_try.simps)
qed

section \<open>What the program finds\<close>

definition stack_word :: "u8 list \<Rightarrow> usize \<Rightarrow> usize \<Rightarrow> usize" where
  "stack_word b sp a = le_nat (take 8 (drop (a - sp) b))"

definition stack_str :: "u8 list \<Rightarrow> usize \<Rightarrow> usize \<Rightarrow> nat \<Rightarrow> u8 list" where
  "stack_str b sp a n = take n (drop (a - sp) b)"

lemma stack_word_vector:
  assumes "i < length (stack_vector layout elf argv envs phdr_uaddr)" and "stack_vector layout elf argv envs phdr_uaddr ! i < 2 ^ 64"
  shows "stack_word (stack_bytes layout elf argv envs phdr_uaddr random) sp (sp + 8 * i) = stack_vector layout elf argv envs phdr_uaddr ! i"
proof -
  let ?v = "stack_vector layout elf argv envs phdr_uaddr"
  have "take 8 (drop (8 * i) (words ?v @ xs)) = nat_le 8 (?v ! i)" for xs
    using words_nth [OF assms(1)] assms(1) by simp
  then have "take 8 (drop (8 * i) (stack_bytes layout elf argv envs phdr_uaddr random)) = nat_le 8 (?v ! i)"
    unfolding stack_bytes_def Let_def append_assoc by blast
  then show ?thesis using assms(2) by (simp add: stack_word_def le_nat_nat_le)
qed

lemma total_length_take_le: "i < length ss \<Longrightarrow> total_length (take i ss) + length (ss ! i) \<le> total_length ss"
proof (induction ss arbitrary: i)
  case (Cons s ss)
  then show ?case by (cases i) simp_all
qed simp

lemma stack_str_argv:
  assumes "i < length argv"
  shows "stack_str (stack_bytes layout elf argv envs phdr_uaddr random) sp (sp + vectors_size argv envs + total_length (take i argv)) (length (argv ! i)) = argv ! i"
  using total_length_take_le [OF assms] concat_nth [OF assms]
  by (simp add: stack_str_def stack_bytes_def Let_def add.assoc length_concat length_stack_vector)

lemma stack_str_env:
  assumes "i < length envs"
  shows "stack_str (stack_bytes layout elf argv envs phdr_uaddr random) sp
    (sp + vectors_size argv envs + total_length argv + total_length (take i envs)) (length (envs ! i)) = envs ! i"
  using total_length_take_le [OF assms] concat_nth [OF assms]
  by (simp add: stack_str_def stack_bytes_def Let_def add.assoc length_concat length_stack_vector)

lemma stack_str_random:
  "stack_str (stack_bytes layout elf argv envs phdr_uaddr random) sp
    (sp + vectors_size argv envs + total_length argv + total_length envs) (length random) = random"
  by (simp add: stack_str_def stack_bytes_def Let_def add.assoc length_concat length_stack_vector)

section \<open>Properties\<close>

lemma stack_layout_bounds:
  assumes "round_up (contents_size argv envs) 16 \<le> STACK_SIZE"
  shows "ly_sp (stack_layout argv envs) + round_up (contents_size argv envs) 16 = STACK_BASE + STACK_SIZE"
    and "16 dvd ly_sp (stack_layout argv envs)"
    and "ly_argv_base (stack_layout argv envs) + total_length argv \<le> USIZE_MAX"
    and "ly_env_base (stack_layout argv envs) + total_length envs \<le> USIZE_MAX"
    and "ly_argv_base (stack_layout argv envs) = ly_sp (stack_layout argv envs) + vectors_size argv envs"
    and "ly_env_base (stack_layout argv envs) = ly_sp (stack_layout argv envs) + vectors_size argv envs + total_length argv"
    and "ly_random_uaddr (stack_layout argv envs) = ly_sp (stack_layout argv envs) + vectors_size argv envs + total_length argv + total_length envs"
proof -
  let ?r = "round_up (contents_size argv envs) 16"
  have c: "contents_size argv envs \<le> ?r" by (rule round_up_ge) simp
  have le: "?r \<le> STACK_BASE + STACK_SIZE" using assms by (simp add: STACK_BASE_def)
  show "ly_sp (stack_layout argv envs) + ?r = STACK_BASE + STACK_SIZE" using le by (simp add: stack_layout_def Let_def)
  have "16 dvd STACK_BASE + STACK_SIZE" by (simp add: STACK_BASE_def STACK_SIZE_def)
  then show "16 dvd ly_sp (stack_layout argv envs)" by (simp add: stack_layout_def Let_def dvd_diff_nat)
  have "ly_sp (stack_layout argv envs) + contents_size argv envs \<le> STACK_BASE + STACK_SIZE"
    using c le by (simp add: stack_layout_def Let_def)
  then have "ly_sp (stack_layout argv envs) + contents_size argv envs \<le> USIZE_MAX" by (simp add: STACK_BASE_def STACK_SIZE_def USIZE_MAX_def)
  then show "ly_argv_base (stack_layout argv envs) + total_length argv \<le> USIZE_MAX"
    "ly_env_base (stack_layout argv envs) + total_length envs \<le> USIZE_MAX"
    by (simp_all add: stack_layout_def Let_def contents_size_def)
qed (simp_all add: stack_layout_def Let_def)

lemma build_initial_stack_eq:
  fixes elf phdr_uaddr
  assumes "length random = 16" and "\<forall>s\<in>set argv \<union> set envs. nul_terminated s" and "round_up (contents_size argv envs) 16 \<le> STACK_SIZE"
  defines "b \<equiv> stack_bytes (stack_layout argv envs) elf argv envs phdr_uaddr random"
  shows "build_initial_stack E stack elf argv envs phdr_uaddr random K =
    exec_bind (api_vmarea_write E stack (STACK_SIZE - length b) b K) (\<lambda>(r, K). Val (map_sum VmAreaWrite (\<lambda>_. ly_sp (stack_layout argv envs)) r, K))"
proof -
  have "contents_size argv envs + 16 \<le> USIZE_MAX"
    using assms(3) round_up_ge [of 16 "contents_size argv envs"] by (simp add: STACK_SIZE_def USIZE_MAX_def)
  then have "estimate_stack_size argv envs 16 AUXV_COUNT = Val (Inr (stack_layout argv envs))"
    using estimate_stack_size_eq assms(2,3) by simp
  moreover have "fill_stack (stack_layout argv envs) elf argv envs phdr_uaddr random (sw []) = Val (Inr (), sw b)"
    unfolding b_def using assms(1,3) stack_layout_bounds [OF assms(3)] by (intro fill_stack_eq)
  ultimately have *: "build_initial_stack E stack elf argv envs phdr_uaddr random K =
      exec_try (sw_finish E stack (sw b) K) (\<lambda>_ K. Val (Inr (ly_sp (stack_layout argv envs)), K))"
    using assms(1) by (simp add: build_initial_stack_def sw_new_eq)
  show ?thesis
  proof (cases "api_vmarea_write E stack (STACK_SIZE - length b) b K")
    case (Val x)
    then show ?thesis unfolding * by (cases x; cases "fst x") (simp_all add: sw_finish_def sw_def)
  qed (simp_all add: * sw_finish_def sw_def)
qed

lemma stack_vector_nth:
  shows "stack_vector layout elf argv envs phdr_uaddr ! 0 = length argv"
    and "i < length argv \<Longrightarrow> stack_vector layout elf argv envs phdr_uaddr ! (1 + i) = ly_argv_base layout + total_length (take i argv)"
    and "stack_vector layout elf argv envs phdr_uaddr ! (1 + length argv) = 0"
    and "i < length envs \<Longrightarrow> stack_vector layout elf argv envs phdr_uaddr ! (2 + length argv + i) = ly_env_base layout + total_length (take i envs)"
    and "stack_vector layout elf argv envs phdr_uaddr ! (2 + length argv + length envs) = 0"
    and "stack_vector layout elf argv envs phdr_uaddr ! (3 + length argv + length envs + k) =
      concat (map (\<lambda>(t, v). [t, v]) (stack_auxv elf phdr_uaddr layout)) ! k"
  by (simp_all add: stack_vector_def nth_append pointers_nth)

lemma concat_pairs_nth:
  "j < length ps \<Longrightarrow> concat (map (\<lambda>(t, v). [t, v]) ps) ! (2 * j) = fst (ps ! j)
     \<and> concat (map (\<lambda>(t, v). [t, v]) ps) ! Suc (2 * j) = snd (ps ! j)"
proof (induction ps arbitrary: j)
  case (Cons p ps)
  then show ?case by (cases j) (auto split: prod.splits)
qed simp

lemma stack_word_at:
  assumes "stack_vector layout elf argv envs phdr_uaddr ! i = v" and "i < 19 + length argv + length envs" and "v < 2 ^ 64"
  shows "stack_word (stack_bytes layout elf argv envs phdr_uaddr random) sp (sp + 8 * i) = v"
  using assms stack_word_vector [of i layout elf argv envs phdr_uaddr random sp] by (simp add: stack_vector_def stack_auxv_def)

lemma stack_found:
  fixes elf phdr_uaddr random argv envs
  defines "ly \<equiv> stack_layout argv envs"
  defines "b \<equiv> stack_bytes ly elf argv envs phdr_uaddr random" and "sp \<equiv> ly_sp ly"
  assumes r: "length random = 16" and fits: "round_up (contents_size argv envs) 16 \<le> STACK_SIZE"
    and aux: "\<forall>v\<in>set (map snd (stack_auxv elf phdr_uaddr ly)). v < 2 ^ 64"
  shows "stack_word b sp sp = length argv"
    and "i < length argv \<Longrightarrow> stack_str b sp (stack_word b sp (sp + 8 * (1 + i))) (length (argv ! i)) = argv ! i"
    and "stack_word b sp (sp + 8 * (1 + length argv)) = 0"
    and "i < length envs \<Longrightarrow> stack_str b sp (stack_word b sp (sp + 8 * (2 + length argv + i))) (length (envs ! i)) = envs ! i"
    and "stack_word b sp (sp + 8 * (2 + length argv + length envs)) = 0"
    and "j < 8 \<Longrightarrow> stack_word b sp (sp + 8 * (3 + length argv + length envs + 2 * j)) = fst (stack_auxv elf phdr_uaddr ly ! j)"
    and "j < 8 \<Longrightarrow> stack_word b sp (sp + 8 * (3 + length argv + length envs + Suc (2 * j))) = snd (stack_auxv elf phdr_uaddr ly ! j)"
proof -
  note lb = stack_layout_bounds [OF fits, folded ly_def sp_def] and nth = stack_vector_nth [where layout = ly and elf = elf and argv = argv and envs = envs and phdr_uaddr = phdr_uaddr]
  have small: "v \<le> USIZE_MAX \<Longrightarrow> v < 2 ^ 64" for v by (simp add: USIZE_MAX_def)
  have "length argv < 2 ^ 64"
    using fits round_up_ge [of 16 "contents_size argv envs"] by (simp add: contents_size_def vectors_size_def STACK_SIZE_def)
  then show "stack_word b sp sp = length argv" using stack_word_at [OF nth(1), of random sp] by (simp add: b_def)
  show "stack_word b sp (sp + 8 * (1 + length argv)) = 0" unfolding b_def by (rule stack_word_at [OF nth(3)]) simp_all
  show "stack_word b sp (sp + 8 * (2 + length argv + length envs)) = 0" unfolding b_def by (rule stack_word_at [OF nth(5)]) simp_all
  show "stack_str b sp (stack_word b sp (sp + 8 * (1 + i))) (length (argv ! i)) = argv ! i" if i: "i < length argv"
  proof -
    have "stack_word b sp (sp + 8 * (1 + i)) = ly_argv_base ly + total_length (take i argv)"
      unfolding b_def using i lb(3) total_length_take_le [OF i] by (intro stack_word_at [OF nth(2) [OF i]] small) simp_all
    then show ?thesis using stack_str_argv [OF i, of ly elf envs phdr_uaddr random sp] lb(5) by (simp add: b_def)
  qed
  show "stack_str b sp (stack_word b sp (sp + 8 * (2 + length argv + i))) (length (envs ! i)) = envs ! i" if i: "i < length envs"
  proof -
    have "stack_word b sp (sp + 8 * (2 + length argv + i)) = ly_env_base ly + total_length (take i envs)"
      unfolding b_def using i lb(4) total_length_take_le [OF i] by (intro stack_word_at [OF nth(4) [OF i]] small) simp_all
    then show ?thesis using stack_str_env [OF i, of ly elf argv phdr_uaddr random sp] lb(6) by (simp add: b_def)
  qed
  assume j: "j < 8"
  then have l: "j < length (stack_auxv elf phdr_uaddr ly)" by (simp add: stack_auxv_def)
  have "stack_auxv elf phdr_uaddr ly ! j \<in> set (stack_auxv elf phdr_uaddr ly)" using l by (rule nth_mem)
  then have snd: "snd (stack_auxv elf phdr_uaddr ly ! j) < 2 ^ 64" using aux by auto
  have "fst p < 2 ^ 64" if "p \<in> set (stack_auxv elf phdr_uaddr ly)" for p
    using that by (auto simp: stack_auxv_def AT_RANDOM_def AT_EXECFN_def AT_PHDR_def AT_PHENT_def AT_PHNUM_def AT_PAGESZ_def AT_ENTRY_def AT_NULL_def)
  then have fst: "fst (stack_auxv elf phdr_uaddr ly ! j) < 2 ^ 64" using l nth_mem by blast
  show "stack_word b sp (sp + 8 * (3 + length argv + length envs + 2 * j)) = fst (stack_auxv elf phdr_uaddr ly ! j)"
    unfolding b_def using j concat_pairs_nth [OF l] fst by (intro stack_word_at) (simp_all add: nth(6))
  show "stack_word b sp (sp + 8 * (3 + length argv + length envs + Suc (2 * j))) = snd (stack_auxv elf phdr_uaddr ly ! j)"
    unfolding b_def using j concat_pairs_nth [OF l] snd nth(6) [of "Suc (2 * j)"] by (intro stack_word_at) simp_all
qed

lemma estimate_not_nul:
  assumes "\<exists>s\<in>set argv \<union> set envs. \<not> nul_terminated s" and "contents_size argv envs + 16 \<le> USIZE_MAX"
  shows "estimate_stack_size argv envs 16 AUXV_COUNT = Val (Inl NotNulTerminated)"
proof -
  let ?v = "vectors_size argv envs"
  have le: "?v + total_length argv + total_length envs \<le> USIZE_MAX" using assms(2) by (simp add: contents_size_def)
  have v: "vectors_end argv envs AUXV_COUNT = Val ?v"
    using assms(2) by (simp add: vectors_end_def usize_add_def usize_mul_def contents_size_def vectors_size_def AUXV_COUNT_def)
  show ?thesis
  proof (cases "\<exists>s\<in>set argv. \<not> nul_terminated s")
    case True
    then show ?thesis using v add_strings_error [of argv ?v] le by (simp add: estimate_stack_size_def)
  next
    case False
    then have "add_strings argv ?v = Val (Inr (?v + total_length argv))" using le by (intro add_strings_ok) auto
    moreover have "add_strings envs (?v + total_length argv) = Val (Inl NotNulTerminated)"
      using assms(1) False le by (intro add_strings_error) auto
    ultimately show ?thesis using v by (simp add: estimate_stack_size_def)
  qed
qed

text \<open>
  C11. The initial stack of a Linux program. Arguments that are not NUL-terminated or do not fit are refused
  before anything is written. Otherwise one write puts the block right below the top of the stack, the
  stack pointer is 16-byte aligned and points at its first byte, and the program finds there what the
  ABI promises: \<open>argc\<close>, pointers at which the argument strings lie, a null, pointers to the environment
  strings, a null, and the auxiliary vector, whose \<open>AT_RANDOM\<close> leads to the random bytes. So the offsets
  that \<open>estimate_stack_size\<close> predicts are those the writer comes to.
\<close>

theorem initial_stack_contract:
  assumes "length random = 16" and "contents_size argv envs + 16 \<le> USIZE_MAX"
    and "\<forall>v\<in>set (map snd (stack_auxv elf phdr_uaddr (stack_layout argv envs))). v < 2 ^ 64"
  shows "if \<exists>s\<in>set argv \<union> set envs. \<not> nul_terminated s
      then build_initial_stack E stack elf argv envs phdr_uaddr random K = Val (Inl NotNulTerminated, K)
    else if STACK_SIZE < round_up (contents_size argv envs) 16
      then build_initial_stack E stack elf argv envs phdr_uaddr random K = Val (Inl StackTooSmall, K)
    else \<exists>b sp. build_initial_stack E stack elf argv envs phdr_uaddr random K =
          exec_bind (api_vmarea_write E stack (STACK_SIZE - length b) b K) (\<lambda>(r, K). Val (map_sum VmAreaWrite (\<lambda>_. sp) r, K))
        \<and> 16 dvd sp \<and> sp + length b = STACK_BASE + STACK_SIZE
        \<and> stack_word b sp sp = length argv
        \<and> (\<forall>i<length argv. stack_str b sp (stack_word b sp (sp + 8 * (1 + i))) (length (argv ! i)) = argv ! i)
        \<and> stack_word b sp (sp + 8 * (1 + length argv)) = 0
        \<and> (\<forall>i<length envs. stack_str b sp (stack_word b sp (sp + 8 * (2 + length argv + i))) (length (envs ! i)) = envs ! i)
        \<and> stack_word b sp (sp + 8 * (2 + length argv + length envs)) = 0
        \<and> (\<forall>j<8. (stack_word b sp (sp + 8 * (3 + length argv + length envs + 2 * j)),
              stack_word b sp (sp + 8 * (4 + length argv + length envs + 2 * j))) = stack_auxv elf phdr_uaddr (stack_layout argv envs) ! j)
        \<and> stack_str b sp (stack_word b sp (sp + 8 * (4 + length argv + length envs))) 16 = random"
proof (cases "\<exists>s\<in>set argv \<union> set envs. \<not> nul_terminated s")
  case True
  then show ?thesis using estimate_not_nul [OF True assms(2)] assms(1) by (simp only: build_initial_stack_def) simp
next
  case nul: False
  show ?thesis
  proof (cases "STACK_SIZE < round_up (contents_size argv envs) 16")
    case True
    then have "estimate_stack_size argv envs 16 AUXV_COUNT = Val (Inl StackTooSmall)"
      using estimate_stack_size_eq [OF _ assms(2)] nul by simp
    then show ?thesis using True nul assms(1) by (simp only: build_initial_stack_def) simp
  next
    case False
    then have fits: "round_up (contents_size argv envs) 16 \<le> STACK_SIZE" by simp
    let ?ly = "stack_layout argv envs"
    let ?b = "stack_bytes ?ly elf argv envs phdr_uaddr random" and ?sp = "ly_sp ?ly"
    note F = stack_found [OF assms(1) fits assms(3)] and B = stack_layout_bounds [OF fits]
    have eq: "build_initial_stack E stack elf argv envs phdr_uaddr random K =
        exec_bind (api_vmarea_write E stack (STACK_SIZE - length ?b) ?b K) (\<lambda>(r, K). Val (map_sum VmAreaWrite (\<lambda>_. ?sp) r, K))"
      using nul by (intro build_initial_stack_eq [OF assms(1) _ fits]) simp
    have top: "?sp + length ?b = STACK_BASE + STACK_SIZE" using B(1) length_stack_bytes [OF assms(1)] by simp
    have aux: "(stack_word ?b ?sp (?sp + 8 * (3 + length argv + length envs + 2 * j)),
        stack_word ?b ?sp (?sp + 8 * (4 + length argv + length envs + 2 * j))) = stack_auxv elf phdr_uaddr ?ly ! j" if "j < 8" for j
      using F(6,7) [OF that] by (simp add: prod_eq_iff add.assoc)
    have "stack_word ?b ?sp (?sp + 8 * (4 + length argv + length envs)) = ly_random_uaddr ?ly"
      using aux [of 0] by (simp add: stack_auxv_def)
    then have rnd: "stack_str ?b ?sp (stack_word ?b ?sp (?sp + 8 * (4 + length argv + length envs))) 16 = random"
      using stack_str_random [of ?ly elf argv envs phdr_uaddr random ?sp] assms(1) B(7) by simp
    show ?thesis unfolding if_not_P [OF nul] if_not_P [OF False]
      by (intro exI [of _ ?b] exI [of _ ?sp] conjI allI impI) (rule eq B(2) top F(1,2,3,4,5) aux rnd | assumption)+
  qed
qed

text \<open>The arguments that \<open>Process::create\<close> passes.\<close>

definition HELLO_ARGV :: "u8 list list" where
  "HELLO_ARGV = [[0x68, 0x65, 0x6c, 0x6c, 0x6f, 0]]"

definition RANDOM :: "u8 list" where
  "RANDOM = replicate 16 0x34"

definition example_elf :: Elf where
  "example_elf = \<lparr>elf_ehdr = example_ehdr 2 64 1, elf_phdrs = [example_phdr]\<rparr>"

theorem initial_stack_contract_witness:
  "\<exists>b sp. build_initial_stack example_env \<lparr>ava_handle = handle_new VmAreaT 0x3008 RIGHT_WRITE\<rparr> example_elf HELLO_ARGV [] (Some 0x400040) RANDOM example_kernel =
          exec_bind (api_vmarea_write example_env \<lparr>ava_handle = handle_new VmAreaT 0x3008 RIGHT_WRITE\<rparr> (STACK_SIZE - length b) b example_kernel)
            (\<lambda>(r, K). Val (map_sum VmAreaWrite (\<lambda>_. sp) r, K))
     \<and> 16 dvd sp \<and> stack_word b sp sp = 1"
proof -
  have c: "contents_size HELLO_ARGV [] = 182"
    by (simp add: contents_size_def vectors_size_def AUXV_COUNT_def HELLO_ARGV_def)
  have aux: "\<forall>v\<in>set (map snd (stack_auxv example_elf (Some 0x400040) (stack_layout HELLO_ARGV []))). v < 2 ^ 64"
    using c by (simp add: stack_auxv_def stack_layout_def Let_def STACK_BASE_def STACK_SIZE_def PAGE_SIZE_def example_elf_def example_ehdr_def
        vectors_size_def HELLO_ARGV_def AUXV_COUNT_def round_up_def round_down_def)
  have n: "\<not> (\<exists>s\<in>set HELLO_ARGV \<union> set []. \<not> nul_terminated s)" "\<not> STACK_SIZE < round_up (contents_size HELLO_ARGV []) 16"
    unfolding c by (simp_all add: HELLO_ARGV_def nul_terminated_def STACK_SIZE_def round_up_def round_down_def)
  have "length RANDOM = 16" "contents_size HELLO_ARGV [] + 16 \<le> USIZE_MAX" "length HELLO_ARGV = 1"
    unfolding c by (simp_all add: RANDOM_def USIZE_MAX_def HELLO_ARGV_def)
  from initial_stack_contract [OF this(1,2) aux, unfolded if_not_P [OF n(1)] if_not_P [OF n(2)] this(3),
      of example_env "\<lparr>ava_handle = handle_new VmAreaT 0x3008 RIGHT_WRITE\<rparr>" example_kernel]
  show ?thesis by blast
qed

end
