(* ===== verification/Lx.thy ===== *)
theory Lx
  imports LxStack Utf8
begin

text \<open>
  \<open>servers/lx\<close>: the server that runs Linux programs, with the upcall machinery of \<open>ftl_api/src/upcall.rs\<close>
  and \<open>ftl_api/src/thread.rs\<close> that brings the system calls of its threads to it. The server's state has
  the boxes with the user data of its upcalls (a box may still be uninitialised), the reference-counted
  threads and processes (\<open>Arc\<close> counts like \<open>SharedRef\<close>), and the lines that \<open>write\<close> has logged. Weak
  references are addresses that nothing follows. Where a new object is placed in the server's heap is
  an argument \<open>L\<close>; its global allocator panics rather than returning null.
\<close>

section \<open>Errors\<close>

type_synonym isize = int
type_synonym Errno = isize

definition EBADF :: Errno where "EBADF = 9"
definition EFAULT :: Errno where "EFAULT = 14"
definition EINVAL :: Errno where "EINVAL = 22"
definition ENOSYS :: Errno where "ENOSYS = 38"

definition to_retval :: "Errno \<Rightarrow> isize" where
  "to_retval e = - e"

text \<open>Casts between the 64-bit integer types, and checked addition of \<open>isize\<close>.\<close>

definition as_usize :: "isize \<Rightarrow> usize" where
  "as_usize i = nat (i mod 2 ^ 64)"

definition isize_add :: "isize \<Rightarrow> isize \<Rightarrow> isize exec" where
  "isize_add a b = (if - (2 ^ 63) \<le> a + b \<and> a + b < 2 ^ 63 then Val (a + b) else Panic)"

section \<open>State\<close>

record Process =
  pr_vmspace :: ApiVmSpace
  pr_threads :: "nat list"

record ThreadContext =
  tc_process :: nat

record UserData =
  ud_object :: nat
  ud_handler :: ThreadContext

record lx =
  lx_boxes :: "nat \<rightharpoonup> UserData option"
  lx_threads :: "ApiThread refs"
  lx_processes :: "Process refs"
  lx_log :: "u8 list list"

record lx_heap =
  lh_box :: "lx \<Rightarrow> nat"
  lh_thread :: "lx \<Rightarrow> nat"
  lh_process :: "lx \<Rightarrow> nat"

text \<open>Dropping the last reference to a thread destroys its kernel object; a process has no destructor.\<close>

definition arc_drop_thread :: "env \<Rightarrow> nat \<Rightarrow> kernel \<times> lx \<Rightarrow> (kernel \<times> lx) exec" where
  "arc_drop_thread E p = (\<lambda>(K, \<sigma>). exec_bind (sr_drop p (lx_threads \<sigma>)) (\<lambda>(v, s).
     let \<sigma> = \<sigma>\<lparr>lx_threads := s\<rparr> in case v of
       None \<Rightarrow> Val (K, \<sigma>)
     | Some T \<Rightarrow> exec_bind (api_thread_drop E T K) (\<lambda>K. Val (K, \<sigma>))))"

definition arc_drop_process :: "nat \<Rightarrow> lx \<Rightarrow> lx exec" where
  "arc_drop_process p \<sigma> = exec_bind (sr_drop p (lx_processes \<sigma>)) (\<lambda>(v, s). Val (\<sigma>\<lparr>lx_processes := s\<rparr>))"

definition arc_clone_process :: "nat \<Rightarrow> lx \<Rightarrow> lx exec" where
  "arc_clone_process p \<sigma> = exec_bind (sr_clone p (lx_processes \<sigma>)) (\<lambda>s. Val (\<sigma>\<lparr>lx_processes := s\<rparr>))"

section \<open>Upcalls\<close>

definition user_data_borrow :: "nat \<Rightarrow> lx \<Rightarrow> UserData exec" where
  "user_data_borrow ctx \<sigma> = (case lx_boxes \<sigma> ctx of Some (Some ud) \<Rightarrow> Val ud | _ \<Rightarrow> Undef)"

definition user_data_reclaim :: "nat \<Rightarrow> lx \<Rightarrow> (UserData \<times> lx) exec" where
  "user_data_reclaim ctx \<sigma> = exec_bind (user_data_borrow ctx \<sigma>) (\<lambda>ud. Val (ud, \<sigma>\<lparr>lx_boxes := (lx_boxes \<sigma>)(ctx := None)\<rparr>))"

text \<open>
  \<open>Upcall::new\<close>: the box is allocated before the constructor runs, because the kernel object gets its
  address, and filled afterwards. The handler is dropped with the function when the constructor fails.
\<close>

definition upcall_new :: "lx_heap \<Rightarrow> ThreadContext \<Rightarrow> (nat \<Rightarrow> kernel \<times> lx \<Rightarrow> ((ErrorCode + nat) \<times> kernel \<times> lx) exec)
    \<Rightarrow> kernel \<times> lx \<Rightarrow> ((ErrorCode + nat) \<times> kernel \<times> lx) exec" where
  "upcall_new L handler ctor = (\<lambda>(K, \<sigma>).
     let ptr = lh_box L \<sigma> in
     exec_bind (ctor ptr (K, \<sigma>\<lparr>lx_boxes := (lx_boxes \<sigma>)(ptr \<mapsto> None)\<rparr>)) (\<lambda>(r, K, \<sigma>). case r of
       Inl err \<Rightarrow> exec_bind (arc_drop_process (tc_process handler) (\<sigma>\<lparr>lx_boxes := (lx_boxes \<sigma>)(ptr := None)\<rparr>)) (\<lambda>\<sigma>.
         Val (Inl err, K, \<sigma>))
     | Inr ctx \<Rightarrow> exec_bind (sr_clone ctx (lx_threads \<sigma>)) (\<lambda>s.
         Val (Inr ctx, K, \<sigma>\<lparr>lx_threads := s, lx_boxes := (lx_boxes \<sigma>)(ptr \<mapsto> Some \<lparr>ud_object = ctx, ud_handler = handler\<rparr>)\<rparr>))))"

definition thread_create :: "env \<Rightarrow> lx_heap \<Rightarrow> ApiVmSpace \<Rightarrow> ThreadContext \<Rightarrow> kernel \<times> lx \<Rightarrow> ((ErrorCode + nat) \<times> kernel \<times> lx) exec" where
  "thread_create E L vmspace handler = upcall_new L handler (\<lambda>upcall (K, \<sigma>).
     exec_bind (sc_thread_create E (avm_handle vmspace) upcall K) (\<lambda>(r, K). case r of
       Inl e \<Rightarrow> Val (Inl e, K, \<sigma>)
     | Inr handle \<Rightarrow> let p = lh_thread L \<sigma> in
         Val (Inr p, K, \<sigma>\<lparr>lx_threads := (lx_threads \<sigma>)(p \<mapsto> refcounted_new \<lparr>ath_handle = handle\<rparr>)\<rparr>)))"

text \<open>
  The terminated upcall: the user data is taken out of its box, the handler has nothing to do, and the
  user data is dropped, its thread first.
\<close>

definition upcall_terminated :: "env \<Rightarrow> nat \<Rightarrow> kernel \<times> lx \<Rightarrow> (kernel \<times> lx) exec" where
  "upcall_terminated E ctx = (\<lambda>(K, \<sigma>).
     exec_bind (user_data_reclaim ctx \<sigma>) (\<lambda>(ud, \<sigma>).
     exec_bind (arc_drop_thread E (ud_object ud) (K, \<sigma>)) (\<lambda>(K, \<sigma>).
     exec_bind (arc_drop_process (tc_process (ud_handler ud)) \<sigma>) (\<lambda>\<sigma>. Val (K, \<sigma>)))))"

section \<open>System calls\<close>

definition SYS_WRITE :: u64 where "SYS_WRITE = 1"
definition SYS_WRITEV :: u64 where "SYS_WRITEV = 20"
definition SYS_ARCH_PRCTL :: u64 where "SYS_ARCH_PRCTL = 158"
definition SYS_EXIT :: u64 where "SYS_EXIT = 60"
definition SYS_SET_TID_ADDRESS :: u64 where "SYS_SET_TID_ADDRESS = 218"
definition SYS_EXIT_GROUP :: u64 where "SYS_EXIT_GROUP = 231"

definition ARCH_SET_FS :: isize where "ARCH_SET_FS = 0x1002"

record Iovec =
  iov_base :: usize
  iov_len :: usize

datatype SyscallOutput = Done "Errno + isize" | Exit

text \<open>The text "invalid utf8".\<close>

definition INVALID_UTF8 :: "u8 list" where
  "INVALID_UTF8 = [0x69, 0x6e, 0x76, 0x61, 0x6c, 0x69, 0x64, 0x20, 0x75, 0x74, 0x66, 0x38]"

definition chunk_text :: "u8 list \<Rightarrow> u8 list" where
  "chunk_text bytes = trim_ascii_end (if utf8_valid bytes then bytes else INVALID_UTF8)"

text \<open>The loop of \<open>sys_write\<close>; the chunk buffer keeps its bytes from one round to the next.\<close>

function write_chunks :: "env \<Rightarrow> ApiVmSpace \<Rightarrow> usize \<Rightarrow> usize \<Rightarrow> u8 list \<Rightarrow> kernel \<times> lx \<Rightarrow> ((Errno + unit) \<times> kernel \<times> lx) exec" where
  "write_chunks E vmspace uaddr remaining chunk w =
     (if remaining = 0 then Val (Inr (), w)
      else let n = min remaining 256 in
        exec_bind (api_read_bytes E vmspace uaddr (take n chunk) (fst w)) (\<lambda>(r, bytes, K). case r of
          Inl _ \<Rightarrow> Val (Inl EFAULT, K, snd w)
        | Inr _ \<Rightarrow>
            let chunk = bytes @ drop n chunk; \<sigma> = (snd w)\<lparr>lx_log := lx_log (snd w) @ [chunk_text (take n chunk)]\<rparr> in
            exec_bind (usize_add uaddr n) (\<lambda>uaddr. write_chunks E vmspace uaddr (remaining - n) chunk (K, \<sigma>))))"
  by pat_completeness auto

termination
  by (relation "measure (\<lambda>(E, vmspace, uaddr, remaining, chunk, w). remaining)") auto

declare write_chunks.simps [simp del]

definition sys_write :: "env \<Rightarrow> Process \<Rightarrow> u64 \<Rightarrow> isize \<Rightarrow> isize \<Rightarrow> kernel \<times> lx \<Rightarrow> ((Errno + isize) \<times> kernel \<times> lx) exec" where
  "sys_write E process fd uaddr cnt w =
     (if fd \<noteq> 1 \<and> fd \<noteq> 2 then Val (Inl EBADF, w)
      else exec_try (write_chunks E (pr_vmspace process) (as_usize uaddr) (as_usize cnt) (replicate 256 0) w)
        (\<lambda>_ w. Val (Inr cnt, w)))"

definition iovec_at :: "u8 list \<Rightarrow> nat \<Rightarrow> Iovec" where
  "iovec_at bytes i = \<lparr>iov_base = le_nat (take 8 (drop (16 * i) bytes)), iov_len = le_nat (take 8 (drop (16 * i + 8) bytes))\<rparr>"

fun write_iovecs :: "env \<Rightarrow> Process \<Rightarrow> u64 \<Rightarrow> Iovec list \<Rightarrow> isize \<Rightarrow> kernel \<times> lx \<Rightarrow> ((Errno + isize) \<times> kernel \<times> lx) exec" where
  "write_iovecs E process fd [] acc w = Val (Inr acc, w)"
| "write_iovecs E process fd (iovec # iovecs) acc w =
     exec_try (sys_write E process fd (sint (word_of_nat (iov_base iovec) :: u64)) (sint (word_of_nat (iov_len iovec) :: u64)) w)
       (\<lambda>n w. exec_bind (isize_add acc n) (\<lambda>acc. write_iovecs E process fd iovecs acc w))"

text \<open>A count above 16 is refused; the byte length of the vector is computed with a checked multiplication.\<close>

definition sys_writev :: "env \<Rightarrow> Process \<Rightarrow> u64 \<Rightarrow> isize \<Rightarrow> isize \<Rightarrow> kernel \<times> lx \<Rightarrow> ((Errno + isize) \<times> kernel \<times> lx) exec" where
  "sys_writev E process fd iov_uaddr iovcnt w =
     (if fd \<noteq> 1 \<and> fd \<noteq> 2 then Val (Inl EBADF, w)
      else if 16 < iovcnt then Val (Inl EINVAL, w)
      else exec_bind (usize_mul (as_usize iovcnt) 16) (\<lambda>len.
        exec_bind (api_read_bytes E (pr_vmspace process) (as_usize iov_uaddr) (replicate len 0) (fst w)) (\<lambda>(r, bytes, K). case r of
          Inl _ \<Rightarrow> Val (Inl EFAULT, K, snd w)
        | Inr _ \<Rightarrow> write_iovecs E process fd (map (iovec_at bytes) [0..<as_usize iovcnt]) 0 (K, snd w))))"

definition sys_arch_prctl :: "env \<Rightarrow> ApiThread \<Rightarrow> isize \<Rightarrow> isize \<Rightarrow> kernel \<times> lx \<Rightarrow> ((Errno + isize) \<times> kernel \<times> lx) exec" where
  "sys_arch_prctl E thread code addr w =
     (if code = ARCH_SET_FS then
        exec_bind (api_set_context E thread Fsbase [word_of_int addr] (fst w)) (\<lambda>(r, K).
          Val (case r of Inl _ \<Rightarrow> Inl EINVAL | Inr _ \<Rightarrow> Inr 0, K, snd w))
      else Val (Inl ENOSYS, w))"

text \<open>Terminating a thread can only make a terminated upcall.\<close>

definition lx_handle_syscall :: "env \<Rightarrow> Process \<Rightarrow> ApiThread \<Rightarrow> ContextData \<Rightarrow> kernel \<times> lx \<Rightarrow> (SyscallOutput \<times> kernel \<times> lx) exec" where
  "lx_handle_syscall E process thread args w =
     (let n = args ! 0; ret = (\<lambda>m. exec_bind m (\<lambda>(r, w). Val (Done r, w))) in
      if n = SYS_EXIT \<or> n = SYS_EXIT_GROUP then
        exec_bind (api_terminate E (\<lambda>ctx arg. upcall_terminated E ctx) thread w) (\<lambda>(r, w). case r of
          Inl _ \<Rightarrow> Panic
        | Inr _ \<Rightarrow> Val (Exit, w))
      else if n = SYS_WRITE then ret (sys_write E process (args ! 1) (sint (args ! 2)) (sint (args ! 3)) w)
      else if n = SYS_WRITEV then ret (sys_writev E process (args ! 1) (sint (args ! 2)) (sint (args ! 3)) w)
      else if n = SYS_ARCH_PRCTL then ret (sys_arch_prctl E thread (sint (args ! 1)) (sint (args ! 2)) w)
      else if n = SYS_SET_TID_ADDRESS then Val (Done (Inr 1000), w)
      else Val (Done (Inl ENOSYS), w))"

definition thread_context_syscall :: "env \<Rightarrow> ThreadContext \<Rightarrow> ApiThread \<Rightarrow> kernel \<times> lx \<Rightarrow> (kernel \<times> lx) exec" where
  "thread_context_syscall E handler thread = (\<lambda>(K, \<sigma>).
     exec_bind (api_get_context E thread SyscallArgs syscall_args_zeroed K) (\<lambda>(r, K). case r of
       Inl _ \<Rightarrow> Panic
     | Inr args \<Rightarrow>
         exec_bind (sr_deref (tc_process handler) (lx_processes \<sigma>)) (\<lambda>process.
         exec_bind (lx_handle_syscall E process thread args (K, \<sigma>)) (\<lambda>(out, K, \<sigma>). case out of
           Exit \<Rightarrow> Val (K, \<sigma>)
         | Done res \<Rightarrow>
             let retval = (case res of Inl e \<Rightarrow> to_retval e | Inr v \<Rightarrow> v) in
             exec_bind (api_set_context E thread Sysret [word_of_int retval] K) (\<lambda>(r, K). case r of
               Inl _ \<Rightarrow> Panic
             | Inr _ \<Rightarrow> exec_bind (api_unblock E thread K) (\<lambda>(r, K). case r of Inl _ \<Rightarrow> Panic | Inr _ \<Rightarrow> Val (K, \<sigma>)))))))"

text \<open>\<open>upcall_entry\<close>: what the kernel calls.\<close>

definition upcall_entry :: "env \<Rightarrow> lx upcalls" where
  "upcall_entry E ctx arg = (\<lambda>(K, \<sigma>). case arg of
     UpSyscall \<Rightarrow> exec_bind (user_data_borrow ctx \<sigma>) (\<lambda>ud.
       exec_bind (sr_deref (ud_object ud) (lx_threads \<sigma>)) (\<lambda>thread. thread_context_syscall E (ud_handler ud) thread (K, \<sigma>)))
   | UpTerminated \<Rightarrow> upcall_terminated E ctx (K, \<sigma>))"

section \<open>Processes\<close>

text \<open>One \<open>LOAD\<close> segment: an area of whole pages with the bytes of the file, mapped with the segment's permissions.\<close>

definition segment_attrs :: "Phdr64 \<Rightarrow> PageAttrs" where
  "segment_attrs phdr =
     (let attrs = ATTR_READ; attrs = (if writable phdr then attrs_or attrs ATTR_WRITE else attrs)
      in if executable phdr then attrs_or attrs ATTR_EXEC else attrs)"

definition find_phdr_uaddr :: "nat \<Rightarrow> Phdr64 \<Rightarrow> nat option \<Rightarrow> nat option exec" where
  "find_phdr_uaddr phoff phdr phdr_uaddr =
     (if phdr_uaddr = None \<and> p_offset phdr \<le> phoff then
        exec_bind (usize_add (p_offset phdr) (p_filesz phdr)) (\<lambda>limit.
          if phoff < limit then
            exec_bind (usize_sub phoff (p_offset phdr)) (\<lambda>offset_in_segment.
            exec_bind (usize_add (p_vaddr phdr) offset_in_segment) (\<lambda>a. Val (Some a)))
          else Val phdr_uaddr)
      else Val phdr_uaddr)"

definition slice_range :: "u8 list \<Rightarrow> usize \<Rightarrow> usize \<Rightarrow> u8 list exec" where
  "slice_range xs a b = (if a \<le> b \<and> b \<le> length xs then Val (take (b - a) (drop a xs)) else Panic)"

definition map_segment :: "env \<Rightarrow> u8 list \<Rightarrow> nat \<Rightarrow> ApiVmSpace \<Rightarrow> Phdr64 \<Rightarrow> nat option \<Rightarrow> kernel
    \<Rightarrow> ((ErrorCode + nat option) \<times> kernel) exec" where
  "map_segment E elf_file phoff vmspace phdr phdr_uaddr K =
     (if p_type phdr \<noteq> phdr_type_as_u32 PT_Load then Val (Inr phdr_uaddr, K)
      else
        exec_bind (find_phdr_uaddr phoff phdr phdr_uaddr) (\<lambda>phdr_uaddr.
        let vaddr = p_vaddr phdr in
        exec_bind (align_down vaddr PAGE_SIZE) (\<lambda>mapped_vaddr.
        exec_bind (usize_sub vaddr mapped_vaddr) (\<lambda>vaddr_offset.
        exec_bind (usize_add vaddr_offset (p_memsz phdr)) (\<lambda>used.
        exec_bind (align_up used PAGE_SIZE) (\<lambda>len.
        exec_try (api_vmarea_allocate E len K) (\<lambda>vmarea K.
        exec_bind (usize_add (p_offset phdr) (p_filesz phdr)) (\<lambda>limit.
        exec_bind (slice_range elf_file (p_offset phdr) limit) (\<lambda>data.
        exec_try (api_vmarea_write E vmarea vaddr_offset data K) (\<lambda>_ K.
        exec_try (api_vmspace_map E vmspace vmarea mapped_vaddr (segment_attrs phdr) K) (\<lambda>_ K. Val (Inr phdr_uaddr, K))))))))))))"

fun map_segments :: "env \<Rightarrow> u8 list \<Rightarrow> nat \<Rightarrow> ApiVmSpace \<Rightarrow> Phdr64 list \<Rightarrow> nat option \<Rightarrow> kernel
    \<Rightarrow> ((ErrorCode + nat option) \<times> kernel) exec" where
  "map_segments E elf_file phoff vmspace [] phdr_uaddr K = Val (Inr phdr_uaddr, K)"
| "map_segments E elf_file phoff vmspace (phdr # phdrs) phdr_uaddr K =
     exec_try (map_segment E elf_file phoff vmspace phdr phdr_uaddr K) (map_segments E elf_file phoff vmspace phdrs)"

record InitRegs =
  ir_pc :: nat
  ir_sp :: usize

text \<open>\<open>addr\<close> is where the file lies in memory; the parser needs it for the alignment of the header.\<close>

definition process_create :: "env \<Rightarrow> lx_heap \<Rightarrow> usize \<Rightarrow> u8 list \<Rightarrow> kernel \<times> lx \<Rightarrow> ((ErrorCode + nat \<times> InitRegs) \<times> kernel \<times> lx) exec" where
  "process_create E L addr elf_file = (\<lambda>(K, \<sigma>).
     exec_bind (elf_parse addr elf_file ET_EXEC) (\<lambda>r. case r of
       Inl _ \<Rightarrow> Val (Inl INVALID_ARG, K, \<sigma>)
     | Inr elf \<Rightarrow>
         exec_bind (api_vmspace_create E K) (\<lambda>(r, K). case r of Inl e \<Rightarrow> Val (Inl e, K, \<sigma>) | Inr vmspace \<Rightarrow>
         exec_bind (map_segments E elf_file (e_phoff (elf_ehdr elf)) vmspace (elf_phdrs elf) None K) (\<lambda>(r, K). case r of Inl e \<Rightarrow> Val (Inl e, K, \<sigma>) | Inr phdr_uaddr \<Rightarrow>
         exec_bind (api_vmarea_allocate E STACK_SIZE K) (\<lambda>(r, K). case r of Inl e \<Rightarrow> Val (Inl e, K, \<sigma>) | Inr stack \<Rightarrow>
         exec_bind (build_initial_stack E stack elf HELLO_ARGV [] phdr_uaddr RANDOM K) (\<lambda>(r, K). case r of Inl _ \<Rightarrow> Panic | Inr sp \<Rightarrow>
         exec_bind (api_vmspace_map E vmspace stack STACK_BASE (attrs_or ATTR_READ ATTR_WRITE) K) (\<lambda>(r, K). case r of Inl e \<Rightarrow> Val (Inl e, K, \<sigma>) | Inr _ \<Rightarrow>
           let p = lh_process L \<sigma> in
           Val (Inr (p, \<lparr>ir_pc = e_entry (elf_ehdr elf), ir_sp = sp\<rparr>), K,
             \<sigma>\<lparr>lx_processes := (lx_processes \<sigma>)(p \<mapsto> refcounted_new \<lparr>pr_vmspace = vmspace, pr_threads = []\<rparr>)\<rparr>))))))))"

text \<open>
  The process reference that \<open>spawn\<close> is given is dropped when it returns, on every path; the thread
  reference is dropped on its error paths.
\<close>

definition spawn :: "env \<Rightarrow> lx_heap \<Rightarrow> nat \<Rightarrow> InitRegs \<Rightarrow> kernel \<times> lx \<Rightarrow> ((ErrorCode + nat) \<times> kernel \<times> lx) exec" where
  "spawn E L process init_regs = (\<lambda>(K, \<sigma>).
     let leave = (\<lambda>r (K, \<sigma>). exec_bind (arc_drop_process process \<sigma>) (\<lambda>\<sigma>. Val (r, K, \<sigma>)));
         fail = (\<lambda>e thread w. exec_bind (arc_drop_thread E thread w) (leave (Inl e)))
     in
     exec_bind (sr_deref process (lx_processes \<sigma>)) (\<lambda>P.
     exec_bind (arc_clone_process process \<sigma>) (\<lambda>\<sigma>.
     exec_bind (thread_create E L (pr_vmspace P) \<lparr>tc_process = process\<rparr> (K, \<sigma>)) (\<lambda>(r, K, \<sigma>). case r of
       Inl e \<Rightarrow> leave (Inl e) (K, \<sigma>)
     | Inr thread \<Rightarrow>
         exec_bind (sr_deref thread (lx_threads \<sigma>)) (\<lambda>T.
         exec_bind (api_set_context E T InitRegs [word_of_nat (ir_pc init_regs), word_of_nat (ir_sp init_regs)] K) (\<lambda>(r, K). case r of
           Inl e \<Rightarrow> fail e thread (K, \<sigma>)
         | Inr _ \<Rightarrow> exec_bind (api_unblock E T K) (\<lambda>(r, K). case r of
               Inl e \<Rightarrow> fail e thread (K, \<sigma>)
             | Inr _ \<Rightarrow> leave (Inr thread) (K, \<sigma>))))))))"

definition process_start :: "env \<Rightarrow> lx_heap \<Rightarrow> nat \<Rightarrow> InitRegs \<Rightarrow> kernel \<times> lx \<Rightarrow> ((ErrorCode + unit) \<times> kernel \<times> lx) exec" where
  "process_start E L process init_regs = (\<lambda>(K, \<sigma>).
     exec_bind (arc_clone_process process \<sigma>) (\<lambda>\<sigma>.
     exec_bind (spawn E L process init_regs (K, \<sigma>)) (\<lambda>(r, K, \<sigma>). case r of
       Inl e \<Rightarrow> Val (Inl e, K, \<sigma>)
     | Inr thread \<Rightarrow>
         exec_bind (arc_drop_thread E thread (K, \<sigma>\<lparr>lx_processes := set_value process (\<lambda>P. P\<lparr>pr_threads := pr_threads P @ [thread]\<rparr>) (lx_processes \<sigma>)\<rparr>))
           (\<lambda>w. Val (Inr (), w)))))"

text \<open>\<open>Server::new\<close>: the program \<open>hello\<close> is embedded in the server.\<close>

definition lx_server_new :: "env \<Rightarrow> lx_heap \<Rightarrow> usize \<Rightarrow> u8 list \<Rightarrow> kernel \<times> lx \<Rightarrow> (nat list \<times> kernel \<times> lx) exec" where
  "lx_server_new E L addr hello w =
     exec_bind (process_create E L addr hello w) (\<lambda>(r, w). case r of
       Inl _ \<Rightarrow> Panic
     | Inr (process, init_regs) \<Rightarrow>
         exec_bind (process_start E L process init_regs w) (\<lambda>(r, w). case r of Inl _ \<Rightarrow> Panic | Inr _ \<Rightarrow> Val ([process], w)))"

section \<open>What the system calls promise\<close>

text \<open>
  The abstract view of the system calls: \<open>mem\<close> is the memory of the process as its code sees it. A result is
  the return value, the new FS base if there is one, and the lines that are logged. There is no
  prediction for a range that begins in mapped and ends in unmapped memory.
\<close>

definition read_mem :: "(usize \<Rightarrow> u8 option) \<Rightarrow> usize \<Rightarrow> nat \<Rightarrow> u8 list option" where
  "read_mem mem a n = (if list_all (\<lambda>va. mem va \<noteq> None) [a..<a + n] then Some (map (\<lambda>va. the (mem va)) [a..<a + n]) else None)"

function pieces :: "u8 list \<Rightarrow> u8 list list" where
  "pieces bs = (if bs = [] then [] else take 256 bs # pieces (drop 256 bs))"
  by pat_completeness auto

termination
  by (relation "measure length") auto

declare pieces.simps [simp del]

definition write_spec :: "(usize \<Rightarrow> u8 option) \<Rightarrow> u64 \<Rightarrow> u64 \<Rightarrow> u64 \<Rightarrow> ((Errno + isize) \<times> u8 list list) option" where
  "write_spec mem fd a n =
     (if fd \<noteq> 1 \<and> fd \<noteq> 2 then Some (Inl EBADF, [])
      else if n \<noteq> 0 \<and> mem (unat a) = None then Some (Inl EFAULT, [])
      else map_option (\<lambda>bs. (Inr (sint n), map chunk_text (pieces bs))) (read_mem mem (unat a) (unat n)))"

fun iovecs_spec :: "(usize \<Rightarrow> u8 option) \<Rightarrow> u64 \<Rightarrow> Iovec list \<Rightarrow> isize \<Rightarrow> ((Errno + isize) \<times> u8 list list) option" where
  "iovecs_spec mem fd [] acc = Some (Inr acc, [])"
| "iovecs_spec mem fd (v # vs) acc = (case write_spec mem fd (word_of_nat (iov_base v)) (word_of_nat (iov_len v)) of
     None \<Rightarrow> None
   | Some (Inl e, ls) \<Rightarrow> Some (Inl e, ls)
   | Some (Inr n, ls) \<Rightarrow> map_option (\<lambda>(r, ls'). (r, ls @ ls')) (iovecs_spec mem fd vs (acc + n)))"

definition writev_spec :: "(usize \<Rightarrow> u8 option) \<Rightarrow> u64 \<Rightarrow> u64 \<Rightarrow> u64 \<Rightarrow> ((Errno + isize) \<times> u8 list list) option" where
  "writev_spec mem fd a n =
     (if fd \<noteq> 1 \<and> fd \<noteq> 2 then Some (Inl EBADF, [])
      else if 16 < sint n then Some (Inl EINVAL, [])
      else if sint n < 0 then None
      else if n \<noteq> 0 \<and> mem (unat a) = None then Some (Inl EFAULT, [])
      else (case read_mem mem (unat a) (16 * unat n) of
          None \<Rightarrow> None
        | Some bs \<Rightarrow> iovecs_spec mem fd (map (iovec_at bs) [0..<unat n]) 0))"

definition linux_syscall :: "(usize \<Rightarrow> u8 option) \<Rightarrow> u64 list \<Rightarrow> ((Errno + isize) \<times> u64 option \<times> u8 list list) option" where
  "linux_syscall mem args =
     (let n = args ! 0 in
      if n = SYS_EXIT \<or> n = SYS_EXIT_GROUP then None
      else if n = SYS_WRITE then map_option (\<lambda>(r, ls). (r, None, ls)) (write_spec mem (args ! 1) (args ! 2) (args ! 3))
      else if n = SYS_WRITEV then map_option (\<lambda>(r, ls). (r, None, ls)) (writev_spec mem (args ! 1) (args ! 2) (args ! 3))
      else if n = SYS_ARCH_PRCTL then
        (if sint (args ! 1) = ARCH_SET_FS then Some (Inr 0, Some (args ! 2), []) else Some (Inl ENOSYS, None, []))
      else if n = SYS_SET_TID_ADDRESS then Some (Inr 1000, None, [])
      else Some (Inl ENOSYS, None, []))"

section \<open>Writing\<close>

lemma as_usize_sint: "as_usize (sint (w :: u64)) = unat w"
proof -
  have "sint w mod 2 ^ 64 = uint w" using unsigned_less [of w, where 'a = int] by (simp add: sint_uint signed_take_bit_eq_take_bit_minus take_bit_eq_mod)
  then show ?thesis by (simp add: as_usize_def)
qed

lemma space_byte_bound:
  assumes "space_wf S as ph" and "space_byte S as m va \<noteq> None"
  shows "va < 2 ^ 47"
proof -
  obtain mp where mp: "find (\<lambda>mp. mp_start mp \<le> va \<and> va < mp_end mp) (vs_mappings S) = Some mp"
    using assms(2) by (auto simp: space_byte_def split: option.splits)
  then have "mp \<in> set (vs_mappings S)" "va < mp_end mp" by (auto simp: find_Some_iff)
  then show ?thesis using space_wfD(6) [OF assms(1), of mp] by (auto simp: mapping_ok_def)
qed

text \<open>The address space of a process, alive and well-formed.\<close>

definition user_space :: "env \<Rightarrow> kernel \<Rightarrow> ApiVmSpace \<Rightarrow> (usize \<Rightarrow> u8 option) \<Rightarrow> bool" where
  "user_space E K vm mem \<longleftrightarrow> (\<exists>s r. vm = \<lparr>avm_handle = space_handle E s\<rparr> \<and> alive (k_spaces K) s r
     \<and> space_wf (rc_value r) (areas_of K) (k_phys K) \<and> mem = space_byte (rc_value r) (areas_of K) (ph_mem (k_phys K)))"

lemma user_space_bound: "user_space E K vm mem \<Longrightarrow> mem va \<noteq> None \<Longrightarrow> va < 2 ^ 47"
  using space_byte_bound unfolding user_space_def by blast

lemma user_read_mapped:
  assumes "user_space E K vm mem" and "read_mem mem uaddr (length buf) = Some bs" and "buf \<noteq> []"
  shows "api_read_bytes E vm uaddr buf K = Val (Inr (), bs, K)"
proof -
  obtain s r where *: "vm = \<lparr>avm_handle = space_handle E s\<rparr>" "alive (k_spaces K) s r" "space_wf (rc_value r) (areas_of K) (k_phys K)"
    "mem = space_byte (rc_value r) (areas_of K) (ph_mem (k_phys K))" using assms(1) by (auto simp: user_space_def)
  have "read_bytes (rc_value r) (areas_of K) (k_phys K) uaddr buf = Val (Inr (), bs, areas_of K, k_phys K)"
    using read_bytes_covered [OF *(3) assms(3), of uaddr] assms(2) *(4)
    by (auto simp: read_mem_def list_all_iff bytes_at_def split: if_splits)
  from vmspace_read_live [OF *(2) this] show ?thesis by (simp add: api_read_bytes_def *(1))
qed

lemma user_read_unmapped:
  assumes "user_space E K vm mem" and "mem uaddr = None" and "buf \<noteq> []"
  shows "api_read_bytes E vm uaddr buf K = Val (Inl OUT_OF_BOUNDS, buf, K)"
proof -
  obtain s r where *: "vm = \<lparr>avm_handle = space_handle E s\<rparr>" "alive (k_spaces K) s r" "space_wf (rc_value r) (areas_of K) (k_phys K)"
    "mem = space_byte (rc_value r) (areas_of K) (ph_mem (k_phys K))" using assms(1) by (auto simp: user_space_def)
  have "read_bytes (rc_value r) (areas_of K) (k_phys K) uaddr buf = Val (Inl OUT_OF_BOUNDS, buf, areas_of K, k_phys K)"
    using read_bytes_unmapped [OF *(3) assms(3), of uaddr] assms(2) *(4) by simp
  from vmspace_read_live [OF *(2) this] show ?thesis by (simp add: api_read_bytes_def *(1))
qed

lemma read_mem_split:
  assumes "read_mem mem a n = Some bs" and "k \<le> n"
  shows "read_mem mem a k = Some (take k bs)" and "read_mem mem (a + k) (n - k) = Some (drop k bs)" and "length bs = n"
  using assms by (auto simp: read_mem_def list_all_iff take_map drop_map split: if_splits)

lemma read_mem_bound: "user_space E K vm mem \<Longrightarrow> read_mem mem a n = Some bs \<Longrightarrow> 0 < n \<Longrightarrow> a + n \<le> 2 ^ 47"
  using user_space_bound [of E K vm mem "a + n - 1"] by (auto simp: read_mem_def list_all_iff split: if_splits)

lemma write_chunks_mapped:
  assumes "user_space E K vm mem" and "read_mem mem uaddr n = Some bs" and "length chunk = 256"
  shows "write_chunks E vm uaddr n chunk (K, \<sigma>) = Val (Inr (), K, \<sigma>\<lparr>lx_log := lx_log \<sigma> @ map chunk_text (pieces bs)\<rparr>)"
  using assms(2,3)
proof (induction n arbitrary: uaddr bs chunk \<sigma> rule: less_induct)
  case (less n)
  note len = read_mem_split(3) [OF less.prems(1) order_refl]
  show ?case
  proof (cases "n = 0")
    case True
    then show ?thesis using len by (subst write_chunks.simps) (simp add: pieces.simps)
  next
    case False
    let ?k = "min n 256"
    have bound: "uaddr + n \<le> 2 ^ 47" using read_mem_bound [OF assms(1) less.prems(1)] False by simp
    have k: "length (take ?k chunk) = ?k" "take ?k chunk \<noteq> []" using less.prems(2) False by auto
    have rd: "api_read_bytes E vm uaddr (take ?k chunk) K = Val (Inr (), take ?k bs, K)"
      using read_mem_split(1) [OF less.prems(1), of ?k] k by (intro user_read_mapped [OF assms(1)]) simp_all
    let ?\<sigma> = "\<sigma>\<lparr>lx_log := lx_log \<sigma> @ [chunk_text (take ?k bs)]\<rparr>"
    have "write_chunks E vm (uaddr + ?k) (n - ?k) (take ?k bs @ drop ?k chunk) (K, ?\<sigma>) =
        Val (Inr (), K, ?\<sigma>\<lparr>lx_log := lx_log ?\<sigma> @ map chunk_text (pieces (drop ?k bs))\<rparr>)"
      using False less.prems(2) len by (intro less.IH read_mem_split(2) [OF less.prems(1)]) auto
    moreover have "take ?k (take ?k bs @ drop ?k chunk) = take ?k bs" using len by simp
    moreover have "pieces bs = take ?k bs # pieces (drop ?k bs)"
      using False len by (subst pieces.simps) (auto simp: min_def)
    moreover have "usize_add uaddr ?k = Val (uaddr + ?k)" using bound by (simp add: usize_add_def USIZE_MAX_def)
    ultimately show ?thesis using False rd by (subst write_chunks.simps) (simp add: Let_def len)
  qed
qed

lemma lx_log_same [simp]: "\<sigma>\<lparr>lx_log := lx_log \<sigma>\<rparr> = \<sigma>"
  by simp

lemma write_chunks_unmapped:
  assumes "user_space E K vm mem" and "mem uaddr = None" and "n \<noteq> 0"
  shows "write_chunks E vm uaddr n (replicate 256 0) (K, \<sigma>) = Val (Inl EFAULT, K, \<sigma>)"
  using user_read_unmapped [OF assms(1,2), of "take (min n 256) (replicate 256 0)"] assms(3)
  by (subst write_chunks.simps) (simp add: Let_def min_def)

lemma sys_write_spec:
  assumes us: "user_space E K (pr_vmspace P) mem" and "write_spec mem fd a n = Some (r, ls)"
  shows "sys_write E P fd (sint a) (sint n) (K, \<sigma>) = Val (r, K, \<sigma>\<lparr>lx_log := lx_log \<sigma> @ ls\<rparr>)"
proof (cases "fd \<noteq> 1 \<and> fd \<noteq> 2")
  case True
  then show ?thesis using assms(2) by (auto simp: sys_write_def write_spec_def)
next
  case fd: False
  show ?thesis
  proof (cases "n \<noteq> 0 \<and> mem (unat a) = None")
    case True
    then have "unat n \<noteq> 0" by (simp add: unat_eq_zero)
    then show ?thesis using fd True assms(2) write_chunks_unmapped [OF us, of "unat a" "unat n" \<sigma>]
      by (auto simp: sys_write_def write_spec_def as_usize_sint)
  next
    case False
    then obtain bs where "read_mem mem (unat a) (unat n) = Some bs" "r = Inr (sint n)" "ls = map chunk_text (pieces bs)"
      using fd assms(2) by (auto simp: write_spec_def)
    then show ?thesis using fd write_chunks_mapped [OF us, of "unat a" "unat n" bs "replicate 256 0" \<sigma>]
      by (simp add: sys_write_def as_usize_sint)
  qed
qed

lemma uint_le_iff: "uint (n :: u64) \<le> int k \<longleftrightarrow> unat n \<le> k"
  by (metis of_nat_le_iff uint_nat)

lemma small_sint: "unat (n :: u64) < 2 ^ 63 \<Longrightarrow> sint n = uint n"
  using uint_le_iff [of n "2 ^ 63 - 1"] signed_take_bit_int_eq_self [of 63 "uint n"] uint_ge_0 [of n] by (simp add: sint_uint)

lemma write_spec_value:
  assumes us: "user_space E K vm mem" and "write_spec mem fd a n = Some (Inr v, ls)"
  shows "0 \<le> v \<and> v \<le> 2 ^ 47"
proof -
  obtain bs where bs: "read_mem mem (unat a) (unat n) = Some bs" and v: "v = sint n"
    using assms(2) by (auto simp: write_spec_def split: if_splits)
  have "unat n \<le> 2 ^ 47" using read_mem_bound [OF us bs] by (cases "unat n = 0") simp_all
  then show ?thesis using small_sint [of n] v uint_le_iff [of n "2 ^ 47"] by simp
qed

lemma write_iovecs_spec:
  assumes us: "user_space E K (pr_vmspace P) mem"
  shows "iovecs_spec mem fd vs acc = Some (r, ls) \<Longrightarrow> 0 \<le> acc \<Longrightarrow> acc + 2 ^ 47 * int (length vs) < 2 ^ 63 \<Longrightarrow>
    write_iovecs E P fd vs acc (K, \<sigma>) = Val (r, K, \<sigma>\<lparr>lx_log := lx_log \<sigma> @ ls\<rparr>)"
proof (induction vs arbitrary: acc \<sigma> ls)
  case Nil
  then show ?case by auto
next
  case (Cons v vs)
  let ?a = "word_of_nat (iov_base v) :: u64" and ?n = "word_of_nat (iov_len v) :: u64"
  obtain w l where w: "write_spec mem fd ?a ?n = Some (w, l)" using Cons.prems(1) by (auto split: option.splits)
  note run = sys_write_spec [OF us w, of \<sigma>]
  show ?case
  proof (cases w)
    case (Inl e)
    then have "r = Inl e" "ls = l" using Cons.prems(1) w by simp_all
    then show ?thesis using run Inl by simp
  next
    case (Inr k)
    have k: "0 \<le> k" "k \<le> 2 ^ 47" using write_spec_value [OF us] w Inr by auto
    obtain ls' where ls': "iovecs_spec mem fd vs (acc + k) = Some (r, ls')" "ls = l @ ls'" using Cons.prems(1) w Inr by auto
    have add: "isize_add acc k = Val (acc + k)" using k Cons.prems(2,3) by (simp add: isize_add_def)
    have "write_iovecs E P fd vs (acc + k) (K, \<sigma>\<lparr>lx_log := lx_log \<sigma> @ l\<rparr>) =
        Val (r, K, \<sigma>\<lparr>lx_log := lx_log \<sigma> @ l, lx_log := lx_log (\<sigma>\<lparr>lx_log := lx_log \<sigma> @ l\<rparr>) @ ls'\<rparr>)"
      using k Cons.prems(2,3) by (intro Cons.IH [OF ls'(1)]) (simp_all add: algebra_simps)
    then show ?thesis using run Inr add ls'(2) by simp
  qed
qed

lemma user_read_empty: "user_space E K vm mem \<Longrightarrow> api_read_bytes E vm uaddr [] K = Val (Inr (), [], K)"
  using vmspace_read_live [where buf = "[]" and res = "Inr ()" and out = "[]" and uaddr = uaddr]
  by (auto simp: user_space_def api_read_bytes_def read_bytes_def)

lemma sys_writev_spec:
  assumes us: "user_space E K (pr_vmspace P) mem" and "writev_spec mem fd a n = Some (r, ls)"
  shows "sys_writev E P fd (sint a) (sint n) (K, \<sigma>) = Val (r, K, \<sigma>\<lparr>lx_log := lx_log \<sigma> @ ls\<rparr>)"
proof (cases "(fd \<noteq> 1 \<and> fd \<noteq> 2) \<or> 16 < sint n")
  case True
  then show ?thesis using assms(2) by (auto simp: sys_writev_def writev_spec_def)
next
  case fd: False
  then have n: "0 \<le> sint n" "sint n \<le> 16" using assms(2) by (auto simp: writev_spec_def split: if_splits)
  have un: "unat n \<le> 16" using n as_usize_sint [of n] by (simp add: as_usize_def nat_le_iff)
  have mul: "usize_mul (as_usize (sint n)) 16 = Val (16 * unat n)" using un by (simp add: usize_mul_def as_usize_sint USIZE_MAX_def)
  show ?thesis
  proof (cases "n \<noteq> 0 \<and> mem (unat a) = None")
    case True
    then have "unat n \<noteq> 0" by (simp add: unat_eq_zero)
    then show ?thesis using fd n True assms(2) mul user_read_unmapped [OF us, of "unat a" "replicate (16 * unat n) 0"]
      by (auto simp: sys_writev_def writev_spec_def as_usize_sint)
  next
    case False
    then obtain bs where bs: "read_mem mem (unat a) (16 * unat n) = Some bs" "iovecs_spec mem fd (map (iovec_at bs) [0..<unat n]) 0 = Some (r, ls)"
      using fd n assms(2) by (auto simp: writev_spec_def split: option.splits if_splits)
    have "api_read_bytes E (pr_vmspace P) (unat a) (replicate (16 * unat n) 0) K = Val (Inr (), bs, K)"
    proof (cases "unat n = 0")
      case True
      then show ?thesis using user_read_empty [OF us] read_mem_split(3) [OF bs(1), of 0] by simp
    next
      case False
      then show ?thesis using user_read_mapped [OF us, of "unat a" "replicate (16 * unat n) 0" bs] bs(1) by simp
    qed
    moreover have "write_iovecs E P fd (map (iovec_at bs) [0..<unat n]) 0 (K, \<sigma>) = Val (r, K, \<sigma>\<lparr>lx_log := lx_log \<sigma> @ ls\<rparr>)"
      using un uint_le_iff [of n 16] by (intro write_iovecs_spec [OF us bs(2)]) simp_all
    ultimately show ?thesis using fd mul by (auto simp: sys_writev_def as_usize_sint)
  qed
qed

section \<open>The system call upcall\<close>

definition set_fsbase :: "nat \<Rightarrow> Thread RefCounted \<Rightarrow> u64 option \<Rightarrow> kernel \<Rightarrow> kernel" where
  "set_fsbase t r fs K = (case fs of None \<Rightarrow> K
     | Some b \<Rightarrow> K\<lparr>k_threads := (k_threads K)(t \<mapsto> r\<lparr>rc_value := (rc_value r)\<lparr>th_arch := (th_arch (rc_value r))\<lparr>at_fsbase := b\<rparr>\<rparr>\<rparr>)\<rparr>)"

lemma syscall_numbers_distinct:
  "distinct [SYS_WRITE, SYS_WRITEV, SYS_ARCH_PRCTL, SYS_EXIT, SYS_SET_TID_ADDRESS, SYS_EXIT_GROUP]"
  by (simp add: SYS_WRITE_def SYS_WRITEV_def SYS_ARCH_PRCTL_def SYS_EXIT_def SYS_SET_TID_ADDRESS_def SYS_EXIT_GROUP_def)

lemma lx_handle_syscall_spec:
  assumes us: "user_space E K (pr_vmspace P) mem" and l: "alive (k_threads K) t r" and b: "mt_state (th_mutable (rc_value r)) = Blocked"
    and "linux_syscall mem args = Some (res, fs, ls)"
  shows "lx_handle_syscall E P \<lparr>ath_handle = thread_handle E t\<rparr> args (K, \<sigma>) =
    Val (Done res, set_fsbase t r fs K, \<sigma>\<lparr>lx_log := lx_log \<sigma> @ ls\<rparr>)"
proof -
  let ?n = "args ! 0"
  consider "?n = SYS_WRITE" | "?n = SYS_WRITEV" | "?n = SYS_ARCH_PRCTL"
    | "?n \<notin> {SYS_EXIT, SYS_EXIT_GROUP, SYS_WRITE, SYS_WRITEV, SYS_ARCH_PRCTL}"
    using assms(4) by (auto simp: linux_syscall_def Let_def split: if_splits)
  then show ?thesis
  proof cases
    case 1
    then have "write_spec mem (args ! 1) (args ! 2) (args ! 3) = Some (res, ls)" "fs = None"
      using assms(4) syscall_numbers_distinct by (auto simp: linux_syscall_def Let_def)
    then show ?thesis using 1 sys_write_spec [OF us, of "args ! 1" "args ! 2" "args ! 3" res ls \<sigma>] syscall_numbers_distinct
      by (simp add: lx_handle_syscall_def set_fsbase_def Let_def)
  next
    case 2
    then have "writev_spec mem (args ! 1) (args ! 2) (args ! 3) = Some (res, ls)" "fs = None"
      using assms(4) syscall_numbers_distinct by (auto simp: linux_syscall_def Let_def)
    then show ?thesis using 2 sys_writev_spec [OF us, of "args ! 1" "args ! 2" "args ! 3" res ls \<sigma>] syscall_numbers_distinct
      by (auto simp: lx_handle_syscall_def set_fsbase_def Let_def)
  next
    case 3
    show ?thesis using 3 assms(4) syscall_numbers_distinct set_context_live [OF l b, of E Fsbase "[args ! 2]"]
      by (auto simp: lx_handle_syscall_def linux_syscall_def sys_arch_prctl_def set_fsbase_def api_set_context_def Let_def split: if_splits)
  next
    case 4
    then show ?thesis using assms(4) by (auto simp: lx_handle_syscall_def linux_syscall_def set_fsbase_def Let_def)
  qed
qed

text \<open>
  A thread of the server in its system call: its box is filled, the objects behind it are alive, and the
  kernel has blocked it.
\<close>

definition in_syscall :: "env \<Rightarrow> kernel \<Rightarrow> lx \<Rightarrow> nat \<Rightarrow> nat \<Rightarrow> Thread RefCounted \<Rightarrow> Process \<Rightarrow> bool" where
  "in_syscall E K \<sigma> ctx t r P \<longleftrightarrow> alive (k_threads K) t r \<and> mt_state (th_mutable (rc_value r)) = Blocked
     \<and> (\<exists>ud. lx_boxes \<sigma> ctx = Some (Some ud) \<and> refs_object (lx_threads \<sigma>) (ud_object ud) = Some \<lparr>ath_handle = thread_handle E t\<rparr>
          \<and> refs_object (lx_processes \<sigma>) (tc_process (ud_handler ud)) = Some P)"

lemma refs_object_deref: "refs_object s p = Some v \<Longrightarrow> sr_deref p s = Val v"
  by (cases "s p") (simp_all add: refs_object_def sr_deref_def sr_inner_def)

definition result_word :: "Errno + isize \<Rightarrow> u64" where
  "result_word res = word_of_int (case res of Inl e \<Rightarrow> to_retval e | Inr v \<Rightarrow> v)"

definition resumed :: "Thread \<Rightarrow> u64 \<Rightarrow> u64 option \<Rightarrow> Thread" where
  "resumed T ret fs = T\<lparr>th_arch := (th_arch T)\<lparr>at_rax := ret, at_fsbase := (case fs of None \<Rightarrow> at_fsbase (th_arch T) | Some b \<Rightarrow> b)\<rparr>,
     th_mutable := (th_mutable T)\<lparr>mt_state := Runnable\<rparr>\<rparr>"

lemma set_fsbase_live:
  assumes "alive (k_threads K) t r"
  shows "\<exists>r'. alive (k_threads (set_fsbase t r fs K)) t r' \<and> rc_counter r' = rc_counter r \<and> th_mutable (rc_value r') = th_mutable (rc_value r)
    \<and> k_runqueue (set_fsbase t r fs K) = k_runqueue K
    \<and> (\<forall>x. (set_fsbase t r fs K)\<lparr>k_threads := (k_threads (set_fsbase t r fs K))(t \<mapsto> x)\<rparr> = K\<lparr>k_threads := (k_threads K)(t \<mapsto> x)\<rparr>)
    \<and> resumed (rc_value r') ret None = resumed (rc_value r) ret fs"
proof (cases fs)
  case None
  then show ?thesis using assms by (auto simp: set_fsbase_def)
next
  case (Some b)
  then show ?thesis using assms by (auto simp: set_fsbase_def alive_def resumed_def)
qed

lemma upcall_syscall_spec:
  assumes i: "in_syscall E K \<sigma> ctx t r P" and us: "user_space E K (pr_vmspace P) mem" and room: "\<And>K. en_reserve E K = Val True"
    and spec: "linux_syscall mem (arch_read_context (th_arch (rc_value r)) SyscallArgs syscall_args_zeroed) = Some (res, fs, ls)"
  shows "upcall_entry E ctx UpSyscall (K, \<sigma>) =
    Val (K\<lparr>k_threads := (k_threads K)(t \<mapsto> \<lparr>rc_counter = rc_counter r + 1, rc_value = resumed (rc_value r) (result_word res) fs\<rparr>),
           k_runqueue := k_runqueue K @ [t]\<rparr>, \<sigma>\<lparr>lx_log := lx_log \<sigma> @ ls\<rparr>)"
proof -
  let ?T = "\<lparr>ath_handle = thread_handle E t\<rparr>" and ?args = "arch_read_context (th_arch (rc_value r)) SyscallArgs syscall_args_zeroed"
  obtain ud where ud: "alive (k_threads K) t r" "mt_state (th_mutable (rc_value r)) = Blocked" "lx_boxes \<sigma> ctx = Some (Some ud)"
    "refs_object (lx_threads \<sigma>) (ud_object ud) = Some ?T" "refs_object (lx_processes \<sigma>) (tc_process (ud_handler ud)) = Some P"
    using i by (auto simp: in_syscall_def)
  let ?K1 = "set_fsbase t r fs K" and ?\<sigma> = "\<sigma>\<lparr>lx_log := lx_log \<sigma> @ ls\<rparr>"
  have sys: "lx_handle_syscall E P ?T ?args (K, \<sigma>) = Val (Done res, ?K1, ?\<sigma>)"
    by (rule lx_handle_syscall_spec [OF us ud(1,2) spec])
  obtain r1 where r1: "alive (k_threads ?K1) t r1" "rc_counter r1 = rc_counter r" "th_mutable (rc_value r1) = th_mutable (rc_value r)"
    "k_runqueue ?K1 = k_runqueue K" "\<forall>x. ?K1\<lparr>k_threads := (k_threads ?K1)(t \<mapsto> x)\<rparr> = K\<lparr>k_threads := (k_threads K)(t \<mapsto> x)\<rparr>"
    "resumed (rc_value r1) (result_word res) None = resumed (rc_value r) (result_word res) fs"
    using set_fsbase_live [OF ud(1)] by blast
  let ?r2 = "r1\<lparr>rc_value := (rc_value r1)\<lparr>th_arch := (th_arch (rc_value r1))\<lparr>at_rax := result_word res\<rparr>\<rparr>\<rparr>"
  let ?K2 = "K\<lparr>k_threads := (k_threads K)(t \<mapsto> ?r2)\<rparr>"
  have b1: "mt_state (th_mutable (rc_value r1)) = Blocked" using r1(3) ud(2) by simp
  have set: "api_set_context E ?T Sysret [result_word res] ?K1 = Val (Inr (), ?K2)"
    using set_context_live [OF r1(1) b1, of E Sysret "[result_word res]"] r1(5) by (simp add: api_set_context_def)
  have l2: "alive (k_threads ?K2) t ?r2" using r1(1) by (simp add: alive_def)
  have b2: "mt_state (th_mutable (rc_value ?r2)) = Blocked" using b1 by simp
  let ?r3 = "\<lparr>rc_counter = rc_counter r + 1, rc_value = resumed (rc_value r) (result_word res) fs\<rparr>"
  have "?r2\<lparr>rc_counter := rc_counter ?r2 + 1, rc_value := (rc_value ?r2)\<lparr>th_mutable := (th_mutable (rc_value ?r2))\<lparr>mt_state := Runnable\<rparr>\<rparr>\<rparr> = ?r3"
    using r1(2,6) by (cases r1) (auto simp: resumed_def)
  then have un: "api_unblock E ?T ?K2 = Val (Inr (), K\<lparr>k_threads := (k_threads K)(t \<mapsto> ?r3), k_runqueue := k_runqueue K @ [t]\<rparr>)"
    using unblock_live [OF l2 b2 room] by (simp add: api_unblock_def)
  have get: "api_get_context E ?T SyscallArgs syscall_args_zeroed K = Val (Inr ?args, K)"
    using get_context_live [OF ud(1)] ud(2) by (simp add: api_get_context_def)
  have "thread_context_syscall E (ud_handler ud) ?T (K, \<sigma>) =
      Val (K\<lparr>k_threads := (k_threads K)(t \<mapsto> ?r3), k_runqueue := k_runqueue K @ [t]\<rparr>, ?\<sigma>)"
    using get refs_object_deref [OF ud(5)] sys set un
    by (simp add: thread_context_syscall_def result_word_def Let_def del: arch_read_context.simps)
  then show ?thesis using ud(3) refs_object_deref [OF ud(4)] by (simp add: upcall_entry_def user_data_borrow_def)
qed

section \<open>Exit\<close>

text \<open>The exit of a thread inside its system call only marks it: the user data must outlive the upcall.\<close>

lemma upcall_exit_spec:
  assumes i: "in_syscall E K \<sigma> ctx t r P" and up: "0 < mt_in_upcalls (th_mutable (rc_value r))"
    and n: "at_rax (th_arch (rc_value r)) \<in> {SYS_EXIT, SYS_EXIT_GROUP}"
  shows "upcall_entry E ctx UpSyscall (K, \<sigma>) =
    Val (K\<lparr>k_threads := (k_threads K)(t \<mapsto> r\<lparr>rc_value := (rc_value r)\<lparr>th_mutable := (th_mutable (rc_value r))\<lparr>mt_state := Terminated\<rparr>\<rparr>\<rparr>)\<rparr>, \<sigma>)"
proof -
  let ?T = "\<lparr>ath_handle = thread_handle E t\<rparr>" and ?args = "arch_read_context (th_arch (rc_value r)) SyscallArgs syscall_args_zeroed"
  obtain ud where ud: "alive (k_threads K) t r" "mt_state (th_mutable (rc_value r)) = Blocked" "lx_boxes \<sigma> ctx = Some (Some ud)"
    "refs_object (lx_threads \<sigma>) (ud_object ud) = Some ?T" "refs_object (lx_processes \<sigma>) (tc_process (ud_handler ud)) = Some P"
    using i by (auto simp: in_syscall_def)
  have get: "api_get_context E ?T SyscallArgs syscall_args_zeroed K = Val (Inr ?args, K)"
    using get_context_live [OF ud(1)] ud(2) by (simp add: api_get_context_def)
  have "?args ! 0 \<in> {SYS_EXIT, SYS_EXIT_GROUP}" using n by (simp add: set_member_def)
  then have "lx_handle_syscall E P ?T ?args (K, \<sigma>) =
      Val (Exit, K\<lparr>k_threads := (k_threads K)(t \<mapsto> r\<lparr>rc_value := (rc_value r)\<lparr>th_mutable := (th_mutable (rc_value r))\<lparr>mt_state := Terminated\<rparr>\<rparr>\<rparr>)\<rparr>, \<sigma>)"
    using terminate_live [OF ud(1) _ up, where E = E and up = "\<lambda>ctx arg. upcall_terminated E ctx" and \<sigma> = \<sigma>] ud(2)
    by (simp add: lx_handle_syscall_def api_terminate_def Let_def del: arch_read_context.simps)
  then show ?thesis using get refs_object_deref [OF ud(5)] refs_object_deref [OF ud(4)] ud(3)
    by (simp add: upcall_entry_def user_data_borrow_def thread_context_syscall_def del: arch_read_context.simps)
qed

text \<open>The terminated upcall gives back the box, the server's reference to the thread and the thread's reference to its process.\<close>

lemma upcall_terminated_spec:
  assumes box: "lx_boxes \<sigma> ctx = Some (Some \<lparr>ud_object = a, ud_handler = \<lparr>tc_process = p\<rparr>\<rparr>)"
    and a: "lx_threads \<sigma> a = Some \<lparr>rc_counter = 1, rc_value = \<lparr>ath_handle = thread_handle E t\<rparr>\<rparr>"
    and p: "alive (lx_processes \<sigma>) p P" "rc_counter P \<noteq> 1"
    and t: "alive (k_threads K) t r" "rc_counter r \<noteq> 1"
  shows "upcall_entry E ctx UpTerminated (K, \<sigma>) =
    Val (K\<lparr>k_threads := (k_threads K)(t \<mapsto> r\<lparr>rc_counter := rc_counter r - 1\<rparr>)\<rparr>,
         \<sigma>\<lparr>lx_boxes := (lx_boxes \<sigma>)(ctx := None), lx_threads := (lx_threads \<sigma>)(a := None),
           lx_processes := (lx_processes \<sigma>)(p \<mapsto> P\<lparr>rc_counter := rc_counter P - 1\<rparr>)\<rparr>)"
proof -
  have "sr_drop a (lx_threads \<sigma>) = Val (Some \<lparr>ath_handle = thread_handle E t\<rparr>, (lx_threads \<sigma>)(a := None))"
    using a by (simp add: sr_drop_def sr_inner_def assert_exec_def)
  moreover have "api_thread_drop E \<lparr>ath_handle = thread_handle E t\<rparr> K = Val (K\<lparr>k_threads := (k_threads K)(t \<mapsto> r\<lparr>rc_counter := rc_counter r - 1\<rparr>)\<rparr>)"
    using drop_thread_shared [where K = K and t = t and r = r] t aliveD [OF t(1)]
    by (simp add: api_thread_drop_def sc_thread_destroy_def from_moved_handle_def)
  ultimately show ?thesis using box sr_drop_shared [where s = "lx_processes \<sigma>" and p = p and r = P] aliveD [OF p(1)] p(2)
    by (simp add: upcall_entry_def upcall_terminated_def user_data_reclaim_def user_data_borrow_def arc_drop_thread_def arc_drop_process_def)
qed

lemma exit_syscall_spec:
  assumes t: "alive (k_threads K) t r" "rc_counter r \<noteq> 1"
    and T: "mt_state (th_mutable (rc_value r)) = Runnable" "mt_in_upcalls (th_mutable (rc_value r)) = 0" "th_upcall (rc_value r) = ctx"
      "at_rax (th_arch (rc_value r)) \<in> {SYS_EXIT, SYS_EXIT_GROUP}"
    and box: "lx_boxes \<sigma> ctx = Some (Some \<lparr>ud_object = a, ud_handler = \<lparr>tc_process = p\<rparr>\<rparr>)"
    and a: "lx_threads \<sigma> a = Some \<lparr>rc_counter = 1, rc_value = \<lparr>ath_handle = thread_handle E t\<rparr>\<rparr>"
    and p: "alive (lx_processes \<sigma>) p P" "rc_counter P \<noteq> 1"
  shows "thread_handle_syscall (upcall_entry E) t (K, \<sigma>) =
    Val (K\<lparr>k_threads := (k_threads K)(t \<mapsto> \<lparr>rc_counter = rc_counter r - 1,
           rc_value = (rc_value r)\<lparr>th_mutable := \<lparr>mt_state = Terminated, mt_in_upcalls = 0\<rparr>\<rparr>\<rparr>)\<rparr>,
         \<sigma>\<lparr>lx_boxes := (lx_boxes \<sigma>)(ctx := None), lx_threads := (lx_threads \<sigma>)(a := None),
           lx_processes := (lx_processes \<sigma>)(p \<mapsto> P\<lparr>rc_counter := rc_counter P - 1\<rparr>)\<rparr>)"
proof -
  define at where "at st n = r\<lparr>rc_value := (rc_value r)\<lparr>th_mutable := \<lparr>mt_state = st, mt_in_upcalls = n\<rparr>\<rparr>\<rparr>" for st n
  define K1 where "K1 st n = K\<lparr>k_threads := (k_threads K)(t \<mapsto> at st n)\<rparr>" for st n
  have r: "k_threads K t = Some r" using aliveD [OF t(1)] by simp
  have l: "alive (k_threads (K1 st n)) t (at st n)" for st n using t(1) by (simp add: alive_def K1_def at_def)
  have upd: "set_mutable t \<lparr>mt_state = st, mt_in_upcalls = n\<rparr> (K1 st' n') = K1 st n" for st n st' n'
    by (simp add: set_mutable_def set_value_def K1_def at_def)
  have fst: "set_mutable t \<lparr>mt_state = st, mt_in_upcalls = n\<rparr> K = K1 st n" for st n
    using r by (simp add: set_mutable_def set_value_def K1_def at_def)
  have m: "th_mutable (rc_value r) = \<lparr>mt_state = Runnable, mt_in_upcalls = 0\<rparr>" using T(1,2) by (simp add: Mutable.equality)
  have i: "in_syscall E (K1 Blocked 1) \<sigma> ctx t (at Blocked 1) (rc_value P)"
    using l box a aliveD(1) [OF p(1)] by (auto simp: in_syscall_def at_def refs_object_def)
  have up1: "upcall_entry E ctx UpSyscall (K1 Blocked 1, \<sigma>) = Val (K1 Terminated 1, \<sigma>)"
    using upcall_exit_spec [OF i] T(4) by (simp add: at_def K1_def)
  have up2: "upcall_entry E ctx UpTerminated (K1 Terminated 0, \<sigma>) =
    Val ((K1 Terminated 0)\<lparr>k_threads := (k_threads (K1 Terminated 0))(t \<mapsto> (at Terminated 0)\<lparr>rc_counter := rc_counter (at Terminated 0) - 1\<rparr>)\<rparr>,
         \<sigma>\<lparr>lx_boxes := (lx_boxes \<sigma>)(ctx := None), lx_threads := (lx_threads \<sigma>)(a := None),
           lx_processes := (lx_processes \<sigma>)(p \<mapsto> P\<lparr>rc_counter := rc_counter P - 1\<rparr>)\<rparr>)"
    using t(2) by (intro upcall_terminated_spec [OF box a p l]) (simp add: at_def)
  have g: "get_thread t K = Val (rc_value r)" "get_thread t (K1 st n) = Val (rc_value (at st n))" for st n
    using r by (simp_all add: get_thread_eq refs_object_def K1_def)
  have b: "syscall_begin (th_mutable (rc_value r)) = Val (True, \<lparr>mt_state = Blocked, mt_in_upcalls = 1\<rparr>)"
    unfolding m by (simp add: syscall_begin_def assert_exec_def usize_add_def USIZE_MAX_def)
  have e: "syscall_end (th_mutable (rc_value (at Terminated 1))) = Val (True, \<lparr>mt_state = Terminated, mt_in_upcalls = 0\<rparr>)"
    by (simp add: at_def syscall_end_def assert_exec_def usize_sub_def)
  have c: "th_upcall (rc_value (at st n)) = ctx" for st n using T(3) by (simp add: at_def)
  have "thread_handle_syscall (upcall_entry E) t (K, \<sigma>) = upcall_entry E ctx UpTerminated (K1 Terminated 0, \<sigma>)"
    by (simp only: thread_handle_syscall_def prod.case g b exec_bind.simps Let_def fst not_True_eq_False if_False T(3) up1 e upd c if_True)
  moreover have "(K1 Terminated 0)\<lparr>k_threads := (k_threads (K1 Terminated 0))(t \<mapsto> (at Terminated 0)\<lparr>rc_counter := rc_counter (at Terminated 0) - 1\<rparr>)\<rparr> =
      K\<lparr>k_threads := (k_threads K)(t \<mapsto> \<lparr>rc_counter = rc_counter r - 1, rc_value = (rc_value r)\<lparr>th_mutable := \<lparr>mt_state = Terminated, mt_in_upcalls = 0\<rparr>\<rparr>\<rparr>)\<rparr>"
    by (cases r) (simp add: K1_def at_def)
  ultimately show ?thesis using up2 by simp
qed

lemma sys_writev_negative:
  assumes "fd = 1 \<or> fd = 2" and "sint (n :: u64) < 0"
  shows "sys_writev E P fd a (sint n) w = Panic"
proof -
  have "\<not> unat n < 2 ^ 63" using assms(2) small_sint [of n] uint_ge_0 [of n] by linarith
  then have "usize_mul (as_usize (sint n)) 16 = Panic" by (simp add: as_usize_sint usize_mul_def USIZE_MAX_def)
  then show ?thesis using assms by (auto simp: sys_writev_def)
qed

section \<open>Properties\<close>

text \<open>A process with one thread, whose address space has the example's page of zeros at \<open>0x1000\<close>.\<close>

definition lx_thread :: "u64 list \<Rightarrow> State \<Rightarrow> nat \<Rightarrow> Thread" where
  "lx_thread args st n = \<lparr>th_arch = arch_write_context arch_thread_new SyscallArgs args, th_upcall = 0x5000, th_vmspace = 0x2000,
     th_mutable = \<lparr>mt_state = st, mt_in_upcalls = n\<rparr>\<rparr>"

definition lx_kernel :: "Thread \<Rightarrow> kernel" where
  "lx_kernel T = example_kernel\<lparr>k_threads := [0x1000 \<mapsto> \<lparr>rc_counter = 2, rc_value = T\<rparr>],
     k_spaces := [0x2000 \<mapsto> \<lparr>rc_counter = 2, rc_value = example_space1\<rparr>],
     k_areas := [7 \<mapsto> \<lparr>rc_counter = 1, rc_value = \<lparr>va_pages = [Some 0x304000], va_len = 4096\<rparr>\<rparr>],
     k_phys := example_phys1, k_runqueue := [], k_current := None\<rparr>"

definition lx_process :: Process where
  "lx_process = \<lparr>pr_vmspace = \<lparr>avm_handle = space_handle example_env 0x2000\<rparr>, pr_threads = [0x6000]\<rparr>"

definition lx_state :: lx where
  "lx_state = \<lparr>lx_boxes = [0x5000 \<mapsto> Some \<lparr>ud_object = 0x6000, ud_handler = \<lparr>tc_process = 0x7000\<rparr>\<rparr>],
     lx_threads = [0x6000 \<mapsto> \<lparr>rc_counter = 1, rc_value = \<lparr>ath_handle = thread_handle example_env 0x1000\<rparr>\<rparr>],
     lx_processes = [0x7000 \<mapsto> \<lparr>rc_counter = 2, rc_value = lx_process\<rparr>], lx_log = []\<rparr>"

abbreviation lx_mem :: "usize \<Rightarrow> u8 option" where
  "lx_mem \<equiv> space_byte example_space1 example_areas1 example_mem"

lemma lx_user_space: "user_space example_env (lx_kernel T) (pr_vmspace lx_process) lx_mem"
proof -
  have "areas_of (lx_kernel T) = example_areas1" by (auto simp: lx_kernel_def refs_object_def example_areas1_def)
  moreover have "alive (k_spaces (lx_kernel T)) 0x2000 \<lparr>rc_counter = 2, rc_value = example_space1\<rparr>"
    by (simp add: alive_def lx_kernel_def USIZE_MAX_def)
  moreover have "k_phys (lx_kernel T) = example_phys1" "ph_mem example_phys1 = example_mem" by (simp_all add: lx_kernel_def example_phys1_def)
  ultimately show ?thesis using example_space1_wf unfolding user_space_def lx_process_def
    by (intro exI [of _ "0x2000"] exI [of _ "\<lparr>rc_counter = 2, rc_value = example_space1\<rparr>"]) simp
qed

lemma lx_in_syscall:
  "in_syscall example_env (lx_kernel (lx_thread args Blocked 1)) lx_state 0x5000 0x1000 \<lparr>rc_counter = 2, rc_value = lx_thread args Blocked 1\<rparr> lx_process"
  by (simp add: in_syscall_def lx_kernel_def lx_thread_def lx_state_def alive_def refs_object_def USIZE_MAX_def)

text \<open>\<open>write(1, 0x1ffe, 2)\<close>.\<close>

lemma lx_write_spec:
  "linux_syscall lx_mem (arch_read_context (th_arch (lx_thread [1, 1, 0x1ffe, 2, 0, 0, 0] st n)) SyscallArgs syscall_args_zeroed) =
    Some (Inr 2, None, [[0, 0]])"
proof -
  have args: "arch_read_context (th_arch (lx_thread [1, 1, 0x1ffe, 2, 0, 0, 0] st n)) SyscallArgs syscall_args_zeroed = [1, 1, 0x1ffe, 2, 0, 0, 0]"
    by (simp add: lx_thread_def set_member_def syscall_args_zeroed_def)
  have "read_mem lx_mem 0x1ffe 2 = Some [0, 0]"
    using example_byte [of "0x1ffe"] example_byte [of "0x1fff"] by (simp add: read_mem_def upt_rec)
  moreover have "pieces [0, 0] = [[0, 0]]" by (simp add: pieces.simps)
  moreover have "chunk_text [0, 0] = [0, 0]" by (simp add: chunk_text_def trim_ascii_end_def is_ascii_whitespace_def utf8_valid_ascii)
  ultimately have "linux_syscall lx_mem [1, 1, 0x1ffe, 2, 0, 0, 0] = Some (Inr 2, None, [[0, 0]])"
    using example_byte [of "0x1ffe"] by (simp add: linux_syscall_def write_spec_def SYS_EXIT_def SYS_EXIT_GROUP_def SYS_WRITE_def)
  then show ?thesis unfolding args .
qed

text \<open>
  C5. The Linux system calls refine \<open>linux_syscall\<close>, the specification over the memory that the process
  sees: whenever it predicts a result for the saved argument registers, the upcall returns with that
  result in RAX (minus the error number for an error), the predicted FS base, the predicted lines in
  the log, all other registers of the thread as they were, and the thread runnable at the end of the
  run queue with one reference more. Nothing else in the kernel changes.
\<close>

theorem lx_syscall_refines:
  assumes "in_syscall E K \<sigma> ctx t r P" and "user_space E K (pr_vmspace P) mem" and "\<And>K. en_reserve E K = Val True"
    and "linux_syscall mem (arch_read_context (th_arch (rc_value r)) SyscallArgs syscall_args_zeroed) = Some (res, fs, ls)"
  shows "upcall_entry E ctx UpSyscall (K, \<sigma>) =
    Val (K\<lparr>k_threads := (k_threads K)(t \<mapsto> \<lparr>rc_counter = rc_counter r + 1, rc_value = resumed (rc_value r) (result_word res) fs\<rparr>),
           k_runqueue := k_runqueue K @ [t]\<rparr>, \<sigma>\<lparr>lx_log := lx_log \<sigma> @ ls\<rparr>)"
  by (rule upcall_syscall_spec [OF assms])

theorem lx_syscall_refines_witness:
  "\<exists>K \<sigma>. upcall_entry example_env 0x5000 UpSyscall (lx_kernel (lx_thread [1, 1, 0x1ffe, 2, 0, 0, 0] Blocked 1), lx_state) = Val (K, \<sigma>)
     \<and> k_runqueue K = [0x1000] \<and> lx_log \<sigma> = [[0, 0]] \<and> map_option (\<lambda>r. at_rax (th_arch (rc_value r))) (k_threads K 0x1000) = Some 2"
  using lx_syscall_refines [OF lx_in_syscall lx_user_space, of "[1, 1, 0x1ffe, 2, 0, 0, 0]" "Inr 2" None "[[0, 0]]"] lx_write_spec [of Blocked 1]
  by (simp add: example_env_def resumed_def result_word_def lx_kernel_def lx_state_def lx_thread_def del: arch_read_context.simps)

text \<open>
  C9. The exit of a thread: the kernel blocks the thread and calls the server, the server marks the thread as
  terminated and keeps its user data, and only when that upcall has ended the kernel makes the
  terminated upcall, which frees the box, the server's thread object with its kernel handle, and the
  thread's reference to the process, each exactly once. No freed object is touched on the way.
\<close>

theorem lx_exit_releases:
  assumes "alive (k_threads K) t r" and "rc_counter r \<noteq> 1"
    and "mt_state (th_mutable (rc_value r)) = Runnable" and "mt_in_upcalls (th_mutable (rc_value r)) = 0" and "th_upcall (rc_value r) = ctx"
    and "at_rax (th_arch (rc_value r)) \<in> {SYS_EXIT, SYS_EXIT_GROUP}"
    and "lx_boxes \<sigma> ctx = Some (Some \<lparr>ud_object = a, ud_handler = \<lparr>tc_process = p\<rparr>\<rparr>)"
    and "lx_threads \<sigma> a = Some \<lparr>rc_counter = 1, rc_value = \<lparr>ath_handle = thread_handle E t\<rparr>\<rparr>"
    and "alive (lx_processes \<sigma>) p P" and "rc_counter P \<noteq> 1"
  shows "thread_handle_syscall (upcall_entry E) t (K, \<sigma>) =
    Val (K\<lparr>k_threads := (k_threads K)(t \<mapsto> \<lparr>rc_counter = rc_counter r - 1,
           rc_value = (rc_value r)\<lparr>th_mutable := \<lparr>mt_state = Terminated, mt_in_upcalls = 0\<rparr>\<rparr>\<rparr>)\<rparr>,
         \<sigma>\<lparr>lx_boxes := (lx_boxes \<sigma>)(ctx := None), lx_threads := (lx_threads \<sigma>)(a := None),
           lx_processes := (lx_processes \<sigma>)(p \<mapsto> P\<lparr>rc_counter := rc_counter P - 1\<rparr>)\<rparr>)"
  by (rule exit_syscall_spec [OF assms])

theorem lx_exit_releases_witness:
  "\<exists>K \<sigma>. thread_handle_syscall (upcall_entry example_env) 0x1000 (lx_kernel (lx_thread [60, 0, 0, 0, 0, 0, 0] Runnable 0), lx_state) = Val (K, \<sigma>)
     \<and> lx_boxes \<sigma> 0x5000 = None \<and> lx_threads \<sigma> 0x6000 = None \<and> map_option rc_counter (k_threads K 0x1000) = Some 1"
  using lx_exit_releases [where K = "lx_kernel (lx_thread [60, 0, 0, 0, 0, 0, 0] Runnable 0)" and t = "0x1000"
      and r = "\<lparr>rc_counter = 2, rc_value = lx_thread [60, 0, 0, 0, 0, 0, 0] Runnable 0\<rparr>" and ctx = "0x5000" and \<sigma> = lx_state
      and a = "0x6000" and p = "0x7000" and E = example_env and P = "\<lparr>rc_counter = 2, rc_value = lx_process\<rparr>"]
  by (simp add: lx_kernel_def lx_thread_def lx_state_def alive_def USIZE_MAX_def SYS_EXIT_def)

text \<open>
  C10. \<open>writev\<close> checks only the upper bound of its vector count: on standard output and standard error a
  negative count panics the server, and with it the kernel, in the multiplication that computes the
  length of the vector. On any other descriptor the call returns \<open>EBADF\<close> before it looks at the count.
\<close>

theorem lx_writev_negative_panics:
  assumes "in_syscall E K \<sigma> ctx t r P" and "user_space E K (pr_vmspace P) mem" and "\<And>K. en_reserve E K = Val True"
    and "arch_read_context (th_arch (rc_value r)) SyscallArgs syscall_args_zeroed = [SYS_WRITEV, fd, a, n, x, y, z]" and "sint n < 0"
  shows "upcall_entry E ctx UpSyscall (K, \<sigma>) =
    (if fd = 1 \<or> fd = 2 then Panic
     else Val (K\<lparr>k_threads := (k_threads K)(t \<mapsto> \<lparr>rc_counter = rc_counter r + 1,
              rc_value = resumed (rc_value r) (result_word (Inl EBADF)) None\<rparr>),
            k_runqueue := k_runqueue K @ [t]\<rparr>, \<sigma>))"
proof (cases "fd = 1 \<or> fd = 2")
  case True
  let ?T = "\<lparr>ath_handle = thread_handle E t\<rparr>" and ?args = "[SYS_WRITEV, fd, a, n, x, y, z]"
  obtain ud where ud: "alive (k_threads K) t r" "mt_state (th_mutable (rc_value r)) = Blocked" "lx_boxes \<sigma> ctx = Some (Some ud)"
    "refs_object (lx_threads \<sigma>) (ud_object ud) = Some ?T" "refs_object (lx_processes \<sigma>) (tc_process (ud_handler ud)) = Some P"
    using assms(1) by (auto simp: in_syscall_def)
  have get: "api_get_context E ?T SyscallArgs syscall_args_zeroed K = Val (Inr ?args, K)"
    using get_context_live [OF ud(1)] ud(2) assms(4) by (simp add: api_get_context_def)
  have "lx_handle_syscall E P ?T ?args (K, \<sigma>) = Panic"
    using sys_writev_negative [OF True assms(5)]
    by (simp add: lx_handle_syscall_def SYS_WRITEV_def SYS_EXIT_def SYS_EXIT_GROUP_def SYS_WRITE_def)
  then show ?thesis using True get refs_object_deref [OF ud(5)] refs_object_deref [OF ud(4)] ud(3)
    by (simp add: upcall_entry_def user_data_borrow_def thread_context_syscall_def)
next
  case False
  then have "linux_syscall mem [SYS_WRITEV, fd, a, n, x, y, z] = Some (Inl EBADF, None, [])"
    by (simp add: linux_syscall_def writev_spec_def SYS_WRITEV_def SYS_EXIT_def SYS_EXIT_GROUP_def SYS_WRITE_def)
  then show ?thesis using False upcall_syscall_spec [OF assms(1-3), of "Inl EBADF" None "[]"] assms(4) by simp
qed

theorem lx_writev_negative_panics_witness:
  "upcall_entry example_env 0x5000 UpSyscall (lx_kernel (lx_thread [20, 2, 0x1000, - 1, 0, 0, 0] Blocked 1), lx_state) = Panic"
  using lx_writev_negative_panics [OF lx_in_syscall lx_user_space, of "[20, 2, 0x1000, - 1, 0, 0, 0]" 2 "0x1000" "- 1" 0 0 0]
  by (simp add: example_env_def lx_thread_def set_member_def syscall_args_zeroed_def SYS_WRITEV_def)

end
