(* ===== verification/Tables.thy ===== *)
theory Tables
  imports Context Devices
begin

text \<open>
  The processor tables of \<open>kernel/src/arch/x64\<close>: \<open>gdt.rs\<close> (segment descriptors and the task state segment),
  the descriptor table of \<open>idt.rs\<close>, the MSRs of \<open>syscall.rs\<close>, the control registers of \<open>boot.rs\<close> and the
  per-processor variables of \<open>cpuvar.rs\<close>. Addresses of statics and of code are arguments. The decoding
  functions are the processor's reading of the tables, as the architecture defines it; the theorem
  compares what the code encodes with what it wants the processor to find.
\<close>

definition NUM_CPUS_MAX :: usize where "NUM_CPUS_MAX = 8"
definition NUM_GDT_ENTRIES :: usize where "NUM_GDT_ENTRIES = 8"
definition GDT_TSS :: u16 where "GDT_TSS = 6 * 8"

definition KERNEL_STACK_SIZE :: usize where "KERNEL_STACK_SIZE = 1024 * 1024"

definition bsp_stack_top :: "usize \<Rightarrow> usize exec" where
  "bsp_stack_top bsp_stack = usize_add bsp_stack KERNEL_STACK_SIZE"

section \<open>Segments and the task state segment\<close>

record Gdtr =
  gdtr_limit :: u16
  gdtr_base :: u64

record Tss =
  tss_reserved0 :: u32
  tss_rsp0 :: u64
  tss_rsp1 :: u64
  tss_rsp2 :: u64
  tss_reserved1 :: u64
  tss_ist :: "u64 list"
  tss_reserved2 :: u64
  tss_reserved3 :: u16
  tss_iomap_offset :: u16
  tss_io_permission_map :: "u8 list"

text \<open>The structure is packed: \<open>size_of\<close> and \<open>offset_of\<close> are sums of field sizes.\<close>

definition TSS_IOMAP_OFFSET :: usize where "TSS_IOMAP_OFFSET = 4 + 3 * 8 + 8 + 7 * 8 + 8 + 2 + 2"
definition TSS_SIZE :: usize where "TSS_SIZE = TSS_IOMAP_OFFSET + 8192"

record IdtEntry =
  ie_offset0 :: u16
  ie_selector :: u16
  ie_ist :: u8
  ie_gate_type :: u8
  ie_offset1 :: u16
  ie_offset2 :: u32
  ie_reserved :: u32

record Idtr =
  idtr_limit :: u16
  idtr_base :: u64

record tables =
  tb_tss :: "usize \<rightharpoonup> Tss"
  tb_gdt :: "usize \<rightharpoonup> u64 list"
  tb_gdtr :: Gdtr
  tb_tr :: u16
  tb_idt :: "IdtEntry list"
  tb_idtr :: Idtr

definition write_tss :: "usize \<Rightarrow> u64 \<Rightarrow> usize \<Rightarrow> tables \<Rightarrow> (u64 \<times> tables) exec" where
  "write_tss bsp_stack tss_addr cpu_id t =
     (if NUM_CPUS_MAX \<le> cpu_id then Panic
      else exec_bind (bsp_stack_top bsp_stack) (\<lambda>top. Val (tss_addr, t\<lparr>tb_tss := (tb_tss t)(cpu_id \<mapsto>
        \<lparr>tss_reserved0 = 0, tss_rsp0 = 0, tss_rsp1 = 0, tss_rsp2 = 0, tss_reserved1 = 0,
          tss_ist = [of_nat top, 0, 0, 0, 0, 0, 0], tss_reserved2 = 0, tss_reserved3 = 0,
          tss_iomap_offset = of_nat TSS_IOMAP_OFFSET, tss_io_permission_map = replicate 8192 0xff\<rparr>)\<rparr>)))"

definition tss_low :: "u64 \<Rightarrow> u64" where
  "tss_low tss_base = 0x0000890000000000 OR of_nat (TSS_SIZE - 1)
     OR push_bit 16 (tss_base AND 0x00ffffff) OR push_bit 32 (tss_base AND 0xff000000)"

definition tss_high :: "u64 \<Rightarrow> u64" where
  "tss_high tss_base = drop_bit 32 tss_base"

definition gdt_init :: "usize \<Rightarrow> u64 \<Rightarrow> u64 \<Rightarrow> usize \<Rightarrow> tables \<Rightarrow> tables exec" where
  "gdt_init bsp_stack tss_addr gdt_addr cpu_id t =
     exec_bind (write_tss bsp_stack tss_addr cpu_id t) (\<lambda>(tss_base, t).
       Val (t\<lparr>tb_gdt := (tb_gdt t)(cpu_id \<mapsto>
           [0x0000000000000000, 0x00af9a000000ffff, 0x00af92000000ffff, 0x0000000000000000, 0x008ff2000000ffff, 0x00affa000000ffff,
            tss_low tss_base, tss_high tss_base]),
         tb_gdtr := \<lparr>gdtr_limit = of_nat (NUM_GDT_ENTRIES * 8 - 1), gdtr_base = gdt_addr\<rparr>, tb_tr := GDT_TSS\<rparr>))"

section \<open>Interrupt descriptors\<close>

definition NUM_IDT_ENTRIES :: usize where "NUM_IDT_ENTRIES = 256"
definition INTERRUPT_HANDLER_SIZE :: nat where "INTERRUPT_HANDLER_SIZE = 16"

definition IDT_ENTRY_DEFAULT :: IdtEntry where
  "IDT_ENTRY_DEFAULT = \<lparr>ie_offset0 = 0, ie_selector = 0, ie_ist = 0, ie_gate_type = 0, ie_offset1 = 0, ie_offset2 = 0, ie_reserved = 0\<rparr>"

definition set_gate :: "u64 \<Rightarrow> IdtEntry \<Rightarrow> IdtEntry" where
  "set_gate handler e = e\<lparr>ie_offset0 := ucast handler, ie_selector := GDT_KERNEL_CS, ie_ist := 1, ie_gate_type := 0x8e,
     ie_offset1 := ucast (drop_bit 16 handler), ie_offset2 := ucast (drop_bit 32 handler)\<rparr>"

fun idt_fill :: "usize \<Rightarrow> nat \<Rightarrow> nat \<Rightarrow> IdtEntry list \<Rightarrow> IdtEntry list exec" where
  "idt_fill handler_base 0 i idt = Val idt"
| "idt_fill handler_base (Suc n) i idt =
     exec_bind (usize_mul i INTERRUPT_HANDLER_SIZE) (\<lambda>off.
     exec_bind (usize_add handler_base off) (\<lambda>handler.
       idt_fill handler_base n (i + 1) (idt[i := set_gate (of_nat handler) (idt ! i)])))"

definition idt_init :: "usize \<Rightarrow> u64 \<Rightarrow> tables \<Rightarrow> tables exec" where
  "idt_init handler_base idt_addr t =
     exec_bind (idt_fill handler_base NUM_IDT_ENTRIES 0 (tb_idt t)) (\<lambda>idt.
       Val (t\<lparr>tb_idt := idt, tb_idtr := \<lparr>idtr_limit = of_nat (NUM_IDT_ENTRIES * 16 - 1), idtr_base = idt_addr\<rparr>\<rparr>))"

section \<open>MSRs and control registers\<close>

definition MSR_IA32_STAR :: u32 where "MSR_IA32_STAR = 0xc0000081"
definition MSR_IA32_LSTAR :: u32 where "MSR_IA32_LSTAR = 0xc0000082"
definition MSR_IA32_FMASK :: u32 where "MSR_IA32_FMASK = 0xc0000084"
definition MSR_IA32_EFER :: u32 where "MSR_IA32_EFER = 0xc0000080"
definition EFER_SCE :: u64 where "EFER_SCE = 1"
definition SYSCALL_FMASK :: u64 where "SYSCALL_FMASK = push_bit 9 1"

definition syscall_init :: "u64 \<Rightarrow> machine \<Rightarrow> machine" where
  "syscall_init handler M =
     (let M = wrmsr MSR_IA32_EFER (rdmsr MSR_IA32_EFER M OR EFER_SCE) M;
          M = wrmsr MSR_IA32_STAR (push_bit 32 (ucast GDT_KERNEL_CS)) M;
          M = wrmsr MSR_IA32_LSTAR handler M
      in wrmsr MSR_IA32_FMASK SYSCALL_FMASK M)"

record control =
  cr0 :: u64
  cr3 :: u64
  cr4 :: u64

definition enable_fsgsbase :: "control \<Rightarrow> control" where
  "enable_fsgsbase c = c\<lparr>cr4 := cr4 c OR push_bit 16 1\<rparr>"

definition enable_sse :: "control \<Rightarrow> control" where
  "enable_sse c = (let c = c\<lparr>cr0 := (cr0 c AND NOT (push_bit 2 1)) OR push_bit 1 1\<rparr> in c\<lparr>cr4 := cr4 c OR (push_bit 9 1 OR push_bit 10 1)\<rparr>)"

section \<open>Per-processor variables\<close>

definition MAGIC :: u64 where "MAGIC = 0xc12c12c12c12c12c"

record CpuVar =
  cv_magic :: u64
  cv_scratch :: u64
  cv_kernel_rsp :: u64
  cv_local_apic :: LocalApic
  cv_current_thread :: "nat option"

text \<open>Only the boot processor has a stack: \<open>todo!()\<close> for the others.\<close>

definition cpuvar_new :: "usize \<Rightarrow> usize \<Rightarrow> machine \<Rightarrow> (CpuVar \<times> machine) exec" where
  "cpuvar_new bsp_stack cpu_id M =
     (if cpu_id \<noteq> 0 then Panic
      else exec_bind (bsp_stack_top bsp_stack) (\<lambda>top. let (apic, M) = lapic_init M in
        Val (\<lparr>cv_magic = MAGIC, cv_scratch = 0, cv_kernel_rsp = of_nat top, cv_local_apic = apic, cv_current_thread = None\<rparr>, M)))"

text \<open>\<open>addr i\<close> is the address of \<open>CPU_VARS[i]\<close>; the GS base holds the address of the processor's own element.\<close>

record cpu_vars =
  cs_vars :: "nat \<rightharpoonup> CpuVar"
  cs_gsbase :: nat

definition set_cpuvar :: "(usize \<Rightarrow> nat) \<Rightarrow> usize \<Rightarrow> CpuVar \<Rightarrow> cpu_vars \<Rightarrow> cpu_vars exec" where
  "set_cpuvar addr cpu_id v s = assert_exec (cpu_id < NUM_CPUS_MAX) (Val \<lparr>cs_vars = (cs_vars s)(addr cpu_id \<mapsto> v), cs_gsbase = addr cpu_id\<rparr>)"

definition get_cpuvar :: "cpu_vars \<Rightarrow> CpuVar exec" where
  "get_cpuvar s = assert_exec (cs_gsbase s \<noteq> 0) (case cs_vars s (cs_gsbase s) of
     None \<Rightarrow> Undef
   | Some v \<Rightarrow> assert_exec (cv_magic v = MAGIC) (Val v))"

definition cpuvar_init :: "(usize \<Rightarrow> nat) \<Rightarrow> usize \<Rightarrow> usize \<Rightarrow> cpu_vars \<times> machine \<Rightarrow> (cpu_vars \<times> machine) exec" where
  "cpuvar_init addr bsp_stack cpu_id = (\<lambda>(s, M). exec_bind (cpuvar_new bsp_stack cpu_id M) (\<lambda>(v, M).
     exec_bind (set_cpuvar addr cpu_id v s) (\<lambda>s. Val (s, M))))"

lemma get_set_cpuvar:
  "cpu_id < NUM_CPUS_MAX \<Longrightarrow> addr cpu_id \<noteq> 0 \<Longrightarrow> cv_magic v = MAGIC \<Longrightarrow> exec_bind (set_cpuvar addr cpu_id v s) get_cpuvar = Val v"
  by (simp add: set_cpuvar_def get_cpuvar_def assert_exec_def)

section \<open>What the processor reads\<close>

definition desc_present :: "u64 \<Rightarrow> bool" where "desc_present d \<longleftrightarrow> bit d 47"
definition desc_dpl :: "u64 \<Rightarrow> nat" where "desc_dpl d = unat (take_bit 2 (drop_bit 45 d))"
definition desc_segment :: "u64 \<Rightarrow> bool" where "desc_segment d \<longleftrightarrow> bit d 44"
definition desc_type :: "u64 \<Rightarrow> nat" where "desc_type d = unat (take_bit 4 (drop_bit 40 d))"
definition desc_code :: "u64 \<Rightarrow> bool" where "desc_code d \<longleftrightarrow> desc_segment d \<and> bit d 43"
definition desc_long :: "u64 \<Rightarrow> bool" where "desc_long d \<longleftrightarrow> bit d 53 \<and> \<not> bit d 54"

definition system_base :: "u64 \<Rightarrow> u64 \<Rightarrow> u64" where
  "system_base lo hi = take_bit 24 (drop_bit 16 lo) OR push_bit 24 (take_bit 8 (drop_bit 56 lo)) OR push_bit 32 hi"

definition system_limit :: "u64 \<Rightarrow> nat" where
  "system_limit lo = unat (take_bit 16 lo OR push_bit 16 (take_bit 4 (drop_bit 48 lo)))"

definition gate_offset :: "IdtEntry \<Rightarrow> u64" where
  "gate_offset e = ucast (ie_offset0 e) OR push_bit 16 (ucast (ie_offset1 e)) OR push_bit 32 (ucast (ie_offset2 e))"

definition selected :: "u64 list \<Rightarrow> u16 \<Rightarrow> u64" where
  "selected gdt sel = gdt ! unat (drop_bit 3 sel)"

definition code64 :: "nat \<Rightarrow> u64 \<Rightarrow> bool" where
  "code64 dpl d \<longleftrightarrow> desc_present d \<and> desc_code d \<and> desc_long d \<and> desc_dpl d = dpl"

definition data_segment :: "nat \<Rightarrow> u64 \<Rightarrow> bool" where
  "data_segment dpl d \<longleftrightarrow> desc_present d \<and> desc_segment d \<and> \<not> desc_code d \<and> bit d 41 \<and> desc_dpl d = dpl"

text \<open>An available 64-bit task state segment of ring 0.\<close>

definition tss_segment :: "u64 \<Rightarrow> bool" where
  "tss_segment d \<longleftrightarrow> desc_present d \<and> \<not> desc_segment d \<and> desc_type d = 9 \<and> desc_dpl d = 0"

definition interrupt_gate :: "IdtEntry \<Rightarrow> u64 \<Rightarrow> bool" where
  "interrupt_gate e h \<longleftrightarrow> ie_gate_type e = 0x8e \<and> ie_selector e = GDT_KERNEL_CS \<and> ie_ist e = 1 \<and> gate_offset e = h"

lemma bit_const_low: "bit (0xffffff :: u64) n \<longleftrightarrow> n < 24"
proof -
  have e: "(0xffffff :: u64) = mask 24" by (simp add: mask_eq_exp_minus_1)
  show ?thesis unfolding e by (auto simp: bit_simps)
qed

lemma bit_const_high: "bit (0xff000000 :: u64) n \<longleftrightarrow> 24 \<le> n \<and> n < 32"
proof -
  have e: "(0xff000000 :: u64) = push_bit 24 (mask 8)" by (simp add: mask_eq_exp_minus_1)
  show ?thesis unfolding e by (auto simp: bit_simps)
qed

lemma bit_const_limit: "bit (8295 :: u64) n \<Longrightarrow> n < 16"
proof -
  have e: "(8295 :: u64) = take_bit 16 8295" by simp
  show "bit (8295 :: u64) n \<Longrightarrow> n < 16" by (subst (asm) e) (simp only: bit_take_bit_iff)
qed

lemma bit_const_type: "bit (0x890000000000 :: u64) n \<longleftrightarrow> n \<in> {40, 43, 47}" "bit (9 :: u64) n \<longleftrightarrow> n \<in> {0, 3}"
proof -
  have e: "(0x890000000000 :: u64) = push_bit 40 1 OR push_bit 43 1 OR push_bit 47 1" by (simp add: push_bit_eq_mult)
  show "bit (0x890000000000 :: u64) n \<longleftrightarrow> n \<in> {40, 43, 47}" unfolding e by (auto simp: bit_simps simp del: push_bit_of_1)
  have e: "(9 :: u64) = push_bit 0 1 OR push_bit 3 1" by (simp add: push_bit_eq_mult)
  show "bit (9 :: u64) n \<longleftrightarrow> n \<in> {0, 3}" unfolding e by (auto simp: bit_simps simp del: push_bit_of_1 push_bit_0_id)
qed

lemmas bit_mask_const = bit_const_low bit_const_high bit_const_type

lemma gate_offset_set_gate: "gate_offset (set_gate h e) = h"
proof (rule bit_word_eqI)
  fix n assume "n < LENGTH(64)"
  then consider "n < 16" | "16 \<le> n" "n < 32" | "32 \<le> n" "n < 64" by fastforce
  then show "bit (gate_offset (set_gate h e)) n = bit h n"
    by cases (auto simp: gate_offset_def set_gate_def bit_simps)
qed

lemma tss_low_bit:
  assumes "n < 64"
  shows "bit (tss_low b) n \<longleftrightarrow> n \<in> {40, 43, 47} \<or> bit (8295 :: u64) n \<or> (16 \<le> n \<and> n < 40 \<and> bit b (n - 16)) \<or> (56 \<le> n \<and> bit b (n - 32))"
proof -
  have e: "of_nat (TSS_SIZE - 1) = (8295 :: u64)" by (simp add: TSS_SIZE_def TSS_IOMAP_OFFSET_def)
  have a: "(16 \<le> n \<and> bit b (n - 16) \<and> n - 16 < 24) \<longleftrightarrow> (16 \<le> n \<and> n < 40 \<and> bit b (n - 16))"
    "(32 \<le> n \<and> bit b (n - 32) \<and> 24 \<le> n - 32 \<and> n - 32 < 32) \<longleftrightarrow> (56 \<le> n \<and> bit b (n - 32))" using assms by auto
  have "bit (push_bit 16 (b AND 0xffffff)) n \<longleftrightarrow> 16 \<le> n \<and> n < 40 \<and> bit b (n - 16)"
    "bit (push_bit 32 (b AND 0xff000000)) n \<longleftrightarrow> 56 \<le> n \<and> bit b (n - 32)"
    unfolding a [symmetric] bit_push_bit_iff bit_and_iff bit_const_low bit_const_high using assms by auto
  then show ?thesis unfolding tss_low_def e bit_or_iff bit_const_type by blast
qed

lemma tss_low_high_bits:
  assumes "16 \<le> n" "n < 64"
  shows "bit (tss_low b) n \<longleftrightarrow> n \<in> {40, 43, 47} \<or> (n < 40 \<and> bit b (n - 16)) \<or> (56 \<le> n \<and> bit b (n - 32))"
  using tss_low_bit [OF assms(2)] bit_const_limit [of n] assms(1) by auto

lemma system_base_tss: "system_base (tss_low b) (tss_high b) = b"
proof (rule bit_word_eqI)
  fix n assume "n < LENGTH(64)"
  then consider "n < 24" | "24 \<le> n" "n < 32" | "32 \<le> n" "n < 64" by fastforce
  then show "bit (system_base (tss_low b) (tss_high b)) n = bit b n"
    by cases (auto simp: system_base_def tss_high_def bit_simps tss_low_high_bits)
qed

lemma system_limit_tss: "system_limit (tss_low b) = TSS_SIZE - 1"
proof -
  have "bit (take_bit 16 (tss_low b) OR push_bit 16 (take_bit 4 (drop_bit 48 (tss_low b)))) n = bit (8295 :: u64) n" if n: "n < 64" for n
  proof (cases "n < 16")
    case True
    then show ?thesis using n tss_low_bit [OF n] by (auto simp: bit_simps)
  next
    case False
    then show ?thesis using n bit_const_limit [of n] by (auto simp: bit_simps tss_low_high_bits)
  qed
  then have "take_bit 16 (tss_low b) OR push_bit 16 (take_bit 4 (drop_bit 48 (tss_low b))) = 8295" by (intro bit_word_eqI) simp
  then show ?thesis by (simp add: system_limit_def TSS_SIZE_def TSS_IOMAP_OFFSET_def)
qed

lemma tss_segment_low: "tss_segment (tss_low b)"
proof -
  have "bit (take_bit 4 (drop_bit 40 (tss_low b))) n = bit (9 :: u64) n" if "n < 64" for n
    unfolding bit_const_type using that by (auto simp: bit_simps tss_low_high_bits)
  then have t: "take_bit 4 (drop_bit 40 (tss_low b)) = 9" by (intro bit_word_eqI) simp
  have d: "take_bit 2 (drop_bit 45 (tss_low b)) = 0"
    by (rule bit_word_eqI) (auto simp: bit_simps tss_low_high_bits)
  show ?thesis
    by (simp add: tss_segment_def desc_present_def desc_segment_def desc_type_def desc_dpl_def tss_low_high_bits t d)
qed

lemma idt_fill_gates:
  assumes "handler_base + 16 * (i + n) \<le> 2 ^ 64" "i + n \<le> length idt"
  shows "\<exists>idt'. idt_fill handler_base n i idt = Val idt' \<and> length idt' = length idt \<and> (\<forall>j. j < i \<longrightarrow> idt' ! j = idt ! j)
    \<and> (\<forall>j. i \<le> j \<longrightarrow> j < i + n \<longrightarrow> interrupt_gate (idt' ! j) (of_nat (handler_base + 16 * j)))"
  using assms
proof (induction n arbitrary: i idt)
  case 0
  then show ?case by simp
next
  case (Suc n)
  let ?idt = "idt[i := set_gate (of_nat (handler_base + 16 * i)) (idt ! i)]"
  obtain idt' where I: "idt_fill handler_base n (i + 1) ?idt = Val idt'" "length idt' = length idt"
    "\<forall>j. j < i + 1 \<longrightarrow> idt' ! j = ?idt ! j"
    "\<forall>j. i + 1 \<le> j \<longrightarrow> j < i + 1 + n \<longrightarrow> interrupt_gate (idt' ! j) (of_nat (handler_base + 16 * j))"
    using Suc.IH [of "i + 1" ?idt] Suc.prems by auto
  have g: "interrupt_gate (idt' ! i) (of_nat (handler_base + 16 * i))"
    using I(3) Suc.prems gate_offset_set_gate by (simp add: interrupt_gate_def) (simp add: set_gate_def)
  have "i * 16 \<le> USIZE_MAX" "handler_base + i * 16 \<le> USIZE_MAX" using Suc.prems(1) by (simp_all add: USIZE_MAX_def)
  then have run: "idt_fill handler_base (Suc n) i idt = Val idt'"
    using I(1) by (simp add: usize_mul_def usize_add_def INTERRUPT_HANDLER_SIZE_def mult.commute)
  have low: "idt' ! j = idt ! j" if "j < i" for j using I(3) that by simp
  have gates: "interrupt_gate (idt' ! j) (of_nat (handler_base + 16 * j))" if "i \<le> j" "j < i + Suc n" for j
    using I(4) g that by (cases "j = i") simp_all
  show ?case using run I(2) low gates by blast
qed

lemma idt_fill_init:
  assumes "handler_base + 16 * NUM_IDT_ENTRIES \<le> 2 ^ 64" "length (tb_idt t) = NUM_IDT_ENTRIES"
  obtains idt where "idt_init handler_base idt_addr t = Val (t\<lparr>tb_idt := idt, tb_idtr := \<lparr>idtr_limit = 4095, idtr_base = idt_addr\<rparr>\<rparr>)"
    "length idt = NUM_IDT_ENTRIES" "\<And>i. i < NUM_IDT_ENTRIES \<Longrightarrow> interrupt_gate (idt ! i) (of_nat (handler_base + 16 * i))"
  using idt_fill_gates [of handler_base 0 NUM_IDT_ENTRIES "tb_idt t"] assms
  by (auto simp: idt_init_def NUM_IDT_ENTRIES_def)

text \<open>
  C8. The tables that boot loads into the processor say what the rest of the kernel relies on. The kernel code
  selector names a present 64-bit code segment of ring 0, the user selectors carry privilege 3 and name a
  64-bit code and a writable data segment of ring 3, and the task register names a 64-bit task state segment
  whose base, scattered over two descriptors, is the address of the structure and whose limit is its size. Its
  first interrupt stack is the kernel stack and its permission map denies every I/O port to user code. Every one of the 256
  vectors is an interrupt gate to its own 16-byte stub, on that stack; both table limits cover exactly
  the tables.
\<close>

theorem processor_tables_contract:
  assumes "cpu_id < NUM_CPUS_MAX" and "bsp_stack + KERNEL_STACK_SIZE \<le> USIZE_MAX"
    and "handler_base + 16 * NUM_IDT_ENTRIES \<le> 2 ^ 64" and "length (tb_idt t) = NUM_IDT_ENTRIES"
  shows "\<exists>t' gdt tss. exec_bind (gdt_init bsp_stack tss_addr gdt_addr cpu_id t) (idt_init handler_base idt_addr) = Val t'
    \<and> tb_gdt t' cpu_id = Some gdt \<and> tb_tss t' cpu_id = Some tss
    \<and> tb_gdtr t' = \<lparr>gdtr_limit = of_nat (8 * length gdt - 1), gdtr_base = gdt_addr\<rparr>
    \<and> tb_idtr t' = \<lparr>idtr_limit = of_nat (16 * length (tb_idt t') - 1), idtr_base = idt_addr\<rparr>
    \<and> code64 0 (selected gdt GDT_KERNEL_CS) \<and> code64 3 (selected gdt GDT_USER_CS) \<and> data_segment 3 (selected gdt GDT_USER_DS)
    \<and> GDT_USER_CS AND 3 = 3 \<and> GDT_USER_DS AND 3 = 3
    \<and> tss_segment (selected gdt (tb_tr t')) \<and> system_base (selected gdt (tb_tr t')) (selected gdt (tb_tr t' + 8)) = tss_addr
    \<and> system_limit (selected gdt (tb_tr t')) + 1 = TSS_SIZE
    \<and> unat (tss_iomap_offset tss) + length (tss_io_permission_map tss) = TSS_SIZE \<and> set (tss_io_permission_map tss) = {0xff} \<and> 8 * length (tss_io_permission_map tss) = 2 ^ 16
    \<and> tss_ist tss ! 0 = of_nat (bsp_stack + KERNEL_STACK_SIZE)
    \<and> length (tb_idt t') = NUM_IDT_ENTRIES \<and> (\<forall>i<NUM_IDT_ENTRIES. interrupt_gate (tb_idt t' ! i) (of_nat (handler_base + 16 * i)))"
proof -
  obtain t1 gdt tss where g: "gdt_init bsp_stack tss_addr gdt_addr cpu_id t = Val t1" "tb_idt t1 = tb_idt t" "tb_gdt t1 cpu_id = Some gdt"
    "tb_tss t1 cpu_id = Some tss" "tb_gdtr t1 = \<lparr>gdtr_limit = 63, gdtr_base = gdt_addr\<rparr>" "tb_tr t1 = 48" "tss_ist tss ! 0 = of_nat (bsp_stack + KERNEL_STACK_SIZE)"
    "tss_iomap_offset tss = 104" "tss_io_permission_map tss = replicate 8192 0xff"
    "gdt = [0, 0x00af9a000000ffff, 0x00af92000000ffff, 0, 0x008ff2000000ffff, 0x00affa000000ffff, tss_low tss_addr, tss_high tss_addr]"
    using assms(1,2) by (fastforce simp: gdt_init_def write_tss_def bsp_stack_top_def usize_add_def GDT_TSS_def TSS_IOMAP_OFFSET_def NUM_GDT_ENTRIES_def)
  obtain idt where i: "idt_init handler_base idt_addr t1 = Val (t1\<lparr>tb_idt := idt, tb_idtr := \<lparr>idtr_limit = 4095, idtr_base = idt_addr\<rparr>\<rparr>)"
    "length idt = NUM_IDT_ENTRIES" "\<And>i. i < NUM_IDT_ENTRIES \<Longrightarrow> interrupt_gate (idt ! i) (of_nat (handler_base + 16 * i))"
    using idt_fill_init [of handler_base t1 idt_addr] assms(3,4) g(2) by metis
  have segs: "code64 0 0x00af9a000000ffff" "code64 3 0x00affa000000ffff" "data_segment 3 0x008ff2000000ffff"
    by (simp_all add: code64_def data_segment_def desc_present_def desc_code_def desc_segment_def desc_long_def desc_dpl_def)
  have sel: "selected gdt GDT_KERNEL_CS = 0x00af9a000000ffff" "selected gdt GDT_USER_CS = 0x00affa000000ffff" "selected gdt GDT_USER_DS = 0x008ff2000000ffff"
    "selected gdt 48 = tss_low tss_addr" "selected gdt 56 = tss_high tss_addr"
    by (simp_all add: selected_def g(10) GDT_KERNEL_CS_def GDT_USER_CS_def GDT_USER_DS_def)
  have tss: "unat (tss_iomap_offset tss) + length (tss_io_permission_map tss) = TSS_SIZE" "set (tss_io_permission_map tss) = {0xff}"
    "8 * length (tss_io_permission_map tss) = 2 ^ 16" "system_limit (tss_low tss_addr) + 1 = TSS_SIZE"
    by (simp_all add: g(8,9) system_limit_tss TSS_SIZE_def TSS_IOMAP_OFFSET_def)
  have rpl: "GDT_USER_CS AND 3 = 3" "GDT_USER_DS AND 3 = 3" by (simp_all add: GDT_USER_CS_def GDT_USER_DS_def)
  show ?thesis
    using g(1,3-7) i segs tss rpl tss_segment_low system_base_tss by (simp add: sel) (simp add: g(10) NUM_IDT_ENTRIES_def)
qed

definition boot_tables :: tables where
  "boot_tables = \<lparr>tb_tss = Map.empty, tb_gdt = Map.empty, tb_gdtr = \<lparr>gdtr_limit = 0, gdtr_base = 0\<rparr>, tb_tr = 0,
     tb_idt = replicate 256 IDT_ENTRY_DEFAULT, tb_idtr = \<lparr>idtr_limit = 0, idtr_base = 0\<rparr>\<rparr>"

theorem processor_tables_contract_witness:
  "\<exists>t' gdt tss. exec_bind (gdt_init 0xffff800000200000 0xffff800000123450 0xffff800000130000 0 boot_tables) (idt_init 0xffff800000110000 0xffff800000140000) = Val t'
    \<and> tb_gdt t' 0 = Some gdt \<and> tb_tss t' 0 = Some tss \<and> system_base (selected gdt (tb_tr t')) (selected gdt (tb_tr t' + 8)) = 0xffff800000123450
    \<and> interrupt_gate (tb_idt t' ! 32) 0xffff800000110200"
proof -
  have "(0 :: nat) < NUM_CPUS_MAX" "0xffff800000200000 + KERNEL_STACK_SIZE \<le> USIZE_MAX" "0xffff800000110000 + 16 * NUM_IDT_ENTRIES \<le> 2 ^ 64"
    "length (tb_idt boot_tables) = NUM_IDT_ENTRIES" "(32 :: nat) < NUM_IDT_ENTRIES"
    by (simp_all add: NUM_CPUS_MAX_def KERNEL_STACK_SIZE_def USIZE_MAX_def NUM_IDT_ENTRIES_def boot_tables_def)
  from processor_tables_contract [OF this(1-4), of "0xffff800000123450" "0xffff800000130000" "0xffff800000140000"] this(5)
  show ?thesis by (elim exE) (intro exI, auto)
qed

end
