(* ===== verification/EarlyBoot.thy ===== *)
theory EarlyBoot
  imports Tables PageTable
begin

text \<open>
  \<open>x64_boot\<close> of \<open>kernel/src/arch/x64/boot.rs\<close>, the entry point of the kernel: from 32-bit protected mode
  without paging to 64-bit code at the kernel's virtual addresses. The assembly is a list of instructions
  with an interpreter that does what the architecture defines for them: 32-bit results are zero-extended,
  every fetch and every access goes through the page tables once paging is on, a far return reads the
  descriptor of its code segment, and an access that the tables do not allow is \<open>Undef\<close> (there is no handler
  yet, so the machine resets). Data and stack segments are flat, as both boot protocols promise; all accesses
  are aligned, so that none crosses a page. The linker's choices are the record \<open>symbols\<close>.
\<close>

record symbols =
  sym_pml4 :: usize
  sym_pdpt :: usize
  sym_stack :: usize
  sym_gdtr :: usize
  sym_gdt :: usize
  sym_main :: usize
  sym_code :: "nat \<Rightarrow> usize"

section \<open>The processor\<close>

datatype cr = CR0 | CR3 | CR4
datatype seg = DS | ES | FS | GS | SS

record boot_cpu =
  b_reg :: "reg \<Rightarrow> u64"
  b_rip :: nat
  b_cs :: nat
  b_rflags :: u64
  b_seg :: "seg \<Rightarrow> u64"
  b_cr :: "cr \<Rightarrow> u64"
  b_efer :: u64
  b_gdtr :: "nat \<times> nat"
  b_long :: bool
  b_mem :: memory

datatype boot_instr =
    BCli
  | BCld
  | BMov reg reg
  | BMovImm reg u64
  | BMovImm16 reg u64
  | BLea reg nat
  | BOrImm reg u64
  | BOr reg reg
  | BFromCr reg cr
  | BToCr cr reg
  | BStore reg nat reg
  | BRdmsr
  | BWrmsr
  | BPushImm u32
  | BPush reg
  | BLgdt nat
  | BRetf
  | BMovSeg seg reg
  | BJmp reg

definition load32 :: "memory \<Rightarrow> nat \<Rightarrow> nat" where
  "load32 m a = le_nat (mem_read m a 4)"

definition store32 :: "memory \<Rightarrow> nat \<Rightarrow> nat \<Rightarrow> memory" where
  "store32 m a v = mem_write m a (nat_le 4 v)"

text \<open>Bit 31 of CR0 turns paging on, bit 16 makes the write bits of the entries binding for the kernel.\<close>

definition translate :: "(cr \<Rightarrow> u64) \<Rightarrow> memory \<Rightarrow> bool \<Rightarrow> nat \<Rightarrow> nat option" where
  "translate crs m wr va = (if \<not> bit (crs CR0) 31 then Some va else
     (case mmu m (pte_paddr (crs CR3)) va of None \<Rightarrow> None
      | Some (p, writable, _) \<Rightarrow> if wr \<and> \<not> writable \<and> bit (crs CR0) 16 then None else Some p))"

definition read_at :: "boot_cpu \<Rightarrow> nat \<Rightarrow> (nat \<Rightarrow> 'a) \<Rightarrow> 'a exec" where
  "read_at c va f = (case translate (b_cr c) (b_mem c) False va of None \<Rightarrow> Undef | Some p \<Rightarrow> Val (f p))"

definition write32 :: "boot_cpu \<Rightarrow> nat \<Rightarrow> nat \<Rightarrow> boot_cpu exec" where
  "write32 c va v = (case translate (b_cr c) (b_mem c) True va of None \<Rightarrow> Undef
     | Some p \<Rightarrow> Val (c\<lparr>b_mem := store32 (b_mem c) p v\<rparr>))"

definition set_reg :: "reg \<Rightarrow> u64 \<Rightarrow> boot_cpu \<Rightarrow> boot_cpu" where
  "set_reg d w c = c\<lparr>b_reg := (b_reg c)(d := (if b_long c then w else take_bit 32 w))\<rparr>"

definition push32 :: "nat \<Rightarrow> boot_cpu \<Rightarrow> boot_cpu exec" where
  "push32 v c = (let c = set_reg RSP (b_reg c RSP - 4) c in write32 c (unat (b_reg c RSP)) v)"

text \<open>
  Setting the paging bit needs protected mode and, in long mode, PAE; it makes long mode active (bit 10 of
  EFER). A far return to a descriptor outside of the table, or one that is not a present code segment of
  ring 0, faults; a descriptor with the long bit switches to 64-bit code when long mode is active.
\<close>

definition to_cr :: "cr \<Rightarrow> u64 \<Rightarrow> boot_cpu \<Rightarrow> boot_cpu exec" where
  "to_cr k v c = (case k of
       CR0 \<Rightarrow> if bit v 31 \<and> (\<not> bit v 0 \<or> bit (b_efer c) 8 \<and> \<not> bit (b_cr c CR4) 5) then Undef
         else Val (c\<lparr>b_cr := (b_cr c)(CR0 := v), b_efer := (if bit v 31 \<and> bit (b_efer c) 8 then b_efer c OR push_bit 10 1 else b_efer c)\<rparr>)
     | _ \<Rightarrow> Val (c\<lparr>b_cr := (b_cr c)(k := v)\<rparr>))"

definition far_return :: "boot_cpu \<Rightarrow> boot_cpu exec" where
  "far_return c = (let sp = unat (b_reg c RSP) in
     exec_bind (read_at c sp (load32 (b_mem c))) (\<lambda>ip.
     exec_bind (read_at c (sp + 4) (load32 (b_mem c))) (\<lambda>cs.
     if snd (b_gdtr c) < cs mod 2 ^ 16 + 7 then Undef
     else exec_bind (read_at c (fst (b_gdtr c) + cs mod 2 ^ 16) (load64 (b_mem c))) (\<lambda>d.
       if desc_present d \<and> desc_code d \<and> desc_dpl d = 0
       then Val (set_reg RSP (b_reg c RSP + 8) c\<lparr>b_rip := ip, b_cs := cs mod 2 ^ 16, b_long := (bit (b_efer c) 10 \<and> desc_long d)\<rparr>)
       else Undef))))"

text \<open>\<open>lgdt\<close> outside of 64-bit code reads a limit of 16 bits and a base of 32 bits.\<close>

fun step_boot :: "boot_instr \<Rightarrow> boot_cpu \<Rightarrow> boot_cpu exec" where
  "step_boot BCli c = Val (c\<lparr>b_rflags := b_rflags c AND NOT (push_bit 9 1)\<rparr>)"
| "step_boot BCld c = Val (c\<lparr>b_rflags := b_rflags c AND NOT (push_bit 10 1)\<rparr>)"
| "step_boot (BMov d s) c = Val (set_reg d (b_reg c s) c)"
| "step_boot (BMovImm d i) c = Val (set_reg d i c)"
| "step_boot (BMovImm16 d i) c = Val (c\<lparr>b_reg := (b_reg c)(d := push_bit 16 (drop_bit 16 (b_reg c d)) OR take_bit 16 i)\<rparr>)"
| "step_boot (BLea d a) c = Val (set_reg d (of_nat a) c)"
| "step_boot (BOrImm d i) c = Val (set_reg d (b_reg c d OR i) c)"
| "step_boot (BOr d s) c = Val (set_reg d (b_reg c d OR b_reg c s) c)"
| "step_boot (BFromCr d k) c = Val (set_reg d (b_cr c k) c)"
| "step_boot (BToCr k s) c = to_cr k (b_reg c s) c"
| "step_boot (BStore b off s) c = write32 c (unat (b_reg c b) + off) (unat (take_bit 32 (b_reg c s)))"
| "step_boot BRdmsr c = (if b_reg c RCX = ucast MSR_IA32_EFER
     then Val (set_reg RDX (drop_bit 32 (b_efer c)) (set_reg RAX (take_bit 32 (b_efer c)) c)) else Undef)"
| "step_boot BWrmsr c = (if b_reg c RCX = ucast MSR_IA32_EFER
     then Val (c\<lparr>b_efer := push_bit 32 (b_reg c RDX) OR take_bit 32 (b_reg c RAX)\<rparr>) else Undef)"
| "step_boot (BPushImm i) c = push32 (unat i) c"
| "step_boot (BPush s) c = push32 (unat (take_bit 32 (b_reg c s))) c"
| "step_boot (BLgdt a) c = exec_bind (read_at c a (\<lambda>p. (load32 (b_mem c) (p + 2), le_nat (mem_read (b_mem c) p 2)))) (\<lambda>g. Val (c\<lparr>b_gdtr := g\<rparr>))"
| "step_boot BRetf c = far_return c"
| "step_boot (BMovSeg s r) c = (if take_bit 16 (b_reg c r) AND 0xfffc = 0 then Val (c\<lparr>b_seg := (b_seg c)(s := take_bit 16 (b_reg c r))\<rparr>) else Undef)"
| "step_boot (BJmp r) c = Val (c\<lparr>b_rip := unat (b_reg c r)\<rparr>)"

text \<open>
  A sequence of instructions, each with its physical address and the one after it. The processor fetches the
  instruction it has come to; if that is not the next one of the sequence, or the page tables do not lead to
  it, the outcome is \<open>Undef\<close>.
\<close>

definition fetch_ok :: "boot_cpu \<Rightarrow> nat \<Rightarrow> bool" where
  "fetch_ok c a \<longleftrightarrow> b_rip c = a \<and> translate (b_cr c) (b_mem c) False a = Some a"

fun run_boot :: "(nat \<times> nat \<times> boot_instr) list \<Rightarrow> boot_cpu \<Rightarrow> boot_cpu exec" where
  "run_boot [] c = Val c"
| "run_boot ((a, b, i) # is) c = (if fetch_ok c a then exec_bind (step_boot i (c\<lparr>b_rip := b\<rparr>)) (run_boot is) else Undef)"

fun place :: "(nat \<Rightarrow> nat) \<Rightarrow> nat \<Rightarrow> boot_instr list \<Rightarrow> (nat \<times> nat \<times> boot_instr) list" where
  "place A k [] = []"
| "place A k (i # is) = (A k, A (k + 1), i) # place A (k + 1) is"

section \<open>The boot code\<close>

definition x64_boot_32 :: "symbols \<Rightarrow> boot_instr list" where
  "x64_boot_32 S =
     [BCli, BCld,
      BMov RDI RAX, BMov RSI RBX,
      BLea RSP (sym_stack S + KERNEL_STACK_SIZE - KERNEL_BASE),
      BFromCr RAX CR4, BOrImm RAX (push_bit 5 1 OR push_bit 7 1), BToCr CR4 RAX,
      BLea RBX (sym_pml4 S - KERNEL_BASE), BLea RAX (sym_pdpt S - KERNEL_BASE), BOrImm RAX 1, BStore RBX 0 RAX, BStore RBX (256 * 8) RAX,
      BToCr CR3 RBX,
      BMovImm RCX 0xc0000080, BRdmsr, BOrImm RAX (push_bit 8 1), BWrmsr,
      BFromCr RAX CR0, BOrImm RAX (push_bit 31 1), BToCr CR0 RAX]"

definition x64_boot_switch :: "symbols \<Rightarrow> boot_instr list" where
  "x64_boot_switch S =
     [BPushImm 8, BLea RAX (sym_code S 26 - KERNEL_BASE), BPush RAX,
      BLgdt (sym_gdtr S - KERNEL_BASE), BRetf]"

definition x64_boot_64 :: "symbols \<Rightarrow> boot_instr list" where
  "x64_boot_64 S =
     [BMovImm16 RAX 0, BMovSeg DS RAX, BMovSeg ES RAX, BMovSeg FS RAX, BMovSeg GS RAX, BMovSeg SS RAX,
      BLea RAX (sym_main S - KERNEL_BASE), BLea RSP (sym_stack S + KERNEL_STACK_SIZE - KERNEL_BASE),
      BMovImm RBX (of_nat KERNEL_BASE), BOr RAX RBX, BOr RSP RBX,
      BJmp RAX]"

abbreviation pml4_at :: "symbols \<Rightarrow> nat" where "pml4_at S \<equiv> sym_pml4 S - KERNEL_BASE"
abbreviation pdpt_at :: "symbols \<Rightarrow> nat" where "pdpt_at S \<equiv> sym_pdpt S - KERNEL_BASE"
abbreviation stack_at :: "symbols \<Rightarrow> nat" where "stack_at S \<equiv> sym_stack S - KERNEL_BASE"
abbreviation gdtr_at :: "symbols \<Rightarrow> nat" where "gdtr_at S \<equiv> sym_gdtr S - KERNEL_BASE"
abbreviation gdt_at :: "symbols \<Rightarrow> nat" where "gdt_at S \<equiv> sym_gdt S - KERNEL_BASE"

abbreviation code_at :: "symbols \<Rightarrow> nat \<Rightarrow> nat" where
  "code_at S i \<equiv> sym_code S i - KERNEL_BASE"

definition x64_boot :: "symbols \<Rightarrow> (nat \<times> nat \<times> boot_instr) list" where
  "x64_boot S = place (code_at S) 0 (x64_boot_32 S @ x64_boot_switch S @ x64_boot_64 S)"

text \<open>The temporary descriptor table of \<open>gdt.rs\<close>.\<close>

definition boot_gdt :: "u64 list" where
  "boot_gdt = [0, 0x00af9a000000ffff, 0x00cf92000000ffff]"

definition boot_gdtr :: "usize \<Rightarrow> u8 list" where
  "boot_gdtr gdt = nat_le 2 (8 * length boot_gdt - 1) @ nat_le 8 gdt"

section \<open>What the linker and the boot loader provide\<close>

definition in_image :: "usize \<Rightarrow> nat \<Rightarrow> bool" where
  "in_image v len \<longleftrightarrow> KERNEL_BASE \<le> v \<and> v - KERNEL_BASE + len \<le> 2 ^ 31"

definition separate :: "nat \<Rightarrow> nat \<Rightarrow> nat \<Rightarrow> nat \<Rightarrow> bool" where
  "separate a n b k \<longleftrightarrow> a + n \<le> b \<or> b + k \<le> a"

definition linked :: "symbols \<Rightarrow> bool" where
  "linked S \<longleftrightarrow> in_image (sym_pml4 S) 4096 \<and> in_image (sym_pdpt S) 4096 \<and> in_image (sym_stack S) KERNEL_STACK_SIZE
     \<and> in_image (sym_gdtr S) 10 \<and> in_image (sym_gdt S) 24 \<and> in_image (sym_main S) 1 \<and> (\<forall>i. in_image (sym_code S i) 1)
     \<and> 4096 dvd sym_pml4 S \<and> 4096 dvd sym_pdpt S \<and> 16 dvd sym_stack S
     \<and> separate (sym_pml4 S) 4096 (sym_pdpt S) 4096 \<and> separate (sym_pml4 S) 4096 (sym_gdtr S) 10 \<and> separate (sym_pml4 S) 4096 (sym_gdt S) 24
     \<and> separate (sym_stack S) KERNEL_STACK_SIZE (sym_pml4 S) 4096 \<and> separate (sym_stack S) KERNEL_STACK_SIZE (sym_pdpt S) 4096
     \<and> separate (sym_stack S) KERNEL_STACK_SIZE (sym_gdtr S) 10 \<and> separate (sym_stack S) KERNEL_STACK_SIZE (sym_gdt S) 24"

definition boot_image :: "symbols \<Rightarrow> memory \<Rightarrow> bool" where
  "boot_image S m \<longleftrightarrow> (\<forall>i<512. entry m (sym_pml4 S - KERNEL_BASE) i = 0)
     \<and> (\<exists>es. BOOT_PDPT = Val es \<and> (\<forall>i<512. entry m (sym_pdpt S - KERNEL_BASE) i = es ! i))
     \<and> mem_read m (sym_gdtr S - KERNEL_BASE) 10 = boot_gdtr (sym_gdt S)
     \<and> (\<forall>i<3. load64 m (sym_gdt S - KERNEL_BASE + 8 * i) = boot_gdt ! i)"

text \<open>Protected mode without paging; write protection is off.\<close>

definition boot_state :: "symbols \<Rightarrow> boot_cpu \<Rightarrow> bool" where
  "boot_state S c \<longleftrightarrow> b_rip c = code_at S 0 \<and> \<not> b_long c \<and> bit (b_cr c CR0) 0 \<and> \<not> bit (b_cr c CR0) 31 \<and> boot_image S (b_mem c)"

section \<open>Paging\<close>

lemma run_boot_append: "run_boot (xs @ ys) c = exec_bind (run_boot xs c) (run_boot ys)"
proof (induction xs c rule: run_boot.induct)
  case (2 a b i "is" c)
  then show ?case by (cases "step_boot i (c\<lparr>b_rip := b\<rparr>)") simp_all
qed simp

lemma place_append: "place A k (xs @ ys) = place A k xs @ place A (k + length xs) ys"
  by (induction xs arbitrary: k) simp_all

lemma unat_phys: "p < 2 ^ 32 \<Longrightarrow> unat (word_of_nat p :: u64) = p" "p < 2 ^ 32 \<Longrightarrow> take_bit 32 (word_of_nat p :: u64) = word_of_nat p"
proof -
  assume p: "p < 2 ^ 32"
  then show u: "unat (word_of_nat p :: u64) = p" by (simp add: unat_of_nat)
  show "take_bit 32 (word_of_nat p :: u64) = word_of_nat p"
    using p by (subst word_unat_eq_iff) (simp add: u unsigned_take_bit_eq take_bit_nat_eq_self_iff)
qed

lemma phys_or_1:
  assumes "even p"
  shows "word_of_nat p OR (1 :: u64) = word_of_nat (p + 1)"
proof -
  obtain q where q: "p = 2 * q" using assms by blast
  have "\<not> bit (word_of_nat p :: u64) 0" by (simp add: q bit_0)
  then have "word_of_nat p AND (1 :: u64) = 0" by (intro bit_word_eqI) (auto simp: bit_simps bit_0)
  then have "(word_of_nat p :: u64) + 1 = word_of_nat p OR 1" by (rule disjunctive_add_eq_or)
  then show ?thesis by (simp add: add.commute)
qed

lemma load32_store32: "v < 2 ^ 32 \<Longrightarrow> load32 (store32 m a v) a = v"
  using mem_read_write_same [of m a "nat_le 4 v"] by (simp add: load32_def store32_def le_nat_nat_le)

lemma store32_outside: "x < a \<or> a + 4 \<le> x \<Longrightarrow> store32 m a v x = m x"
  unfolding store32_def by (intro mem_write_outside) simp

lemma load32_store32_other: "separate a 4 b 4 \<Longrightarrow> load32 (store32 m a v) b = load32 m b"
  unfolding load32_def separate_def using mem_read_cong [of b 4 "store32 m a v" m] store32_outside [of _ a m v] by auto

lemma load64_store32_other: "separate a 4 b 8 \<Longrightarrow> load64 (store32 m a v) b = load64 m b"
  unfolding separate_def by (intro load64_cong store32_outside) auto

lemma mem_read_store32_other: "separate a 4 b n \<Longrightarrow> mem_read (store32 m a v) b n = mem_read m b n"
  unfolding separate_def by (intro mem_read_cong store32_outside) auto

lemma load64_store32:
  assumes "load64 m a = 0" and "v < 2 ^ 32"
  shows "load64 (store32 m a v) a = word_of_nat v"
proof -
  have split: "mem_read m a 8 = mem_read m a 4 @ mem_read m (a + 4) 4" for m a using mem_read_add [of m a 4 4] by simp
  have "le_nat (mem_read m a 8) < 2 ^ 64" using le_nat_less [of "mem_read m a 8"] by simp
  then have "le_nat (mem_read m a 8) = 0"
    using assms(1) unat_of_nat [of "le_nat (mem_read m a 8)", where 'a = 64] by (simp add: load64_def)
  then have z: "le_nat (mem_read m (a + 4) 4) = 0" by (simp add: split le_nat_append)
  have "mem_read (store32 m a v) (a + 4) 4 = mem_read m (a + 4) 4" by (rule mem_read_store32_other) (simp add: separate_def)
  moreover have "le_nat (mem_read (store32 m a v) a 4) = v" using load32_store32 [OF assms(2)] by (simp add: load32_def)
  ultimately show ?thesis by (simp add: load64_def split le_nat_append z)
qed

text \<open>The tables are in place: both entries of the PML4 lead to the page directory.\<close>

definition tables_up :: "symbols \<Rightarrow> memory \<Rightarrow> bool" where
  "tables_up S m \<longleftrightarrow> (\<forall>i\<in>{0, 256}. entry m (sym_pml4 S - KERNEL_BASE) i = word_of_nat (sym_pdpt S - KERNEL_BASE) OR PTE_V)
     \<and> (\<exists>es. BOOT_PDPT = Val es \<and> (\<forall>i<512. entry m (sym_pdpt S - KERNEL_BASE) i = es ! i))"

lemma image_dvd: "in_image v n \<Longrightarrow> 4096 dvd v \<Longrightarrow> 4096 dvd v - KERNEL_BASE"
  by (rule dvd_diff_nat) (simp_all add: KERNEL_BASE_def)

lemma image_separate: "in_image v n \<Longrightarrow> in_image w k \<Longrightarrow> separate v n w k \<Longrightarrow> separate (v - KERNEL_BASE) n (w - KERNEL_BASE) k"
  by (auto simp: separate_def in_image_def)

lemma linked_tables:
  assumes "linked S"
  shows "4096 dvd pml4_at S" "4096 dvd pdpt_at S" "even (pdpt_at S)" "pml4_at S + 4096 \<le> 2 ^ 31" "pdpt_at S + 4096 \<le> 2 ^ 31"
    "separate (pml4_at S) 4096 (pdpt_at S) 4096"
proof -
  have i: "in_image (sym_pml4 S) 4096" "in_image (sym_pdpt S) 4096" "4096 dvd sym_pml4 S" "4096 dvd sym_pdpt S"
    "separate (sym_pml4 S) 4096 (sym_pdpt S) 4096" using assms unfolding linked_def by blast+
  show d: "4096 dvd pml4_at S" "4096 dvd pdpt_at S" using image_dvd i by blast+
  show "even (pdpt_at S)" using dvd_trans [OF _ d(2), of 2] by simp
  show "pml4_at S + 4096 \<le> 2 ^ 31" "pdpt_at S + 4096 \<le> 2 ^ 31" using i(1,2) unfolding in_image_def by blast+
  show "separate (pml4_at S) 4096 (pdpt_at S) 4096" by (rule image_separate [OF i(1,2,5)])
qed

lemma linked_stack:
  assumes "linked S"
  shows "sym_stack S = stack_at S + KERNEL_BASE" "stack_at S + KERNEL_STACK_SIZE \<le> 2 ^ 31"
    "separate (stack_at S) KERNEL_STACK_SIZE (pml4_at S) 4096" "separate (stack_at S) KERNEL_STACK_SIZE (pdpt_at S) 4096"
    "separate (stack_at S) KERNEL_STACK_SIZE (gdtr_at S) 10" "separate (stack_at S) KERNEL_STACK_SIZE (gdt_at S) 24"
proof -
  have i: "in_image (sym_stack S) KERNEL_STACK_SIZE" using assms unfolding linked_def by blast
  then show "sym_stack S = stack_at S + KERNEL_BASE" "stack_at S + KERNEL_STACK_SIZE \<le> 2 ^ 31" unfolding in_image_def by linarith+
  show "separate (stack_at S) KERNEL_STACK_SIZE (pml4_at S) 4096" "separate (stack_at S) KERNEL_STACK_SIZE (pdpt_at S) 4096"
    "separate (stack_at S) KERNEL_STACK_SIZE (gdtr_at S) 10" "separate (stack_at S) KERNEL_STACK_SIZE (gdt_at S) 24"
    using assms by (auto simp: linked_def intro!: image_separate [OF i])
qed

lemma linked_gdt:
  assumes "linked S"
  shows "sym_gdt S = gdt_at S + KERNEL_BASE" "gdt_at S + 24 \<le> 2 ^ 31" "gdtr_at S + 10 \<le> 2 ^ 31"
    "separate (pml4_at S) 4096 (gdtr_at S) 10" "separate (pml4_at S) 4096 (gdt_at S) 24"
proof -
  have i: "in_image (sym_gdt S) 24" "in_image (sym_gdtr S) 10" "in_image (sym_pml4 S) 4096" using assms unfolding linked_def by blast+
  then show "sym_gdt S = gdt_at S + KERNEL_BASE" "gdt_at S + 24 \<le> 2 ^ 31" "gdtr_at S + 10 \<le> 2 ^ 31" unfolding in_image_def by linarith+
  show "separate (pml4_at S) 4096 (gdtr_at S) 10" "separate (pml4_at S) 4096 (gdt_at S) 24"
    using assms by (auto simp: linked_def intro!: image_separate [OF i(3)] i)
qed

lemma tables_up_mmu:
  assumes L: "linked S" and T: "tables_up S m" and i: "pml4_index va \<in> {0, 256}" "pdpt_index va < 4"
  shows "mmu m (pml4_at S) va = Some (pdpt_index va * 2 ^ 30 + va mod 2 ^ 30, False, False)"
proof -
  have b: "pdpt_at S < 2 ^ 52" using linked_tables(5) [OF L] by simp
  obtain es where es: "BOOT_PDPT = Val es" "\<And>i. i < 512 \<Longrightarrow> entry m (pdpt_at S) i = es ! i"
    using T by (auto simp: tables_up_def)
  have e: "entry m (pml4_at S) (pml4_index va) = word_of_nat (pdpt_at S) OR PTE_V" using T i(1) unfolding tables_up_def by blast
  show ?thesis by (rule giga_walk [OF linked_tables(2) [OF L] b e es i(2)])
qed

lemma tables_up_translate:
  assumes L: "linked S" and T: "tables_up S m" and c: "bit (crs CR0) 31" "crs CR3 = word_of_nat (pml4_at S)" and p: "p < DIRECT_MAP_END"
  shows "translate crs m wr p = (if wr \<and> bit (crs CR0) 16 then None else Some p)"
    and "translate crs m wr (paddr2vaddr p) = (if wr \<and> bit (crs CR0) 16 then None else Some p)"
proof -
  have b: "pml4_at S < 2 ^ 52" using linked_tables(4) [OF L] by simp
  have r: "pte_paddr (crs CR3) = pml4_at S" using pte_paddr_or [OF linked_tables(1) [OF L] b, of 0] c(2) by simp
  have i: "p div 2 ^ 30 < 4" "p < 2 ^ 32" using p by (simp_all add: direct_map_bound)
  then have low: "pml4_index p = 0" "pdpt_index p = p div 2 ^ 30" by (simp_all add: index_div)
  have "mmu m (pml4_at S) p = Some (p, False, False)"
    using tables_up_mmu [OF L T, of p] low i(1) div_mult_mod_eq [of p "2 ^ 30"] by simp
  then show "translate crs m wr p = (if wr \<and> bit (crs CR0) 16 then None else Some p)" using c(1) r by (simp add: translate_def)
  have "mmu m (pml4_at S) (paddr2vaddr p) = Some (p, False, False)"
    using tables_up_mmu [OF L T, of "paddr2vaddr p"] kernel_indices [OF p] i(1) div_mult_mod_eq [of p "2 ^ 30"] by simp
  then show "translate crs m wr (paddr2vaddr p) = (if wr \<and> bit (crs CR0) 16 then None else Some p)" using c(1) r by (simp add: translate_def)
qed

lemma tables_up_store:
  assumes "tables_up S m" and "separate a 4 (sym_pml4 S - KERNEL_BASE) 4096" and "separate a 4 (sym_pdpt S - KERNEL_BASE) 4096"
  shows "tables_up S (store32 m a v)"
proof -
  have "entry (store32 m a v) t i = entry m t i" if "separate a 4 t 4096" "i < 512" for t i
    unfolding entry_def using that by (intro load64_store32_other) (auto simp: separate_def)
  then show ?thesis using assms by (simp add: tables_up_def)
qed

lemma boot_tables_up:
  assumes L: "linked S" and B: "boot_image S m"
  shows "tables_up S (store32 (store32 m (pml4_at S) (pdpt_at S + 1)) (pml4_at S + 2048) (pdpt_at S + 1))" (is "tables_up S ?m")
proof -
  note lt = linked_tables [OF L]
  have P: "pdpt_at S + 1 < 2 ^ 32" using lt(5) by simp
  have "entry m (pml4_at S) 0 = 0" "entry m (pml4_at S) 256 = 0" using B by (simp_all add: boot_image_def)
  then have z: "load64 m (pml4_at S) = 0" "load64 m (pml4_at S + 2048) = 0" by (simp_all add: entry_def)
  have e: "word_of_nat (pdpt_at S) OR PTE_V = (word_of_nat (pdpt_at S + 1) :: u64)" using phys_or_1 [OF lt(3)] by (simp add: PTE_V_def)
  have "entry ?m (pml4_at S) 0 = word_of_nat (pdpt_at S) OR PTE_V"
    unfolding e entry_def using load64_store32 [OF z(1) P] load64_store32_other [of "pml4_at S + 2048" "pml4_at S"] by (simp add: separate_def)
  moreover have "load64 (store32 m (pml4_at S) (pdpt_at S + 1)) (pml4_at S + 2048) = 0"
    using z(2) load64_store32_other [of "pml4_at S" "pml4_at S + 2048" m] by (simp add: separate_def)
  then have "entry ?m (pml4_at S) 256 = word_of_nat (pdpt_at S) OR PTE_V"
    unfolding e entry_def using load64_store32 [OF _ P] by simp
  moreover have "entry ?m (pdpt_at S) i = entry m (pdpt_at S) i" if "i < 512" for i
  proof -
    have "separate (pml4_at S) 4 (pdpt_at S + 8 * i) 8" "separate (pml4_at S + 2048) 4 (pdpt_at S + 8 * i) 8"
      using lt(6) that by (auto simp: separate_def)
    then show ?thesis unfolding entry_def by (simp add: load64_store32_other)
  qed
  ultimately show ?thesis using B by (simp add: tables_up_def boot_image_def)
qed

lemma boot_32_runs:
  assumes L: "linked S" and B: "boot_state S c"
  shows "\<exists>c1. run_boot (place (code_at S) 0 (x64_boot_32 S)) c = Val c1 \<and> b_rip c1 = code_at S (length (x64_boot_32 S)) \<and> \<not> b_long c1
    \<and> b_reg c1 RDI = take_bit 32 (b_reg c RAX) \<and> b_reg c1 RSI = take_bit 32 (b_reg c RBX)
    \<and> b_reg c1 RSP = word_of_nat (stack_at S + KERNEL_STACK_SIZE)
    \<and> \<not> bit (b_rflags c1) 9 \<and> \<not> bit (b_rflags c1) 10
    \<and> b_cr c1 CR3 = word_of_nat (pml4_at S) \<and> bit (b_cr c1 CR0) 31 \<and> bit (b_cr c1 CR0) 16 = bit (b_cr c CR0) 16 \<and> bit (b_efer c1) 10
    \<and> b_mem c1 = store32 (store32 (b_mem c) (pml4_at S) (pdpt_at S + 1)) (pml4_at S + 2048) (pdpt_at S + 1)"
proof -
  define pml4 pdpt tp where d: "pml4 = pml4_at S" "pdpt = pdpt_at S" "tp = sym_stack S + KERNEL_STACK_SIZE - KERNEL_BASE"
  have tp: "stack_at S + KERNEL_STACK_SIZE = tp" using linked_stack(1) [OF L] d(3) by simp
  have "pml4 < 2 ^ 32" "pdpt < 2 ^ 32" "tp < 2 ^ 32" "Suc pdpt < 2 ^ 32"
    using linked_tables(4,5) [OF L] linked_stack(2) [OF L] tp by (simp_all add: d(1,2))
  note u = unat_phys [OF this(1)] unat_phys [OF this(2)] unat_phys [OF this(3)] unat_phys [OF this(4)]
  have o: "word_of_nat pdpt OR (1 :: u64) = word_of_nat (Suc pdpt)" using phys_or_1 linked_tables(3) [OF L] by (simp add: d(2))
  show ?thesis using B unfolding boot_state_def x64_boot_32_def tp
    by (simp add: set_reg_def to_cr_def write32_def translate_def fetch_ok_def u o d [symmetric] MSR_IA32_EFER_def
      bit_or_iff bit_take_bit_iff bit_and_iff del: of_nat_add of_nat_Suc)
qed

section \<open>Into 64-bit code\<close>

lemma word_of_nat_minus4: "4 \<le> n \<Longrightarrow> (word_of_nat n :: u64) - 4 = word_of_nat (n - 4)"
  by (simp add: of_nat_diff)

lemma nat_le_add: "nat_le (a + b) v = nat_le a v @ nat_le b (v div 256 ^ a)"
  by (induction a arbitrary: v) (simp_all add: div_mult2_eq)

lemma boot_gdtr_fields:
  assumes L: "linked S" and g: "mem_read m (gdtr_at S) 10 = boot_gdtr (sym_gdt S)"
  shows "load32 m (gdtr_at S + 2) = gdt_at S" and "le_nat (mem_read m (gdtr_at S) 2) = 23"
proof -
  have s: "mem_read m a 10 = mem_read m a 2 @ mem_read m (a + 2) 4 @ mem_read m (a + 6) 4" for a
    using mem_read_add [of m a 2 8] mem_read_add [of m "a + 2" 4 4] by (simp add: add.commute)
  have e: "nat_le 8 v = nat_le 4 v @ nat_le 4 (v div 256 ^ 4)" for v using nat_le_add [of 4 4 v] by simp
  have h: "mem_read m (gdtr_at S) 2 = nat_le 2 23" "mem_read m (gdtr_at S + 2) 4 = nat_le 4 (sym_gdt S)"
    using g unfolding s boot_gdtr_def e by (simp_all add: boot_gdt_def)
  show "le_nat (mem_read m (gdtr_at S) 2) = 23" by (simp add: h(1) le_nat_nat_le)
  have "(x + KERNEL_BASE) mod 2 ^ 32 = x" if "x + 24 \<le> 2 ^ 31" for x using that by (simp add: KERNEL_BASE_def mod_add_eq [symmetric])
  from this [OF linked_gdt(2) [OF L]] have "sym_gdt S mod 2 ^ 32 = gdt_at S" unfolding linked_gdt(1) [OF L, symmetric] .
  then show "load32 m (gdtr_at S + 2) = gdt_at S" unfolding load32_def h(2) le_nat_nat_le by simp
qed

lemma code_bound: "linked S \<Longrightarrow> code_at S i < 2 ^ 32"
proof -
  assume "linked S"
  then have "in_image (sym_code S i) 1" unfolding linked_def by blast
  then show ?thesis unfolding in_image_def by simp
qed

lemma boot_switch_runs:
  assumes L: "linked S" and T: "tables_up S (b_mem c)" and c: "b_rip c = code_at S 21" "\<not> b_long c" "bit (b_cr c CR0) 31" "\<not> bit (b_cr c CR0) 16"
    "b_cr c CR3 = word_of_nat (pml4_at S)" "bit (b_efer c) 10" "b_reg c RSP = word_of_nat (stack_at S + KERNEL_STACK_SIZE)"
    and g: "mem_read (b_mem c) (gdtr_at S) 10 = boot_gdtr (sym_gdt S)" "load64 (b_mem c) (gdt_at S + 8) = boot_gdt ! 1"
  defines "tp \<equiv> stack_at S + KERNEL_STACK_SIZE"
  defines "m \<equiv> store32 (store32 (b_mem c) (tp - 4) 8) (tp - 8) (code_at S 26)"
  shows "\<exists>c2. run_boot (place (code_at S) 21 (x64_boot_switch S)) c = Val c2 \<and> b_rip c2 = code_at S 26 \<and> b_long c2 \<and> b_cs c2 = 8
    \<and> b_mem c2 = m \<and> tables_up S m \<and> b_cr c2 = b_cr c \<and> b_rflags c2 = b_rflags c \<and> b_reg c2 RDI = b_reg c RDI \<and> b_reg c2 RSI = b_reg c RSI"
proof -
  define m1 where m1: "m1 = store32 (b_mem c) (tp - 4) 8"
  have m: "m = store32 m1 (tp - 8) (code_at S 26)" by (simp add: m_def m1)
  have b: "8 \<le> tp" "tp < 2 ^ 32" "tp - 4 < 2 ^ 32" "tp - 8 < 2 ^ 32" "stack_at S \<le> tp - 8" "tp - 4 + 4 \<le> stack_at S + KERNEL_STACK_SIZE"
    using linked_stack(2) [OF L] by (simp_all add: tp_def KERNEL_STACK_SIZE_def)
  have sep: "separate a 4 x n" if "separate (stack_at S) KERNEL_STACK_SIZE x n" "a = tp - 4 \<or> a = tp - 8" for a x n
    using that b by (auto simp: separate_def)
  note st = linked_stack(3-6) [OF L]
  have T1: "tables_up S m1" unfolding m1 by (intro tables_up_store T sep st) simp_all
  have T2: "tables_up S m" unfolding m by (intro tables_up_store T1 sep st) simp_all
  have tr: "translate (b_cr c) x wr p = Some p" if "p < 2 ^ 32" "x \<in> {b_mem c, m1, m}" for p wr x
    using tables_up_translate(1) [OF L _ c(3,5), of x p wr] T T1 T2 that c(4) by (auto simp: direct_map_bound)
  have same: "mem_read m (gdtr_at S) 10 = mem_read (b_mem c) (gdtr_at S) 10" "load64 m (gdt_at S + 8) = load64 (b_mem c) (gdt_at S + 8)"
  proof -
    have "separate (tp - 4) 4 (gdtr_at S) 10" "separate (tp - 8) 4 (gdtr_at S) 10" by (rule sep [OF st(3)]; simp)+
    then show "mem_read m (gdtr_at S) 10 = mem_read (b_mem c) (gdtr_at S) 10" by (simp add: m m1 mem_read_store32_other)
    have "separate (tp - 4) 4 (gdt_at S) 24" "separate (tp - 8) 4 (gdt_at S) 24" by (rule sep [OF st(4)]; simp)+
    then have "separate (tp - 4) 4 (gdt_at S + 8) 8" "separate (tp - 8) 4 (gdt_at S + 8) 8" by (auto simp: separate_def)
    then show "load64 m (gdt_at S + 8) = load64 (b_mem c) (gdt_at S + 8)" by (simp add: m m1 load64_store32_other)
  qed
  have gd: "load32 m (gdtr_at S + 2) = gdt_at S" "le_nat (mem_read m (gdtr_at S) 2) = 23" "load64 m (gdt_at S + 8) = 0x00af9a000000ffff"
    using boot_gdtr_fields [OF L, of m] same g by (simp_all add: boot_gdt_def)
  have "load32 m1 (tp - 4) = 8" by (simp add: m1 load32_store32)
  moreover have "separate (tp - 8) 4 (tp - 4) 4" using b(1) by (simp add: separate_def)
  ultimately have frame: "load32 m (tp - 8) = code_at S 26" "load32 m (tp - 4) = 8"
    using code_bound [OF L, of 26] by (simp_all add: m load32_store32 load32_store32_other)
  have gs: "load32 m (Suc (Suc (gdtr_at S))) = gdt_at S" using gd(1) by simp
  have d: "desc_present 0x00af9a000000ffff" "desc_code 0x00af9a000000ffff" "desc_dpl 0x00af9a000000ffff = 0" "desc_long 0x00af9a000000ffff"
    by (simp_all add: desc_present_def desc_code_def desc_segment_def desc_dpl_def desc_long_def)
  have mems: "b_mem c \<in> {b_mem c, m1, m}" "m1 \<in> {b_mem c, m1, m}" "m \<in> {b_mem c, m1, m}" by simp_all
  have "(2 :: nat) ^ 31 < 2 ^ 32" by simp
  then have bounds: "gdtr_at S < 2 ^ 32" "gdt_at S + 8 < 2 ^ 32" using linked_gdt(2,3) [OF L] by linarith+
  note trs = tr [OF code_bound [OF L] mems(1)] tr [OF code_bound [OF L] mems(2)] tr [OF code_bound [OF L] mems(3)] tr [OF b(3) mems(1)] tr [OF b(4) mems(2)]
    tr [OF b(3) mems(3)] tr [OF b(4) mems(3)] tr [OF bounds(1) mems(3)] tr [OF bounds(2) mems(3)]
  have w: "(word_of_nat tp :: u64) - 4 = word_of_nat (tp - 4)" "(word_of_nat (tp - 4) :: u64) - 4 = word_of_nat (tp - 8)"
    using word_of_nat_minus4 [of tp] word_of_nat_minus4 [of "tp - 4"] b(1) by (simp_all add: diff_diff_add)
  have sp: "tp - 8 + 4 = tp - 4" using b(1) by simp
  show ?thesis unfolding x64_boot_switch_def
    using c T2 by (simp add: fetch_ok_def trs push32_def set_reg_def write32_def w unat_phys [OF b(3)] unat_phys [OF b(4)] tp_def [symmetric]
      m1 [symmetric] m [symmetric] read_at_def gd gs frame far_return_def d unat_phys [OF code_bound [OF L]] Let_def sp)
qed

lemma or_kernel_base:
  assumes "p < 2 ^ 32"
  shows "(word_of_nat p :: u64) OR word_of_nat KERNEL_BASE = word_of_nat (KERNEL_BASE + p)" and "unat (word_of_nat (KERNEL_BASE + p) :: u64) = KERNEL_BASE + p"
proof -
  have "p < 2 ^ 47" using assms by simp
  then show "(word_of_nat p :: u64) OR word_of_nat KERNEL_BASE = word_of_nat (KERNEL_BASE + p)"
    using paddr2vaddr_add [of p] by (simp add: paddr2vaddr_def of_nat_or_eq [symmetric])
  show "unat (word_of_nat (KERNEL_BASE + p) :: u64) = KERNEL_BASE + p"
    using assms by (simp add: unat_of_nat KERNEL_BASE_def del: of_nat_add)
qed

lemma boot_64_runs:
  assumes L: "linked S" and T: "tables_up S (b_mem c)" and c: "b_rip c = code_at S 26" "b_long c" "bit (b_cr c CR0) 31"
    "b_cr c CR3 = word_of_nat (pml4_at S)"
  shows "\<exists>c3. run_boot (place (code_at S) 26 (x64_boot_64 S)) c = Val c3 \<and> b_rip c3 = sym_main S \<and> b_long c3 \<and> b_cs c3 = b_cs c
    \<and> b_reg c3 RSP = word_of_nat (sym_stack S + KERNEL_STACK_SIZE) \<and> b_mem c3 = b_mem c \<and> b_cr c3 = b_cr c \<and> b_rflags c3 = b_rflags c
    \<and> b_reg c3 RDI = b_reg c RDI \<and> b_reg c3 RSI = b_reg c RSI \<and> (\<forall>s. b_seg c3 s = 0)"
proof -
  have f: "translate (b_cr c) (b_mem c) False (code_at S i) = Some (code_at S i)" for i
    using tables_up_translate(1) [OF L T c(3,4), of "code_at S i" False] code_bound [OF L, of i] by (simp add: direct_map_bound)
  define main tp where d: "main = sym_main S - KERNEL_BASE" "tp = sym_stack S + KERNEL_STACK_SIZE - KERNEL_BASE"
  have i: "in_image (sym_main S) 1" "in_image (sym_stack S) KERNEL_STACK_SIZE" using L unfolding linked_def by blast+
  then have e: "KERNEL_BASE + main = sym_main S" "KERNEL_BASE + tp = sym_stack S + KERNEL_STACK_SIZE" by (simp_all add: in_image_def d)
  have "main + 1 \<le> 2 ^ 31" "tp \<le> 2 ^ 31" using i unfolding in_image_def d by linarith+
  then have b: "main < 2 ^ 32" "tp < 2 ^ 32" by simp_all
  note o = or_kernel_base [OF b(1), unfolded e] or_kernel_base [OF b(2), unfolded e]
  have seg: "take_bit 16 (push_bit 16 (x :: u64)) = 0" for x by (rule bit_word_eqI) (auto simp: bit_simps)
  have all: "(\<forall>s. P s) \<longleftrightarrow> P DS \<and> P ES \<and> P FS \<and> P GS \<and> P SS" for P by (metis seg.exhaust)
  show ?thesis unfolding x64_boot_64_def
    using c by (simp add: fetch_ok_def f set_reg_def d [symmetric] o seg all del: of_nat_add)
qed

lemma boot_image_kept:
  fixes v :: nat
  assumes L: "linked S" and B: "boot_image S m"
  defines "m' \<equiv> store32 (store32 m (pml4_at S) v) (pml4_at S + 2048) v"
  shows "mem_read m' (gdtr_at S) 10 = boot_gdtr (sym_gdt S)" and "load64 m' (gdt_at S + 8) = boot_gdt ! 1"
proof -
  have "separate (pml4_at S) 4 (gdtr_at S) 10" "separate (pml4_at S + 2048) 4 (gdtr_at S) 10"
    "separate (pml4_at S) 4 (gdt_at S + 8) 8" "separate (pml4_at S + 2048) 4 (gdt_at S + 8) 8"
    using linked_gdt(4,5) [OF L] by (auto simp: separate_def)
  moreover have "load64 m (gdt_at S + 8 * 1) = boot_gdt ! 1" using B unfolding boot_image_def by (metis one_less_numeral_iff semiring_norm(77))
  ultimately show "mem_read m' (gdtr_at S) 10 = boot_gdtr (sym_gdt S)" "load64 m' (gdt_at S + 8) = boot_gdt ! 1"
    using B by (simp_all add: m'_def mem_read_store32_other load64_store32_other boot_image_def)
qed

lemma boot_upper_runs:
  assumes L: "linked S" and T: "tables_up S (b_mem c)" and c: "b_rip c = code_at S 21" "\<not> b_long c" "bit (b_cr c CR0) 31" "\<not> bit (b_cr c CR0) 16"
    "b_cr c CR3 = word_of_nat (pml4_at S)" "bit (b_efer c) 10" "b_reg c RSP = word_of_nat (stack_at S + KERNEL_STACK_SIZE)"
    and g: "mem_read (b_mem c) (gdtr_at S) 10 = boot_gdtr (sym_gdt S)" "load64 (b_mem c) (gdt_at S + 8) = boot_gdt ! 1"
  defines "tp \<equiv> stack_at S + KERNEL_STACK_SIZE"
  shows "\<exists>c3. run_boot (place (code_at S) 21 (x64_boot_switch S) @ place (code_at S) 26 (x64_boot_64 S)) c = Val c3
    \<and> b_rip c3 = sym_main S \<and> b_long c3 \<and> b_cs c3 = 8 \<and> b_reg c3 RSP = word_of_nat (sym_stack S + KERNEL_STACK_SIZE)
    \<and> b_mem c3 = store32 (store32 (b_mem c) (tp - 4) 8) (tp - 8) (code_at S 26) \<and> tables_up S (b_mem c3) \<and> b_cr c3 = b_cr c \<and> b_rflags c3 = b_rflags c
    \<and> b_reg c3 RDI = b_reg c RDI \<and> b_reg c3 RSI = b_reg c RSI \<and> (\<forall>s. b_seg c3 s = 0)"
proof -
  obtain c2 where c2: "run_boot (place (code_at S) 21 (x64_boot_switch S)) c = Val c2" "b_rip c2 = code_at S 26" "b_long c2" "b_cs c2 = 8"
    "b_mem c2 = store32 (store32 (b_mem c) (tp - 4) 8) (tp - 8) (code_at S 26)" "tables_up S (b_mem c2)" "b_cr c2 = b_cr c"
    "b_rflags c2 = b_rflags c" "b_reg c2 RDI = b_reg c RDI" "b_reg c2 RSI = b_reg c RSI"
    using boot_switch_runs [OF L T c g] unfolding tp_def by auto
  have "bit (b_cr c2 CR0) 31" "b_cr c2 CR3 = word_of_nat (pml4_at S)" using c(3,5) c2(7) by simp_all
  from boot_64_runs [OF L c2(6,2,3) this] show ?thesis using c2 by (auto simp: run_boot_append)
qed

lemma boot_write_protected:
  assumes L: "linked S" and T: "tables_up S (b_mem c)" and c: "b_rip c = code_at S 21" "\<not> b_long c" "bit (b_cr c CR0) 31" "bit (b_cr c CR0) 16"
    "b_cr c CR3 = word_of_nat (pml4_at S)" "b_reg c RSP = word_of_nat (stack_at S + KERNEL_STACK_SIZE)"
  shows "run_boot (place (code_at S) 21 (x64_boot_switch S)) c = Undef"
proof -
  define tp where tp: "tp = stack_at S + KERNEL_STACK_SIZE"
  have b: "4 \<le> tp" "tp - 4 < 2 ^ 32" using linked_stack(2) [OF L] by (simp_all add: tp KERNEL_STACK_SIZE_def)
  have f: "translate (b_cr c) (b_mem c) False (code_at S 21) = Some (code_at S 21)" "translate (b_cr c) (b_mem c) True (tp - 4) = None"
    using tables_up_translate(1) [OF L T c(3,5)] code_bound [OF L, of 21] b(2) c(4) by (simp_all add: direct_map_bound)
  show ?thesis unfolding x64_boot_switch_def
    using c by (simp add: fetch_ok_def f push32_def set_reg_def write32_def word_of_nat_minus4 [OF b(1)] unat_phys [OF b(2)] tp [symmetric] Let_def)
qed

lemma boot_stores_outside:
  assumes "x \<notin> {a..<a + 4096} \<union> {t - 8..<t}" and "8 \<le> t"
  shows "store32 (store32 (store32 (store32 m a v) (a + 2048) v) (t - 4) w) (t - 8) u x = m x"
proof -
  have "x < a \<or> a + 4 \<le> x" "x < a + 2048 \<or> a + 2048 + 4 \<le> x" "x < t - 4 \<or> t - 4 + 4 \<le> x" "x < t - 8 \<or> t - 8 + 4 \<le> x"
    using assms by auto
  then show ?thesis by (simp only: store32_outside)
qed

lemma stack_top_aligned:
  assumes "linked S"
  shows "unat (word_of_nat (sym_stack S + KERNEL_STACK_SIZE) :: u64) = sym_stack S + KERNEL_STACK_SIZE" "(sym_stack S + KERNEL_STACK_SIZE) mod 16 = 0"
proof -
  have "16 dvd sym_stack S" using assms by (simp add: linked_def)
  then show "(sym_stack S + KERNEL_STACK_SIZE) mod 16 = 0" by (simp add: KERNEL_STACK_SIZE_def mod_add_eq [symmetric] dvd_eq_mod_eq_0)
  have "sym_stack S + KERNEL_STACK_SIZE < 2 ^ 64" using linked_stack(1,2) [OF assms] unfolding KERNEL_BASE_def by simp
  then show "unat (word_of_nat (sym_stack S + KERNEL_STACK_SIZE) :: u64) = sym_stack S + KERNEL_STACK_SIZE" by (simp add: unat_of_nat del: of_nat_add)
qed

text \<open>
  C7. From the entry point to \<open>rust_boot\<close>. With write protection off in CR0, \<open>x64_boot\<close> runs without a fault:
  paging comes on under its feet, the far return finds the 64-bit code segment although the base of the descriptor table in \<open>boot_gdtr\<close>
  is a virtual address cut to 32 bits, and control arrives at the virtual address of \<open>rust_boot\<close> in 64-bit mode, with interrupts off, null data
  segments, the magic number and the boot information as the two arguments, and the top of the boot stack in RSP. The processor
  then translates both \<open>p\<close> and \<open>paddr2vaddr p\<close> to \<open>p\<close> for the first 4 GiB, and memory has changed only in the
  PML4 and in the top eight bytes of the stack. RSP is a multiple of 16 at the entry of \<open>rust_boot\<close>, where the
  calling convention has it 8 off. If the boot loader leaves write protection on, the first push
  after paging is on faults, because the entries of the PML4 lack the write bit.
\<close>

theorem x64_boot_contract:
  assumes "linked S" and "boot_state S c"
  shows "if bit (b_cr c CR0) 16 then run_boot (x64_boot S) c = Undef else
    (\<exists>c'. run_boot (x64_boot S) c = Val c' \<and> b_rip c' = sym_main S \<and> b_long c' \<and> b_cs c' = unat GDT_KERNEL_CS \<and> (\<forall>s. b_seg c' s = 0)
      \<and> b_reg c' RDI = take_bit 32 (b_reg c RAX) \<and> b_reg c' RSI = take_bit 32 (b_reg c RBX)
      \<and> unat (b_reg c' RSP) = sym_stack S + KERNEL_STACK_SIZE \<and> unat (b_reg c' RSP) mod 16 = 0
      \<and> \<not> bit (b_rflags c') 9 \<and> \<not> bit (b_rflags c') 10
      \<and> (\<forall>p wr. p < DIRECT_MAP_END \<longrightarrow> translate (b_cr c') (b_mem c') wr p = Some p \<and> translate (b_cr c') (b_mem c') wr (paddr2vaddr p) = Some p)
      \<and> (\<forall>x. x \<notin> {pml4_at S..<pml4_at S + 4096} \<union> {stack_at S + KERNEL_STACK_SIZE - 8..<stack_at S + KERNEL_STACK_SIZE} \<longrightarrow> b_mem c' x = b_mem c x))"
proof -
  note L = assms(1) and B = assms(2)
  have len: "length (x64_boot_32 S) = 21" "length (x64_boot_switch S) = 5" by (simp_all add: x64_boot_32_def x64_boot_switch_def)
  have code: "x64_boot S = place (code_at S) 0 (x64_boot_32 S) @ place (code_at S) 21 (x64_boot_switch S) @ place (code_at S) 26 (x64_boot_64 S)"
    by (simp add: x64_boot_def place_append len)
  obtain c1 where c1: "run_boot (place (code_at S) 0 (x64_boot_32 S)) c = Val c1" "b_rip c1 = code_at S 21" "\<not> b_long c1"
    "b_reg c1 RDI = take_bit 32 (b_reg c RAX)" "b_reg c1 RSI = take_bit 32 (b_reg c RBX)"
    "b_reg c1 RSP = word_of_nat (stack_at S + KERNEL_STACK_SIZE)" "\<not> bit (b_rflags c1) 9" "\<not> bit (b_rflags c1) 10"
    "b_cr c1 CR3 = word_of_nat (pml4_at S)" "bit (b_cr c1 CR0) 31" "bit (b_cr c1 CR0) 16 = bit (b_cr c CR0) 16" "bit (b_efer c1) 10"
    "b_mem c1 = store32 (store32 (b_mem c) (pml4_at S) (pdpt_at S + 1)) (pml4_at S + 2048) (pdpt_at S + 1)"
    using boot_32_runs [OF L B] unfolding len by blast
  have T: "tables_up S (b_mem c1)" unfolding c1(13) using boot_tables_up [OF L] B by (simp add: boot_state_def)
  show ?thesis
  proof (cases "bit (b_cr c CR0) 16")
    case True
    then show ?thesis using boot_write_protected [OF L T c1(2,3,10) _ c1(9,6)] c1(1,11) by (simp add: code run_boot_append)
  next
    case False
    then have "\<not> bit (b_cr c1 CR0) 16" using c1(11) by simp
    moreover have "mem_read (b_mem c1) (gdtr_at S) 10 = boot_gdtr (sym_gdt S)" "load64 (b_mem c1) (gdt_at S + 8) = boot_gdt ! 1"
      unfolding c1(13) using boot_image_kept [OF L] B by (simp_all add: boot_state_def)
    ultimately obtain c3 where c3: "run_boot (place (code_at S) 21 (x64_boot_switch S) @ place (code_at S) 26 (x64_boot_64 S)) c1 = Val c3"
      "b_rip c3 = sym_main S" "b_long c3" "b_cs c3 = 8" "b_reg c3 RSP = word_of_nat (sym_stack S + KERNEL_STACK_SIZE)"
      "b_mem c3 = store32 (store32 (b_mem c1) (stack_at S + KERNEL_STACK_SIZE - 4) 8) (stack_at S + KERNEL_STACK_SIZE - 8) (code_at S 26)"
      "tables_up S (b_mem c3)" "b_cr c3 = b_cr c1" "b_rflags c3 = b_rflags c1" "b_reg c3 RDI = b_reg c1 RDI" "b_reg c3 RSI = b_reg c1 RSI" "\<forall>s. b_seg c3 s = 0"
      using boot_upper_runs [OF L T c1(2,3,10) _ c1(9,12,6)] by blast
    have tr: "translate (b_cr c3) (b_mem c3) wr p = Some p \<and> translate (b_cr c3) (b_mem c3) wr (paddr2vaddr p) = Some p" if "p < DIRECT_MAP_END" for p wr
      using tables_up_translate [OF L c3(7) _ _ that, of "b_cr c3" wr] c1(9,10,11) c3(8) False by simp
    have mem: "b_mem c3 x = b_mem c x" if "x \<notin> {pml4_at S..<pml4_at S + 4096} \<union> {stack_at S + KERNEL_STACK_SIZE - 8..<stack_at S + KERNEL_STACK_SIZE}" for x
      unfolding c3(6) c1(13) by (rule boot_stores_outside [OF that]) (simp add: KERNEL_STACK_SIZE_def)
    show ?thesis using c1(1,4,5,7,8) c3 tr mem stack_top_aligned [OF L] False by (simp add: code run_boot_append GDT_KERNEL_CS_def)
  qed
qed

definition example_symbols :: symbols where
  "example_symbols = \<lparr>sym_pml4 = KERNEL_BASE + 0x3000, sym_pdpt = KERNEL_BASE + 0x1000, sym_stack = KERNEL_BASE + 0x100000,
     sym_gdtr = KERNEL_BASE + 0x4000, sym_gdt = KERNEL_BASE + 0x4010, sym_main = KERNEL_BASE + 0x6000,
     sym_code = (\<lambda>i. KERNEL_BASE + 0x5000 + min i 100)\<rparr>"

definition example_image_memory :: memory where
  "example_image_memory = mem_write (store64 (store64 (store64 example_boot_tables 0x4010 (boot_gdt ! 0)) 0x4018 (boot_gdt ! 1)) 0x4020 (boot_gdt ! 2))
     0x4000 (boot_gdtr (KERNEL_BASE + 0x4010))"

lemma example_linked: "linked example_symbols"
  by (simp add: linked_def example_symbols_def in_image_def separate_def KERNEL_STACK_SIZE_def KERNEL_BASE_def min_def)

lemma example_boot_image: "boot_image example_symbols example_image_memory"
proof -
  define m where "m = store64 (store64 (store64 example_boot_tables 0x4010 (boot_gdt ! 0)) 0x4018 (boot_gdt ! 1)) 0x4020 (boot_gdt ! 2)"
  have len: "length (boot_gdtr (KERNEL_BASE + 0x4010)) = 10" by (simp add: boot_gdtr_def)
  have out: "load64 example_image_memory a = load64 m a" if "a + 8 \<le> 0x4000 \<or> 0x400a \<le> a" for a
    unfolding example_image_memory_def m_def [symmetric] by (rule load64_cong, rule mem_write_outside) (use that len in auto)
  have tab: "load64 m a = load64 example_boot_tables a" if "a + 8 \<le> 0x4000" for a
    unfolding m_def using that by (simp add: load64_store64_other)
  have "load64 m 0x4010 = boot_gdt ! 0" "load64 m 0x4018 = boot_gdt ! 1" "load64 m 0x4020 = boot_gdt ! 2"
    unfolding m_def by (simp_all add: load64_store64_other)
  moreover have "(\<forall>i<3. P i) \<longleftrightarrow> P 0 \<and> P 1 \<and> P 2" for P :: "nat \<Rightarrow> bool" by (auto simp: less_Suc_eq numeral_3_eq_3 numeral_2_eq_2)
  ultimately have gdt: "\<forall>i<3. load64 example_image_memory (0x4010 + 8 * i) = boot_gdt ! i" by (simp add: out)
  have pdpt: "entry example_image_memory 0x1000 i = entry example_boot_tables 0x1000 i" if "i < 512" for i
    using that unfolding entry_def by (simp add: out tab)
  have pml4: "entry example_image_memory 0x3000 i = 0" if "i < 512" for i
  proof -
    have "load64 example_boot_tables (0x3000 + 8 * i) = 0"
      unfolding example_boot_tables_def using that by (simp add: load64_store64_other load64_zero)
    then show ?thesis using that by (simp add: entry_def out tab)
  qed
  have "mem_read example_image_memory 0x4000 10 = boot_gdtr (KERNEL_BASE + 0x4010)"
    unfolding example_image_memory_def using mem_read_write_same [of _ "0x4000" "boot_gdtr (KERNEL_BASE + 0x4010)"] len by simp
  moreover have "BOOT_PDPT = Val (map giga_entry [0..<4] @ replicate 508 0)" unfolding giga_entry_def [abs_def] by (rule boot_pdpt_eq)
  ultimately show ?thesis unfolding boot_image_def using gdt pml4 pdpt example_boot_entry
    by (auto simp: example_symbols_def intro!: exI [of _ "map giga_entry [0..<4] @ replicate 508 0"])
qed

definition example_cpu :: boot_cpu where
  "example_cpu = \<lparr>b_reg = (\<lambda>_. 0)(RAX := 0x36d76289, RBX := 0x9000), b_rip = 0x5000, b_cs = 0x10, b_rflags = 2, b_seg = (\<lambda>_. 0x18),
     b_cr = (\<lambda>_. 0)(CR0 := 1), b_efer = 0, b_gdtr = (0, 0), b_long = False, b_mem = example_image_memory\<rparr>"

theorem x64_boot_contract_witness:
  "\<exists>c'. run_boot (x64_boot example_symbols) example_cpu = Val c' \<and> b_rip c' = KERNEL_BASE + 0x6000 \<and> b_long c'
    \<and> b_reg c' RDI = 0x36d76289 \<and> b_reg c' RSI = 0x9000 \<and> unat (b_reg c' RSP) = KERNEL_BASE + 0x200000 \<and> translate (b_cr c') (b_mem c') True (paddr2vaddr 0xb8000) = Some 0xb8000"
proof -
  have s: "boot_state example_symbols example_cpu" using example_boot_image by (simp add: boot_state_def example_cpu_def) (simp add: example_symbols_def)
  have p: "0xb8000 < DIRECT_MAP_END" by (simp add: direct_map_bound)
  have c: "\<not> bit (b_cr example_cpu CR0) 16" "b_reg example_cpu RAX = 0x36d76289" "b_reg example_cpu RBX = 0x9000"
    "sym_main example_symbols = KERNEL_BASE + 0x6000" "sym_stack example_symbols + KERNEL_STACK_SIZE = KERNEL_BASE + 0x200000"
    by (simp_all add: example_cpu_def example_symbols_def KERNEL_STACK_SIZE_def)
  obtain c' where "run_boot (x64_boot example_symbols) example_cpu = Val c'" "b_rip c' = KERNEL_BASE + 0x6000" "b_long c'"
    "b_reg c' RDI = 0x36d76289" "b_reg c' RSI = 0x9000" "unat (b_reg c' RSP) = KERNEL_BASE + 0x200000" "translate (b_cr c') (b_mem c') True (paddr2vaddr 0xb8000) = Some 0xb8000"
    using x64_boot_contract [OF example_linked s] c p by auto
  then show ?thesis by blast
qed

end
