(* ===== verification/Boot.thy ===== *)
theory Boot
  imports EarlyBoot Protection Loader Initfs BootParse MpTable Utf8
begin

text \<open>
  From \<open>rust_boot\<close> to the first user thread: \<open>rust_boot\<close> of \<open>kernel/src/arch/x64/boot.rs\<close>, \<open>boot\<close> of
  \<open>kernel/src/boot.rs\<close>, and the servers of \<open>kernel/src/server.rs\<close>, which are loaded from the initial file
  system and run until their entry function returns. What a server does there is the argument \<open>run\<close>, a
  function of its entry point on the kernel and the servers' own state. The outer \<open>option\<close> is for loops that may not end
  (the serial port, the Multiboot tags). Log messages are left out.
\<close>

section \<open>Servers\<close>

record Server =
  sv_image :: VAddr

type_synonym 's run = "VAddr \<Rightarrow> kernel \<times> 's \<Rightarrow> (kernel \<times> 's) exec"

definition server_load :: "'s run \<Rightarrow> usize \<Rightarrow> u8 list \<Rightarrow> kernel \<times> 's \<Rightarrow> ((LoadError + Server) \<times> kernel \<times> 's) exec" where
  "server_load run addr elf_file = (\<lambda>(K, \<sigma>).
     exec_bind (load_elf addr elf_file (k_phys K)) (\<lambda>(r, ph). let K = K\<lparr>k_phys := ph\<rparr> in case r of
       Inl e \<Rightarrow> Val (Inl e, K, \<sigma>)
     | Inr L \<Rightarrow> exec_bind (run (le_entry_fn L) (K, \<sigma>)) (\<lambda>(K, \<sigma>). Val (Inr \<lparr>sv_image = le_image L\<rparr>, K, \<sigma>))))"

definition starts_with :: "'a list \<Rightarrow> 'a list \<Rightarrow> bool" where
  "starts_with p xs \<longleftrightarrow> take (length p) xs = p"

definition ends_with :: "'a list \<Rightarrow> 'a list \<Rightarrow> bool" where
  "ends_with p xs \<longleftrightarrow> length p \<le> length xs \<and> drop (length xs - length p) xs = p"

text \<open>\<open>servers/\<close> and \<open>.elf\<close>.\<close>

definition is_server :: "File \<Rightarrow> bool" where
  "is_server f \<longleftrightarrow> starts_with [0x73, 0x65, 0x72, 0x76, 0x65, 0x72, 0x73, 0x2f] (file_name f)
     \<and> ends_with [0x2e, 0x65, 0x6c, 0x66] (file_name f)"

text \<open>The body of the loop over the files; \<open>Vec::push\<close> does not return when the vector cannot grow.\<close>

definition start_server :: "'s run \<Rightarrow> env \<Rightarrow> usize \<Rightarrow> File \<Rightarrow> Server list \<times> kernel \<times> 's \<Rightarrow> (Server list \<times> kernel \<times> 's) exec" where
  "start_server run E addr f = (\<lambda>(servers, K, \<sigma>).
     if is_server f
     then if \<not> utf8_valid (file_name f) then Panic
       else exec_bind (server_load run addr (file_data f) (K, \<sigma>)) (\<lambda>(r, K, \<sigma>). case r of
           Inl e \<Rightarrow> Val (servers, K, \<sigma>)
         | Inr s \<Rightarrow> exec_bind (en_reserve E K) (\<lambda>reserved. if reserved then Val (servers @ [s], K, \<sigma>) else Panic))
     else Val (servers, K, \<sigma>))"

text \<open>
  The data of the file that \<open>next\<close> has just returned lies right before the offset it has moved to, up to
  padding to a multiple of four.
\<close>

definition data_addr :: "VAddr \<Rightarrow> InitFsLoader \<Rightarrow> File \<Rightarrow> usize" where
  "data_addr base L f = base + (fs_offset L - round_up (length (file_data f)) 4)"

function start_files :: "(usize \<Rightarrow> File \<Rightarrow> 'a \<Rightarrow> 'a exec) \<Rightarrow> VAddr \<Rightarrow> InitFsLoader \<Rightarrow> 'a \<Rightarrow> 'a exec" where
  "start_files go base L st = (case initfs_next L of Panic \<Rightarrow> Panic | Undef \<Rightarrow> Undef
     | Val (None, _) \<Rightarrow> Val st
     | Val (Some f, L') \<Rightarrow> exec_bind (go (data_addr base L' f) f st) (\<lambda>st. start_files go base L' st))"
  by pat_completeness auto

termination
proof (relation "measure (\<lambda>(go, base, L, st). length (fs_file L) + 4 - fs_offset L)", goal_cases)
  case 1
  show ?case by simp
next
  case (2 go base L st x r L' f st')
  then have "initfs_next L = Val (Some f, L')" by simp
  from initfs_next_Some(1-3) [OF this] show ?case by (simp add: CPIO_HEADER_SIZE_def)
qed

declare start_files.simps [simp del]

definition server_init :: "'s run \<Rightarrow> env \<Rightarrow> BootInfo \<Rightarrow> Server list \<times> kernel \<times> 's \<Rightarrow> (Server list \<times> kernel \<times> 's) exec" where
  "server_init run E bootinfo st =
     exec_bind (av_as_slice (bi_modules bootinfo)) (\<lambda>modules.
       exec_fold (\<lambda>md (servers, K, \<sigma>). start_files (start_server run E) (paddr2vaddr (mod_start md)) (initfs_new (k_phys K) md) (servers, K, \<sigma>)) modules st)"

section \<open>The boot sequence\<close>

text \<open>Addresses of statics and of code, and the range of the kernel image.\<close>

record statics =
  st_bsp_stack :: usize
  st_tss :: u64
  st_gdt :: u64
  st_idt :: u64
  st_idt_handlers :: usize
  st_syscall_handler :: u64
  st_cpu_vars :: "usize \<Rightarrow> nat"
  st_kernel_range :: "PAddr \<times> PAddr"

record system =
  sy_kernel :: kernel
  sy_tables :: tables
  sy_control :: control
  sy_vars :: cpu_vars
  sy_ioapic :: "IoApic option"
  sy_servers :: "Server list"

definition boot :: "'s run \<Rightarrow> env \<Rightarrow> statics \<Rightarrow> BootInfo \<Rightarrow> system \<times> 's \<Rightarrow> (system \<times> 's) exec" where
  "boot run E st bootinfo = (\<lambda>(s, \<sigma>).
     let K = sy_kernel s in
     exec_bind (memory_init (st_kernel_range st) bootinfo (k_phys K)) (\<lambda>ph.
     exec_bind (cpuvar_init (st_cpu_vars st) (st_bsp_stack st) 0 (sy_vars s, k_machine K)) (\<lambda>(vars, M).
     exec_bind (get_cpuvar vars) (\<lambda>v.
     let K = K\<lparr>k_phys := ph, k_machine := M, k_lapic := cv_local_apic v, k_current := cv_current_thread v\<rparr> in
     exec_bind (server_init run E bootinfo (sy_servers s, K, \<sigma>)) (\<lambda>(servers, K, \<sigma>).
     exec_bind (return_to_user (en_off E ThreadT) (en_reserve E K) K) (\<lambda>K.
       Val (s\<lparr>sy_kernel := K, sy_vars := vars, sy_servers := servers\<rparr>, \<sigma>)))))))"

definition MULTIBOOT_MAGIC :: u32 where "MULTIBOOT_MAGIC = 0x36d76289"

definition rust_boot :: "'s run \<Rightarrow> env \<Rightarrow> statics \<Rightarrow> u32 \<Rightarrow> u32 \<Rightarrow> system \<times> 's \<Rightarrow> (system \<times> 's) exec option" where
  "rust_boot run E st multiboot_magic start_info = (\<lambda>(s, \<sigma>).
     let K = sy_kernel s; m = ph_mem (k_phys K) in
     case console_write [0x1b, 0x5b, 0x3f, 0x37, 0x68, 0x0a] (console_init (k_machine K)) of None \<Rightarrow> None
     | Some M \<Rightarrow>
       let c = enable_sse (enable_fsgsbase (sy_control s)) in
       run_bind (Some (exec_bind (gdt_init (st_bsp_stack st) (st_tss st) (st_gdt st) 0 (sy_tables s)) (idt_init (st_idt_handlers st) (st_idt st)))) (\<lambda>t.
       run_bind (Some (mp_init m (sy_ioapic s) (syscall_init (st_syscall_handler st) (pic_init M)))) (\<lambda>(ioapic, M).
       let s = s\<lparr>sy_kernel := K\<lparr>k_machine := timer_init M\<rparr>, sy_tables := t, sy_control := c, sy_ioapic := ioapic\<rparr> in
       run_bind (if multiboot_magic = MULTIBOOT_MAGIC then parse_multiboot2_info m (unat start_info)
           else Some (parse_start_info m (unat start_info))) (\<lambda>bootinfo.
         Some (boot run E st bootinfo (s, \<sigma>))))))"

section \<open>Starting the servers\<close>

lemma initfs_next_data:
  assumes "initfs_next L = Val (Some f, L')"
  defines "a \<equiv> fs_offset L' - round_up (length (file_data f)) 4"
  shows "a + length (file_data f) \<le> length (fs_file L)" and "file_data f = take (length (file_data f)) (drop a (fs_file L))"
proof -
  obtain namesize data_offset where d: "data_offset = round_up (fs_offset L + CPIO_HEADER_SIZE + namesize) 4"
    "data_offset + length (file_data f) \<le> length (fs_file L)" "fs_offset L' = round_up (data_offset + length (file_data f)) 4"
    "file_data f = take (length (file_data f)) (drop data_offset (fs_file L))"
    by (rule initfs_next_parts [OF assms(1)])
  have "4 dvd data_offset" unfolding d(1) by (rule round_up_dvd)
  then have "a = data_offset" unfolding a_def d(3) by (subst round_up_add) simp_all
  then show "a + length (file_data f) \<le> length (fs_file L)" "file_data f = take (length (file_data f)) (drop a (fs_file L))" using d(2,4) by simp_all
qed

text \<open>The loop over the iterator is the loop over the files of the archive, each with the address of its data.\<close>

definition data_at :: "u8 list \<Rightarrow> nat \<Rightarrow> File \<Rightarrow> bool" where
  "data_at bytes a f \<longleftrightarrow> a + length (file_data f) \<le> length bytes \<and> file_data f = take (length (file_data f)) (drop a bytes)"

definition snoc_file :: "usize \<Rightarrow> File \<Rightarrow> (nat \<times> File) list \<Rightarrow> (nat \<times> File) list exec" where
  "snoc_file a f afs = Val (afs @ [(a, f)])"

definition located :: "InitFsLoader \<Rightarrow> (nat \<times> File) list exec" where
  "located L = start_files snoc_file 0 L []"

lemma snoc_start_files: "start_files snoc_file 0 L ys = exec_bind (located L) (\<lambda>afs. Val (ys @ afs))"
proof (induction L arbitrary: ys rule: files.induct)
  case (1 L)
  show ?case
  proof (cases "\<exists>f L'. initfs_next L = Val (Some f, L')")
    case True
    then obtain f L' where n: "initfs_next L = Val (Some f, L')" by blast
    note IH = "1.IH" [OF n refl refl]
    have "start_files snoc_file 0 L zs = exec_bind (located L') (\<lambda>afs. Val (zs @ (data_addr 0 L' f, f) # afs))" for zs
      using IH by (simp add: start_files.simps [of _ _ L] n snoc_file_def [of "data_addr 0 L' f"])
    then show ?thesis by (simp add: located_def [of L] exec_bind_assoc)
  next
    case False
    then have "start_files snoc_file 0 L zs = (case initfs_next L of Panic \<Rightarrow> Panic | Undef \<Rightarrow> Undef | Val _ \<Rightarrow> Val zs)" for zs
      by (auto simp: start_files.simps [of _ _ L] split: exec.splits option.splits)
    then show ?thesis by (simp add: located_def split: exec.splits)
  qed
qed

lemma located_simps:
  "initfs_next L = Val (None, L') \<Longrightarrow> located L = Val []"
  "initfs_next L = Val (Some f, L') \<Longrightarrow> located L = exec_bind (located L') (\<lambda>afs. Val ((data_addr 0 L' f, f) # afs))"
  by (simp_all add: located_def [of L] start_files.simps [of _ _ L] snoc_start_files snoc_file_def [of "data_addr 0 L' f"])

lemma start_files_located:
  assumes "files L = Val fs"
  shows "\<exists>afs. located L = Val afs \<and> map snd afs = fs \<and> (\<forall>(a, f)\<in>set afs. data_at (fs_file L) a f)
    \<and> start_files go base L st = exec_fold (\<lambda>(a, f). go (base + a) f) afs st"
  using assms
proof (induction L arbitrary: fs st rule: files.induct)
  case (1 L)
  show ?case
  proof (cases "\<exists>L'. initfs_next L = Val (None, L')")
    case True
    then have "fs = []" "start_files go base L st = Val st" "located L = Val []"
      using "1.prems" by (auto simp: files.simps [of L] start_files.simps [of _ _ L] located_simps(1))
    then show ?thesis by simp
  next
    case False
    then obtain f L' fs' where n: "initfs_next L = Val (Some f, L')" "files L' = Val fs'" "fs = f # fs'"
      using "1.prems" by (auto simp: files.simps [of L] exec_bind_Val_iff split: exec.splits option.splits)
    note IH = "1.IH" [OF n(1) refl refl n(2)]
    obtain afs where afs: "located L' = Val afs" "map snd afs = fs'" "\<forall>(a, f)\<in>set afs. data_at (fs_file L) a f"
      using IH [of st] initfs_next_Some(1) [OF n(1)] by auto
    have go: "start_files go base L' st' = exec_fold (\<lambda>(a, f). go (base + a) f) afs st'" for st' using IH [of st'] afs(1) by simp
    have "located L = Val ((data_addr 0 L' f, f) # afs)" using located_simps(2) [OF n(1)] afs(1) by simp
    moreover have "start_files go base L st = exec_fold (\<lambda>(a, f). go (base + a) f) ((data_addr 0 L' f, f) # afs) st"
      using n(1) by (simp add: start_files.simps [of _ _ L] go [abs_def] data_addr_def)
    moreover have "data_at (fs_file L) (data_addr 0 L' f) f" using initfs_next_data [OF n(1)] by (simp add: data_at_def data_addr_def)
    ultimately show ?thesis using afs(2,3) n(3) by auto
  qed
qed

text \<open>
  What holds while servers start: \<open>A\<close> are the pages that \<open>memory::init\<close> made available and \<open>m\<close> is the
  memory at that time. Everything outside of \<open>A\<close> (the kernel, the modules) stays as it was.
\<close>

definition system_inv :: "nat \<Rightarrow> nat set \<Rightarrow> memory \<Rightarrow> kernel \<Rightarrow> bool" where
  "system_inv off A m K \<longleftrightarrow> phys_wf (k_phys K) \<and> page_avail (k_phys K) \<subseteq> A \<and> (\<forall>x. x \<notin> A \<longrightarrow> ph_mem (k_phys K) x = m x)
     \<and> (\<exists>Rt Rs Ra. kernel_inv off K Rt Rs Ra)"

text \<open>
  A file is no server; or its name is readable, its data is aligned, and it is refused by the parser or
  loadable. (The archive aligns files only to four bytes.)
\<close>

definition file_ok :: "usize \<Rightarrow> File \<Rightarrow> bool" where
  "file_ok addr f \<longleftrightarrow> (is_server f \<longrightarrow> utf8_valid (file_name f)
     \<and> ((\<exists>e. elf_parse addr (file_data f) ET_DYN = Val (Inl e)) \<or> (\<exists>elf. elf_parse addr (file_data f) ET_DYN = Val (Inr elf) \<and> loadable (file_data f) elf)))"

definition module_ok :: "memory \<Rightarrow> Module \<Rightarrow> bool" where
  "module_ok m md \<longleftrightarrow> (\<exists>afs. located \<lparr>fs_file = mem_read m (mod_start md) (mod_end md - mod_start md), fs_offset = 0\<rparr> = Val afs
     \<and> (\<forall>(a, f)\<in>set afs. file_ok (paddr2vaddr (mod_start md) + a) f))"

text \<open>All files of all modules in their order, each with the address of its data.\<close>

definition module_files :: "memory \<Rightarrow> Module \<Rightarrow> (usize \<times> File) list" where
  "module_files m md = (case located \<lparr>fs_file = mem_read m (mod_start md) (mod_end md - mod_start md), fs_offset = 0\<rparr> of
     Val afs \<Rightarrow> map (\<lambda>(a, f). (paddr2vaddr (mod_start md) + a, f)) afs | _ \<Rightarrow> [])"

definition boot_files :: "memory \<Rightarrow> BootInfo \<Rightarrow> (usize \<times> File) list" where
  "boot_files m b = concat (map (module_files m) (av_list (bi_modules b)))"

text \<open>
  What it means that the servers among some files have been started, in their order: a file that is not a
  server is passed over, a server whose image is refused leaves only what the loader did, and any other
  server has its image loaded and its entry function run to its end, and is in the list of servers.
\<close>

inductive started :: "'s run \<Rightarrow> kernel \<times> 's \<Rightarrow> (usize \<times> File) list \<Rightarrow> Server list \<Rightarrow> kernel \<times> 's \<Rightarrow> bool" for run w0 where
  started_none: "started run w0 [] [] w0"
| started_other: "started run w0 fs svs w \<Longrightarrow> \<not> is_server f \<Longrightarrow> started run w0 (fs @ [(a, f)]) svs w"
| started_refused: "started run w0 fs svs (K, \<sigma>) \<Longrightarrow> is_server f \<Longrightarrow> load_elf a (file_data f) (k_phys K) = Val (Inl e, ph)
    \<Longrightarrow> started run w0 (fs @ [(a, f)]) svs (K\<lparr>k_phys := ph\<rparr>, \<sigma>)"
| started_run: "started run w0 fs svs (K, \<sigma>) \<Longrightarrow> is_server f \<Longrightarrow> load_elf a (file_data f) (k_phys K) = Val (Inr L, ph)
    \<Longrightarrow> run (le_entry_fn L) (K\<lparr>k_phys := ph\<rparr>, \<sigma>) = Val w
    \<Longrightarrow> started run w0 (fs @ [(a, f)]) (svs @ [\<lparr>sv_image = le_image L\<rparr>]) w"

text \<open>
  What the boot relies on: the entry function of each server that gets loaded returns when it is called, in
  the state that the servers before it have left, having written only to memory that was available after
  \<open>memory::init\<close>, with the references of the kernel accounted for.
\<close>

definition entries_return :: "'s run \<Rightarrow> nat \<Rightarrow> nat set \<Rightarrow> memory \<Rightarrow> kernel \<times> 's \<Rightarrow> (usize \<times> File) list \<Rightarrow> bool" where
  "entries_return run off A m w0 gs \<longleftrightarrow> (\<forall>fs a f rest svs K \<sigma> L ph. gs = fs @ (a, f) # rest \<longrightarrow> started run w0 fs svs (K, \<sigma>)
     \<longrightarrow> is_server f \<longrightarrow> load_elf a (file_data f) (k_phys K) = Val (Inr L, ph)
     \<longrightarrow> (\<exists>K' \<sigma>'. run (le_entry_fn L) (K\<lparr>k_phys := ph\<rparr>, \<sigma>) = Val (K', \<sigma>') \<and> system_inv off A m K'))"

lemma kernel_inv_phys: "kernel_inv off (K\<lparr>k_phys := ph\<rparr>) Rt Rs Ra = kernel_inv off K Rt Rs Ra"
  by (simp add: kernel_inv_def refs_inv_def sched_inv_def current_refs_def)

lemma system_inv_phys:
  assumes "system_inv off A m K" and "phys_wf ph" and "page_avail ph \<subseteq> page_avail (k_phys K)"
    and "\<forall>x. x \<notin> page_avail (k_phys K) \<longrightarrow> ph_mem ph x = ph_mem (k_phys K) x"
  shows "system_inv off A m (K\<lparr>k_phys := ph\<rparr>)"
  using assms unfolding system_inv_def kernel_inv_phys by (auto dest: subsetD)

lemma load_elf_total:
  assumes "phys_wf ph" and "file_ok addr f" and "is_server f"
  shows "\<exists>r ph'. load_elf addr (file_data f) ph = Val (r, ph') \<and> phys_wf ph' \<and> page_avail ph' \<subseteq> page_avail ph
    \<and> (\<forall>x. x \<notin> page_avail ph \<longrightarrow> ph_mem ph' x = ph_mem ph x)"
proof -
  consider e where "elf_parse addr (file_data f) ET_DYN = Val (Inl e)"
    | elf where "elf_parse addr (file_data f) ET_DYN = Val (Inr elf)" "loadable (file_data f) elf"
    using assms(2,3) unfolding file_ok_def by blast
  then show ?thesis
  proof cases
    case 1
    then have "load_elf addr (file_data f) ph = Val (Inl ParseElf, ph)" by (simp add: load_elf_def)
    then show ?thesis using assms(1) by simp
  next
    case 2
    then show ?thesis using load_elf_spec [OF assms(1)] by blast
  qed
qed

lemma start_server_step:
  assumes run: "entries_return run off A m w0 (fs @ (addr, f) # rest)" and E: "\<And>K. en_reserve E K = Val True" and f: "file_ok addr f"
    and I: "system_inv off A m K" and st: "started run w0 fs svs (K, \<sigma>)"
  shows "\<exists>svs' K' \<sigma>'. start_server run E addr f (servers @ svs, K, \<sigma>) = Val (servers @ svs', K', \<sigma>')
    \<and> started run w0 (fs @ [(addr, f)]) svs' (K', \<sigma>') \<and> system_inv off A m K'"
proof (cases "is_server f")
  case False
  then show ?thesis using started_other [OF st] I by (auto simp: start_server_def)
next
  case True
  then have u: "utf8_valid (file_name f)" using f by (simp add: file_ok_def)
  have "phys_wf (k_phys K)" using I by (simp add: system_inv_def)
  from load_elf_total [OF this f True] obtain r ph' where l: "load_elf addr (file_data f) (k_phys K) = Val (r, ph')" "phys_wf ph'"
    "page_avail ph' \<subseteq> page_avail (k_phys K)" "\<forall>x. x \<notin> page_avail (k_phys K) \<longrightarrow> ph_mem ph' x = ph_mem (k_phys K) x" by blast
  have I': "system_inv off A m (K\<lparr>k_phys := ph'\<rparr>)" by (rule system_inv_phys [OF I l(2-4)])
  show ?thesis
  proof (cases r)
    case (Inl e)
    then show ?thesis using True u l(1) I' started_refused [OF st True] by (auto simp: start_server_def server_load_def)
  next
    case (Inr L)
    obtain K' \<sigma>' where e: "run (le_entry_fn L) (K\<lparr>k_phys := ph'\<rparr>, \<sigma>) = Val (K', \<sigma>')" "system_inv off A m K'"
      using run st True l(1) Inr unfolding entries_return_def by blast
    have "started run w0 (fs @ [(addr, f)]) (svs @ [\<lparr>sv_image = le_image L\<rparr>]) (K', \<sigma>')"
      using started_run [OF st True _ e(1)] l(1) Inr by simp
    then show ?thesis using Inr True u l(1) E e by (auto simp: start_server_def server_load_def)
  qed
qed

lemma start_list:
  assumes "entries_return run off A m w0 (fs @ gs @ rest)" and E: "\<And>K. en_reserve E K = Val True" and "\<forall>(a, f)\<in>set gs. file_ok a f"
    and "system_inv off A m K" and "started run w0 fs svs (K, \<sigma>)"
  shows "\<exists>svs' K' \<sigma>'. exec_fold (\<lambda>(a, f). start_server run E a f) gs (servers @ svs, K, \<sigma>) = Val (servers @ svs', K', \<sigma>')
    \<and> started run w0 (fs @ gs) svs' (K', \<sigma>') \<and> system_inv off A m K'"
  using assms(1,3-)
proof (induction gs arbitrary: fs svs K \<sigma>)
  case Nil
  then show ?case by auto
next
  case (Cons g gs)
  obtain a f where g: "g = (a, f)" by (cases g)
  have f: "file_ok a f" using Cons.prems(2) g by simp
  obtain svs1 K1 \<sigma>1 where 1: "start_server run E a f (servers @ svs, K, \<sigma>) = Val (servers @ svs1, K1, \<sigma>1)"
    "started run w0 (fs @ [(a, f)]) svs1 (K1, \<sigma>1)" "system_inv off A m K1"
    using start_server_step [OF _ E f Cons.prems(3,4)] Cons.prems(1) g by (metis append_Cons)
  obtain svs2 K2 \<sigma>2 where "exec_fold (\<lambda>(a, f). start_server run E a f) gs (servers @ svs1, K1, \<sigma>1) = Val (servers @ svs2, K2, \<sigma>2)"
    "started run w0 ((fs @ [(a, f)]) @ gs) svs2 (K2, \<sigma>2)" "system_inv off A m K2"
    using Cons.IH [of "fs @ [(a, f)]" K1 svs1 \<sigma>1] Cons.prems(1,2) 1(2,3) g by auto
  then show ?case using 1(1) g by auto
qed

lemma module_loader:
  assumes "mod_start md \<le> mod_end md" and "mod_end md < 2 ^ 47" and "\<And>x. mod_start md \<le> x \<Longrightarrow> x < mod_end md \<Longrightarrow> ph_mem ph x = m x"
  shows "initfs_new ph md = \<lparr>fs_file = mem_read m (mod_start md) (mod_end md - mod_start md), fs_offset = 0\<rparr>"
  unfolding initfs_new_eq [OF assms(1,2)] using mem_read_cong [of "mod_start md" "mod_end md - mod_start md" "ph_mem ph" m] assms(1,3) by simp

lemma exec_fold_map: "exec_fold f (map g xs) s = exec_fold (\<lambda>x. f (g x)) xs s"
proof (induction xs arbitrary: s)
  case (Cons x xs)
  then have "exec_fold f (map g xs) = exec_fold (\<lambda>x. f (g x)) xs" by blast
  then show ?case by simp
qed simp

lemma start_module:
  assumes md: "mod_start md \<le> mod_end md" "mod_end md < 2 ^ 47" "{mod_start md..<mod_end md} \<inter> A = {}" "module_ok m md"
    and I: "system_inv off A m K"
  shows "start_files (start_server run E) (paddr2vaddr (mod_start md)) (initfs_new (k_phys K) md) st =
      exec_fold (\<lambda>(a, f). start_server run E a f) (module_files m md) st"
    and "\<forall>(a, f)\<in>set (module_files m md). file_ok a f"
proof -
  have "ph_mem (k_phys K) x = m x" if "mod_start md \<le> x" "x < mod_end md" for x
    using md(3) that I unfolding system_inv_def by (metis IntI atLeastLessThan_iff empty_iff)
  then have L: "initfs_new (k_phys K) md = \<lparr>fs_file = mem_read m (mod_start md) (mod_end md - mod_start md), fs_offset = 0\<rparr>"
    by (rule module_loader [OF md(1,2)])
  obtain afs where afs: "located (initfs_new (k_phys K) md) = Val afs" "\<forall>(a, f)\<in>set afs. file_ok (paddr2vaddr (mod_start md) + a) f"
    using md(4) unfolding module_ok_def L by blast
  have mf: "module_files m md = map (\<lambda>(a, f). (paddr2vaddr (mod_start md) + a, f)) afs"
    using afs(1) unfolding L by (simp add: module_files_def)
  show "\<forall>(a, f)\<in>set (module_files m md). file_ok a f" using afs(2) by (auto simp: mf)
  have "mod_end md - mod_start md \<le> 2 ^ 62" using md(2) by simp
  then obtain fs where "files (initfs_new (k_phys K) md) = Val fs"
    using files_total [of "initfs_new (k_phys K) md"] unfolding L by auto
  from start_files_located [OF this, of "start_server run E" "paddr2vaddr (mod_start md)" st]
  show "start_files (start_server run E) (paddr2vaddr (mod_start md)) (initfs_new (k_phys K) md) st =
      exec_fold (\<lambda>(a, f). start_server run E a f) (module_files m md) st"
    using afs(1) by (simp add: mf exec_fold_map split_def)
qed

lemma start_modules:
  fixes run :: "'s run"
  assumes "entries_return run off A m w0 (fs @ concat (map (module_files m) mds))" and E: "\<And>K. en_reserve E K = Val True"
    and "\<And>md. md \<in> set mds \<Longrightarrow> mod_start md \<le> mod_end md \<and> mod_end md < 2 ^ 47 \<and> {mod_start md..<mod_end md} \<inter> A = {} \<and> module_ok m md"
    and "system_inv off A m K" and "started run w0 fs svs (K, \<sigma>)"
  shows "\<exists>svs' K' \<sigma>'. exec_fold (\<lambda>md (servers, K, \<sigma>). start_files (start_server run E) (paddr2vaddr (mod_start md)) (initfs_new (k_phys K) md) (servers, K, \<sigma>))
      mds (servers @ svs, K, \<sigma>) = Val (servers @ svs', K', \<sigma>')
    \<and> started run w0 (fs @ concat (map (module_files m) mds)) svs' (K', \<sigma>') \<and> system_inv off A m K'"
  using assms(1,3-)
proof (induction mds arbitrary: fs svs K \<sigma>)
  case Nil
  then show ?case by auto
next
  case (Cons md mds)
  have md: "mod_start md \<le> mod_end md" "mod_end md < 2 ^ 47" "{mod_start md..<mod_end md} \<inter> A = {}" "module_ok m md"
    using Cons.prems(2) [of md] by simp_all
  note go = start_module(1) [OF md Cons.prems(3), of run E "(servers @ svs, K, \<sigma>)"] start_module(2) [OF md Cons.prems(3)]
  have "entries_return run off A m w0 (fs @ module_files m md @ concat (map (module_files m) mds))" using Cons.prems(1) by simp
  from start_list [OF this E go(2) Cons.prems(3,4), of servers]
  obtain svs1 K1 \<sigma>1 where 1: "exec_fold (\<lambda>(a, f). start_server run E a f) (module_files m md) (servers @ svs, K, \<sigma>) = Val (servers @ svs1, K1, \<sigma>1)"
    "started run w0 (fs @ module_files m md) svs1 (K1, \<sigma>1)" "system_inv off A m K1" by blast
  from Cons.IH [OF _ _ 1(3,2)] Cons.prems(1,2) obtain svs2 K2 \<sigma>2 where
    "exec_fold (\<lambda>md (servers, K, \<sigma>). start_files (start_server run E) (paddr2vaddr (mod_start md)) (initfs_new (k_phys K) md) (servers, K, \<sigma>))
      mds (servers @ svs1, K1, \<sigma>1) = Val (servers @ svs2, K2, \<sigma>2)"
    "started run w0 ((fs @ module_files m md) @ concat (map (module_files m) mds)) svs2 (K2, \<sigma>2)" "system_inv off A m K2" by auto
  then show ?case using 1(1) go(1) by auto
qed

lemma server_init_starts:
  fixes run :: "'s run"
  assumes run: "entries_return run off A m (K, \<sigma>) (boot_files m b)" and E: "\<And>K. en_reserve E K = Val True" and v: "av_inv (bi_modules b)"
    and I: "system_inv off A m K"
    and mods: "\<And>md. md \<in> set (av_list (bi_modules b)) \<Longrightarrow> mod_start md \<le> mod_end md \<and> mod_end md < 2 ^ 47 \<and> {mod_start md..<mod_end md} \<inter> A = {} \<and> module_ok m md"
  shows "\<exists>svs K' \<sigma>'. server_init run E b (servers, K, \<sigma>) = Val (servers @ svs, K', \<sigma>')
    \<and> started run (K, \<sigma>) (boot_files m b) svs (K', \<sigma>') \<and> system_inv off A m K'"
  using start_modules [of run off A m "(K, \<sigma>)" "[]" "av_list (bi_modules b)" E K "[]" \<sigma> servers, OF _ E mods I]
    run started_none [of run "(K, \<sigma>)"] v
  by (simp add: server_init_def av_as_slice_list boot_files_def)

lemma fresh_kernel_inv:
  assumes "k_threads K = Map.empty" and "k_spaces K = Map.empty" and "k_areas K = Map.empty" and "k_runqueue K = []" and "k_current K = None"
  shows "kernel_inv off K {#} {#} {#}"
proof -
  have e: "refs_object (Map.empty :: 'a refs) = Map.empty" by (simp add: refs_object_def fun_eq_iff)
  show ?thesis using assms by (simp add: kernel_inv_def refs_inv_def sched_inv_def current_refs_def refs_owned_def e held_def USIZE_MAX_def)
qed

lemma modules_reserved:
  assumes "md \<in> set (av_list (bi_modules b))"
  shows "{mod_start md..<mod_end md} \<inter> usable_ram kr b = {}"
  using assms by (auto simp: usable_ram_def reserved_ranges_def span_def)

lemma modules_kept:
  assumes "bootinfo_wf kr b" and "page_avail ph \<subseteq> usable_ram kr b" and "\<forall>md\<in>set (av_list (bi_modules b)). mod_end md < 2 ^ 47 \<and> module_ok m md"
    and md: "md \<in> set (av_list (bi_modules b))"
  shows "mod_start md \<le> mod_end md \<and> mod_end md < 2 ^ 47 \<and> {mod_start md..<mod_end md} \<inter> page_avail ph = {} \<and> module_ok m md"
proof -
  have "(mod_start md, mod_end md) \<in> set (reserved_ranges kr b)" using md by (simp add: reserved_ranges_def)
  then have "mod_start md \<le> mod_end md" using assms(1) unfolding bootinfo_wf_def by fastforce
  moreover have "{mod_start md..<mod_end md} \<inter> page_avail ph = {}" using modules_reserved [OF md, of kr] assms(2) by blast
  ultimately show ?thesis using assms(3) md by blast
qed

lemma cpuvar_init_boot:
  assumes "bsp_stack + KERNEL_STACK_SIZE \<le> USIZE_MAX" and "addr 0 \<noteq> 0" and "lapic_init M = (L, M')"
  obtains v vars where "cpuvar_init addr bsp_stack 0 (vars0, M) = Val (vars, M')" and "get_cpuvar vars = Val v"
    and "cv_local_apic v = L" and "cv_current_thread v = None"
  using assms by (fastforce simp: cpuvar_init_def cpuvar_new_def bsp_stack_top_def usize_add_def set_cpuvar_def get_cpuvar_def assert_exec_def NUM_CPUS_MAX_def)

text \<open>
  C6. The boot of the system. On a machine whose memory map is well-formed and whose modules hold archives with
  readable, aligned servers, and as long as the kernel's vectors can grow, \<open>boot\<close> gets to the scheduler. Memory
  is carved: the available pages lie in the free RAM outside of the kernel and the modules. The boot processor
  has its variables. Every server of the archives has been started, in the order of the files: its image was
  loaded (or refused by the loader) and its entry function run, and the list of servers has the images that were
  loaded. This holds for servers whose entry function returns in the state in which it is called, having written
  only to pages that were available and having left the references of the kernel accounted for; so memory outside
  of these pages is as the boot loader left it. Then the first runnable thread runs in its own address space with
  all references still accounted for; if no server has made one, the kernel panics.
\<close>

theorem boot_enters_user:
  fixes run :: "'s run"
  assumes map: "bootinfo_wf (st_kernel_range st) b" and phys: "av_inv (ph_regions (k_phys K))" "av_list (ph_regions (k_phys K)) = []"
    and fresh: "k_threads K = Map.empty" "k_spaces K = Map.empty" "k_areas K = Map.empty" "k_runqueue K = []"
    and stack: "st_bsp_stack st + KERNEL_STACK_SIZE \<le> USIZE_MAX" "st_cpu_vars st 0 \<noteq> 0"
    and vectors: "\<And>K. en_reserve E K = Val True"
    and modules: "\<forall>md\<in>set (av_list (bi_modules b)). mod_end md < 2 ^ 47 \<and> module_ok (ph_mem (k_phys K)) md"
    and servers: "\<And>ph M L. memory_init (st_kernel_range st) b (k_phys K) = Val ph \<Longrightarrow> lapic_init (k_machine K) = (L, M) \<Longrightarrow>
      entries_return run (en_off E ThreadT) (page_avail ph) (ph_mem (k_phys K))
        (K\<lparr>k_phys := ph, k_machine := M, k_lapic := L, k_current := None\<rparr>, \<sigma>) (boot_files (ph_mem (k_phys K)) b)"
    and s: "sy_kernel s = K"
  shows "\<exists>ph M L svs K' \<sigma>'. memory_init (st_kernel_range st) b (k_phys K) = Val ph \<and> lapic_init (k_machine K) = (L, M)
    \<and> started run (K\<lparr>k_phys := ph, k_machine := M, k_lapic := L, k_current := None\<rparr>, \<sigma>) (boot_files (ph_mem (k_phys K)) b) svs (K', \<sigma>')
    \<and> page_avail ph \<subseteq> usable_ram (st_kernel_range st) b \<and> system_inv (en_off E ThreadT) (page_avail ph) (ph_mem (k_phys K)) K'
    \<and> (case List.find (runnable K') (candidates (en_off E ThreadT) K') of
         None \<Rightarrow> boot run E st b (s, \<sigma>) = Panic
       | Some t \<Rightarrow> \<exists>s' T S. boot run E st b (s, \<sigma>) = Val (s', \<sigma>') \<and> sy_servers s' = sy_servers s @ svs
           \<and> k_current (sy_kernel s') = Some (into_raw (en_off E ThreadT) t) \<and> threads (sy_kernel s') t = Some T
           \<and> spaces (sy_kernel s') (th_vmspace T) = Some S \<and> k_cr3 (sy_kernel s') = avs_cr3 (vs_arch S)
           \<and> (\<exists>Rt Rs Ra. refs_inv (en_off E ThreadT) (sy_kernel s') Rt Rs Ra))"
proof -
  let ?off = "en_off E ThreadT" and ?m = "ph_mem (k_phys K)"
  obtain ph where ph: "memory_init (st_kernel_range st) b (k_phys K) = Val ph" "phys_wf ph" "ph_mem ph = ?m" "page_avail ph \<subseteq> usable_ram (st_kernel_range st) b"
    using memory_init_carves_usable_ram_aux [OF map phys] by blast
  obtain L M where la: "lapic_init (k_machine K) = (L, M)" by fastforce
  define K0 where "K0 = K\<lparr>k_phys := ph, k_machine := M, k_lapic := L, k_current := None\<rparr>"
  have I0: "system_inv ?off (page_avail ph) ?m K0"
    unfolding system_inv_def using ph(2,3) fresh fresh_kernel_inv [of K0 ?off] by (auto simp: K0_def)
  have "av_inv (bi_modules b)" using map by (simp add: bootinfo_wf_def)
  from server_init_starts [OF servers [OF ph(1) la, folded K0_def] vectors this I0 modules_kept [OF map ph(4) modules]]
  obtain svs K' \<sigma>' where sv: "server_init run E b (sy_servers s, K0, \<sigma>) = Val (sy_servers s @ svs, K', \<sigma>')"
    "started run (K0, \<sigma>) (boot_files ?m b) svs (K', \<sigma>')" "system_inv ?off (page_avail ph) ?m K'" by blast
  obtain v vars where cv: "cpuvar_init (st_cpu_vars st) (st_bsp_stack st) 0 (sy_vars s, k_machine K) = Val (vars, M)" "get_cpuvar vars = Val v"
    "cv_local_apic v = L" "cv_current_thread v = None"
    by (rule cpuvar_init_boot [where addr = "st_cpu_vars st", OF stack la])
  have run: "boot run E st b (s, \<sigma>) =
      exec_bind (return_to_user ?off (Val True) K') (\<lambda>K. Val (s\<lparr>sy_kernel := K, sy_vars := vars, sy_servers := sy_servers s @ svs\<rparr>, \<sigma>'))"
    using s ph(1) cv sv(1) vectors by (simp add: boot_def K0_def Let_def)
  obtain Rt Rs Ra where inv: "refs_inv ?off K' Rt Rs Ra" "sched_inv ?off K'" "size (mset (k_runqueue K') + current_refs ?off K' + Rt) < USIZE_MAX"
    using sv(3) unfolding system_inv_def kernel_inv_def by blast
  have "case List.find (runnable K') (candidates ?off K') of
      None \<Rightarrow> boot run E st b (s, \<sigma>) = Panic
    | Some t \<Rightarrow> \<exists>s' T S. boot run E st b (s, \<sigma>) = Val (s', \<sigma>') \<and> sy_servers s' = sy_servers s @ svs
           \<and> k_current (sy_kernel s') = Some (into_raw ?off t) \<and> threads (sy_kernel s') t = Some T
           \<and> spaces (sy_kernel s') (th_vmspace T) = Some S \<and> k_cr3 (sy_kernel s') = avs_cr3 (vs_arch S)
           \<and> (\<exists>Rt Rs Ra. refs_inv ?off (sy_kernel s') Rt Rs Ra)"
    using return_to_user_spec [OF inv] unfolding run by (auto split: option.splits) blast
  then show ?thesis using ph(1,4) la sv unfolding K0_def by blast
qed

text \<open>
  A machine with one module that holds one server. The server makes an address space and a thread in it with
  its supercalls, and lets the thread run.
\<close>

definition example_run :: "unit run" where
  "example_run e = (\<lambda>(K, \<sigma>).
     exec_bind (sc_vmspace_create example_env K) (\<lambda>(r, K). case r of
       Inl _ \<Rightarrow> Val (K, \<sigma>)
     | Inr vmspace \<Rightarrow>
         exec_bind (sc_thread_create example_env vmspace 0x5000 K) (\<lambda>(r, K). case r of
           Inl _ \<Rightarrow> Val (K, \<sigma>)
         | Inr thread \<Rightarrow> exec_bind (sc_thread_unblock example_env thread K) (\<lambda>(r, K). Val (K, \<sigma>)))))"

definition example_server :: File where
  "example_server = \<lparr>file_name = [0x73, 0x65, 0x72, 0x76, 0x65, 0x72, 0x73, 0x2f, 0x6c, 0x78, 0x2e, 0x65, 0x6c, 0x66], file_data = example_file\<rparr>"

definition example_archive_file :: "u8 list" where
  "example_archive_file = cpio_archive [(example_header 15 120, example_server)] (example_header 11 0)"

definition example_boot_memory :: memory where
  "example_boot_memory = mem_write (\<lambda>_. 0) 0x300000 example_archive_file"

definition example_system :: system where
  "example_system = \<lparr>sy_kernel = \<lparr>k_threads = Map.empty, k_spaces = Map.empty, k_areas = Map.empty, k_runqueue = [], k_current = None, k_cr3 = 0x3000,
       k_phys = example_phys\<lparr>ph_mem := example_boot_memory\<rparr>, k_lapic = \<lparr>la_base = 0\<rparr>, k_machine = example_machine\<rparr>,
     sy_tables = boot_tables, sy_control = \<lparr>cr0 = 0x80000001, cr3 = 0x3000, cr4 = 0xa0\<rparr>,
     sy_vars = \<lparr>cs_vars = Map.empty, cs_gsbase = 0\<rparr>, sy_ioapic = None, sy_servers = []\<rparr>"

definition example_statics :: statics where
  "example_statics = \<lparr>st_bsp_stack = KERNEL_BASE + 0x100000, st_tss = 0, st_gdt = 0, st_idt = 0, st_idt_handlers = KERNEL_BASE + 0x110000,
     st_syscall_handler = 0, st_cpu_vars = (\<lambda>i. KERNEL_BASE + 0x120000 + 64 * i), st_kernel_range = (0x100000, 0x200000)\<rparr>"

text \<open>What that server does to a kernel without objects.\<close>

definition example_kernel1 :: "ArchVmSpace \<Rightarrow> kernel \<Rightarrow> kernel" where
  "example_kernel1 vs K = K\<lparr>k_spaces := [0x9000 \<mapsto> \<lparr>rc_counter = 2, rc_value = \<lparr>vs_arch = vs, vs_mappings = []\<rparr>\<rparr>],
     k_threads := [0x9000 \<mapsto> \<lparr>rc_counter = 2, rc_value = (thread_value 0x9000 0x5000)\<lparr>th_mutable := \<lparr>mt_state = Runnable, mt_in_upcalls = 0\<rparr>\<rparr>\<rparr>],
     k_runqueue := [0x9000]\<rparr>"

lemma example_kernel1_inv:
  assumes "k_areas K = Map.empty" and "k_current K = None"
  shows "kernel_inv 8 (example_kernel1 vs K) {#0x9000#} {#0x9000#} {#}"
proof -
  let ?K = "example_kernel1 vs K"
  have t: "threads ?K = [0x9000 \<mapsto> (thread_value 0x9000 0x5000)\<lparr>th_mutable := \<lparr>mt_state = Runnable, mt_in_upcalls = 0\<rparr>\<rparr>]"
    "spaces ?K = [0x9000 \<mapsto> \<lparr>vs_arch = vs, vs_mappings = []\<rparr>]"
    by (auto simp: example_kernel1_def refs_object_def)
  have "held (\<lambda>T. {#th_vmspace T#}) (threads ?K) = {#0x9000#}" "held space_areas (spaces ?K) = {#}"
    unfolding t held_def by (simp_all add: thread_value_def)
  moreover have "k_areas ?K = Map.empty" "k_current ?K = None" "k_runqueue ?K = [0x9000]" using assms by (simp_all add: example_kernel1_def)
  ultimately show ?thesis
    unfolding kernel_inv_def refs_inv_def sched_inv_def t
    by (auto simp: refs_owned_def current_refs_def USIZE_MAX_def split: if_splits) (auto simp: example_kernel1_def split: if_splits)
qed

lemma example_run_result:
  assumes "k_threads K = Map.empty" and "k_spaces K = Map.empty" and "k_runqueue K = []"
    and "arch_vmspace_new (en_pdpt example_env) (k_phys K) = Val (r, ph)"
  shows "example_run e (K, \<sigma>) = Val (case r of Inl _ \<Rightarrow> K\<lparr>k_phys := ph\<rparr> | Inr vs \<Rightarrow> example_kernel1 vs (K\<lparr>k_phys := ph\<rparr>), \<sigma>)"
proof (cases r)
  case (Inl e)
  then show ?thesis using assms by (simp add: example_run_def sc_vmspace_create_def vmspace_new_def)
next
  case (Inr vs)
  let ?E = example_env and ?S = "\<lparr>vs_arch = vs, vs_mappings = []\<rparr>" and ?T = "thread_value 0x9000 0x5000"
  let ?K1 = "K\<lparr>k_phys := ph, k_spaces := [0x9000 \<mapsto> refcounted_new ?S]\<rparr>"
  let ?K2 = "?K1\<lparr>k_spaces := [0x9000 \<mapsto> \<lparr>rc_counter = 2, rc_value = ?S\<rparr>], k_threads := [0x9000 \<mapsto> refcounted_new ?T]\<rparr>"
  have 1: "sc_vmspace_create ?E K = Val (Inr (space_handle ?E 0x9000), ?K1)"
    using assms Inr by (simp add: sc_vmspace_create_def vmspace_new_def sr_new_def example_env_def)
  have "alive (k_spaces ?K1) 0x9000 (refcounted_new ?S)" by (simp add: alive_def refcounted_new_def USIZE_MAX_def)
  from sr_clone_live [OF this]
  have "borrow_space ?E (space_handle ?E 0x9000) RIGHT_MAP ?K1 = Val (Inr 0x9000, ?K1\<lparr>k_spaces := [0x9000 \<mapsto> \<lparr>rc_counter = 2, rc_value = ?S\<rparr>]\<rparr>)"
    by (simp add: borrow_space_def from_borrowed_handle_def clone_from_raw_def Let_def refcounted_new_def right_contains_def right_or_def RIGHT_MAP_def RIGHT_READ_def RIGHT_WRITE_def)
  then have 2: "sc_thread_create ?E (space_handle ?E 0x9000) 0x5000 ?K1 = Val (Inr (thread_handle ?E 0x9000), ?K2)"
    using assms(1) by (simp add: sc_thread_create_def thread_new_def sr_new_def example_env_def refcounted_new_def)
  have "alive (k_threads ?K2) 0x9000 (refcounted_new ?T)" by (simp add: alive_def refcounted_new_def USIZE_MAX_def)
  from unblock_live [OF this, of ?E]
  have 3: "sc_thread_unblock ?E (thread_handle ?E 0x9000) ?K2 = Val (Inr (), example_kernel1 vs (K\<lparr>k_phys := ph\<rparr>))"
    using assms(3) by (simp add: example_env_def refcounted_new_def thread_value_def example_kernel1_def)
  show ?thesis using 1 2 3 Inr by (simp add: example_run_def)
qed

lemma example_server_ok:
  assumes "8 dvd addr"
  shows "file_ok addr example_server"
proof -
  have "elf_parse addr example_file ET_DYN = Val (Inr \<lparr>elf_ehdr = example_ehdr 3 64 1, elf_phdrs = [example_phdr]\<rparr>)"
    using elf_parse_bytes [of "example_ehdr 3 64 1" "[example_phdr]" addr "[]"] assms unfolding example_file_def
    by (simp add: example_ehdr_def example_phdr_def ehdr_wf_def phdr_wf_def EM_NATIVE_def EHDR_SIZE_def PHDR_SIZE_def ET_DYN_def)
  moreover have "utf8_valid (file_name example_server)" unfolding example_server_def by (rule utf8_valid_ascii) simp_all
  ultimately show ?thesis using example_loadable by (auto simp: file_ok_def example_server_def)
qed

inductive_cases started_nilE: "started run w0 [] svs w"

lemma example_entries_return:
  assumes I: "system_inv 8 A m K" and fresh: "k_threads K = Map.empty" "k_spaces K = Map.empty" "k_areas K = Map.empty" "k_runqueue K = []"
    "k_current K = None" and f: "file_ok a example_server"
  shows "entries_return example_run 8 A m (K, ()) [(a, example_server)]"
proof -
  have "\<exists>K'. example_run e (K\<lparr>k_phys := ph\<rparr>, ()) = Val (K', ()) \<and> system_inv 8 A m K'"
    if l: "load_elf a (file_data example_server) (k_phys K) = Val (Inr L, ph)" and s: "is_server example_server" for e L ph
  proof -
    have I1: "system_inv 8 A m (K\<lparr>k_phys := ph\<rparr>)"
      using load_elf_total [of "k_phys K", OF _ f s] I l by (intro system_inv_phys [OF I]) (auto simp: system_inv_def)
    then have w: "phys_wf ph" by (simp add: system_inv_def)
    have "4096 dvd vaddr2paddr (en_pdpt example_env)" by (simp add: example_env_def vaddr2paddr_paddr2vaddr)
    from arch_vmspace_new_spec [OF w this] obtain r ph' where n: "arch_vmspace_new (en_pdpt example_env) ph = Val (r, ph')" "phys_wf ph'"
      "page_avail ph' \<subseteq> page_avail ph" "\<forall>x. x \<notin> page_avail ph \<longrightarrow> ph_mem ph' x = ph_mem ph x" by blast
    have I2: "system_inv 8 A m (K\<lparr>k_phys := ph'\<rparr>)" using system_inv_phys [OF I1, of ph'] n by simp
    have "system_inv 8 A m (example_kernel1 vs (K\<lparr>k_phys := ph'\<rparr>))" for vs
      using I2 example_kernel1_inv [of "K\<lparr>k_phys := ph'\<rparr>" vs] fresh unfolding system_inv_def by (auto simp: example_kernel1_def)
    then show ?thesis
      using example_run_result [of "K\<lparr>k_phys := ph\<rparr>" r ph' e "()"] fresh n(1) I2 by (auto split: sum.splits)
  qed
  then show ?thesis unfolding entries_return_def by (fastforce simp: Cons_eq_append_conv elim: started_nilE)
qed

lemma example_located:
  assumes "length rest + 1000 \<le> USIZE_MAX"
  shows "length example_archive_file \<le> 0x1000"
    and "located \<lparr>fs_file = example_archive_file @ rest, fs_offset = 0\<rparr> = Val [(128, example_server)]"
proof -
  let ?t = "\<lparr>file_name = trailer, file_data = []\<rparr>" and ?h = "example_header 15 120" and ?ht = "example_header 11 0"
  let ?e = "cpio_entry ?h example_server" and ?file = "example_archive_file @ rest"
  have a: "?file = ?e @ cpio_entry ?ht ?t @ rest" by (simp add: example_archive_file_def cpio_archive_def)
  have h: "newc_header ?h example_server" by (rule example_header_newc) (simp_all add: example_server_def example_file_length)
  have n: "length (name_block ?h example_server) = 128" "length ?e = 248"
    using length_name_block [OF h] by (simp_all add: length_cpio_entry example_server_def example_file_length CPIO_HEADER_SIZE_def round_up_def round_down_def)
  have t: "length (cpio_entry ?ht ?t) \<le> 200"
    using length_name_block [OF example_trailer] by (simp add: length_cpio_entry CPIO_HEADER_SIZE_def round_up_def round_down_def trailer_def)
  then show "length example_archive_file \<le> 0x1000" using n(2) by (simp add: example_archive_file_def cpio_archive_def)
  have nt: "file_name example_server \<noteq> trailer" by (simp add: example_server_def trailer_def)
  have "initfs_next \<lparr>fs_file = ?file, fs_offset = 0\<rparr> = Val (Some example_server, \<lparr>fs_file = ?file, fs_offset = 248\<rparr>)"
    using initfs_next_entry [OF h, of "[]" "cpio_entry ?ht ?t @ rest"] nt n t assms by (simp add: a)
  moreover have "initfs_next \<lparr>fs_file = ?file, fs_offset = 248\<rparr> = Val (None, \<lparr>fs_file = ?file, fs_offset = 248\<rparr>)"
    using initfs_next_entry [OF example_trailer, of ?e rest] n t assms by (simp add: a)
  moreover have "data_addr 0 \<lparr>fs_file = ?file, fs_offset = 248\<rparr> example_server = 128"
    by (simp add: data_addr_def example_server_def example_file_length round_up_def round_down_def)
  ultimately show "located \<lparr>fs_file = ?file, fs_offset = 0\<rparr> = Val [(128, example_server)]" by (simp add: located_simps)
qed

lemma example_module_located:
  "located \<lparr>fs_file = mem_read example_boot_memory 0x300000 0x1000, fs_offset = 0\<rparr> = Val [(128, example_server)]"
proof -
  let ?a = example_archive_file
  have len: "length ?a \<le> 0x1000" by (rule example_located(1) [of "[]"]) (simp add: USIZE_MAX_def)
  define rest where "rest = mem_read example_boot_memory (0x300000 + length ?a) (0x1000 - length ?a)"
  have "mem_read example_boot_memory 0x300000 0x1000 = ?a @ rest"
    using mem_read_add [of example_boot_memory "0x300000" "length ?a" "0x1000 - length ?a"] len mem_read_write_same [of "\<lambda>_. 0" "0x300000" ?a]
    by (simp add: rest_def example_boot_memory_def)
  moreover have "length rest + 1000 \<le> USIZE_MAX" by (simp add: rest_def USIZE_MAX_def)
  ultimately show ?thesis by (simp add: example_located(2))
qed

lemma example_server_here: "file_ok (paddr2vaddr 0x300000 + 128) example_server"
  by (rule example_server_ok) (simp add: paddr2vaddr_add KERNEL_BASE_def)

lemma example_boot_files: "boot_files example_boot_memory example_boot = [(paddr2vaddr 0x300000 + 128, example_server)]"
  using example_module_located by (simp add: boot_files_def module_files_def example_boot_def av_list_def)

lemma example_boot_phys:
  assumes "memory_init (0x100000, 0x200000) example_boot (example_phys\<lparr>ph_mem := example_boot_memory\<rparr>) = Val ph"
  shows "system_inv 8 (page_avail ph) example_boot_memory ((sy_kernel example_system)\<lparr>k_phys := ph, k_machine := M, k_lapic := L, k_current := None\<rparr>)"
  using memory_init_carves_usable_ram_aux [OF example_boot_wf, of "example_phys\<lparr>ph_mem := example_boot_memory\<rparr>"] example_phys_new assms
    fresh_kernel_inv [of "(sy_kernel example_system)\<lparr>k_phys := ph, k_machine := M, k_lapic := L, k_current := None\<rparr>" 8]
  by (auto simp: system_inv_def example_system_def)

theorem boot_enters_user_witness:
  "\<exists>ph M L svs K' \<sigma>'. memory_init (0x100000, 0x200000) example_boot (example_phys\<lparr>ph_mem := example_boot_memory\<rparr>) = Val ph
    \<and> page_avail ph \<subseteq> usable_ram (0x100000, 0x200000) example_boot
    \<and> started example_run ((sy_kernel example_system)\<lparr>k_phys := ph, k_machine := M, k_lapic := L, k_current := None\<rparr>, ())
        [(paddr2vaddr 0x300000 + 128, example_server)] svs (K', \<sigma>')
    \<and> (case List.find (runnable K') (candidates 8 K') of
         None \<Rightarrow> boot example_run example_env example_statics example_boot (example_system, ()) = Panic
       | Some t \<Rightarrow> \<exists>s'. boot example_run example_env example_statics example_boot (example_system, ()) = Val (s', \<sigma>') \<and> sy_servers s' = svs)"
proof -
  let ?K = "sy_kernel example_system"
  have p: "st_kernel_range example_statics = (0x100000, 0x200000)" "k_phys ?K = example_phys\<lparr>ph_mem := example_boot_memory\<rparr>"
    "sy_servers example_system = []" "en_off example_env ThreadT = 8" "ph_mem (example_phys\<lparr>ph_mem := example_boot_memory\<rparr>) = example_boot_memory"
    by (simp_all add: example_system_def example_statics_def example_env_def)
  have mods: "\<forall>md\<in>set (av_list (bi_modules example_boot)). mod_end md < 2 ^ 47 \<and> module_ok (ph_mem (k_phys ?K)) md"
    using example_module_located example_server_here by (simp add: example_boot_def av_list_def p(2) module_ok_def)
  have K: "k_threads ?K = Map.empty" "k_spaces ?K = Map.empty" "k_areas ?K = Map.empty" "k_runqueue ?K = []" by (simp_all add: example_system_def)
  have phys: "av_inv (ph_regions (k_phys ?K))" "av_list (ph_regions (k_phys ?K)) = []" using example_phys_new by (simp_all add: example_system_def)
  have st: "st_bsp_stack example_statics + KERNEL_STACK_SIZE \<le> USIZE_MAX" "st_cpu_vars example_statics 0 \<noteq> 0"
    by (simp_all add: example_statics_def KERNEL_STACK_SIZE_def KERNEL_BASE_def USIZE_MAX_def)
  have ret: "entries_return example_run (en_off example_env ThreadT) (page_avail ph) (ph_mem (k_phys ?K))
      (?K\<lparr>k_phys := ph, k_machine := M, k_lapic := L, k_current := None\<rparr>, ()) (boot_files (ph_mem (k_phys ?K)) example_boot)"
    if "memory_init (st_kernel_range example_statics) example_boot (k_phys ?K) = Val ph" for ph M L
    unfolding p example_boot_files
    by (rule example_entries_return [OF example_boot_phys [OF that [unfolded p]] _ _ _ _ _ example_server_here]) (simp_all add: K)
  have res: "en_reserve example_env X = Val True" for X by (simp add: example_env_def)
  have wf: "bootinfo_wf (st_kernel_range example_statics) example_boot" using example_boot_wf p by simp
  show ?thesis
    using boot_enters_user [OF wf phys K st res mods ret refl, unfolded p example_boot_files]
    by (fastforce split: option.splits)
qed

end
