(* ===== verification/SyscallPath.thy ===== *)
theory SyscallPath
  imports Lx
begin

text \<open>
  A system call from end to end: from \<open>handle_syscall\<close> (\<open>kernel/src/syscall.rs\<close>) through the upcall of the thread's
  server back to user mode. The property is stated for any server, by the relation \<open>syscall_served\<close> that
  says what the server's upcalls return, and its example runs a \<open>write\<close> of a Linux program through the \<open>lx\<close>
  server of \<open>Lx\<close>.
\<close>

section \<open>A Linux thread that makes a system call\<close>

text \<open>The thread of the example process runs: the kernel has one reference to it and the server has one.\<close>

definition lx_running :: kernel where
  "lx_running = (lx_kernel (lx_thread [1, 1, 0x1ffe, 2, 0, 0, 0] Runnable 0))\<lparr>k_current := Some 0x1008\<rparr>"

text \<open>The thread when its upcall has returned: the result is in RAX, and it waits in the run queue.\<close>

definition lx_resumed :: "nat \<Rightarrow> Thread" where
  "lx_resumed n = resumed (lx_thread [1, 1, 0x1ffe, 2, 0, 0, 0] Blocked n) 2 None"

definition lx_queued :: "nat \<Rightarrow> kernel" where
  "lx_queued n = (lx_kernel (lx_resumed n))\<lparr>k_threads := [0x1000 \<mapsto> \<lparr>rc_counter = 3, rc_value = lx_resumed n\<rparr>], k_runqueue := [0x1000]\<rparr>"

lemma lx_spaces_held:
  assumes "th_vmspace T = 0x2000"
  shows "held (\<lambda>T. {#th_vmspace T#}) [0x1000 \<mapsto> T] = {#0x2000#}" and "held space_areas [0x2000 \<mapsto> example_space1] = {#7#}"
  using assms by (simp_all add: held_def example_space1_def)

lemma lx_running_inv: "kernel_inv 8 lx_running {#0x1000#} {#0x2000#} {#}"
proof -
  let ?T = "lx_thread [1, 1, 0x1ffe, 2, 0, 0, 0] Runnable 0"
  have t: "threads lx_running = [0x1000 \<mapsto> ?T]" "spaces lx_running = [0x2000 \<mapsto> example_space1]"
    by (auto simp: lx_running_def lx_kernel_def refs_object_def)
  have v: "th_vmspace ?T = 0x2000" "mt_state (th_mutable ?T) = Runnable" by (simp_all add: lx_thread_def)
  show ?thesis
    unfolding kernel_inv_def refs_inv_def sched_inv_def t lx_spaces_held [OF v(1)]
    by (auto simp: v refs_owned_def lx_running_def lx_kernel_def current_refs_def from_raw_def USIZE_MAX_def split: if_splits)
qed

lemma lx_queued_inv: "kernel_inv 8 (lx_queued n) {#0x1000, 0x1000#} {#0x2000#} {#}"
proof -
  have t: "threads (lx_queued n) = [0x1000 \<mapsto> lx_resumed n]" "spaces (lx_queued n) = [0x2000 \<mapsto> example_space1]"
    by (auto simp: lx_queued_def lx_kernel_def refs_object_def)
  have v: "th_vmspace (lx_resumed n) = 0x2000" "mt_state (th_mutable (lx_resumed n)) = Runnable"
    by (simp_all add: lx_resumed_def resumed_def lx_thread_def)
  show ?thesis
    unfolding kernel_inv_def refs_inv_def sched_inv_def t lx_spaces_held [OF v(1)]
    by (auto simp: v refs_owned_def lx_queued_def lx_kernel_def current_refs_def USIZE_MAX_def split: if_splits)
qed

lemma lx_write_upcall:
  "upcall_entry example_env 0x5000 UpSyscall (lx_kernel (lx_thread [1, 1, 0x1ffe, 2, 0, 0, 0] Blocked 1), lx_state) =
    Val (lx_queued 1, lx_state\<lparr>lx_log := [[0, 0]]\<rparr>)"
  using upcall_syscall_spec [OF lx_in_syscall lx_user_space _ , of "[1, 1, 0x1ffe, 2, 0, 0, 0]" "Inr 2" None "[[0, 0]]"] lx_write_spec [of Blocked 1]
  by (simp add: example_env_def result_word_def lx_queued_def lx_resumed_def lx_kernel_def lx_state_def del: arch_read_context.simps)

lemma lx_write_served:
  "syscall_served 8 (upcall_entry example_env) 0x1000 (lx_running\<lparr>k_current := None\<rparr>, lx_state)
    (upcall_ended 0x1000 (lx_resumed 1) (lx_queued 1), lx_state\<lparr>lx_log := [[0, 0]]\<rparr>) {#0x1000#} {#0x2000#} {#}"
proof (rule served_call)
  let ?T = "\<lambda>st n. lx_thread [1, 1, 0x1ffe, 2, 0, 0, 0] st n" and ?K = "lx_running\<lparr>k_current := None\<rparr>"
  show T: "threads ?K 0x1000 = Some (?T Runnable 0)" by (simp add: lx_running_def lx_kernel_def refs_object_def)
  show "mt_state (th_mutable (?T Runnable 0)) = Runnable" by (simp add: lx_thread_def)
  have b: "upcall_begun 0x1000 (?T Runnable 0) ?K = lx_kernel (?T Blocked 1)"
    by (simp add: upcall_begun_def set_mutable_def set_value_def lx_running_def lx_kernel_def lx_thread_def)
  show q: "threads (lx_queued 1) 0x1000 = Some (lx_resumed 1)" by (simp add: lx_queued_def refs_object_def)
  show "upcall_returns 8 (upcall_entry example_env) 0x1000 UpSyscall (upcall_begun 0x1000 (?T Runnable 0) ?K, lx_state)
      (lx_queued 1, lx_state\<lparr>lx_log := [[0, 0]]\<rparr>) {#0x1000#} {#0x2000#} {#}"
    unfolding upcall_returns_def b using lx_write_upcall lx_queued_inv [of 1] q
    by (simp add: lx_kernel_def refs_object_def lx_thread_def) (simp add: lx_queued_def lx_kernel_def lx_resumed_def resumed_def lx_thread_def)
  show "mt_in_upcalls (th_mutable (?T Runnable 0)) \<noteq> 0 \<or> mt_state (th_mutable (lx_resumed 1)) \<noteq> Terminated"
    by (simp add: lx_resumed_def resumed_def)
qed

section \<open>The property\<close>

text \<open>
  C37. A system call: \<open>handle_syscall\<close> takes the current thread off the CPU, blocks it and makes the system call
  upcall of its server (and the terminated upcall, when the server has terminated the thread and no other
  upcall is in flight; a thread that is terminated already makes no upcall). If the server panics, so does
  the kernel. If the upcalls return with the references of the kernel accounted for, the system call ends
  in user mode in the first thread of the run queue that can run then: that thread is current, unchanged
  since the upcalls have ended, CR3 is its address space's, every reference counter is exact without the
  reference that the kernel held to the calling thread, and every runnable thread is in one place. If the
  server leaves no thread runnable, the kernel panics.
\<close>

theorem handle_syscall_contract:
  assumes inv: "kernel_inv off K Rt Rs Ra" and cur: "k_current K = Some ptr"
    and T: "threads K (from_raw off ptr) = Some T" "mt_in_upcalls (th_mutable T) < USIZE_MAX"
  shows "(mt_state (th_mutable T) = Runnable
        \<and> up (th_upcall T) UpSyscall (upcall_begun (from_raw off ptr) T (K\<lparr>k_current := None\<rparr>), \<sigma>) = Panic
      \<longrightarrow> handle_syscall off (Val True) up (K, \<sigma>) = Panic)
    \<and> (\<forall>K1 \<sigma>1 Rt' Rs' Ra'. syscall_served off up (from_raw off ptr) (K\<lparr>k_current := None\<rparr>, \<sigma>) (K1, \<sigma>1) Rt' Rs' Ra' \<longrightarrow>
        (case List.find (runnable K1) (k_runqueue K1) of
           None \<Rightarrow> handle_syscall off (Val True) up (K, \<sigma>) = Panic
         | Some u \<Rightarrow> \<exists>K' T' S. handle_syscall off (Val True) up (K, \<sigma>) = Val (K', \<sigma>1) \<and> k_current K' = Some (into_raw off u)
             \<and> threads K1 u = Some T' \<and> threads K' u = Some T' \<and> runnable K' u \<and> spaces K' (th_vmspace T') = Some S
             \<and> k_cr3 K' = avs_cr3 (vs_arch S) \<and> refs_inv off K' Rt' Rs' Ra' \<and> sched_inv off K'))"
proof (intro conjI allI impI)
  assume r: "mt_state (th_mutable T) = Runnable
    \<and> up (th_upcall T) UpSyscall (upcall_begun (from_raw off ptr) T (K\<lparr>k_current := None\<rparr>), \<sigma>) = Panic"
  then have "thread_handle_syscall up (from_raw off ptr) (K\<lparr>k_current := None\<rparr>, \<sigma>) = Panic"
    using T by (simp add: thread_handle_syscall_def get_thread_eq syscall_begin_def assert_exec_def usize_add_def upcall_begun_def Let_def)
  then show "handle_syscall off (Val True) up (K, \<sigma>) = Panic" using handle_syscall_enters [OF inv cur, of "Val True" up \<sigma>] by simp
next
  fix K1 \<sigma>1 Rt' Rs' Ra'
  assume s: "syscall_served off up (from_raw off ptr) (K\<lparr>k_current := None\<rparr>, \<sigma>) (K1, \<sigma>1) Rt' Rs' Ra'"
  have "mt_in_upcalls (th_mutable T1) < USIZE_MAX" if "threads K (from_raw off ptr) = Some T1" for T1 using that T by simp
  from handle_syscall_spec [OF inv cur this s]
  show "case List.find (runnable K1) (k_runqueue K1) of
      None \<Rightarrow> handle_syscall off (Val True) up (K, \<sigma>) = Panic
    | Some u \<Rightarrow> \<exists>K' T' S. handle_syscall off (Val True) up (K, \<sigma>) = Val (K', \<sigma>1) \<and> k_current K' = Some (into_raw off u)
        \<and> threads K1 u = Some T' \<and> threads K' u = Some T' \<and> runnable K' u \<and> spaces K' (th_vmspace T') = Some S
        \<and> k_cr3 K' = avs_cr3 (vs_arch S) \<and> refs_inv off K' Rt' Rs' Ra' \<and> sched_inv off K'" .
qed

text \<open>The \<open>write\<close> of the example goes through the \<open>lx\<close> server, and the thread continues with the result 2.\<close>

theorem handle_syscall_contract_witness:
  "\<exists>K'. handle_syscall 8 (Val True) (upcall_entry example_env) (lx_running, lx_state) = Val (K', lx_state\<lparr>lx_log := [[0, 0]]\<rparr>)
     \<and> k_current K' = Some 0x1008 \<and> map_option (\<lambda>T. at_rax (th_arch T)) (threads K' 0x1000) = Some 2 \<and> sched_inv 8 K'"
proof -
  have raw: "from_raw 8 0x1008 = 0x1000" "into_raw 8 0x1000 = 0x1008" by (simp_all add: from_raw_def into_raw_def as_ptr_def)
  let ?K1 = "upcall_ended 0x1000 (lx_resumed 1) (lx_queued 1)"
  have K: "k_current lx_running = Some 0x1008" "threads lx_running (from_raw 8 0x1008) = Some (lx_thread [1, 1, 0x1ffe, 2, 0, 0, 0] Runnable 0)"
    "mt_in_upcalls (th_mutable (lx_thread [1, 1, 0x1ffe, 2, 0, 0, 0] Runnable 0)) < USIZE_MAX"
    by (simp_all add: lx_running_def lx_kernel_def raw refs_object_def lx_thread_def USIZE_MAX_def)
  have T: "threads ?K1 0x1000 = Some ((lx_resumed 1)\<lparr>th_mutable := \<lparr>mt_state = Runnable, mt_in_upcalls = 0\<rparr>\<rparr>)" "k_runqueue ?K1 = [0x1000]"
    by (simp_all add: upcall_ended_def set_mutable_def set_value_def refs_object_def lx_queued_def lx_resumed_def resumed_def lx_thread_def)
  then have f: "List.find (runnable ?K1) (k_runqueue ?K1) = Some 0x1000" by (simp add: runnable_def)
  have "at_rax (th_arch (lx_resumed 1)) = 2" by (simp add: lx_resumed_def resumed_def)
  then show ?thesis
    using handle_syscall_contract [OF lx_running_inv K, where up = "upcall_entry example_env" and \<sigma> = lx_state, unfolded raw] lx_write_served f T(1) raw(2)
    by (fastforce split: option.splits)
qed

end
