(* ===== verification/Spec2Isabelle.thy ===== *)
theory Spec2Isabelle
  imports Memory GlobalAlloc VmSpace Loader Initfs BootParse SpinLock SharedRef Context Thread Devices MpTable Kernel
    AddressSpaces Supercalls Protection Text LxStack Lx Tables EarlyBoot Boot SyscallPath
begin

text \<open>
  FTL is an operating system with a small kernel (\<open>src/kernel\<close>), servers that run in kernel mode beside it
  (\<open>src/servers\<close>) and libraries that both use (\<open>src/libs/rust\<close>). The machine enters \<open>x64_boot\<close>, which turns on
  64-bit mode and calls \<open>rust_boot\<close>. The kernel sets up the processor tables and the devices, reads the boot
  information, gives the free RAM to the page allocator, loads every server from the initial file system
  and enters the first thread that a server has started. User programs trap into the kernel by system
  calls, interrupts and faults. A system call is passed on as an upcall to the server that made the thread;
  the server answers it with supercalls, which are plain function calls into the kernel on handles. The
  server \<open>lx\<close> runs Linux programs this way.

  \<^bold>\<open>Conventions.\<close> The model follows the debug profile: an arithmetic overflow and a failed \<open>debug_assert\<close>
  panic. An operation that can panic has a result of type \<open>'a exec\<close>: \<open>Val\<close> with the value and the new state,
  \<open>Panic\<close>, or \<open>Undef\<close> for what Rust leaves undefined (a read of uninitialised memory, a dangling pointer).
  \<open>Result\<close> is a sum with the error on the left. \<open>usize\<close> and addresses are natural numbers with explicit bounds;
  flags, registers and page-table entries are words of their width. Physical memory is a function from
  addresses to bytes. Loops that end are total functions; loops that need not end are partial functions
  whose result is \<open>None\<close> when they do not (the free list, the serial port, the Multiboot tags, the spinning
  of a lock). No fuel is used anywhere. What the source leaves to the compiler, the linker or the hardware
  is an argument: offsets of fields, addresses of statics and of code, and the memory map of the boot loader.

  \<^bold>\<open>The kernel heap.\<close> What a request to the heap comes to is an argument of the operations that make one (the
  record \<open>env\<close>): \<open>Val\<close> with the place of the object or the success of \<open>try_reserve\<close>, \<open>Val\<close> with the failure
  that the code checks for, or \<open>Panic\<close>. \<open>GlobalAlloc\<close> shows that the kernel's allocator gives a fresh block or
  panics, so the outcome of a full heap is \<open>Panic\<close>, and the theorems on supercalls and on \<open>VmSpace::map\<close> have it as a
  case of their conclusions. Those on the scheduler, on system calls and on the boot are for vectors that can
  grow. That a growing heap takes chunks from the page allocator is part of \<open>GlobalAlloc\<close> only.

  \<^bold>\<open>Libraries.\<close> \<open>Prelude\<close> has the outcomes, checked arithmetic and shared lemmas; \<open>Alignment\<close> is
  \<open>ftl_utils/src/alignment.rs\<close>; \<open>ArrayVec\<close> and \<open>Text\<close> are \<open>ftl_arrayvec\<close> and the formatter of \<open>ftl_utils\<close>, with
  initialised slots and UTF-8 validity (\<open>Utf8\<close>) as the invariants; \<open>BumpAllocator\<close> is \<open>ftl_bump_allocator\<close>;
  \<open>Malloc\<close> is the free-list allocator, whose lemmas show that the chunks always tile the memory that was added
  and that no block is given out twice; \<open>SpinLock\<close> is the lock under every interleaving of processors (with
  sequentially consistent atomics); \<open>Elf\<close> (over \<open>Bytes\<close>) is the ELF parser; \<open>Api\<close> has the error codes,
  handles, rights and page attributes of \<open>ftl_api\<close>.

  \<^bold>\<open>Memory.\<close> \<open>Address\<close> and \<open>Memory\<close> are \<open>kernel/src/address.rs\<close> and \<open>memory.rs\<close>: \<open>memory_init\<close> carves the
  memory map, and the page allocator hands out each page once. \<open>GlobalAlloc\<close> is the kernel's and the servers'
  heap on top of it. \<open>VmArea\<close> is \<open>vmarea.rs\<close>: an area refines a list of bytes, through pages that are filled
  on demand. \<open>PageTable\<close> is \<open>arch/x64/vmspace.rs\<close>, with \<open>mmu\<close> as the processor's walk of the tables; \<open>VmSpace\<close>
  is \<open>vmspace.rs\<close> and shows that user code sees the bytes of the areas in the list of mappings, and that a
  map touches no translation outside of its range.
  \<open>AddressSpaces\<close> puts the memory of all programs together: no operation on one address space or area
  disturbs another.

  \<^bold>\<open>Kernel objects.\<close> \<open>SharedRef\<close> is \<open>shared_ref.rs\<close>; the locale \<open>shared_refs\<close> states what reference counting
  promises, and its interpretation on the store of counted objects is what the kernel relies on. \<open>Thread\<close> and
  \<open>Kernel\<close> are \<open>thread.rs\<close>, \<open>scheduler.rs\<close>, \<open>syscall.rs\<close> and the dispatch of \<open>arch/x64/idt.rs\<close>: every
  reference is accounted for, every runnable thread is in exactly one place, and \<open>return_to_user\<close> enters the
  first runnable thread. \<open>Supercalls\<close> is the table of functions of \<open>server.rs\<close> with the wrappers of
  \<open>ftl_api\<close>. \<open>Protection\<close> takes all calls of servers together: by induction over any sequence of calls on held
  handles, every call returns (or the kernel's heap is full and panics), keeps the invariants of references,
  scheduler and memory at once, and changes no byte that user code sees outside of the area it writes to.
  \<open>SyscallPath\<close> follows a system call from the trap through the upcalls of the server back to user mode; the
  relation \<open>syscall_served\<close> of \<open>Kernel\<close> says what the upcalls of this one call return, and the example is a \<open>write\<close>
  through the \<open>lx\<close> server. Sections under a spin lock are atomic; there is one processor, as in the source.

  \<^bold>\<open>Processor and devices.\<close> \<open>Context\<close> has the entry and exit paths of \<open>arch/x64/thread.rs\<close>, \<open>syscall.rs\<close> and
  \<open>idt.rs\<close> as instruction lists over a small processor and shows that they keep every user register.
  \<open>Tables\<close> is \<open>gdt.rs\<close>, \<open>idt.rs\<close>, the MSRs and \<open>cpuvar.rs\<close>, read back with the processor's decoding of
  descriptors. \<open>EarlyBoot\<close> interprets \<open>x64_boot\<close> from 32-bit mode on. \<open>Devices\<close> and \<open>MpTable\<close> are the serial
  port, the interrupt controllers, the timer and the search for the MP configuration table.

  \<^bold>\<open>Boot and servers.\<close> \<open>BootParse\<close> has the Multiboot2 and PVH parsers, \<open>Initfs\<close> the CPIO iterator (which reads
  back every archive of the new ASCII format, with any metadata and digits of either case), \<open>Loader\<close> the
  loader of server images with relocations, and \<open>Boot\<close> the sequence \<open>rust_boot\<close> and \<open>boot\<close>, from the memory map
  to the first user thread. What the entry function of a server does is an argument; \<open>started\<close> says that all
  servers have been started in their order, and \<open>entries_return\<close> what is required of each entry function in
  the very state in which it is called. The example server makes its thread with supercalls. \<open>LxStack\<close> and \<open>Lx\<close> are the Linux server: the initial stack of a program, the loading of its
  segments, the upcalls with the ownership of their user data, and the system calls, which refine a
  specification over the memory of the process.

  \<^bold>\<open>Not modelled.\<close> Log and panic messages and \<open>Debug\<close> formatting (text for the console); the static through
  which servers find the table of supercalls, and the leaked server object; module lists and
  compile-time assertions; the stubs of \<open>arch/host\<close>, which only the unit tests use. Caches, the translation
  lookaside buffer and weak memory orders are outside of the model.
\<close>

end
